(* ===== verification/Prelude.thy ===== *)
theory Prelude
  imports Main "HOL-Library.Word"
begin

text \<open>
  Shared vocabulary of the development: the machine integer types of the C++ sources, the
  little-endian byte encoding used by every packed struct of the program, the 64-bit register
  halves written through 32-bit MMIO registers, and the loop combinator that models a
  \<^verbatim>\<open>while\<close> loop with \<^verbatim>\<open>break\<close> that may run forever.
\<close>

unbundle bit_operations_syntax

named_theorems mem_simps \<open>reading memory back after a store\<close>
named_theorems frame_simps \<open>memory that a store leaves alone\<close>

section \<open>Machine integers\<close>

type_synonym u8 = "8 word"
type_synonym u16 = "16 word"
type_synonym u32 = "32 word"
type_synonym u64 = "64 word"

lemma unat_u8_less: "unat (b :: u8) < 256"
  using unsigned_less [of b] by simp

lemma unat_u16_less: "unat (b :: u16) < 65536"
  using unsigned_less [of b] by simp

lemma unat_u32_less: "unat (b :: u32) < 4294967296"
  using unsigned_less [of b] by simp

lemma unat_u64_less: "unat (b :: u64) < 18446744073709551616"
  using unsigned_less [of b] by simp

lemma unat_ucast_up: "LENGTH('a::len) \<le> LENGTH('b::len) \<Longrightarrow> unat (ucast (x :: 'a word) :: 'b word) = unat x"
  by (metis is_up.rep_eq uint_up_ucast unat_eq_nat_uint)

lemma unat_eq_of_nat: "unat w = n \<Longrightarrow> w = of_nat n"
  by auto

lemma u32_less_2: "(n :: u32) < 2 \<longleftrightarrow> n = 0 \<or> n = 1"
proof
  assume "n < 2"
  then have "unat n < 2" by (simp add: word_less_nat_alt)
  then have "unat n = 0 \<or> unat n = 1" by linarith
  then show "n = 0 \<or> n = 1" by (auto simp: word_unat_eq_iff)
qed auto

lemma all_u32_less_2: "(\<forall>i < (2 :: u32). P i) \<longleftrightarrow> P 0 \<and> P 1"
  by (auto simp: u32_less_2)

lemma word_succ_neq [simp]: "(x :: 'a::len word) + 1 \<noteq> x"
  by simp

lemma unat_minus_one_step:
  fixes a b :: "'a::len word"
  assumes "a \<noteq> b"
  shows "unat (b - a) = Suc (unat (b - (a + 1)))"
proof -
  have ne: "b - a \<noteq> 0" using assms by simp
  have eq: "b - (a + 1) = (b - a) - 1" by (simp add: algebra_simps)
  have "unat (b - (a + 1)) = unat (b - a) - 1"
    unfolding eq by (rule unat_minus_one [OF ne])
  moreover have "0 < unat (b - a)" using ne by (simp add: unat_gt_0)
  ultimately show ?thesis by simp
qed

section \<open>Little-endian byte strings\<close>

text \<open>The host is little endian; every packed struct is read and written in this order.\<close>

fun le_val :: "u8 list \<Rightarrow> nat" where
  "le_val [] = 0"
| "le_val (b # bs) = unat b + 256 * le_val bs"

fun le_bytes :: "nat \<Rightarrow> nat \<Rightarrow> u8 list" where
  "le_bytes 0 v = []"
| "le_bytes (Suc n) v = of_nat v # le_bytes n (v div 256)"

lemma le_bytes_numeral: "le_bytes (numeral n) v = of_nat v # le_bytes (pred_numeral n) (v div 256)"
  by (simp only: numeral_eq_Suc [of n] le_bytes.simps)

lemma length_le_bytes [simp]: "length (le_bytes n v) = n"
  by (induction n arbitrary: v) auto

lemma le_val_append: "le_val (xs @ ys) = le_val xs + 256 ^ length xs * le_val ys"
  by (induction xs) (auto simp: algebra_simps)

lemma le_val_bound: "le_val bs < 256 ^ length bs"
proof (induction bs)
  case Nil
  then show ?case by simp
next
  case (Cons b bs)
  have "unat b < 256" by (rule unat_u8_less)
  with Cons show ?case by simp
qed

lemma le_val_le_bytes: "le_val (le_bytes n v) = v mod 256 ^ n"
proof (induction n arbitrary: v)
  case 0
  then show ?case by simp
next
  case (Suc n)
  have "le_val (le_bytes (Suc n) v) = v mod 256 + 256 * (v div 256 mod 256 ^ n)"
    by (simp add: Suc unat_of_nat)
  also have "\<dots> = v mod (256 * 256 ^ n)"
    by (simp add: mod_mult2_eq)
  finally show ?case by simp
qed

lemma le_bytes_le_val: "le_bytes (length bs) (le_val bs) = bs"
proof (induction bs)
  case Nil
  then show ?case by simp
next
  case (Cons b bs)
  have "unat b < 256" by (rule unat_u8_less)
  then have "(unat b + 256 * le_val bs) div 256 = le_val bs"
    by simp
  moreover have "(of_nat (unat b + 256 * le_val bs) :: u8) = b"
  proof -
    have zero: "(256 :: u8) = 0" by simp
    show ?thesis by (simp add: zero)
  qed
  ultimately show ?case using Cons by simp
qed

lemma nth_le_bytes: "i < n \<Longrightarrow> le_bytes n v ! i = of_nat (v div 256 ^ i)"
proof (induction n arbitrary: v i)
  case 0
  then show ?case by simp
next
  case (Suc n)
  then show ?case by (cases i) (simp_all add: div_mult2_eq)
qed

section \<open>Overwriting a part of a byte array\<close>

text \<open>\<^verbatim>\<open>memcpy(&xs[i], bs, n)\<close> into an array that is large enough.\<close>

definition patch :: "'a list \<Rightarrow> nat \<Rightarrow> 'a list \<Rightarrow> 'a list" where
  "patch xs i bs = take i xs @ bs @ drop (i + length bs) xs"

lemma length_patch: "i + length bs \<le> length xs \<Longrightarrow> length (patch xs i bs) = length xs"
  by (simp add: patch_def)

lemma nth_patch:
  assumes "i + length bs \<le> length xs" and "j < length xs"
  shows "patch xs i bs ! j = (if i \<le> j \<and> j < i + length bs then bs ! (j - i) else xs ! j)"
  using assms by (auto simp: patch_def nth_append min_def)

lemma patch_read_back:
  "i + length bs \<le> length xs \<Longrightarrow> take (length bs) (drop i (patch xs i bs)) = bs"
  by (simp add: patch_def)

section \<open>The halves of a 64-bit register\<close>

text \<open>
  The \<^verbatim>\<open>LO\<close> and \<^verbatim>\<open>HI\<close> macros of the virtio devices: a 32-bit write replaces one half of a
  64-bit field. \<open>lo32\<close> and \<open>hi32\<close> are the casts the read side uses.
\<close>

definition set_lo :: "u64 \<Rightarrow> u32 \<Rightarrow> u64" where
  "set_lo f v = (f AND 0xFFFFFFFF00000000) OR ucast v"

definition set_hi :: "u64 \<Rightarrow> u32 \<Rightarrow> u64" where
  "set_hi f v = (f AND 0x00000000FFFFFFFF) OR push_bit 32 (ucast v)"

definition lo32 :: "u64 \<Rightarrow> u32" where
  "lo32 f = ucast f"

definition hi32 :: "u64 \<Rightarrow> u32" where
  "hi32 f = ucast (drop_bit 32 f)"

lemma mask_lo: "(0x00000000FFFFFFFF :: u64) = mask 32"
  by (simp add: mask_eq_exp_minus_1)

lemma mask_hi: "(0xFFFFFFFF00000000 :: u64) = NOT (mask 32)"
  by (simp add: mask_eq_exp_minus_1)

lemma lo32_set_lo [simp]: "lo32 (set_lo f v) = v"
  unfolding lo32_def set_lo_def mask_hi by (rule bit_word_eqI) (auto simp: bit_simps)

lemma hi32_set_lo [simp]: "hi32 (set_lo f v) = hi32 f"
  unfolding hi32_def set_lo_def mask_hi
  by (rule bit_word_eqI) (auto simp: bit_simps dest: bit_imp_le_length)

lemma hi32_set_hi [simp]: "hi32 (set_hi f v) = v"
  unfolding hi32_def set_hi_def mask_lo by (rule bit_word_eqI) (auto simp: bit_simps)

lemma lo32_set_hi [simp]: "lo32 (set_hi f v) = lo32 f"
  unfolding lo32_def set_hi_def mask_lo by (rule bit_word_eqI) (auto simp: bit_simps)

lemma halves_eq: "f = push_bit 32 (ucast (hi32 f)) OR ucast (lo32 f)"
  unfolding lo32_def hi32_def by (rule bit_word_eqI) (auto simp: bit_simps)

lemma halves_eqI: "lo32 f = lo32 g \<Longrightarrow> hi32 f = hi32 g \<Longrightarrow> f = g"
  using halves_eq [of f] halves_eq [of g] by simp

lemma set_hi_set_lo: "set_hi (set_lo f (lo32 v)) (hi32 v) = v"
  by (rule halves_eqI) simp_all

lemma set_lo_set_hi: "set_lo (set_hi f (hi32 v)) (lo32 v) = v"
  by (rule halves_eqI) simp_all

section \<open>Loops that may not end\<close>

text \<open>
  \<open>while_brk b c s\<close> is \<^verbatim>\<open>while (b) { c }\<close>. The body returns the new state and whether it
  executed \<^verbatim>\<open>break\<close>; a body of value \<open>None\<close> does not return. The value of a loop that runs
  forever is \<open>None\<close>.
\<close>

partial_function (option) while_brk :: "('s \<Rightarrow> bool) \<Rightarrow> ('s \<Rightarrow> ('s \<times> bool) option) \<Rightarrow> 's \<Rightarrow> 's option" where
  "while_brk b c s =
     (if b s
      then Option.bind (c s) (\<lambda>r. if snd r then Some (fst r) else while_brk b c (fst r))
      else Some s)"

lemma while_brk_stop: "\<not> b s \<Longrightarrow> while_brk b c s = Some s"
  by (subst while_brk.simps) simp

lemma while_brk_step: "b s \<Longrightarrow> c s = Some (t, False) \<Longrightarrow> while_brk b c s = while_brk b c t"
  by (subst while_brk.simps) simp

lemma while_brk_break: "b s \<Longrightarrow> c s = Some (t, True) \<Longrightarrow> while_brk b c s = Some t"
  by (subst while_brk.simps) simp

lemma while_brk_hang: "b s \<Longrightarrow> c s = None \<Longrightarrow> while_brk b c s = None"
  by (subst while_brk.simps) simp

text \<open>Partial correctness: an invariant of the body holds for the result.\<close>

lemma while_brk_rule:
  assumes ret: "while_brk b c s = Some t"
    and init: "P s"
    and pres: "\<And>x y k. P x \<Longrightarrow> b x \<Longrightarrow> c x = Some (y, k) \<Longrightarrow> P y"
  shows "P t"
proof -
  have "b = b \<and> c = c \<and> P s \<longrightarrow> P t"
  proof (rule while_brk.raw_induct [where P = "\<lambda>b' c' s t. b' = b \<and> c' = c \<and> P s \<longrightarrow> P t",
        OF _ ret])
    fix f b' c' s t
    assume IH: "\<And>b' c' s t. f b' c' s = Some t \<Longrightarrow> b' = b \<and> c' = c \<and> P s \<longrightarrow> P t"
      and eq: "(if b' s then Option.bind (c' s) (\<lambda>r. if snd r then Some (fst r) else f b' c' (fst r))
        else Some s) = Some t"
    then show "b' = b \<and> c' = c \<and> P s \<longrightarrow> P t"
      by (auto split: if_splits prod.splits simp: bind_eq_Some_conv dest: pres)
  qed
  with init show ?thesis by simp
qed

text \<open>Total correctness: a measure that the body decreases under the invariant.\<close>

lemma while_brk_total:
  fixes f :: "'s \<Rightarrow> nat"
  assumes init: "P s"
    and step: "\<And>x. P x \<Longrightarrow> b x \<Longrightarrow> \<exists>y k. c x = Some (y, k) \<and> P y \<and> f y < f x"
  shows "\<exists>t. while_brk b c s = Some t \<and> P t"
  using init
proof (induction "f s" arbitrary: s rule: less_induct)
  case less
  show ?case
  proof (cases "b s")
    case False
    with less.prems show ?thesis by (auto simp: while_brk_stop)
  next
    case True
    from step [OF less.prems this] obtain y k
      where y: "c s = Some (y, k)" "P y" "f y < f s" by blast
    with True less.hyps [OF y(3) y(2)] show ?thesis
      by (cases k) (auto simp: while_brk_step while_brk_break)
  qed
qed

text \<open>
  Divergence: a set of states from which the loop condition holds and the body neither breaks nor
  leaves the set is never left.
\<close>

lemma while_brk_diverges:
  assumes init: "P s"
    and stay: "\<And>x. P x \<Longrightarrow> b x \<and> (c x = None \<or> (\<exists>y. c x = Some (y, False) \<and> P y))"
  shows "while_brk b c s = None"
proof (cases "while_brk b c s")
  case (Some t)
  have "b = b \<and> c = c \<longrightarrow> \<not> P s"
  proof (rule while_brk.raw_induct [where P = "\<lambda>b' c' s t. b' = b \<and> c' = c \<longrightarrow> \<not> P s",
        OF _ Some])
    fix f b' c' s t
    assume IH: "\<And>b' c' s t. f b' c' s = Some t \<Longrightarrow> b' = b \<and> c' = c \<longrightarrow> \<not> P s"
      and eq: "(if b' s then Option.bind (c' s) (\<lambda>r. if snd r then Some (fst r) else f b' c' (fst r))
        else Some s) = Some t"
    then show "b' = b \<and> c' = c \<longrightarrow> \<not> P s"
      by (auto split: if_splits prod.splits simp: bind_eq_Some_conv dest: stay)
  qed
  with init show ?thesis by simp
qed simp

end
