(* ===== verification/Net_Wire.thy ===== *)
theory Net_Wire
  imports Prelude
begin

text \<open>
  The wire level of the user-mode network stack (\<^verbatim>\<open>src/src/hvf/network.cpp\<close>): the Internet checksum and
  the functions that build frames. A copy past the end of a local buffer is the value \<open>None\<close>.
\<close>

section \<open>Network byte order\<close>

definition be16 :: "u16 \<Rightarrow> u8 list" where
  "be16 v = [ucast (drop_bit 8 v), ucast v]"

definition be32 :: "u32 \<Rightarrow> u8 list" where
  "be32 v = [ucast (drop_bit 24 v), ucast (drop_bit 16 v), ucast (drop_bit 8 v), ucast v]"

text \<open>\<^verbatim>\<open>ntohs\<close> and \<^verbatim>\<open>ntohl\<close> of the bytes at position \<open>i\<close>; the callers check the length.\<close>

definition ntohs_at :: "u8 list \<Rightarrow> nat \<Rightarrow> u16" where
  "ntohs_at bs i = push_bit 8 (ucast (bs ! i)) OR ucast (bs ! (i + 1))"

definition ntohl_at :: "u8 list \<Rightarrow> nat \<Rightarrow> u32" where
  "ntohl_at bs i = push_bit 24 (ucast (bs ! i)) OR push_bit 16 (ucast (bs ! (i + 1)))
     OR push_bit 8 (ucast (bs ! (i + 2))) OR ucast (bs ! (i + 3))"

lemma length_be [simp]: "length (be16 v) = 2" "length (be32 w) = 4"
  by (simp_all add: be16_def be32_def)

lemma ntohs_be16: "ntohs_at (xs @ be16 v @ ys) (length xs) = v"
  by (rule bit_word_eqI) (auto simp: ntohs_at_def be16_def bit_simps nth_append)

lemma ntohl_be32: "ntohl_at (xs @ be32 v @ ys) (length xs) = v"
proof (rule bit_word_eqI)
  fix n assume "n < LENGTH(32)"
  then consider "n < 8" | "8 \<le> n" "n < 16" | "16 \<le> n" "n < 24" | "24 \<le> n" "n < 32" by force
  then show "bit (ntohl_at (xs @ be32 v @ ys) (length xs)) n = bit v n"
    by cases (auto simp: ntohl_at_def be32_def bit_simps nth_append)
qed

section \<open>The Internet checksum\<close>

text \<open>The sum of the 16-bit words in host order, in a 32-bit accumulator; an odd last byte counts alone.\<close>

fun sum16 :: "u32 \<Rightarrow> u8 list \<Rightarrow> u32" where
  "sum16 s (a # b # bs) = sum16 (s + (ucast a + 256 * ucast b)) bs"
| "sum16 s [a] = s + ucast a"
| "sum16 s [] = s"

text \<open>\<^verbatim>\<open>while (s >> 16) s = (s & 0xffff) + (s >> 16);\<close>\<close>

function fold16 :: "u32 \<Rightarrow> u32" where
  "fold16 s = (if drop_bit 16 s = 0 then s else fold16 ((s AND 0xFFFF) + drop_bit 16 s))"
  by pat_completeness auto

lemma unat_fold_parts:
  "unat (s AND 0xFFFF :: u32) = unat s mod 65536" "unat (drop_bit 16 s :: u32) = unat s div 65536"
proof -
  have eq: "s AND 0xFFFF = take_bit 16 s" by (simp add: take_bit_eq_mask mask_eq_exp_minus_1)
  show "unat (s AND 0xFFFF) = unat s mod 65536"
    unfolding eq unsigned_take_bit_eq by (simp add: take_bit_eq_mod)
  show "unat (drop_bit 16 s :: u32) = unat s div 65536"
    unfolding unat_drop_bit_eq by (simp add: drop_bit_eq_div)
qed

lemma unat_fold_step: "unat ((s AND 0xFFFF) + drop_bit 16 s :: u32) = unat s mod 65536 + unat s div 65536"
proof -
  have "unat s div 65536 < 65536" using unat_u32_less [of s] by (simp add: less_mult_imp_div_less)
  moreover have "unat s mod 65536 < 65536" by simp
  ultimately have "unat s mod 65536 + unat s div 65536 < 4294967296" by linarith
  then show ?thesis by (simp add: unat_word_ariths unat_fold_parts)
qed

lemma drop16_eq_0: "drop_bit 16 (s :: u32) = 0 \<longleftrightarrow> unat s < 65536"
  by (simp add: word_unat_eq_iff unat_fold_parts(2) div_eq_0_iff)

termination fold16
proof (relation "measure unat")
  fix s :: u32
  assume "drop_bit 16 s \<noteq> 0"
  then have "unat s div 65536 > 0" by (simp add: drop16_eq_0 div_greater_zero_iff)
  moreover have "unat s = 65536 * (unat s div 65536) + unat s mod 65536" by simp
  ultimately have "unat s mod 65536 + unat s div 65536 < unat s" by linarith
  then show "((s AND 0xFFFF) + drop_bit 16 s, s) \<in> measure unat"
    by (simp only: in_measure unat_fold_step)
qed simp

declare fold16.simps [simp del]

definition ip_cksum :: "u8 list \<Rightarrow> u16" where
  "ip_cksum bs = NOT (ucast (fold16 (sum16 0 bs)))"

definition transport_cksum :: "u32 \<Rightarrow> u32 \<Rightarrow> u8 \<Rightarrow> u8 list \<Rightarrow> u16" where
  "transport_cksum sip dip proto seg =
     (let ph = be32 sip @ be32 dip @ [0, proto] @ be16 (of_nat (length seg))
      in NOT (ucast (fold16 (sum16 (sum16 0 ph) seg))))"

subsection \<open>What the checksum means\<close>

text \<open>The mathematical sum, and that folding keeps it modulo 65535 and never reaches 0 from a positive sum.\<close>

fun nsum16 :: "u8 list \<Rightarrow> nat" where
  "nsum16 (a # b # bs) = unat a + 256 * unat b + nsum16 bs"
| "nsum16 [a] = unat a"
| "nsum16 [] = 0"

lemma nsum16_bound: "2 * nsum16 bs \<le> 65535 * (length bs + 1)"
proof (induction bs rule: nsum16.induct)
  case (1 a b bs)
  have "unat a \<le> 255" "unat b \<le> 255" using unat_u8_less [of a] unat_u8_less [of b] by simp_all
  with 1 show ?case by simp
next
  case (2 a)
  then show ?case using unat_u8_less [of a] by simp
qed simp

lemma unat_sum16:
  "unat s + nsum16 bs < 2 ^ 32 \<Longrightarrow> unat (sum16 s bs) = unat s + nsum16 bs"
proof (induction s bs rule: sum16.induct)
  case (1 s a b bs)
  have "unat (ucast a + 256 * ucast b :: u32) = unat a + 256 * unat b"
    using unat_u8_less [of a] unat_u8_less [of b] by (simp add: unat_word_ariths unat_ucast_up)
  then have "unat (s + (ucast a + 256 * ucast b)) = unat s + (unat a + 256 * unat b)"
    using 1 by (simp add: unat_word_ariths)
  with 1 show ?case by simp
next
  case (2 s a)
  then show ?case by (simp add: unat_word_ariths unat_ucast_up)
qed simp

lemma fold16_mod: "unat (fold16 s) < 65536 \<and> unat (fold16 s) mod 65535 = unat s mod 65535
    \<and> (unat s > 0 \<longrightarrow> unat (fold16 s) > 0)"
proof (induction s rule: fold16.induct)
  case (1 s)
  show ?case
  proof (cases "drop_bit 16 s = 0")
    case True
    then show ?thesis by (simp add: fold16.simps [of s] drop16_eq_0)
  next
    case False
    let ?t = "(s AND 0xFFFF) + drop_bit 16 s"
    have eq: "unat s = 65536 * (unat s div 65536) + unat s mod 65536" by simp
    have "(65536 * q + r) mod 65535 = (r + q) mod 65535" for q r :: nat
    proof -
      have "65536 * q + r = (r + q) + 65535 * q" by simp
      then show ?thesis by (simp only: mod_mult_self2)
    qed
    from this [of "unat s div 65536" "unat s mod 65536"] have "unat ?t mod 65535 = unat s mod 65535"
      unfolding unat_fold_step using eq by simp
    moreover have "unat s > 0 \<Longrightarrow> unat ?t > 0"
      using False unfolding unat_fold_step by (simp add: drop16_eq_0 div_greater_zero_iff)
    ultimately show ?thesis using 1 [OF False] False by (simp add: fold16.simps [of s])
  qed
qed

lemma unat_cksum: "unat (NOT (ucast (fold16 s)) :: u16) = 65535 - unat (fold16 s)"
proof -
  have "unat (ucast (fold16 s) :: u16) = unat (fold16 s)"
    using fold16_mod [of s] by (simp add: unsigned_ucast_eq take_bit_eq_mod)
  moreover have "unat (NOT x) = 65535 - unat x" for x :: u16
  proof -
    have "NOT x = - 1 - x" by (simp add: not_eq_complement)
    moreover have "unat (- 1 - x) = unat (- 1 :: u16) - unat x" by (rule unat_sub) simp
    ultimately show ?thesis by (simp add: unsigned_minus_1_eq_mask mask_eq_exp_minus_1)
  qed
  ultimately show ?thesis by simp
qed

lemma nsum16_append: "even (length xs) \<Longrightarrow> nsum16 (xs @ ys) = nsum16 xs + nsum16 ys"
  by (induction xs rule: nsum16.induct) simp_all

lemma sum16_append: "even (length xs) \<Longrightarrow> sum16 s (xs @ ys) = sum16 (sum16 s xs) ys"
  by (induction s xs rule: sum16.induct) simp_all

text \<open>Adding the complement of a positive sum to it folds to all ones.\<close>

lemma fold16_complement:
  assumes "unat s > 0" and "unat t = unat s + (65535 - unat (fold16 s))"
  shows "unat (fold16 t) = 65535"
proof -
  note fs = fold16_mod [of s] and ft = fold16_mod [of t]
  have le: "unat (fold16 s) \<le> 65535" using fs by simp
  have "(unat s + (65535 - unat (fold16 s))) mod 65535 = (unat (fold16 s) + (65535 - unat (fold16 s))) mod 65535"
    by (rule mod_add_cong) (use fs in simp_all)
  also have "\<dots> = 0" using le by simp
  finally have "unat (fold16 t) mod 65535 = 0" using ft assms(2) by simp
  moreover have "unat (fold16 t) > 0" "unat (fold16 t) < 65536" using ft assms by simp_all
  ultimately show ?thesis by (auto simp: mod_eq_0_iff_dvd elim!: dvdE)
qed

lemma nsum16_word: "nsum16 (le_bytes 2 (unat (v :: u16))) = unat v"
proof -
  have "unat (of_nat (unat v) :: u8) = unat v mod 256" "unat (of_nat (unat v div 256) :: u8) = unat v div 256"
    using unat_u16_less [of v] unat_of_nat [of "unat v", where 'a = 8] unat_of_nat [of "unat v div 256", where 'a = 8]
    by (simp_all only: less_mult_imp_div_less) simp_all
  then show ?thesis by (simp add: le_bytes_numeral)
qed

lemma ip_cksum_aux:
  assumes "even (length xs)" and "length xs + 2 + length ys \<le> 65535" and "nsum16 (xs @ [0, 0] @ ys) > 0"
  shows "ip_cksum (xs @ le_bytes 2 (unat (ip_cksum (xs @ [0, 0] @ ys))) @ ys) = 0"
proof -
  let ?z = "xs @ [0, 0] @ ys" and ?ck = "ip_cksum (xs @ [0, 0] @ ys)"
  let ?f = "xs @ le_bytes 2 (unat ?ck) @ ys"
  have bound: "nsum16 bs + 65536 < 2 ^ 32" if "length bs \<le> 65535" for bs
    using nsum16_bound [of bs] that by simp
  have z: "unat (sum16 0 ?z) = nsum16 ?z" using bound [of ?z] assms(2) by (simp add: unat_sum16)
  have ck: "unat ?ck = 65535 - unat (fold16 (sum16 0 ?z))" unfolding ip_cksum_def by (rule unat_cksum)
  have f: "nsum16 ?f = nsum16 ?z + unat ?ck"
    using assms(1) by (simp add: nsum16_append nsum16_word)
  then have "unat (sum16 0 ?f) = nsum16 ?f"
    using bound [of ?z] assms(2) ck by (intro trans [OF unat_sum16]) simp_all
  then have "unat (sum16 0 ?f) = unat (sum16 0 ?z) + (65535 - unat (fold16 (sum16 0 ?z)))"
    using f z ck by simp
  then have "unat (fold16 (sum16 0 ?f)) = 65535"
    using assms(3) z by (intro fold16_complement [of "sum16 0 ?z"]) simp_all
  then have "unat (ip_cksum ?f) = 0" unfolding ip_cksum_def by (simp add: unat_cksum)
  then show ?thesis by (simp add: unat_eq_zero)
qed

text \<open>
  The Internet checksum of the stack verifies: filling a 16-bit aligned, zeroed checksum field
  with \<^verbatim>\<open>ip_cksum\<close> of the data makes \<^verbatim>\<open>ip_cksum\<close> of the whole equal to 0, for any data that is not
  all zero and not longer than 65535 bytes.
\<close>

theorem ip_cksum_verifies:
  assumes "even (length xs)" and "length xs + 2 + length ys \<le> 65535" and "nsum16 (xs @ [0, 0] @ ys) > 0"
  shows "ip_cksum (xs @ le_bytes 2 (unat (ip_cksum (xs @ [0, 0] @ ys))) @ ys) = 0"
  using assms by (rule ip_cksum_aux)

theorem ip_cksum_verifies_witness: "ip_cksum ([0x45, 0] @ le_bytes 2 (unat (ip_cksum [0x45, 0, 0, 0])) @ []) = 0"
  using ip_cksum_verifies [of "[0x45, 0]" "[]"] by simp

section \<open>Frame emission\<close>

record net_config =
  gw_ip :: u32
  dns_ip :: u32
  guest_ip :: u32
  dns_fwd_ip :: u32
  gw_mac :: "u8 list"
  guest_mac :: "u8 list"

definition net_config_default :: net_config where
  "net_config_default = \<lparr>gw_ip = 0x0A000202, dns_ip = 0x0A000203, guest_ip = 0x0A00020F, dns_fwd_ip = 0x08080808,
     gw_mac = [0x52, 0x55, 0x0A, 0x00, 0x02, 0x02], guest_mac = [0x52, 0x54, 0x00, 0x12, 0x34, 0x56]\<rparr>"

abbreviation kFrameMax :: nat where "kFrameMax \<equiv> 2048"
abbreviation IP_ICMP :: u8 where "IP_ICMP \<equiv> 1"
abbreviation IP_TCP :: u8 where "IP_TCP \<equiv> 6"
abbreviation IP_UDP :: u8 where "IP_UDP \<equiv> 17"
abbreviation TF_FIN :: u8 where "TF_FIN \<equiv> 0x01"
abbreviation TF_SYN :: u8 where "TF_SYN \<equiv> 0x02"
abbreviation TF_RST :: u8 where "TF_RST \<equiv> 0x04"
abbreviation TF_PSH :: u8 where "TF_PSH \<equiv> 0x08"
abbreviation TF_ACK :: u8 where "TF_ACK \<equiv> 0x10"

text \<open>The IPv4 header with a zero checksum, and with the checksum filled in.\<close>

definition ip_hdr0 :: "u16 \<Rightarrow> u8 \<Rightarrow> u32 \<Rightarrow> u32 \<Rightarrow> u8 list" where
  "ip_hdr0 len proto sip dip =
     [0x45, 0] @ be16 len @ [0, 0, 0, 0, 64, proto] @ [0, 0] @ be32 sip @ be32 dip"

definition ip_hdr :: "u16 \<Rightarrow> u8 \<Rightarrow> u32 \<Rightarrow> u32 \<Rightarrow> u8 list" where
  "ip_hdr len proto sip dip =
     [0x45, 0] @ be16 len @ [0, 0, 0, 0, 64, proto] @ le_bytes 2 (unat (ip_cksum (ip_hdr0 len proto sip dip)))
       @ be32 sip @ be32 dip"

text \<open>
  The frame is assembled in \<^verbatim>\<open>uint8_t buf[kFrameMax]\<close>; \<open>None\<close> when the payload does not fit behind the
  34 bytes of headers, and the copy runs past the end of that stack buffer.
\<close>

definition emit_ip :: "net_config \<Rightarrow> u8 list \<Rightarrow> u32 \<Rightarrow> u32 \<Rightarrow> u8 \<Rightarrow> u8 list \<Rightarrow> u8 list option" where
  "emit_ip cfg dst_mac sip dip proto payload =
     (let ip_total = of_nat (20 + length payload) :: u16
      in if 14 + 20 + length payload > kFrameMax then None
         else Some (take (14 + unat ip_total)
                (dst_mac @ gw_mac cfg @ be16 0x0800 @ ip_hdr ip_total proto sip dip @ payload)))"

definition tcp_hdr :: "u16 \<Rightarrow> u16 \<Rightarrow> u32 \<Rightarrow> u32 \<Rightarrow> u8 \<Rightarrow> u16 \<Rightarrow> u8 list" where
  "tcp_hdr sp dp seq ack flags ck =
     be16 sp @ be16 dp @ be32 seq @ be32 ack @ [0x50, flags] @ be16 65535 @ le_bytes 2 (unat ck) @ [0, 0]"

definition send_tcp ::
  "net_config \<Rightarrow> u8 list \<Rightarrow> u32 \<Rightarrow> u16 \<Rightarrow> u32 \<Rightarrow> u16 \<Rightarrow> u32 \<Rightarrow> u32 \<Rightarrow> u8 \<Rightarrow> u8 list \<Rightarrow> u8 list option" where
  "send_tcp cfg dst_mac sip sp dip dp seq ack flags data =
     (if length data > 8192 then None
      else
        (let ck = transport_cksum sip dip IP_TCP (tcp_hdr sp dp seq ack flags 0 @ data)
         in emit_ip cfg dst_mac sip dip IP_TCP (tcp_hdr sp dp seq ack flags ck @ data)))"

definition udp_hdr :: "u16 \<Rightarrow> u16 \<Rightarrow> u16 \<Rightarrow> u16 \<Rightarrow> u8 list" where
  "udp_hdr sp dp len ck = be16 sp @ be16 dp @ be16 len @ le_bytes 2 (unat ck)"

definition send_udp ::
  "net_config \<Rightarrow> u8 list \<Rightarrow> u32 \<Rightarrow> u16 \<Rightarrow> u32 \<Rightarrow> u16 \<Rightarrow> u8 list \<Rightarrow> u8 list option" where
  "send_udp cfg dst_mac sip sp dip dp data =
     (if length data > 1500 then None
      else
        (let udp_len = of_nat (8 + length data) :: u16;
             ck = transport_cksum sip dip IP_UDP (udp_hdr sp dp udp_len 0 @ data);
             ck' = (if ck = 0 then 0xFFFF else ck)
         in emit_ip cfg dst_mac sip dip IP_UDP (udp_hdr sp dp udp_len ck' @ data)))"

section \<open>What is emitted\<close>

lemma ip_hdr_cksum: "ip_cksum (ip_hdr len proto sip dip) = 0"
  using ip_cksum_aux [of "[0x45, 0] @ be16 len @ [0, 0, 0, 0, 64, proto]" "be32 sip @ be32 dip"]
  by (simp add: ip_hdr_def ip_hdr0_def nsum16_append be16_def)

lemma length_ip_hdr [simp]: "length (ip_hdr len proto sip dip) = 20"
  by (simp add: ip_hdr_def)

lemma length_tcp_hdr [simp]: "length (tcp_hdr sp dp seq ack flags ck) = 20"
  by (simp add: tcp_hdr_def)

lemma length_udp_hdr [simp]: "length (udp_hdr sp dp len ck) = 8"
  by (simp add: udp_hdr_def)

lemma emit_ip_eq:
  assumes "length dst_mac = 6" and "length (gw_mac cfg) = 6" and "length payload \<le> 2014"
  shows "emit_ip cfg dst_mac sip dip proto payload
    = Some (dst_mac @ gw_mac cfg @ be16 0x0800 @ ip_hdr (of_nat (20 + length payload)) proto sip dip @ payload)"
proof -
  have "unat (of_nat (20 + length payload) :: u16) = 20 + length payload"
    using assms(3) by (subst unat_of_nat) simp
  then show ?thesis using assms by (simp add: emit_ip_def Let_def del: of_nat_add)
qed

lemma emit_ip_fields:
  assumes "length dst_mac = 6" and "length (gw_mac cfg) = 6" and "length payload \<le> 2014"
  shows "\<exists>f. emit_ip cfg dst_mac sip dip proto payload = Some f \<and> length f = 34 + length payload
    \<and> take 6 f = dst_mac \<and> take 6 (drop 6 f) = gw_mac cfg \<and> ntohs_at f 12 = 0x0800
    \<and> ntohs_at f 16 = of_nat (20 + length payload) \<and> f ! 23 = proto
    \<and> ntohl_at f 26 = sip \<and> ntohl_at f 30 = dip
    \<and> ip_cksum (take 20 (drop 14 f)) = 0 \<and> drop 34 f = payload"
proof -
  let ?len = "of_nat (20 + length payload) :: u16"
  let ?h = "ip_hdr ?len proto sip dip" and ?m = "dst_mac @ gw_mac cfg"
  let ?f = "dst_mac @ gw_mac cfg @ be16 0x0800 @ ?h @ payload"
  let ?ck = "le_bytes 2 (unat (ip_cksum (ip_hdr0 ?len proto sip dip)))"
  have f: "emit_ip cfg dst_mac sip dip proto payload = Some ?f" by (rule emit_ip_eq [OF assms])
  have e: "ntohs_at ?f 12 = 0x0800"
    using ntohs_be16 [of ?m "0x0800" "?h @ payload"] assms(1,2) by simp
  have t: "ntohs_at ?f 16 = ?len"
    using ntohs_be16 [of "?m @ be16 0x0800 @ [0x45, 0]" ?len] assms(1,2) by (simp add: ip_hdr_def)
  have s: "ntohl_at ?f 26 = sip"
    using ntohl_be32 [of "?m @ be16 0x0800 @ [0x45, 0] @ be16 ?len @ [0, 0, 0, 0, 64, proto] @ ?ck" sip] assms(1,2)
    by (simp add: ip_hdr_def)
  have d: "ntohl_at ?f 30 = dip"
    using ntohl_be32 [of "?m @ be16 0x0800 @ [0x45, 0] @ be16 ?len @ [0, 0, 0, 0, 64, proto] @ ?ck @ be32 sip" dip]
      assms(1,2) by (simp add: ip_hdr_def)
  have p: "?f ! 23 = proto" using assms(1,2) by (simp add: nth_append ip_hdr_def be16_def)
  show ?thesis using f e t s d p ip_hdr_cksum assms by simp
qed

text \<open>
  A datagram whose payload is at most 2014 bytes is emitted as one Ethernet frame of 34 bytes of
  headers and the payload: addressed to the given MAC, from the gateway's MAC, with the IPv4 length
  and addresses asked for and a header checksum that verifies.
\<close>

theorem emit_ip_frame:
  assumes "length dst_mac = 6" and "length (gw_mac cfg) = 6" and "length payload \<le> 2014"
  shows "\<exists>f. emit_ip cfg dst_mac sip dip proto payload = Some f \<and> length f = 34 + length payload
    \<and> take 6 f = dst_mac \<and> take 6 (drop 6 f) = gw_mac cfg \<and> ntohs_at f 12 = 0x0800
    \<and> ntohs_at f 16 = of_nat (20 + length payload) \<and> f ! 23 = proto
    \<and> ntohl_at f 26 = sip \<and> ntohl_at f 30 = dip
    \<and> ip_cksum (take 20 (drop 14 f)) = 0 \<and> drop 34 f = payload"
  by (rule emit_ip_fields [OF assms])

theorem emit_ip_frame_witness:
  "\<exists>f. emit_ip net_config_default (guest_mac net_config_default) 1 2 IP_ICMP [8, 0] = Some f
     \<and> length f = 36 \<and> ip_cksum (take 20 (drop 14 f)) = 0"
  using emit_ip_frame [of "guest_mac net_config_default" net_config_default "[8, 0]" 1 2 IP_ICMP]
  by (auto simp: net_config_default_def)

lemma transport_verifies:
  assumes "even (length xs)" and "length xs + 2 + length ys \<le> 65000" and "proto \<noteq> 0"
    and "ck = transport_cksum sip dip proto (xs @ [0, 0] @ ys)"
  shows "transport_cksum sip dip proto (xs @ le_bytes 2 (unat ck) @ ys) = 0"
proof -
  let ?n = "of_nat (length xs + 2 + length ys) :: u16"
  let ?ph = "be32 sip @ be32 dip @ [0, proto] @ be16 ?n"
  have ph: "even (length ?ph)" "nsum16 ?ph > 0"
    using assms(3) by (simp_all add: nsum16_append be32_def be16_def unat_gt_0)
  have tr: "transport_cksum sip dip proto bs = ip_cksum (?ph @ bs)" if "length bs = length xs + 2 + length ys" for bs
    using ph(1) that unfolding transport_cksum_def ip_cksum_def Let_def by (simp add: sum16_append)
  have "ip_cksum ((?ph @ xs) @ le_bytes 2 (unat (ip_cksum ((?ph @ xs) @ [0, 0] @ ys))) @ ys) = 0"
    using assms(1,2) ph by (intro ip_cksum_aux) (auto simp: nsum16_append)
  then show ?thesis using assms(4) tr [of "xs @ [0, 0] @ ys"] tr [of "xs @ le_bytes 2 (unat ck) @ ys"] by simp
qed

lemma tcp_hdr_fields:
  "ntohs_at (tcp_hdr sp dp seq ack flags ck @ data) 0 = sp" "ntohs_at (tcp_hdr sp dp seq ack flags ck @ data) 2 = dp"
  "ntohl_at (tcp_hdr sp dp seq ack flags ck @ data) 4 = seq" "ntohl_at (tcp_hdr sp dp seq ack flags ck @ data) 8 = ack"
  "(tcp_hdr sp dp seq ack flags ck @ data) ! 12 = 0x50" "(tcp_hdr sp dp seq ack flags ck @ data) ! 13 = flags"
proof -
  let ?r = "[0x50, flags] @ be16 65535 @ le_bytes 2 (unat ck) @ [0, 0] @ data"
  show "ntohs_at (tcp_hdr sp dp seq ack flags ck @ data) 0 = sp"
    using ntohs_be16 [of "[]" sp "be16 dp @ be32 seq @ be32 ack @ ?r"] by (simp add: tcp_hdr_def)
  show "ntohs_at (tcp_hdr sp dp seq ack flags ck @ data) 2 = dp"
    using ntohs_be16 [of "be16 sp" dp "be32 seq @ be32 ack @ ?r"] by (simp add: tcp_hdr_def)
  show "ntohl_at (tcp_hdr sp dp seq ack flags ck @ data) 4 = seq"
    using ntohl_be32 [of "be16 sp @ be16 dp" seq "be32 ack @ ?r"] by (simp add: tcp_hdr_def)
  show "ntohl_at (tcp_hdr sp dp seq ack flags ck @ data) 8 = ack"
    using ntohl_be32 [of "be16 sp @ be16 dp @ be32 seq" ack ?r] by (simp add: tcp_hdr_def)
qed (simp_all add: tcp_hdr_def be16_def be32_def)

text \<open>What the receiver checks: the one's complement sum of the 16-bit words is all ones, so a multiple of 65535 in the integers.\<close>

lemma fold16_all_ones: "NOT (ucast (fold16 s)) = (0 :: u16) \<Longrightarrow> 65535 dvd unat s"
proof -
  assume "NOT (ucast (fold16 s)) = (0 :: u16)"
  then have "65535 - unat (fold16 s) = 0" using unat_cksum [of s] by simp
  with fold16_mod [of s] have "unat (fold16 s) = 65535" by linarith
  with fold16_mod [of s] have "unat s mod 65535 = 0" by simp
  then show ?thesis by (simp add: mod_eq_0_iff_dvd)
qed

lemma cksum_sum: "ip_cksum bs = 0 \<Longrightarrow> length bs \<le> 65535 \<Longrightarrow> 65535 dvd nsum16 bs"
proof -
  assume c: "ip_cksum bs = 0" and l: "length bs \<le> 65535"
  have "unat (sum16 0 bs) = nsum16 bs" using nsum16_bound [of bs] l by (simp add: unat_sum16)
  then show ?thesis using fold16_all_ones [of "sum16 0 bs"] c by (simp add: ip_cksum_def)
qed

lemma send_tcp_frame:
  assumes "length dst_mac = 6" and "length (gw_mac cfg) = 6" and "length data \<le> 1994"
  shows "\<exists>f. send_tcp cfg dst_mac sip sp dip dp seq ack flags data = Some f
    \<and> length f = 54 + length data \<and> take 6 f = dst_mac \<and> take 6 (drop 6 f) = gw_mac cfg \<and> ntohs_at f 12 = 0x0800
    \<and> f ! 14 = 0x45 \<and> unat (ntohs_at f 16) = 40 + length data \<and> f ! 23 = 6 \<and> ntohl_at f 26 = sip \<and> ntohl_at f 30 = dip
    \<and> ntohs_at f 34 = sp \<and> ntohs_at f 36 = dp \<and> ntohl_at f 38 = seq \<and> ntohl_at f 42 = ack
    \<and> f ! 46 = 0x50 \<and> f ! 47 = flags \<and> ntohs_at f 48 = 65535 \<and> ntohs_at f 52 = 0 \<and> drop 54 f = data
    \<and> 65535 dvd nsum16 (take 20 (drop 14 f))
    \<and> 65535 dvd nsum16 (take 8 (drop 26 f) @ [0, 6] @ be16 (of_nat (length f - 34)) @ drop 34 f)"
proof -
  define ck where "ck = transport_cksum sip dip IP_TCP (tcp_hdr sp dp seq ack flags 0 @ data)"
  let ?seg = "tcp_hdr sp dp seq ack flags ck @ data"
  have "transport_cksum sip dip IP_TCP
      ((be16 sp @ be16 dp @ be32 seq @ be32 ack @ [0x50, flags] @ be16 65535) @ le_bytes 2 (unat ck) @ [0, 0] @ data) = 0"
    using assms(3) by (intro transport_verifies) (simp_all add: ck_def tcp_hdr_def le_bytes_numeral)
  then have "transport_cksum sip dip IP_TCP ?seg = 0" by (simp add: tcp_hdr_def)
  moreover have "even (length (be32 sip @ be32 dip @ [0, IP_TCP] @ be16 (of_nat (length ?seg))))" by simp
  ultimately have "ip_cksum ((be32 sip @ be32 dip @ [0, IP_TCP] @ be16 (of_nat (length ?seg))) @ ?seg) = 0"
    unfolding transport_cksum_def ip_cksum_def Let_def by (simp add: sum16_append)
  from cksum_sum [OF this] assms(3)
  have sum: "65535 dvd nsum16 (be32 sip @ be32 dip @ [0, IP_TCP] @ be16 (of_nat (length ?seg)) @ ?seg)" by simp
  have seg: "length ?seg \<le> 2014" using assms(3) by simp
  from emit_ip_fields [OF assms(1,2) seg, of sip dip IP_TCP] obtain f where
    f: "emit_ip cfg dst_mac sip dip IP_TCP ?seg = Some f" "length f = 34 + length ?seg"
      "take 6 f = dst_mac" "take 6 (drop 6 f) = gw_mac cfg" "ntohs_at f 12 = 0x0800" "ntohs_at f 16 = of_nat (20 + length ?seg)"
      "f ! 23 = 6" "ntohl_at f 26 = sip" "ntohl_at f 30 = dip" "ip_cksum (take 20 (drop 14 f)) = 0" "drop 34 f = ?seg" by blast
  have f': "f = dst_mac @ gw_mac cfg @ be16 0x0800 @ ip_hdr (of_nat (20 + length ?seg)) IP_TCP sip dip @ ?seg"
    using f(1) emit_ip_eq [OF assms(1,2) seg, of sip dip IP_TCP] by simp
  have at: "ntohs_at f (34 + k) = ntohs_at ?seg k" "ntohl_at f (34 + k) = ntohl_at ?seg k" "f ! (34 + k) = ?seg ! k" for k
    unfolding f(11) [symmetric] using f(2) by (simp_all add: ntohs_at_def ntohl_at_def add.assoc)
  have "ntohs_at ?seg 14 = 65535"
    using ntohs_be16 [of "be16 sp @ be16 dp @ be32 seq @ be32 ack @ [0x50, flags]" 65535 "le_bytes 2 (unat ck) @ [0, 0] @ data"]
    by (simp add: tcp_hdr_def)
  moreover have "ntohs_at ?seg 18 = 0"
    using ntohs_be16 [of "be16 sp @ be16 dp @ be32 seq @ be32 ack @ [0x50, flags] @ be16 65535 @ le_bytes 2 (unat ck)" 0 data]
    by (simp add: tcp_hdr_def be16_def)
  moreover have "take 8 (drop 26 f) = be32 sip @ be32 dip" unfolding f' using assms(1,2) by (simp add: ip_hdr_def)
  moreover have "f ! 14 = 0x45" unfolding f' using assms(1,2) by (simp add: nth_append ip_hdr_def)
  moreover have "unat (ntohs_at f 16) = 40 + length data" unfolding f(6) using assms(3) by (subst unat_of_nat) simp
  moreover have "65535 dvd nsum16 (take 20 (drop 14 f))" by (rule cksum_sum [OF f(10)]) simp
  moreover have "send_tcp cfg dst_mac sip sp dip dp seq ack flags data = Some f"
    using assms(3) f(1) by (simp add: send_tcp_def ck_def [symmetric])
  moreover have "drop 54 f = drop 20 (drop 34 f)" by simp
  then have "drop 54 f = data" by (simp only: f(11)) simp
  ultimately show ?thesis
    using f(2-5,7-9,11) sum at(1) [of 0] at(1) [of 2] at(2) [of 4] at(2) [of 8] at(3) [of 12] at(3) [of 13] at(1) [of 14] at(1) [of 18]
      tcp_hdr_fields [of sp dp seq ack flags ck data]
    by (intro exI [of _ f]) simp
qed

text \<open>
  C22. A TCP segment with at most 1994 bytes of data is emitted as one frame. Read back byte by byte as a receiver does, it has the destination
  and the gateway's MAC, the IPv4 type, version, header length, total length, protocol and addresses, the ports, the
  sequence and acknowledgement numbers, a 20-byte TCP header with the flags, an urgent pointer of 0, and the data; and the one's complement sums over the IP header
  and over pseudo header and segment are right.
\<close>

theorem send_tcp_ok:
  assumes "length dst_mac = 6" and "length (gw_mac cfg) = 6" and "length data \<le> 1994"
  shows "\<exists>f. send_tcp cfg dst_mac sip sp dip dp seq ack flags data = Some f
    \<and> length f = 54 + length data \<and> take 6 f = dst_mac \<and> take 6 (drop 6 f) = gw_mac cfg \<and> ntohs_at f 12 = 0x0800
    \<and> f ! 14 = 0x45 \<and> unat (ntohs_at f 16) = 40 + length data \<and> f ! 23 = 6 \<and> ntohl_at f 26 = sip \<and> ntohl_at f 30 = dip
    \<and> ntohs_at f 34 = sp \<and> ntohs_at f 36 = dp \<and> ntohl_at f 38 = seq \<and> ntohl_at f 42 = ack
    \<and> f ! 46 = 0x50 \<and> f ! 47 = flags \<and> ntohs_at f 48 = 65535 \<and> ntohs_at f 52 = 0 \<and> drop 54 f = data
    \<and> 65535 dvd nsum16 (take 20 (drop 14 f))
    \<and> 65535 dvd nsum16 (take 8 (drop 26 f) @ [0, 6] @ be16 (of_nat (length f - 34)) @ drop 34 f)"
  by (rule send_tcp_frame [OF assms])

theorem send_tcp_ok_witness:
  "\<exists>f. send_tcp net_config_default (guest_mac net_config_default) 1 80 2 1024 7 9 TF_ACK [1, 2, 3] = Some f
    \<and> ntohs_at f 34 = 80 \<and> ntohs_at f 36 = 1024 \<and> ntohl_at f 38 = 7 \<and> ntohl_at f 42 = 9 \<and> f ! 47 = 0x10 \<and> drop 54 f = [1, 2, 3]"
  using send_tcp_ok [of "guest_mac net_config_default" net_config_default "[1, 2, 3]" 1 80 2 1024 7 9 TF_ACK]
  by (auto simp: net_config_default_def)

text \<open>
  A segment with more data than that overruns the 2048-byte frame buffer on the stack. The
  thread that relays a connection reads up to 4096 bytes from the host socket and sends them as one
  segment, so a peer that delivers 1995 bytes at once is enough.
\<close>

theorem send_tcp_overruns_frame:
  "length data > 1994 \<Longrightarrow> send_tcp cfg dst_mac sip sp dip dp seq ack flags data = None"
  by (simp add: send_tcp_def emit_ip_def Let_def)

theorem send_tcp_overruns_frame_witness:
  "send_tcp net_config_default (guest_mac net_config_default) 1 80 2 1024 7 9 (TF_PSH OR TF_ACK) (replicate 4096 0) = None"
  using send_tcp_overruns_frame [of "replicate 4096 0"] by simp

end
