(* ===== verification/Network.thy ===== *)
theory Network
  imports Net_Wire "HOL-Library.Monad_Syntax"
begin

text \<open>
  The user-mode network stack (\<^verbatim>\<open>src/src/hvf/network.cpp\<close>, \<^verbatim>\<open>network.hpp\<close>): ARP, ICMP echo, DHCP, the
  DNS and UDP relay, the TCP connection table with its handshake and data transfer, and the steps of
  the threads that relay host sockets.

  A handler receives the bytes that are really there and the length the packet claims; a read behind
  the bytes that are there, and a write behind the end of a local buffer, is the value \<open>None\<close>. The frames
  a handler passes to \<^verbatim>\<open>tx\<close> before it returns are the list it returns.
\<close>

section \<open>State\<close>

record conn_key =
  k_sip :: u32
  k_dip :: u32
  k_sp :: u16
  k_dp :: u16

datatype tcp_state = CONNECTING | SYNACK_SENT | ESTABLISHED

record tcp_conn =
  stk_src_ip :: u32
  stk_dst_ip :: u32
  stk_src_port :: u16
  stk_dst_port :: u16
  c_guest_mac :: "u8 list"
  g_nxt :: u32
  h_nxt :: u32
  c_fd :: int
  c_state :: tcp_state
  c_stop :: bool

text \<open>The detached threads the stack starts: a connect to a host, and the relay of a connection.\<close>

datatype net_thread = Connect nat conn_key u32 u16 | Relay nat conn_key

text \<open>
  Connections are shared objects: the table maps keys to object numbers, the threads keep the number
  of their object also after it has left the table.
\<close>

record 'e stack =
  st_conns :: "conn_key \<Rightarrow> nat option"
  st_objs :: "nat \<Rightarrow> tcp_conn"
  st_next :: nat
  st_done :: "conn_key list"
  st_threads :: "net_thread list"
  st_eport :: u16
  st_os :: 'e

text \<open>
  The sockets: \<open>udp_rt e ip port data cap\<close> sends one datagram and receives at most \<open>cap\<close> bytes in answer
  (none on failure or timeout), \<open>sock_write\<close> is one \<^verbatim>\<open>::write\<close> and the number of bytes taken (0 when the
  result is not positive), \<open>sock_shutdown\<close> is \<^verbatim>\<open>::shutdown(fd, SHUT_WR)\<close>.
\<close>

record 'e net_os =
  udp_rt :: "'e \<Rightarrow> u32 \<Rightarrow> u16 \<Rightarrow> u8 list \<Rightarrow> nat \<Rightarrow> 'e \<times> u8 list"
  sock_write :: "'e \<Rightarrow> int \<Rightarrow> u8 list \<Rightarrow> 'e \<times> nat"
  sock_shutdown :: "'e \<Rightarrow> int \<Rightarrow> 'e"

definition stack_new :: "'e \<Rightarrow> 'e stack" where
  "stack_new e = \<lparr>st_conns = (\<lambda>_. None), st_objs = (\<lambda>_. undefined), st_next = 0, st_done = [], st_threads = [],
     st_eport = 49152, st_os = e\<rparr>"

section \<open>Checked reads\<close>

definition rd8 :: "u8 list \<Rightarrow> nat \<Rightarrow> u8 option" where
  "rd8 bs i = (if i < length bs then Some (bs ! i) else None)"

definition rdn :: "u8 list \<Rightarrow> nat \<Rightarrow> nat \<Rightarrow> u8 list option" where
  "rdn bs i n = (if i + n \<le> length bs then Some (take n (drop i bs)) else None)"

definition rd16 :: "u8 list \<Rightarrow> nat \<Rightarrow> u16 option" where
  "rd16 bs i = (if i + 2 \<le> length bs then Some (ntohs_at bs i) else None)"

definition rd32 :: "u8 list \<Rightarrow> nat \<Rightarrow> u32 option" where
  "rd32 bs i = (if i + 4 \<le> length bs then Some (ntohl_at bs i) else None)"

section \<open>ARP and ICMP\<close>

definition arp_reply :: "net_config \<Rightarrow> u8 list \<Rightarrow> u32 \<Rightarrow> u8 list \<Rightarrow> u8 list \<Rightarrow> u8 list" where
  "arp_reply cfg eth_src tpa sha spa =
     eth_src @ gw_mac cfg @ be16 0x0806
       @ be16 1 @ be16 0x0800 @ [6, 4] @ be16 2 @ gw_mac cfg @ be32 tpa @ sha @ spa"

definition handle_arp :: "net_config \<Rightarrow> u8 list \<Rightarrow> u8 list \<Rightarrow> u8 list list" where
  "handle_arp cfg eth_src payload =
     (if length payload < 28 then []
      else if ntohs_at payload 6 \<noteq> 1 then []
      else
        (let tpa = ntohl_at payload 24
         in if tpa \<noteq> gw_ip cfg \<and> tpa \<noteq> dns_ip cfg then []
            else [arp_reply cfg eth_src tpa (take 6 (drop 8 payload)) (take 4 (drop 14 payload))]))"

definition handle_icmp :: "net_config \<Rightarrow> u8 list \<Rightarrow> u32 \<Rightarrow> u32 \<Rightarrow> u8 list \<Rightarrow> nat \<Rightarrow> u8 list list option" where
  "handle_icmp cfg eth_src src dst bs plen =
     (if plen < 8 then Some []
      else do {
        t \<leftarrow> rd8 bs 0;
        if t \<noteq> 8 then Some []
        else do {
          p \<leftarrow> rdn bs 0 plen;
          let rep = p[0 := 0, 2 := 0, 3 := 0];
          let ck = ip_cksum rep;
          f \<leftarrow> emit_ip cfg eth_src dst src IP_ICMP (rep[2 := ucast ck, 3 := ucast (drop_bit 8 ck)]);
          Some [f]
        }
      })"

section \<open>DHCP\<close>

text \<open>The scan over the options; \<^verbatim>\<open>msg_type = opt[i + 2]\<close> is read without a check against the length.\<close>

function dhcp_scan :: "u8 list \<Rightarrow> nat \<Rightarrow> nat \<Rightarrow> u8 \<Rightarrow> u8 option" where
  "dhcp_scan bs opt_rem i msg =
     (if i \<ge> opt_rem then Some msg
      else do {
        tag \<leftarrow> rd8 bs (240 + i);
        if tag = 255 then Some msg
        else if tag = 0 then dhcp_scan bs opt_rem (i + 1) msg
        else if i + 1 \<ge> opt_rem then Some msg
        else do {
          olen \<leftarrow> rd8 bs (240 + i + 1);
          msg' \<leftarrow> (if tag = 53 \<and> olen \<ge> 1 then rd8 bs (240 + i + 2) else Some msg);
          dhcp_scan bs opt_rem (i + 2 + unat olen) msg'
        }
      })"
  by pat_completeness auto
termination by (relation "measure (\<lambda>(bs, n, i, m). n - i)") auto

declare dhcp_scan.simps [simp del]

definition dhcp_opt32 :: "u8 \<Rightarrow> u32 \<Rightarrow> u8 list" where
  "dhcp_opt32 tag v = [tag, 4] @ be32 v"

text \<open>The first 300 bytes of \<^verbatim>\<open>reply[548]\<close>: \<^verbatim>\<open>p\<close> ends at 274, below the minimum of 300.\<close>

definition dhcp_reply :: "net_config \<Rightarrow> u8 list \<Rightarrow> u8 list \<Rightarrow> u8 \<Rightarrow> u8 list" where
  "dhcp_reply cfg xid chaddr msg_type =
     [2, 1, 6, 0] @ xid @ replicate 8 0 @ be32 (guest_ip cfg) @ be32 (gw_ip cfg) @ replicate 4 0 @ chaddr
       @ replicate 202 0 @ [99, 130, 83, 99]
       @ [53, 1, if msg_type = 1 then 2 else 5] @ dhcp_opt32 54 (gw_ip cfg) @ dhcp_opt32 51 86400
       @ dhcp_opt32 1 0xFFFFFF00 @ dhcp_opt32 3 (gw_ip cfg) @ dhcp_opt32 6 (dns_ip cfg) @ [255] @ replicate 26 0"

definition handle_dhcp :: "net_config \<Rightarrow> u8 list \<Rightarrow> nat \<Rightarrow> u8 list list option" where
  "handle_dhcp cfg bs len =
     (if len < 240 then Some []
      else do {
        xid \<leftarrow> rdn bs 4 4;
        msg_type \<leftarrow> dhcp_scan bs (len - 240) 0 0;
        if msg_type \<noteq> 1 \<and> msg_type \<noteq> 3 then Some []
        else do {
          chaddr \<leftarrow> rdn bs 28 6;
          f \<leftarrow> send_udp cfg (replicate 6 0xFF) (gw_ip cfg) 67 0xFFFFFFFF 68 (dhcp_reply cfg xid chaddr msg_type);
          Some [f]
        }
      })"

section \<open>UDP\<close>

definition handle_dns ::
  "'e net_os \<Rightarrow> net_config \<Rightarrow> 'e \<Rightarrow> u8 list \<Rightarrow> u32 \<Rightarrow> u16 \<Rightarrow> u8 list \<Rightarrow> ('e \<times> u8 list list) option" where
  "handle_dns os cfg e eth_src src src_port q =
     (let r = udp_rt os e (dns_fwd_ip cfg) 53 q 512; resp = snd r
      in if resp = [] then Some (fst r, [])
         else do { f \<leftarrow> send_udp cfg eth_src (dns_ip cfg) 53 src src_port resp; Some (fst r, [f]) })"

definition handle_udp ::
  "'e net_os \<Rightarrow> net_config \<Rightarrow> 'e \<Rightarrow> u8 list \<Rightarrow> u32 \<Rightarrow> u32 \<Rightarrow> u8 list \<Rightarrow> nat \<Rightarrow> ('e \<times> u8 list list) option" where
  "handle_udp os cfg e eth_src src dst bs plen =
     (if plen < 8 then Some (e, [])
      else do {
        sp \<leftarrow> rd16 bs 0;
        dp \<leftarrow> rd16 bs 2;
        if dp = 67 then do { fs \<leftarrow> handle_dhcp cfg (drop 8 bs) (plen - 8); Some (e, fs) }
        else do {
          data \<leftarrow> rdn bs 8 (plen - 8);
          if dp = 53 then handle_dns os cfg e eth_src src sp data
          else
            (let r = udp_rt os e dst dp data 1500; resp = snd r
             in if resp = [] then Some (fst r, [])
                else do { f \<leftarrow> send_udp cfg eth_src dst dp src sp resp; Some (fst r, [f]) })
        }
      })"

section \<open>TCP\<close>

text \<open>\<^verbatim>\<open>while (rem > 0) { w = ::write(fd, p, rem); if (w <= 0) break; p += w; rem -= w; }\<close>\<close>

function write_loop :: "'e net_os \<Rightarrow> int \<Rightarrow> 'e \<Rightarrow> u8 list \<Rightarrow> 'e" where
  "write_loop os fd e bs =
     (if bs = [] then e
      else let r = sock_write os e fd bs
           in if snd r = 0 then fst r else write_loop os fd (fst r) (drop (snd r) bs))"
  by pat_completeness auto
termination by (relation "measure (\<lambda>(os, fd, e, bs). length bs)") (auto simp: Let_def)

declare write_loop.simps [simp del]

definition conn_reply :: "net_config \<Rightarrow> tcp_conn \<Rightarrow> u32 \<Rightarrow> u32 \<Rightarrow> u8 \<Rightarrow> u8 list \<Rightarrow> u8 list option" where
  "conn_reply cfg cn seq ack flags data =
     send_tcp cfg (c_guest_mac cn) (stk_src_ip cn) (stk_src_port cn) (stk_dst_ip cn) (stk_dst_port cn) seq ack flags data"

text \<open>\<^verbatim>\<open>for (k : done_queue) conns.erase(k); done_queue.clear();\<close>\<close>

definition reap :: "'e stack \<Rightarrow> 'e stack" where
  "reap s = s\<lparr>st_conns := (\<lambda>k. if k \<in> set (st_done s) then None else st_conns s k), st_done := []\<rparr>"

definition new_conn :: "conn_key \<Rightarrow> u8 list \<Rightarrow> u32 \<Rightarrow> tcp_conn" where
  "new_conn key eth_src seq =
     \<lparr>stk_src_ip = k_dip key, stk_dst_ip = k_sip key, stk_src_port = k_dp key, stk_dst_port = k_sp key,
      c_guest_mac = eth_src, g_nxt = seq + 1, h_nxt = 0x40000000, c_fd = - 1, c_state = CONNECTING, c_stop = False\<rparr>"

text \<open>Data and FIN on an established connection, object \<open>i\<close>, table key \<open>key\<close>.\<close>

definition tcp_data ::
  "'e net_os \<Rightarrow> net_config \<Rightarrow> 'e stack \<Rightarrow> conn_key \<Rightarrow> nat \<Rightarrow> u32 \<Rightarrow> u8 \<Rightarrow> u8 list
     \<Rightarrow> ('e stack \<times> u8 list list) option" where
  "tcp_data os cfg s key i seq flags data =
     (let cn = st_objs s i;
          accept = data \<noteq> [] \<and> seq = g_nxt cn;
          cn1 = (if accept then cn\<lparr>g_nxt := g_nxt cn + of_nat (length data)\<rparr> else cn);
          should_fin = flags AND TF_FIN \<noteq> 0;
          cn2 = (if should_fin then cn1\<lparr>g_nxt := g_nxt cn1 + 1, c_stop := True\<rparr> else cn1);
          e1 = (if should_fin \<and> c_fd cn \<ge> 0 then sock_shutdown os (st_os s) (c_fd cn) else st_os s);
          ack_out = g_nxt cn2;
          h_seq = h_nxt cn2;
          cn3 = (if should_fin then cn2\<lparr>h_nxt := h_nxt cn2 + 1\<rparr> else cn2);
          e2 = (if accept \<and> c_fd cn \<ge> 0 then write_loop os (c_fd cn) e1 data else e1);
          s' = s\<lparr>st_objs := (st_objs s)(i := cn3), st_os := e2,
                 st_conns := (if should_fin then (st_conns s)(key := None) else st_conns s)\<rparr>
      in if should_fin then do { f \<leftarrow> conn_reply cfg cn3 h_seq ack_out (TF_FIN OR TF_ACK) []; Some (s', [f]) }
         else if accept then do { f \<leftarrow> conn_reply cfg cn3 h_seq ack_out TF_ACK []; Some (s', [f]) }
         else Some (s', []))"

text \<open>
  One segment, with the connection table locked and reaped. \<open>fetch\<close> is the data behind the TCP
  header, read only when the segment is in order.
\<close>

definition tcp_segment ::
  "'e net_os \<Rightarrow> net_config \<Rightarrow> 'e stack \<Rightarrow> u8 list \<Rightarrow> conn_key \<Rightarrow> u32 \<Rightarrow> u32 \<Rightarrow> u8 \<Rightarrow> u8 list option
     \<Rightarrow> ('e stack \<times> u8 list list) option" where
  "tcp_segment os cfg s eth_src key seq ack_v flags fetch =
     (if flags AND TF_SYN \<noteq> 0 \<and> flags AND TF_ACK = 0 then
        (case st_conns s key of
           Some _ \<Rightarrow> Some (s, [])
         | None \<Rightarrow>
             Some (s\<lparr>st_conns := (st_conns s)(key := Some (st_next s)),
                     st_objs := (st_objs s)(st_next s := new_conn key eth_src seq),
                     st_next := st_next s + 1,
                     st_threads := st_threads s @ [Connect (st_next s) key (k_dip key) (k_dp key)]\<rparr>, []))
      else
        (case st_conns s key of
           None \<Rightarrow>
             if flags AND TF_RST = 0
             then do { f \<leftarrow> send_tcp cfg eth_src (k_dip key) (k_dp key) (k_sip key) (k_sp key) ack_v 0 TF_RST [];
                       Some (s, [f]) }
             else Some (s, [])
         | Some i \<Rightarrow>
             (let cn = st_objs s i
              in if flags AND TF_RST \<noteq> 0 then
                   Some (s\<lparr>st_objs := (st_objs s)(i := cn\<lparr>c_stop := True\<rparr>), st_conns := (st_conns s)(key := None)\<rparr>, [])
                 else if c_state cn = SYNACK_SENT then
                   (if flags AND TF_ACK \<noteq> 0
                    then Some (s\<lparr>st_objs := (st_objs s)(i := cn\<lparr>c_state := ESTABLISHED\<rparr>),
                                 st_threads := st_threads s @ [Relay i key]\<rparr>, [])
                    else Some (s, []))
                 else if c_state cn \<noteq> ESTABLISHED then Some (s, [])
                 else do {
                   data \<leftarrow> (if seq = g_nxt cn then fetch else Some []);
                   tcp_data os cfg s key i seq flags data
                 })))"

definition handle_tcp ::
  "'e net_os \<Rightarrow> net_config \<Rightarrow> 'e stack \<Rightarrow> u8 list \<Rightarrow> u32 \<Rightarrow> u32 \<Rightarrow> u8 list \<Rightarrow> nat
     \<Rightarrow> ('e stack \<times> u8 list list) option" where
  "handle_tcp os cfg s eth_src src dst bs plen =
     (if plen < 20 then Some (s, [])
      else do {
        sp \<leftarrow> rd16 bs 0;
        dp \<leftarrow> rd16 bs 2;
        seq \<leftarrow> rd32 bs 4;
        ack_v \<leftarrow> rd32 bs 8;
        doff \<leftarrow> rd8 bs 12;
        flags \<leftarrow> rd8 bs 13;
        let hlen = unat (drop_bit 4 doff) * 4;
        tcp_segment os cfg (reap s) eth_src \<lparr>k_sip = src, k_dip = dst, k_sp = sp, k_dp = dp\<rparr> seq ack_v flags
          (if plen > hlen then rdn bs hlen (plen - hlen) else Some [])
      })"

section \<open>Frames from the guest\<close>

text \<open>
  \<^verbatim>\<open>Stack::guest_tx\<close>. The IPv4 total length is compared with the header length only, not with the
  length of the frame.
\<close>

definition handle_frame ::
  "'e net_os \<Rightarrow> net_config \<Rightarrow> 'e stack \<Rightarrow> u8 list \<Rightarrow> ('e stack \<times> u8 list list) option" where
  "handle_frame os cfg s frame =
     (if length frame < 14 then Some (s, [])
      else
        (let payload = drop 14 frame; plen = length frame - 14; etype = ntohs_at frame 12;
             eth_src = take 6 (drop 6 frame)
         in if etype = 0x0806 then Some (s, handle_arp cfg eth_src payload)
            else if etype \<noteq> 0x0800 then Some (s, [])
            else if plen < 20 then Some (s, [])
            else
              (let ihl = unat (payload ! 0 AND 0x0F) * 4; iplen = unat (ntohs_at payload 2);
                   proto = payload ! 9; src = ntohl_at payload 12; dst = ntohl_at payload 16
               in if plen < ihl \<or> iplen < ihl then Some (s, [])
                  else
                    (let ipp = drop ihl payload; ippl = iplen - ihl
                     in if proto = IP_ICMP then do { fs \<leftarrow> handle_icmp cfg eth_src src dst ipp ippl; Some (s, fs) }
                        else if proto = IP_UDP then
                          do { (e, fs) \<leftarrow> handle_udp os cfg (st_os s) eth_src src dst ipp ippl; Some (s\<lparr>st_os := e\<rparr>, fs) }
                        else if proto = IP_TCP then handle_tcp os cfg s eth_src src dst ipp ippl
                        else Some (s, [])))))"

section \<open>The threads\<close>

text \<open>The connecting thread: the host accepted the connection on \<open>fd\<close>, or it did not.\<close>

definition connect_ok :: "net_config \<Rightarrow> nat \<Rightarrow> int \<Rightarrow> 'e stack \<Rightarrow> ('e stack \<times> u8 list list) option" where
  "connect_ok cfg i fd s =
     (let cn = (st_objs s i)\<lparr>c_fd := fd, c_state := SYNACK_SENT\<rparr>; isn = h_nxt cn; cn' = cn\<lparr>h_nxt := isn + 1\<rparr>
      in do { f \<leftarrow> conn_reply cfg cn' isn (g_nxt cn') (TF_SYN OR TF_ACK) [];
              Some (s\<lparr>st_objs := (st_objs s)(i := cn')\<rparr>, [f]) })"

definition connect_fail :: "conn_key \<Rightarrow> 'e stack \<Rightarrow> 'e stack" where
  "connect_fail key s = s\<lparr>st_conns := (st_conns s)(key := None)\<rparr>"

text \<open>The relay thread read \<open>data\<close> from the host socket, or reached its end.\<close>

definition relay_data :: "net_config \<Rightarrow> nat \<Rightarrow> u8 list \<Rightarrow> 'e stack \<Rightarrow> ('e stack \<times> u8 list list) option" where
  "relay_data cfg i data s =
     (let cn = st_objs s i; seq = h_nxt cn; cn' = cn\<lparr>h_nxt := seq + of_nat (length data)\<rparr>
      in do { f \<leftarrow> conn_reply cfg cn' seq (g_nxt cn') (TF_PSH OR TF_ACK) data;
              Some (s\<lparr>st_objs := (st_objs s)(i := cn')\<rparr>, [f]) })"

definition relay_end :: "net_config \<Rightarrow> nat \<Rightarrow> conn_key \<Rightarrow> 'e stack \<Rightarrow> ('e stack \<times> u8 list list) option" where
  "relay_end cfg i key s =
     (let cn = st_objs s i; fin = s\<lparr>st_done := st_done s @ [key]\<rparr>
      in if c_stop cn then Some (fin, [])
         else
           (let cn' = cn\<lparr>h_nxt := h_nxt cn + 1\<rparr>
            in do { f \<leftarrow> conn_reply cfg cn' (h_nxt cn) (g_nxt cn') (TF_FIN OR TF_ACK) [];
                    Some (fin\<lparr>st_objs := (st_objs s)(i := cn')\<rparr>, [f]) }))"

text \<open>
  An accepted connection on a forwarded port: the connection object, its table entry and the first
  SYN; after five unanswered SYNs the entry is removed.
\<close>

definition inbound_isn :: "u16 \<Rightarrow> u32" where
  "inbound_isn eport = 0x50000000 OR push_bit 8 (ucast eport)"

definition inbound_key :: "net_config \<Rightarrow> u16 \<Rightarrow> u16 \<Rightarrow> conn_key" where
  "inbound_key cfg guest_port eport = \<lparr>k_sip = guest_ip cfg, k_dip = gw_ip cfg, k_sp = guest_port, k_dp = eport\<rparr>"

definition inbound_conn :: "net_config \<Rightarrow> int \<Rightarrow> u16 \<Rightarrow> u16 \<Rightarrow> tcp_conn" where
  "inbound_conn cfg host_fd guest_port eport =
     \<lparr>stk_src_ip = gw_ip cfg, stk_dst_ip = guest_ip cfg, stk_src_port = eport, stk_dst_port = guest_port,
      c_guest_mac = guest_mac cfg, g_nxt = 0, h_nxt = inbound_isn eport + 1, c_fd = host_fd, c_state = SYNACK_SENT,
      c_stop = False\<rparr>"

definition inbound_fwd :: "net_config \<Rightarrow> int \<Rightarrow> u16 \<Rightarrow> 'e stack \<Rightarrow> ('e stack \<times> u8 list list) option" where
  "inbound_fwd cfg host_fd guest_port s =
     (let eport = st_eport s; key = inbound_key cfg guest_port eport; cn = inbound_conn cfg host_fd guest_port eport
      in do { f \<leftarrow> conn_reply cfg cn (inbound_isn eport) 0 TF_SYN [];
              Some (s\<lparr>st_eport := eport + 1,
                      st_objs := (st_objs s)(st_next s := cn),
                      st_next := st_next s + 1,
                      st_conns := (case st_conns s key of None \<Rightarrow> (st_conns s)(key := Some (st_next s))
                                   | Some _ \<Rightarrow> st_conns s)\<rparr>, [f]) })"

text \<open>
  After each pause the forwarding thread looks its connection up again: it is done when the entry is
  gone or the handshake has completed, otherwise it sends the SYN once more.
\<close>

definition inbound_retry :: "net_config \<Rightarrow> u16 \<Rightarrow> u16 \<Rightarrow> 'e stack \<Rightarrow> ('e stack \<times> u8 list list) option" where
  "inbound_retry cfg guest_port eport s =
     (case st_conns s (inbound_key cfg guest_port eport) of
        None \<Rightarrow> Some (s, [])
      | Some i \<Rightarrow>
          if c_state (st_objs s i) \<noteq> SYNACK_SENT then Some (s, [])
          else do { f \<leftarrow> send_tcp cfg (guest_mac cfg) (gw_ip cfg) eport (guest_ip cfg) guest_port (inbound_isn eport) 0 TF_SYN [];
                    Some (s, [f]) })"

definition inbound_timeout :: "conn_key \<Rightarrow> 'e stack \<Rightarrow> 'e stack" where
  "inbound_timeout key s = s\<lparr>st_conns := (st_conns s)(key := None)\<rparr>"

section \<open>Address resolution\<close>

lemma arp_reply_fields:
  assumes "length src = 6" and "length (gw_mac cfg) = 6" and "length sha = 6" and "length spa = 4"
  shows "length (arp_reply cfg src tpa sha spa) = 42" "take 6 (arp_reply cfg src tpa sha spa) = src"
    "ntohs_at (arp_reply cfg src tpa sha spa) 12 = 0x0806" "ntohs_at (arp_reply cfg src tpa sha spa) 20 = 2"
    "take 6 (drop 22 (arp_reply cfg src tpa sha spa)) = gw_mac cfg"
    "ntohl_at (arp_reply cfg src tpa sha spa) 28 = tpa"
    "take 6 (drop 32 (arp_reply cfg src tpa sha spa)) = sha" "take 4 (drop 38 (arp_reply cfg src tpa sha spa)) = spa"
proof -
  let ?g = "gw_mac cfg"
  show "ntohs_at (arp_reply cfg src tpa sha spa) 12 = 0x0806"
    using ntohs_be16 [of "src @ ?g" "0x0806" "be16 1 @ be16 0x0800 @ [6, 4] @ be16 2 @ ?g @ be32 tpa @ sha @ spa"] assms
    by (simp add: arp_reply_def)
  show "ntohs_at (arp_reply cfg src tpa sha spa) 20 = 2"
    using ntohs_be16 [of "src @ ?g @ be16 0x0806 @ be16 1 @ be16 0x0800 @ [6, 4]" 2 "?g @ be32 tpa @ sha @ spa"] assms
    by (simp add: arp_reply_def)
  show "ntohl_at (arp_reply cfg src tpa sha spa) 28 = tpa"
    using ntohl_be32 [of "src @ ?g @ be16 0x0806 @ be16 1 @ be16 0x0800 @ [6, 4] @ be16 2 @ ?g" tpa "sha @ spa"] assms
    by (simp add: arp_reply_def)
qed (use assms in \<open>simp_all add: arp_reply_def\<close>)

lemma handle_frame_arp:
  assumes "42 \<le> length frame" and "ntohs_at frame 12 = 0x0806" and "tpa = ntohl_at (drop 14 frame) 24"
  shows "handle_frame os cfg s frame = Some (s, if ntohs_at (drop 14 frame) 6 = 1 \<and> tpa \<in> {gw_ip cfg, dns_ip cfg}
      then [arp_reply cfg (take 6 (drop 6 frame)) tpa (take 6 (drop 22 frame)) (take 4 (drop 28 frame))] else [])"
proof -
  have "\<not> length frame - 14 < 28" "\<not> length frame < 14" using assms(1) by linarith+
  then show ?thesis using assms(2,3) by (simp add: handle_frame_def handle_arp_def Let_def)
qed

text \<open>
  ARP. A request for the gateway's or the DNS server's address gets exactly one reply, from the
  gateway's MAC, that binds the requested address to that MAC and is addressed to the requester;
  every other ARP frame is ignored. The state of the stack does not change.
\<close>

theorem arp_request_answered:
  assumes "42 \<le> length frame" and "ntohs_at frame 12 = 0x0806" and "length (gw_mac cfg) = 6"
    and "tpa = ntohl_at (drop 14 frame) 24"
  shows "if ntohs_at (drop 14 frame) 6 = 1 \<and> tpa \<in> {gw_ip cfg, dns_ip cfg}
    then \<exists>r. handle_frame os cfg s frame = Some (s, [r]) \<and> length r = 42
      \<and> take 6 r = take 6 (drop 6 frame) \<and> ntohs_at r 12 = 0x0806 \<and> ntohs_at r 20 = 2
      \<and> take 6 (drop 22 r) = gw_mac cfg \<and> ntohl_at r 28 = tpa
      \<and> take 6 (drop 32 r) = take 6 (drop 22 frame) \<and> take 4 (drop 38 r) = take 4 (drop 28 frame)
    else handle_frame os cfg s frame = Some (s, [])"
proof -
  note arp = handle_frame_arp [OF assms(1,2,4), of os cfg s]
  show ?thesis
    using arp_reply_fields [of "take 6 (drop 6 frame)" cfg "take 6 (drop 22 frame)" "take 4 (drop 28 frame)" tpa] assms arp
    by simp
qed

definition demo_arp :: "u8 list" where
  "demo_arp = [0xFF, 0xFF, 0xFF, 0xFF, 0xFF, 0xFF, 0x52, 0x54, 0x00, 0x12, 0x34, 0x56, 0x08, 0x06,
     0, 1, 8, 0, 6, 4, 0, 1, 0x52, 0x54, 0x00, 0x12, 0x34, 0x56, 10, 0, 2, 15, 0, 0, 0, 0, 0, 0, 10, 0, 2, 2]"

definition demo_net_os :: "u8 list net_os" where
  "demo_net_os = \<lparr>udp_rt = (\<lambda>e _ _ _ _. (e, [])), sock_write = (\<lambda>e _ bs. (e @ bs, length bs)), sock_shutdown = (\<lambda>e _. e)\<rparr>"

lemma demo_arp_fields:
  "length demo_arp = 42" "ntohs_at demo_arp 12 = 0x0806" "ntohs_at (drop 14 demo_arp) 6 = 1"
  "ntohl_at (drop 14 demo_arp) 24 = 0x0A000202"
  by (simp_all add: demo_arp_def ntohs_at_def ntohl_at_def)

theorem arp_request_answered_witness:
  "\<exists>r. handle_frame demo_net_os net_config_default (stack_new []) demo_arp = Some (stack_new [], [r])
     \<and> ntohl_at r 28 = 0x0A000202 \<and> take 6 (drop 22 r) = [0x52, 0x55, 0x0A, 0x00, 0x02, 0x02]"
proof -
  have "length (gw_mac net_config_default) = 6" "gw_ip net_config_default = 0x0A000202"
    "gw_mac net_config_default = [0x52, 0x55, 0x0A, 0x00, 0x02, 0x02]" by (simp_all add: net_config_default_def)
  with arp_request_answered [of demo_arp net_config_default "0x0A000202" demo_net_os "stack_new []"]
  show ?thesis by (auto simp: demo_arp_fields)
qed

section \<open>The connection table\<close>

text \<open>The steps of the running stack: a frame from the guest, or a step of one of its threads.\<close>

inductive net_step :: "'e net_os \<Rightarrow> net_config \<Rightarrow> 'e stack \<Rightarrow> 'e stack \<Rightarrow> bool" for os cfg where
  frame: "handle_frame os cfg s f = Some (s', fs) \<Longrightarrow> net_step os cfg s s'"
| connect: "connect_ok cfg i fd s = Some (s', fs) \<Longrightarrow> net_step os cfg s s'"
| no_connect: "net_step os cfg s (connect_fail key s)"
| relay: "relay_data cfg i data s = Some (s', fs) \<Longrightarrow> net_step os cfg s s'"
| relay_eof: "relay_end cfg i key s = Some (s', fs) \<Longrightarrow> net_step os cfg s s'"
| inbound: "inbound_fwd cfg fd port s = Some (s', fs) \<Longrightarrow> net_step os cfg s s'"
| inbound_again: "inbound_retry cfg port eport s = Some (s', fs) \<Longrightarrow> net_step os cfg s s'"
| inbound_late: "net_step os cfg s (inbound_timeout key s)"

definition conn_for :: "conn_key \<Rightarrow> tcp_conn \<Rightarrow> bool" where
  "conn_for key cn \<longleftrightarrow> stk_dst_ip cn = k_sip key \<and> stk_dst_port cn = k_sp key
     \<and> stk_src_ip cn = k_dip key \<and> stk_src_port cn = k_dp key"

definition table_ok :: "'e stack \<Rightarrow> bool" where
  "table_ok s \<longleftrightarrow>
     (\<forall>key i. st_conns s key = Some i \<longrightarrow> i < st_next s \<and> conn_for key (st_objs s i))
     \<and> (\<forall>k k' i. st_conns s k = Some i \<longrightarrow> st_conns s k' = Some i \<longrightarrow> k = k')"

lemma table_okD: "table_ok s \<Longrightarrow> st_conns s key = Some i \<Longrightarrow> i < st_next s \<and> conn_for key (st_objs s i)"
  by (simp add: table_ok_def)

text \<open>What can happen to the table and the objects: entries go, objects keep their addresses.\<close>

lemma table_ok_shrink:
  assumes "table_ok s" and "\<And>k i. st_conns s' k = Some i \<Longrightarrow> st_conns s k = Some i"
    and "st_next s' = st_next s" and "\<And>k i. st_conns s k = Some i \<Longrightarrow> conn_for k (st_objs s i) \<Longrightarrow> conn_for k (st_objs s' i)"
  shows "table_ok s'"
  using assms unfolding table_ok_def by metis

lemma table_ok_new:
  assumes "table_ok s" and "st_conns s key = None" and "conn_for key cn"
  shows "table_ok (s\<lparr>st_conns := (st_conns s)(key := Some (st_next s)),
     st_objs := (st_objs s)(st_next s := cn), st_next := st_next s + 1\<rparr>)"
  using assms unfolding table_ok_def by (auto simp: less_Suc_eq split: if_splits)

lemma table_ok_reap: "table_ok s \<Longrightarrow> table_ok (reap s)"
  by (erule table_ok_shrink) (auto simp: reap_def split: if_splits)

lemma reap_id: "st_done s = [] \<Longrightarrow> reap s = s"
  by (simp add: reap_def)

lemma table_ok_irrelevant:
  "table_ok (s\<lparr>st_threads := ts\<rparr>) = table_ok s" "table_ok (s\<lparr>st_os := e\<rparr>) = table_ok s"
  "table_ok (s\<lparr>st_done := d\<rparr>) = table_ok s" "table_ok (s\<lparr>st_eport := p\<rparr>) = table_ok s"
  by (simp_all add: table_ok_def)

lemma table_ok_cong:
  "table_ok s \<Longrightarrow> st_conns s' = st_conns s \<Longrightarrow> st_objs s' = st_objs s \<Longrightarrow> st_next s' = st_next s \<Longrightarrow> table_ok s'"
  by (simp only: table_ok_def)

lemma table_ok_tcp_data:
  "tcp_data os cfg s key i seq flags data = Some (s', fs) \<Longrightarrow> table_ok s \<Longrightarrow> table_ok s'"
  by (rule table_ok_shrink [of s])
    (auto simp: tcp_data_def Let_def conn_for_def bind_eq_Some_conv split: if_splits)

lemma table_ok_segment:
  assumes seg: "tcp_segment os cfg s eth_src key seq ack_v flags fetch = Some (s', fs)" and ok: "table_ok s"
  shows "table_ok s'"
proof (cases "st_conns s key")
  case None
  have nc: "conn_for key (new_conn key eth_src seq)" by (simp add: conn_for_def new_conn_def)
  have "table_ok (s\<lparr>st_conns := (st_conns s)(key := Some (st_next s)),
      st_objs := (st_objs s)(st_next s := new_conn key eth_src seq), st_next := st_next s + 1, st_threads := ts\<rparr>)" for ts
    by (rule table_ok_cong [OF table_ok_new [OF ok None nc]]) simp_all
  with None seg ok show ?thesis
    by (auto simp: tcp_segment_def bind_eq_Some_conv split: if_splits)
next
  case (Some i)
  have est: "table_ok (s\<lparr>st_objs := (st_objs s)(i := (st_objs s i)\<lparr>c_state := ESTABLISHED\<rparr>), st_threads := ts\<rparr>)" for ts
    by (rule table_ok_shrink [OF ok]) (auto simp: conn_for_def)
  have rst: "table_ok (s\<lparr>st_objs := (st_objs s)(i := (st_objs s i)\<lparr>c_stop := True\<rparr>), st_conns := (st_conns s)(key := None)\<rparr>)"
    by (rule table_ok_shrink [OF ok]) (auto simp: conn_for_def split: if_splits)
  from seg Some ok est rst show ?thesis
    by (auto simp: tcp_segment_def Let_def bind_eq_Some_conv split: if_splits dest: table_ok_tcp_data)
qed

lemma table_ok_tcp:
  "handle_tcp os cfg s eth_src src dst bs plen = Some (s', fs) \<Longrightarrow> table_ok s \<Longrightarrow> table_ok s'"
  by (auto simp: handle_tcp_def bind_eq_Some_conv Let_def split: if_splits dest!: table_ok_segment intro: table_ok_reap)

lemma table_ok_inbound:
  assumes "inbound_fwd cfg fd port s = Some (s', fs)" and "table_ok s"
  shows "table_ok s'"
proof -
  let ?key = "inbound_key cfg port (st_eport s)" and ?cn = "inbound_conn cfg fd port (st_eport s)"
  have cn: "conn_for ?key ?cn" by (simp add: conn_for_def inbound_conn_def inbound_key_def)
  from assms(1) have s': "s' = s\<lparr>st_eport := st_eport s + 1, st_objs := (st_objs s)(st_next s := ?cn),
      st_next := st_next s + 1,
      st_conns := (case st_conns s ?key of None \<Rightarrow> (st_conns s)(?key := Some (st_next s)) | Some _ \<Rightarrow> st_conns s)\<rparr>"
    by (auto simp: inbound_fwd_def Let_def bind_eq_Some_conv)
  show ?thesis
  proof (cases "st_conns s ?key")
    case None
    show ?thesis unfolding s' by (rule table_ok_cong [OF table_ok_new [OF assms(2) None cn]]) (simp_all add: None)
  next
    case (Some i)
    with assms(2) show ?thesis unfolding s' table_ok_def by (auto simp: less_Suc_eq)
  qed
qed

lemma table_ok_frame: "handle_frame os cfg s f = Some (s', fs) \<Longrightarrow> table_ok s \<Longrightarrow> table_ok s'"
  by (auto simp: handle_frame_def Let_def bind_eq_Some_conv table_ok_irrelevant split: if_splits prod.splits
      intro: table_ok_tcp)

text \<open>
  C13. The connection table stays consistent: in every state the stack can reach from its initial
  state, by any interleaving of guest frames and thread steps, each table entry refers to an existing
  connection object whose addresses are the entry's key with source and destination swapped, and no
  two entries share an object. So what the stack sends on a connection goes to the guest endpoint that
  opened it.
\<close>

theorem conn_table_consistent:
  assumes "(net_step os cfg)\<^sup>*\<^sup>* (stack_new e) s" and "st_conns s key = Some i"
  shows "i < st_next s \<and> conn_for key (st_objs s i) \<and> (\<forall>key'. st_conns s key' = Some i \<longrightarrow> key' = key)"
proof -
  have "table_ok s"
    using assms(1)
  proof (induction rule: rtranclp_induct)
    case base
    show ?case by (simp add: table_ok_def stack_new_def)
  next
    case (step s s')
    from step.hyps(2) step.IH show ?case
    proof (induction rule: net_step.induct)
      case (connect i fd s s' fs)
      then show ?case
        by - (rule table_ok_shrink [of s], auto simp: connect_ok_def Let_def bind_eq_Some_conv conn_for_def)
    next
      case (relay i data s s' fs)
      then show ?case
        by - (rule table_ok_shrink [of s], auto simp: relay_data_def Let_def bind_eq_Some_conv conn_for_def)
    next
      case (relay_eof i key s s' fs)
      then show ?case
        by - (rule table_ok_shrink [of s], auto simp: relay_end_def Let_def bind_eq_Some_conv conn_for_def split: if_splits)
    next
      case (no_connect s key)
      then show ?case by - (rule table_ok_shrink [of s], auto simp: connect_fail_def split: if_splits)
    next
      case (inbound_late s key)
      then show ?case by - (rule table_ok_shrink [of s], auto simp: inbound_timeout_def split: if_splits)
    next
      case (inbound_again port eport s s' fs)
      then show ?case by (auto simp: inbound_retry_def bind_eq_Some_conv split: option.splits if_splits)
    next
      case (frame s f s' fs)
      then show ?case by (rule table_ok_frame)
    next
      case (inbound fd port s s' fs)
      then show ?case by (rule table_ok_inbound)
    qed
  qed
  with assms(2) show ?thesis unfolding table_ok_def by blast
qed

lemma net_default_macs [simp]:
  "length (gw_mac net_config_default) = 6" "length (guest_mac net_config_default) = 6"
  by (simp_all add: net_config_default_def)

lemma send_tcp_empty: "length mac = 6 \<Longrightarrow> length (gw_mac cfg) = 6 \<Longrightarrow>
  \<exists>f. send_tcp cfg mac sip sp dip dp seq ack flags [] = Some f"
  using emit_ip_eq [of mac cfg "tcp_hdr sp dp seq ack flags _"] by (simp add: send_tcp_def Let_def)

theorem conn_table_consistent_witness:
  "\<exists>s. (net_step demo_net_os net_config_default)\<^sup>*\<^sup>* (stack_new []) s
     \<and> st_conns s (inbound_key net_config_default 22 49152) = Some 0
     \<and> conn_for (inbound_key net_config_default 22 49152) (st_objs s 0)"
proof -
  have "\<exists>f. conn_reply net_config_default (inbound_conn net_config_default 5 22 49152)
      (inbound_isn 49152) 0 TF_SYN [] = Some f"
    using send_tcp_empty [of "guest_mac net_config_default" net_config_default]
    by (simp add: conn_reply_def inbound_conn_def)
  then obtain f s where s: "inbound_fwd net_config_default 5 22 (stack_new ([] :: u8 list)) = Some (s, [f])"
    "st_conns s (inbound_key net_config_default 22 49152) = Some 0"
    by (auto simp: inbound_fwd_def Let_def stack_new_def)
  then have r: "(net_step demo_net_os net_config_default)\<^sup>*\<^sup>* (stack_new []) s"
    by (auto intro: net_step.inbound)
  from conn_table_consistent [OF r s(2)] r s(2) show ?thesis by blast
qed

section \<open>TCP data transfer\<close>

text \<open>A well-formed segment is parsed into its fields.\<close>

lemma handle_tcp_parse:
  "handle_tcp os cfg s eth_src src dst (tcp_hdr sp dp seq ack flags ck @ data) (20 + length data)
     = tcp_segment os cfg (reap s) eth_src \<lparr>k_sip = src, k_dip = dst, k_sp = sp, k_dp = dp\<rparr> seq ack flags (Some data)"
proof -
  have "unat (drop_bit 4 (0x50 :: u8)) * 4 = 20" by simp
  then show ?thesis
    unfolding handle_tcp_def by (simp add: rd16_def rd32_def rd8_def rdn_def tcp_hdr_fields Let_def)
qed

text \<open>
  What a write to a connected socket does: \<open>got e fd\<close> are the bytes that socket \<open>fd\<close> has taken so far. A call takes a prefix of
  what it is given, after what was taken before, and touches no other socket.
\<close>

definition sock_laws :: "'e net_os \<Rightarrow> ('e \<Rightarrow> int \<Rightarrow> u8 list) \<Rightarrow> bool" where
  "sock_laws os got \<longleftrightarrow> (\<forall>e fd bs. let (e', n) = sock_write os e fd bs
     in n \<le> length bs \<and> got e' fd = got e fd @ take n bs \<and> (\<forall>fd'. fd' \<noteq> fd \<longrightarrow> got e' fd' = got e fd'))"

text \<open>The socket takes everything, or everything up to a call that fails, which is the last one.\<close>

definition taken :: "'e net_os \<Rightarrow> ('e \<Rightarrow> int \<Rightarrow> u8 list) \<Rightarrow> int \<Rightarrow> u8 list \<Rightarrow> 'e \<Rightarrow> 'e \<Rightarrow> bool" where
  "taken os got fd bs e e' \<longleftrightarrow> (\<exists>k \<le> length bs. got e' fd = got e fd @ take k bs
     \<and> (k < length bs \<longrightarrow> (\<exists>e1. got e1 fd = got e fd @ take k bs \<and> sock_write os e1 fd (drop k bs) = (e', 0)))
     \<and> (\<forall>fd'. fd' \<noteq> fd \<longrightarrow> got e' fd' = got e fd'))"

lemma write_loop_taken: "sock_laws os got \<Longrightarrow> taken os got fd bs e (write_loop os fd e bs)"
proof (induction os fd e bs rule: write_loop.induct)
  case (1 os fd e bs)
  obtain e' n where w: "sock_write os e fd bs = (e', n)" by fastforce
  with 1(2) have law: "n \<le> length bs" "got e' fd = got e fd @ take n bs" "\<forall>fd'. fd' \<noteq> fd \<longrightarrow> got e' fd' = got e fd'"
    unfolding sock_laws_def by (metis (mono_tags, lifting) case_prod_conv)+
  consider "bs = []" | (fail) "bs \<noteq> []" "n = 0" | (go) "bs \<noteq> []" "n \<noteq> 0" by blast
  then show ?case
  proof cases
    case fail
    with w law show ?thesis by (auto simp: write_loop.simps [of os fd e bs] taken_def intro!: exI [of _ 0] exI [of _ e])
  next
    case go
    with 1(1) w 1(2) have "taken os got fd (drop n bs) e' (write_loop os fd e' (drop n bs))" by simp
    then obtain k where k: "k \<le> length bs - n" "got (write_loop os fd e' (drop n bs)) fd = got e' fd @ take k (drop n bs)"
      "k < length bs - n \<longrightarrow> (\<exists>e1. got e1 fd = got e' fd @ take k (drop n bs)
        \<and> sock_write os e1 fd (drop k (drop n bs)) = (write_loop os fd e' (drop n bs), 0))"
      "\<forall>fd'. fd' \<noteq> fd \<longrightarrow> got (write_loop os fd e' (drop n bs)) fd' = got e' fd'"
      by (auto simp: taken_def)
    have l: "write_loop os fd e bs = write_loop os fd e' (drop n bs)" using go w by (simp add: write_loop.simps [of os fd e bs])
    have t: "got e' fd @ take k (drop n bs) = got e fd @ take (n + k) bs" using law(2) by (simp add: take_add)
    show ?thesis unfolding taken_def l
      using k law(1,3) by (intro exI [of _ "n + k"]) (auto simp: t add.commute)
  qed (simp add: write_loop.simps taken_def)
qed

text \<open>
  C21. Data on an established connection, in a segment without SYN, FIN or RST. In order
  (its sequence number is the next one expected), the data goes to the host socket of the connection and to no other, all of it unless a
  write fails; the expected sequence number advances by its length modulo \<open>2^32\<close>, and one segment without data that acknowledges exactly that
  number is sent back to the guest from the other end of the connection; out of order, the segment changes nothing and
  is not answered.
\<close>

theorem tcp_established_data:
  assumes key: "key = \<lparr>k_sip = src, k_dip = dst, k_sp = sp, k_dp = dp\<rparr>" "st_done s = []" "st_conns s key = Some i"
    and est: "c_state (st_objs s i) = ESTABLISHED" "c_fd (st_objs s i) \<ge> 0"
    and mac: "length (c_guest_mac (st_objs s i)) = 6" "length (gw_mac cfg) = 6"
    and flags: "flags AND TF_SYN = 0" "flags AND TF_RST = 0" "flags AND TF_FIN = 0" and data: "data \<noteq> []"
    and laws: "sock_laws os got"
  shows "if seq = g_nxt (st_objs s i)
    then \<exists>s' f. handle_tcp os cfg s eth_src src dst (tcp_hdr sp dp seq ack flags ck @ data) (20 + length data) = Some (s', [f])
      \<and> taken os got (c_fd (st_objs s i)) data (st_os s) (st_os s')
      \<and> st_objs s' i = (st_objs s i)\<lparr>g_nxt := seq + of_nat (length data)\<rparr> \<and> (\<forall>j. j \<noteq> i \<longrightarrow> st_objs s' j = st_objs s j)
      \<and> st_conns s' = st_conns s
      \<and> length f = 54 \<and> take 6 f = c_guest_mac (st_objs s i)
      \<and> ntohl_at f 26 = stk_src_ip (st_objs s i) \<and> ntohs_at f 34 = stk_src_port (st_objs s i)
      \<and> ntohl_at f 30 = stk_dst_ip (st_objs s i) \<and> ntohs_at f 36 = stk_dst_port (st_objs s i)
      \<and> ntohl_at f 38 = h_nxt (st_objs s i) \<and> ntohl_at f 42 = seq + of_nat (length data) \<and> f ! 47 = TF_ACK
    else handle_tcp os cfg s eth_src src dst (tcp_hdr sp dp seq ack flags ck @ data) (20 + length data) = Some (s, [])"
proof -
  have r: "reap s = s" using key(2) by (rule reap_id)
  have syn: "\<not> (flags AND TF_SYN \<noteq> 0 \<and> flags AND TF_ACK = 0)" using flags by simp
  have seg: "handle_tcp os cfg s eth_src src dst (tcp_hdr sp dp seq ack flags ck @ data) (20 + length data)
      = tcp_data os cfg s key i seq flags (if seq = g_nxt (st_objs s i) then data else [])"
    unfolding handle_tcp_parse r key(1) [symmetric] tcp_segment_def using key(3) est flags syn by (simp add: Let_def)
  from send_tcp_frame [OF mac, of "[]" "stk_src_ip (st_objs s i)" "stk_src_port (st_objs s i)"
      "stk_dst_ip (st_objs s i)" "stk_dst_port (st_objs s i)" "h_nxt (st_objs s i)" "seq + of_nat (length data)" TF_ACK]
  obtain f where f: "send_tcp cfg (c_guest_mac (st_objs s i)) (stk_src_ip (st_objs s i)) (stk_src_port (st_objs s i))
      (stk_dst_ip (st_objs s i)) (stk_dst_port (st_objs s i)) (h_nxt (st_objs s i)) (seq + of_nat (length data)) TF_ACK [] = Some f"
    "length f = 54 \<and> take 6 f = c_guest_mac (st_objs s i)
      \<and> ntohl_at f 26 = stk_src_ip (st_objs s i) \<and> ntohs_at f 34 = stk_src_port (st_objs s i)
      \<and> ntohl_at f 30 = stk_dst_ip (st_objs s i) \<and> ntohs_at f 36 = stk_dst_port (st_objs s i)
      \<and> ntohl_at f 38 = h_nxt (st_objs s i) \<and> ntohl_at f 42 = seq + of_nat (length data) \<and> f ! 47 = TF_ACK" by auto
  show ?thesis
  proof (cases "seq = g_nxt (st_objs s i)")
    case True
    with est flags data f(1) write_loop_taken [OF laws] show ?thesis unfolding seg using f(2) by (simp add: tcp_data_def conn_reply_def Let_def)
  next
    case False
    with flags show ?thesis unfolding seg by (simp add: tcp_data_def Let_def)
  qed
qed

definition demo_conn :: tcp_conn where
  "demo_conn = \<lparr>stk_src_ip = 1, stk_dst_ip = 0x0A00020F, stk_src_port = 80, stk_dst_port = 40000,
     c_guest_mac = [0x52, 0x54, 0x00, 0x12, 0x34, 0x56], g_nxt = 100, h_nxt = 0x40000001, c_fd = 7,
     c_state = ESTABLISHED, c_stop = False\<rparr>"

definition demo_key :: conn_key where
  "demo_key = \<lparr>k_sip = 0x0A00020F, k_dip = 1, k_sp = 40000, k_dp = 80\<rparr>"

text \<open>Sockets that take all they are given.\<close>

definition demo_fd_os :: "(int \<Rightarrow> u8 list) net_os" where
  "demo_fd_os = \<lparr>udp_rt = (\<lambda>e _ _ _ _. (e, [])), sock_write = (\<lambda>e fd bs. (e(fd := e fd @ bs), length bs)), sock_shutdown = (\<lambda>e _. e)\<rparr>"

definition demo_stack :: "(int \<Rightarrow> u8 list) stack" where
  "demo_stack = (stack_new (\<lambda>_. []))\<lparr>st_conns := [demo_key \<mapsto> 0], st_objs := (\<lambda>_. demo_conn), st_next := 1\<rparr>"

theorem tcp_established_data_witness:
  "\<exists>s' f. handle_tcp demo_fd_os net_config_default demo_stack [] 0x0A00020F 1
       (tcp_hdr 40000 80 100 0x40000001 TF_ACK 0 @ [1, 2, 3]) 23 = Some (s', [f])
     \<and> g_nxt (st_objs s' 0) = 103 \<and> st_os s' 7 = [1, 2, 3] \<and> ntohl_at f 42 = 103"
proof -
  have d: "st_done demo_stack = []" "st_conns demo_stack demo_key = Some 0" "st_objs demo_stack 0 = demo_conn"
    "st_os demo_stack = (\<lambda>_. [])" by (simp_all add: demo_stack_def stack_new_def)
  have c: "c_state demo_conn = ESTABLISHED" "c_fd demo_conn = 7" "length (c_guest_mac demo_conn) = 6" "g_nxt demo_conn = 100"
    by (simp_all add: demo_conn_def)
  have laws: "sock_laws demo_fd_os (\<lambda>e. e)" by (simp add: sock_laws_def demo_fd_os_def)
  have all: "taken demo_fd_os (\<lambda>e. e) 7 bs e e' \<Longrightarrow> e' 7 = e 7 @ bs" for bs e e'
    by (auto simp: taken_def demo_fd_os_def)
  from tcp_established_data [OF demo_key_def, of demo_stack 0 net_config_default TF_ACK "[1, 2, 3]" demo_fd_os "\<lambda>e. e" 100 "[]" "0x40000001" 0] laws
  obtain s' f where "handle_tcp demo_fd_os net_config_default demo_stack [] 0x0A00020F 1
       (tcp_hdr 40000 80 100 0x40000001 TF_ACK 0 @ [1, 2, 3]) 23 = Some (s', [f])"
    "taken demo_fd_os (\<lambda>e. e) 7 [1, 2, 3] (\<lambda>_. []) (st_os s')" "g_nxt (st_objs s' 0) = 103" "ntohl_at f 42 = 103"
    by (auto simp: d c net_config_default_def)
  with all [OF this(2)] show ?thesis by (intro exI conjI) (assumption | simp)+
qed

text \<open>
  Inbound port forwarding never learns the guest's sequence number. After an accepted host
  connection and the guest's SYN-ACK the connection counts as established, but the stack has sent no
  ACK and still expects sequence number 0; any data segment with another sequence number is
  dropped: nothing reaches the host socket and nothing is sent back.
\<close>

theorem inbound_data_dropped:
  assumes start: "inbound_fwd cfg fd port s = Some (s1, fs)" "st_conns s key = None" "st_done s = []"
    and key: "key = inbound_key cfg port (st_eport s)"
    and seq: "seq \<noteq> 0" and flags: "flags AND TF_SYN = 0" "flags AND TF_RST = 0" "flags AND TF_FIN = 0"
  shows "\<exists>s2. handle_tcp os cfg s1 mac (guest_ip cfg) (gw_ip cfg)
        (tcp_hdr port (st_eport s) isn (inbound_isn (st_eport s) + 1) (TF_SYN OR TF_ACK) ck @ []) (20 + length ([] :: u8 list))
        = Some (s2, [])
      \<and> c_state (st_objs s2 (st_next s)) = ESTABLISHED \<and> g_nxt (st_objs s2 (st_next s)) = 0
      \<and> handle_tcp os cfg s2 mac (guest_ip cfg) (gw_ip cfg)
          (tcp_hdr port (st_eport s) seq ack flags ck' @ data) (20 + length data) = Some (s2, [])"
proof -
  let ?i = "st_next s" and ?cn = "inbound_conn cfg fd port (st_eport s)"
  have k: "\<lparr>k_sip = guest_ip cfg, k_dip = gw_ip cfg, k_sp = port, k_dp = st_eport s\<rparr> = key"
    by (simp add: key inbound_key_def)
  have s1: "s1 = s\<lparr>st_eport := st_eport s + 1, st_objs := (st_objs s)(?i := ?cn), st_next := ?i + 1,
      st_conns := (st_conns s)(key := Some ?i)\<rparr>"
    using start(1,2) key by (auto simp: inbound_fwd_def Let_def bind_eq_Some_conv)
  let ?s2 = "s1\<lparr>st_objs := (st_objs s1)(?i := ?cn\<lparr>c_state := ESTABLISHED\<rparr>), st_threads := st_threads s1 @ [Relay ?i key]\<rparr>"
  have r: "reap s1 = s1" "reap ?s2 = ?s2" using start(3) by (auto intro!: reap_id simp: s1)
  have fl: "(TF_SYN OR TF_ACK) AND TF_ACK \<noteq> 0" "(TF_SYN OR TF_ACK) AND TF_RST = 0" by simp_all
  have one: "handle_tcp os cfg s1 mac (guest_ip cfg) (gw_ip cfg)
      (tcp_hdr port (st_eport s) isn (inbound_isn (st_eport s) + 1) (TF_SYN OR TF_ACK) ck @ []) (20 + length ([] :: u8 list))
      = Some (?s2, [])"
    unfolding handle_tcp_parse r k tcp_segment_def using fl by (simp add: s1 inbound_conn_def Let_def)
  have two: "handle_tcp os cfg ?s2 mac (guest_ip cfg) (gw_ip cfg)
      (tcp_hdr port (st_eport s) seq ack flags ck' @ data) (20 + length data) = Some (?s2, [])"
    unfolding handle_tcp_parse r k tcp_segment_def using flags seq
    by (simp add: s1 inbound_conn_def Let_def tcp_data_def)
  show ?thesis
    by (rule exI [of _ ?s2]) (use one two in \<open>simp add: inbound_conn_def\<close>)
qed

theorem inbound_data_dropped_witness:
  "\<exists>s1 f s2. inbound_fwd net_config_default 5 22 (stack_new []) = Some (s1, [f])
     \<and> handle_tcp demo_net_os net_config_default s1 [] (guest_ip net_config_default) (gw_ip net_config_default)
         (tcp_hdr 22 49152 9000 (inbound_isn 49152 + 1) (TF_SYN OR TF_ACK) 0 @ []) 20 = Some (s2, [])
     \<and> handle_tcp demo_net_os net_config_default s2 [] (guest_ip net_config_default) (gw_ip net_config_default)
         (tcp_hdr 22 49152 9001 0 TF_ACK 0 @ [0x53, 0x53, 0x48]) 23 = Some (s2, [])"
proof -
  have "\<exists>f. conn_reply net_config_default (inbound_conn net_config_default 5 22 49152) (inbound_isn 49152) 0 TF_SYN [] = Some f"
    using send_tcp_empty [of "guest_mac net_config_default" net_config_default]
    by (simp add: conn_reply_def inbound_conn_def)
  then obtain s1 f where s1: "inbound_fwd net_config_default 5 22 (stack_new ([] :: u8 list)) = Some (s1, [f])"
    by (auto simp: inbound_fwd_def Let_def stack_new_def)
  have e: "st_eport (stack_new ([] :: u8 list)) = 49152" by (simp add: stack_new_def)
  from inbound_data_dropped [OF s1 _ _ refl, of 9001 TF_ACK demo_net_os "[]" 9000 0 0 0 "[0x53, 0x53, 0x48]", unfolded e]
  show ?thesis using s1 by (fastforce simp: stack_new_def)
qed

text \<open>
  Data that arrives together with FIN is written after the host socket was shut down: the stack
  calls \<^verbatim>\<open>shutdown(fd, SHUT_WR)\<close> first and \<^verbatim>\<open>write\<close> afterwards, so on a socket that takes no data
  after the shutdown the acknowledged data is lost.
\<close>

theorem fin_data_after_shutdown:
  assumes cn: "st_objs s i = cn" "c_fd cn \<ge> 0" "length (c_guest_mac cn) = 6" "length (gw_mac cfg) = 6"
    and fin: "flags AND TF_FIN \<noteq> 0" and data: "data \<noteq> []" "seq = g_nxt cn"
    and closed: "\<And>e bs. sock_write os (sock_shutdown os e (c_fd cn)) (c_fd cn) bs = (sock_shutdown os e (c_fd cn), 0)"
  shows "\<exists>s' f. tcp_data os cfg s key i seq flags data = Some (s', [f])
      \<and> st_os s' = sock_shutdown os (st_os s) (c_fd cn)
      \<and> g_nxt (st_objs s' i) = seq + of_nat (length data) + 1
      \<and> send_tcp cfg (c_guest_mac cn) (stk_src_ip cn) (stk_src_port cn) (stk_dst_ip cn) (stk_dst_port cn)
          (h_nxt cn) (seq + of_nat (length data) + 1) (TF_FIN OR TF_ACK) [] = Some f"
proof -
  obtain f where f: "send_tcp cfg (c_guest_mac cn) (stk_src_ip cn) (stk_src_port cn) (stk_dst_ip cn) (stk_dst_port cn)
      (h_nxt cn) (seq + of_nat (length data) + 1) (TF_FIN OR TF_ACK) [] = Some f"
    using send_tcp_empty [OF cn(3,4)] by blast
  have w: "write_loop os (c_fd cn) (sock_shutdown os (st_os s) (c_fd cn)) data = sock_shutdown os (st_os s) (c_fd cn)"
    using data(1) by (simp add: write_loop.simps closed Let_def)
  show ?thesis
    using cn(1,2) fin data f w by (simp add: tcp_data_def conn_reply_def Let_def)
qed

definition demo_shut_os :: "(u8 list \<times> bool) net_os" where
  "demo_shut_os = \<lparr>udp_rt = (\<lambda>e _ _ _ _. (e, [])),
     sock_write = (\<lambda>e _ bs. if snd e then (e, 0) else ((fst e @ bs, False), length bs)),
     sock_shutdown = (\<lambda>e _. (fst e, True))\<rparr>"

theorem fin_data_after_shutdown_witness:
  "\<exists>s' f. tcp_data demo_shut_os net_config_default ((stack_new ([], False))\<lparr>st_objs := (\<lambda>_. demo_conn)\<rparr>) demo_key 0 100
       (TF_FIN OR TF_ACK) [1, 2, 3] = Some (s', [f]) \<and> st_os s' = ([], True)"
proof -
  have c: "c_fd demo_conn = 7" "length (c_guest_mac demo_conn) = 6" "g_nxt demo_conn = 100" by (simp_all add: demo_conn_def)
  show ?thesis
    using fin_data_after_shutdown [of "(stack_new ([], False))\<lparr>st_objs := (\<lambda>_. demo_conn)\<rparr>" 0 demo_conn net_config_default
        "TF_FIN OR TF_ACK" "[1, 2, 3]" 100 demo_shut_os demo_key]
    by (auto simp: c demo_shut_os_def stack_new_def)
qed

section \<open>Lengths the stack trusts\<close>

lemma echo_frame:
  assumes "14 + 20 \<le> length frame" and "ntohs_at frame 12 = 0x0800" and "frame ! 14 = 0x45"
    and "unat (ntohs_at (drop 14 frame) 2) \<ge> 20" and "frame ! 23 = IP_ICMP"
  shows "handle_frame os cfg s frame = do { fs \<leftarrow> handle_icmp cfg (take 6 (drop 6 frame)) (ntohl_at (drop 14 frame) 12)
      (ntohl_at (drop 14 frame) 16) (drop 34 frame) (unat (ntohs_at (drop 14 frame) 2) - 20); Some (s, fs) }"
proof -
  have "(0x45 :: u8) AND 0x0F = 5" by simp
  then have "unat (frame ! 14 AND 0x0F) * 4 = 20" using assms(3) by simp
  moreover have "\<not> length frame < 14" "\<not> length frame - 14 < 20" using assms(1) by linarith+
  ultimately show ?thesis using assms by (simp add: handle_frame_def Let_def)
qed

text \<open>
  The IPv4 length of an ICMP echo request is trusted. When it is larger than the frame, the reply
  is built from memory behind the frame (an information leak to the guest); when it is larger than
  2034, the reply overruns the 2048-byte buffer on the stack. In both cases the stack reads or writes
  outside its buffers.
\<close>

theorem icmp_length_trusted:
  assumes "14 + 20 < length frame" and "ntohs_at frame 12 = 0x0800" and "frame ! 14 = 0x45"
    and "frame ! 23 = IP_ICMP" and "frame ! 34 = 8"
    and "len = unat (ntohs_at (drop 14 frame) 2)" and "28 \<le> len" and "len + 14 > length frame \<or> len > 2034"
  shows "handle_frame os cfg s frame = None"
proof -
  have t: "rd8 (drop 34 frame) 0 = Some 8" using assms(1,5) by (simp add: rd8_def)
  have "handle_icmp cfg m a b (drop 34 frame) (len - 20) = None" for m a b
  proof (cases "len + 14 > length frame")
    case True
    then have "rdn (drop 34 frame) 0 (len - 20) = None" using assms(1,7) by (auto simp: rdn_def)
    with t assms(7) show ?thesis by (simp add: handle_icmp_def)
  next
    case False
    then have "len > 2034" using assms(8) by blast
    moreover from this have "emit_ip cfg m x y p bs = None" if "length bs = len - 20" for x y p bs
      using that by (simp add: emit_ip_def Let_def)
    moreover have "length (take (len - 20) (drop 34 frame)) = len - 20" using False by simp
    ultimately show ?thesis using t assms(7) by (auto simp: handle_icmp_def rdn_def Let_def split: bind_splits)
  qed
  then show ?thesis using echo_frame [of frame os cfg s] assms by simp
qed

definition demo_ping :: "u8 list" where
  "demo_ping = [0x52, 0x55, 10, 0, 2, 2, 0x52, 0x54, 0, 0x12, 0x34, 0x56, 8, 0,
     0x45, 0, 4, 0, 0, 0, 0, 0, 64, 1, 0, 0, 10, 0, 2, 15, 10, 0, 2, 2, 8, 0, 0, 0, 0, 0, 0, 0]"

theorem icmp_length_trusted_witness: "handle_frame demo_net_os net_config_default (stack_new []) demo_ping = None"
  by (rule icmp_length_trusted [where len = 1024]) (simp_all add: demo_ping_def ntohs_at_def)

section \<open>DHCP\<close>

lemma length_dhcp_reply: "length xid = 4 \<Longrightarrow> length chaddr = 6 \<Longrightarrow> length (dhcp_reply cfg xid chaddr t) = 300"
  by (simp add: dhcp_reply_def dhcp_opt32_def)

lemma send_udp_eq:
  assumes "length mac = 6" and "length (gw_mac cfg) = 6" and "length data \<le> 1500"
  shows "\<exists>f. send_udp cfg mac sip sp dip dp data = Some f \<and> take 6 f = mac \<and> drop 42 f = data
    \<and> ntohl_at f 26 = sip \<and> ntohl_at f 30 = dip \<and> ntohs_at f 34 = sp \<and> ntohs_at f 36 = dp"
proof -
  let ?n = "of_nat (8 + length data) :: u16"
  let ?c = "transport_cksum sip dip IP_UDP (udp_hdr sp dp ?n 0 @ data)"
  let ?ck = "if ?c = 0 then 0xFFFF else ?c"
  let ?p = "udp_hdr sp dp ?n ?ck @ data"
  obtain f where f: "emit_ip cfg mac sip dip IP_UDP ?p = Some f" "take 6 f = mac" "ntohl_at f 26 = sip" "ntohl_at f 30 = dip"
    "drop 34 f = ?p" "length f = 34 + length ?p"
    using emit_ip_fields [OF assms(1,2), of ?p sip dip IP_UDP] assms(3) by auto
  have l: "34 \<le> length f" using f(6) by simp
  have at: "ntohs_at f (34 + i) = ntohs_at ?p i" for i
    unfolding f(5) [symmetric] using l by (simp add: ntohs_at_def add.assoc)
  have "ntohs_at ?p 0 = sp" "ntohs_at ?p 2 = dp"
    using ntohs_be16 [of "[]" sp "be16 dp @ be16 ?n @ le_bytes 2 (unat ?ck) @ data"]
      ntohs_be16 [of "be16 sp" dp "be16 ?n @ le_bytes 2 (unat ?ck) @ data"] by (simp_all add: udp_hdr_def)
  then have "ntohs_at f 34 = sp" "ntohs_at f 36 = dp" using at [of 0] at [of 2] by simp_all
  moreover have "drop 42 f = data"
    using arg_cong [OF f(5), of "drop 8"] by simp
  moreover have "send_udp cfg mac sip sp dip dp data = Some f"
    unfolding send_udp_def Let_def using f(1) assms(3) by (subst if_not_P) simp_all
  ultimately show ?thesis using f(2-4) by blast
qed

text \<open>
  DHCP. A DISCOVER (type 1) or REQUEST (type 3) whose options start with the message type is
  answered by one broadcast datagram from the gateway's port 67 to port 68 that repeats the
  transaction id and the client's hardware address, offers the configured guest address, and is an
  OFFER or an ACK respectively.
\<close>

theorem dhcp_answers:
  assumes "244 \<le> length bs" and "take 4 (drop 240 bs) = [53, 1, t, 255]" and "t = 1 \<or> t = 3"
    and "length (gw_mac cfg) = 6"
  shows "\<exists>f. handle_dhcp cfg bs (length bs) = Some [f] \<and> take 6 f = replicate 6 0xFF
    \<and> ntohl_at f 26 = gw_ip cfg \<and> ntohs_at f 34 = 67 \<and> ntohs_at f 36 = 68
    \<and> take 4 (drop 46 f) = take 4 (drop 4 bs) \<and> ntohl_at f 58 = guest_ip cfg
    \<and> take 6 (drop 70 f) = take 6 (drop 28 bs) \<and> f ! 284 = (if t = 1 then 2 else 5)"
proof -
  have nth: "bs ! (240 + j) = [53, 1, t, 255] ! j" if "j < 4" for j
    using assms(1) that by (subst assms(2) [symmetric]) simp
  have o: "rd8 bs 240 = Some 53" "rd8 bs 241 = Some 1" "rd8 bs 242 = Some t" "rd8 bs 243 = Some 255"
    using nth [of 0] nth [of 1] nth [of 2] nth [of 3] assms(1) by (simp_all add: rd8_def)
  have n: "\<not> 3 \<ge> length bs - 240" "\<not> 1 \<ge> length bs - 240" "\<not> 0 \<ge> length bs - 240" using assms(1) by linarith+
  have "dhcp_scan bs (length bs - 240) 3 t = Some t" using o(4) n(1) by (simp add: dhcp_scan.simps)
  then have scan: "dhcp_scan bs (length bs - 240) 0 0 = Some t"
    using o n(2,3) by (subst dhcp_scan.simps) (simp add: numeral_3_eq_3)
  let ?xid = "take 4 (drop 4 bs)" and ?ch = "take 6 (drop 28 bs)"
  let ?r = "dhcp_reply cfg ?xid ?ch t"
  have lr: "length ?r = 300" using assms(1) by (intro length_dhcp_reply) simp_all
  obtain f where f: "send_udp cfg (replicate 6 0xFF) (gw_ip cfg) 67 0xFFFFFFFF 68 ?r = Some f" "take 6 f = replicate 6 0xFF"
    "drop 42 f = ?r" "ntohl_at f 26 = gw_ip cfg" "ntohs_at f 34 = 67" "ntohs_at f 36 = 68"
    using send_udp_eq [of "replicate 6 0xFF" cfg ?r "gw_ip cfg" 67 "0xFFFFFFFF" 68] assms(4) lr by auto
  have h: "handle_dhcp cfg bs (length bs) = Some [f]"
    using assms(1,3) scan f(1) by (auto simp: handle_dhcp_def rdn_def)
  have at: "f ! (42 + j) = ?r ! j" for j
    using arg_cong [OF f(3), of length] lr by (subst f(3) [symmetric]) simp
  have "take 4 (drop 4 ?r) = ?xid" "take 6 (drop 28 ?r) = ?ch" "?r ! 242 = (if t = 1 then 2 else 5)"
    using assms(1) by (simp_all add: dhcp_reply_def nth_append dhcp_opt32_def be32_def)
  moreover have "take 4 (drop 46 f) = take 4 (drop 4 ?r)" "take 6 (drop 70 f) = take 6 (drop 28 ?r)"
    unfolding f(3) [symmetric] by simp_all
  moreover have "ntohl_at ?r 16 = guest_ip cfg"
    using ntohl_be32 [of "[2, 1, 6, 0] @ ?xid @ replicate 8 0" "guest_ip cfg"] assms(1) by (simp add: dhcp_reply_def)
  then have "ntohl_at f 58 = guest_ip cfg"
    using at [of 16] at [of 17] at [of 18] at [of 19] by (simp add: ntohl_at_def)
  moreover have "f ! 284 = ?r ! 242" using at [of 242] by simp
  ultimately show ?thesis using h f by simp
qed

theorem dhcp_answers_witness:
  "\<exists>f. handle_dhcp net_config_default (replicate 240 0 @ [53, 1, 1, 255]) 244 = Some [f]
     \<and> ntohl_at f 58 = 0x0A00020F \<and> f ! 284 = 2"
  using dhcp_answers [of "replicate 240 0 @ [53, 1, 1, 255]" 1 net_config_default]
  by (auto simp: net_config_default_def)

end
