(* ===== verification/Net_Listen.thy ===== *)
theory Net_Listen
  imports Network
begin

text \<open>
  Port forwarding and the life of the network stack object (\<^verbatim>\<open>src/src/hvf/network.cpp\<close>): the constructor starts one listening thread per
  port, each accepted connection gets a thread of its own that calls \<^verbatim>\<open>inbound_fwd\<close>, and the destructor joins the
  listening threads only. The interleavings of all these threads are a step relation.
\<close>

section \<open>State\<close>

text \<open>
  A listening thread opens its socket, is at the head of its loop, in \<^verbatim>\<open>poll\<close> and \<^verbatim>\<open>accept\<close>, or has returned. A forwarding thread has
  its connection and guest port, waits after its \<open>k\<close>-th SYN, or has returned.
\<close>

datatype listener = Opening | Waiting int | Polling int | Ended

datatype forwarder = Fwd_New int u16 | Fwd_Wait u16 u16 nat | Fwd_Done

text \<open>The object is in use, or its destructor is before its lock, before its joins, or done.\<close>

datatype stack_phase = Open_Stack | Clearing | Joining | Gone

record 'e netd =
  nd_stack :: "'e stack"
  nd_running :: bool
  nd_listeners :: "listener list"
  nd_fwds :: "forwarder list"
  nd_phase :: stack_phase
  nd_fds :: "int set"
  nd_after_free :: bool

definition netd_new :: "(u16 \<times> u16) list \<Rightarrow> 'e \<Rightarrow> 'e netd" where
  "netd_new ports e = \<lparr>nd_stack = stack_new e, nd_running = True, nd_listeners = map (\<lambda>_. Opening) ports, nd_fwds = [],
     nd_phase = Open_Stack, nd_fds = {}, nd_after_free = False\<rparr>"

section \<open>Steps\<close>

definition unanswered :: "net_config \<Rightarrow> u16 \<Rightarrow> u16 \<Rightarrow> 'e stack \<Rightarrow> bool" where
  "unanswered cfg guest_port eport s =
     (case st_conns s (inbound_key cfg guest_port eport) of None \<Rightarrow> False | Some i \<Rightarrow> c_state (st_objs s i) = SYNACK_SENT)"

definition clear_conns :: "'e stack \<Rightarrow> 'e stack" where
  "clear_conns s = s\<lparr>st_objs := (\<lambda>i. if Some i \<in> range (st_conns s) then (st_objs s i)\<lparr>c_stop := True\<rparr> else st_objs s i),
     st_conns := (\<lambda>_. None)\<rparr>"

text \<open>The listening thread \<open>i\<close> goes on, the forwarding thread \<open>j\<close> goes on and has used the object.\<close>

definition listen_to :: "nat \<Rightarrow> listener \<Rightarrow> 'e netd \<Rightarrow> 'e netd" where
  "listen_to i l s = s\<lparr>nd_listeners := (nd_listeners s)[i := l]\<rparr>"

definition forward_to :: "nat \<Rightarrow> forwarder \<Rightarrow> 'e stack \<Rightarrow> 'e netd \<Rightarrow> 'e netd" where
  "forward_to j f st s =
     s\<lparr>nd_stack := st, nd_fwds := (nd_fwds s)[j := f], nd_after_free := nd_after_free s \<or> nd_phase s = Gone\<rparr>"

text \<open>
  \<open>open_fail\<close> is a failure of \<^verbatim>\<open>socket\<close>, \<^verbatim>\<open>bind\<close> or \<^verbatim>\<open>listen\<close>; \<open>no_event\<close> a poll without event or a failed accept. The thread is then at
  the head of its loop, where it looks at \<^verbatim>\<open>running\<close>. These are the steps of the port forwarding and of the destructor.
\<close>

inductive netd_step :: "'e net_os \<Rightarrow> net_config \<Rightarrow> (u16 \<times> u16) list \<Rightarrow> 'e netd \<Rightarrow> 'e netd \<Rightarrow> bool" for os cfg ports where
  open_fail: "i < length (nd_listeners s) \<Longrightarrow> nd_listeners s ! i = Opening \<Longrightarrow> netd_step os cfg ports s (listen_to i Ended s)"
| open_ok: "i < length (nd_listeners s) \<Longrightarrow> nd_listeners s ! i = Opening \<Longrightarrow> fd \<notin> nd_fds s \<Longrightarrow>
    netd_step os cfg ports s (listen_to i (Waiting fd) (s\<lparr>nd_fds := insert fd (nd_fds s)\<rparr>))"
| poll: "i < length (nd_listeners s) \<Longrightarrow> nd_listeners s ! i = Waiting fd \<Longrightarrow> nd_running s \<Longrightarrow>
    netd_step os cfg ports s (listen_to i (Polling fd) s)"
| no_event: "i < length (nd_listeners s) \<Longrightarrow> nd_listeners s ! i = Polling fd \<Longrightarrow> netd_step os cfg ports s (listen_to i (Waiting fd) s)"
| accept: "i < length (nd_listeners s) \<Longrightarrow> nd_listeners s ! i = Polling fd \<Longrightarrow>
    netd_step os cfg ports s (listen_to i (Waiting fd) (s\<lparr>nd_fwds := nd_fwds s @ [Fwd_New cfd (snd (ports ! i))]\<rparr>))"
| unlisten: "i < length (nd_listeners s) \<Longrightarrow> nd_listeners s ! i = Waiting fd \<Longrightarrow> \<not> nd_running s \<Longrightarrow>
    netd_step os cfg ports s (listen_to i Ended (s\<lparr>nd_fds := nd_fds s - {fd}\<rparr>))"
| forward: "j < length (nd_fwds s) \<Longrightarrow> nd_fwds s ! j = Fwd_New cfd gp \<Longrightarrow> inbound_fwd cfg cfd gp (nd_stack s) = Some (st, fs) \<Longrightarrow>
    netd_step os cfg ports s (forward_to j (Fwd_Wait gp (st_eport (nd_stack s)) 1) st s)"
| syn: "j < length (nd_fwds s) \<Longrightarrow> nd_fwds s ! j = Fwd_Wait gp ep k \<Longrightarrow> k < 5 \<Longrightarrow> unanswered cfg gp ep (nd_stack s) \<Longrightarrow>
    inbound_retry cfg gp ep (nd_stack s) = Some (st, fs) \<Longrightarrow> netd_step os cfg ports s (forward_to j (Fwd_Wait gp ep (k + 1)) st s)"
| answered: "j < length (nd_fwds s) \<Longrightarrow> nd_fwds s ! j = Fwd_Wait gp ep k \<Longrightarrow> \<not> unanswered cfg gp ep (nd_stack s) \<Longrightarrow>
    netd_step os cfg ports s (forward_to j Fwd_Done (nd_stack s) s)"
| late: "j < length (nd_fwds s) \<Longrightarrow> nd_fwds s ! j = Fwd_Wait gp ep k \<Longrightarrow> 5 \<le> k \<Longrightarrow> unanswered cfg gp ep (nd_stack s) \<Longrightarrow>
    netd_step os cfg ports s (forward_to j Fwd_Done (inbound_timeout (inbound_key cfg gp ep) (nd_stack s)) s)"
| destroy: "nd_phase s = Open_Stack \<Longrightarrow> netd_step os cfg ports s (s\<lparr>nd_running := False, nd_phase := Clearing\<rparr>)"
| clear: "nd_phase s = Clearing \<Longrightarrow> netd_step os cfg ports s (s\<lparr>nd_stack := clear_conns (nd_stack s), nd_phase := Joining\<rparr>)"
| gone: "nd_phase s = Joining \<Longrightarrow> set (nd_listeners s) \<subseteq> {Ended} \<Longrightarrow> netd_step os cfg ports s (s\<lparr>nd_phase := Gone\<rparr>)"

text \<open>
  The rest of what happens to the object: frames of the guest, while it is in use (the CPUs have ended when it is destroyed, see \<open>Teardown\<close>),
  and the detached threads of connections, which connect and relay. Nobody waits for these: they go on while the object is destroyed, and
  afterwards, when they use what has been freed.
\<close>

definition touch :: "'e stack \<Rightarrow> 'e netd \<Rightarrow> 'e netd" where
  "touch st s = s\<lparr>nd_stack := st, nd_after_free := nd_after_free s \<or> nd_phase s = Gone\<rparr>"

inductive net_traffic :: "'e net_os \<Rightarrow> net_config \<Rightarrow> 'e netd \<Rightarrow> 'e netd \<Rightarrow> bool" for os cfg where
  guest: "nd_phase s = Open_Stack \<Longrightarrow> handle_frame os cfg (nd_stack s) f = Some (st, fs) \<Longrightarrow> net_traffic os cfg s (touch st s)"
| connected: "connect_ok cfg i fd (nd_stack s) = Some (st, fs) \<Longrightarrow> net_traffic os cfg s (touch st s)"
| refused: "net_traffic os cfg s (touch (connect_fail key (nd_stack s)) s)"
| relayed: "relay_data cfg i data (nd_stack s) = Some (st, fs) \<Longrightarrow> net_traffic os cfg s (touch st s)"
| relay_ends: "relay_end cfg i key (nd_stack s) = Some (st, fs) \<Longrightarrow> net_traffic os cfg s (touch st s)"

definition netd_any :: "'e net_os \<Rightarrow> net_config \<Rightarrow> (u16 \<times> u16) list \<Rightarrow> 'e netd \<Rightarrow> 'e netd \<Rightarrow> bool" where
  "netd_any os cfg ports s s' \<longleftrightarrow> netd_step os cfg ports s s' \<or> net_traffic os cfg s s'"

lemma net_traffic_keeps:
  "net_traffic os cfg s s' \<Longrightarrow> nd_listeners s' = nd_listeners s \<and> nd_fwds s' = nd_fwds s \<and> nd_phase s' = nd_phase s \<and> nd_fds s' = nd_fds s
    \<and> nd_running s' = nd_running s"
  by (induction rule: net_traffic.induct) (simp_all add: touch_def)

lemma listen_to_simps [simp]:
  "nd_listeners (listen_to i l s) = (nd_listeners s)[i := l]" "nd_running (listen_to i l s) = nd_running s"
  "nd_fwds (listen_to i l s) = nd_fwds s" "nd_phase (listen_to i l s) = nd_phase s" "nd_fds (listen_to i l s) = nd_fds s"
  "nd_stack (listen_to i l s) = nd_stack s" "nd_after_free (listen_to i l s) = nd_after_free s"
  by (simp_all add: listen_to_def)

lemma forward_to_simps [simp]:
  "nd_listeners (forward_to j f st s) = nd_listeners s" "nd_running (forward_to j f st s) = nd_running s"
  "nd_fwds (forward_to j f st s) = (nd_fwds s)[j := f]" "nd_phase (forward_to j f st s) = nd_phase s"
  "nd_fds (forward_to j f st s) = nd_fds s" "nd_stack (forward_to j f st s) = st"
  "nd_after_free (forward_to j f st s) \<longleftrightarrow> nd_after_free s \<or> nd_phase s = Gone"
  by (simp_all add: forward_to_def)

section \<open>The destructor returns\<close>

text \<open>What is left to do for each thread and for the destructor.\<close>

fun listener_left :: "listener \<Rightarrow> nat" where
  "listener_left Opening = 2"
| "listener_left (Waiting fd) = 1"
| "listener_left (Polling fd) = 8"
| "listener_left Ended = 0"

fun forwarder_left :: "forwarder \<Rightarrow> nat" where
  "forwarder_left (Fwd_New cfd gp) = 6"
| "forwarder_left (Fwd_Wait gp ep k) = 1 + (5 - k)"
| "forwarder_left Fwd_Done = 0"

fun phase_left :: "stack_phase \<Rightarrow> nat" where
  "phase_left Open_Stack = 3"
| "phase_left Clearing = 2"
| "phase_left Joining = 1"
| "phase_left Gone = 0"

definition netd_left :: "'e netd \<Rightarrow> nat" where
  "netd_left s = sum_list (map listener_left (nd_listeners s)) + sum_list (map forwarder_left (nd_fwds s)) + phase_left (nd_phase s)"

lemma sum_list_update_nat:
  fixes f :: "'a \<Rightarrow> nat"
  shows "i < length xs \<Longrightarrow> sum_list (map f (xs[i := x])) + f (xs ! i) = sum_list (map f xs) + f x"
  by (induction xs arbitrary: i) (auto split: nat.split simp: algebra_simps)

definition holds_fd :: "listener \<Rightarrow> int \<Rightarrow> bool" where
  "holds_fd l fd \<longleftrightarrow> l = Waiting fd \<or> l = Polling fd"

definition netd_inv :: "'e netd \<Rightarrow> bool" where
  "netd_inv s \<longleftrightarrow> (nd_phase s \<noteq> Open_Stack \<longrightarrow> \<not> nd_running s) \<and> (\<forall>fd \<in> nd_fds s. \<exists>l \<in> set (nd_listeners s). holds_fd l fd)"

lemma netd_inv_new: "netd_inv (netd_new ports e)"
  by (simp add: netd_inv_def netd_new_def)

lemma held_update:
  assumes "\<exists>l \<in> set ls. holds_fd l x" and "i < length ls" and "holds_fd (ls ! i) x \<Longrightarrow> holds_fd l' x"
  shows "\<exists>l \<in> set (ls[i := l']). holds_fd l x"
proof -
  obtain j where j: "j < length ls" "holds_fd (ls ! j) x" using assms(1) by (auto simp: in_set_conv_nth)
  then show ?thesis using assms(2,3)
    by (cases "j = i") (auto simp: in_set_conv_nth intro!: bexI [of _ "ls[i := l'] ! j"] exI [of _ j])
qed

lemma held_listen:
  assumes held: "\<forall>x \<in> fds. \<exists>l \<in> set ls. holds_fd l x" and i: "i < length ls"
    and l': "\<And>x. x \<in> fds' \<Longrightarrow> holds_fd (ls ! i) x \<Longrightarrow> holds_fd l' x" "\<And>x. x \<in> fds' \<Longrightarrow> x \<in> fds \<or> holds_fd l' x"
  shows "\<forall>x \<in> fds'. \<exists>l \<in> set (ls[i := l']). holds_fd l x"
proof
  fix x assume x: "x \<in> fds'"
  show "\<exists>l \<in> set (ls[i := l']). holds_fd l x"
  proof (cases "holds_fd l' x")
    case True
    then show ?thesis using i by (auto intro!: bexI [of _ l'] set_update_memI)
  next
    case False
    with x l'(2) held have "\<exists>l \<in> set ls. holds_fd l x" by blast
    then show ?thesis using held_update [OF _ i, of x l'] l'(1) [OF x] by blast
  qed
qed

lemma netd_inv_step: "netd_step os cfg ports s s' \<Longrightarrow> netd_inv s \<Longrightarrow> netd_inv s'"
proof (induction rule: netd_step.induct)
  case (open_fail i s)
  then show ?case using held_listen [of "nd_fds s" "nd_listeners s" i "nd_fds s" Ended] by (simp add: netd_inv_def holds_fd_def)
next
  case (open_ok i s fd)
  then show ?case using held_listen [of "nd_fds s" "nd_listeners s" i "insert fd (nd_fds s)" "Waiting fd"]
    by (simp add: netd_inv_def) (auto simp: holds_fd_def)
next
  case (poll i s fd)
  then show ?case using held_listen [of "nd_fds s" "nd_listeners s" i "nd_fds s" "Polling fd"] by (simp add: netd_inv_def) (simp add: holds_fd_def)
next
  case (no_event i s fd)
  then show ?case using held_listen [of "nd_fds s" "nd_listeners s" i "nd_fds s" "Waiting fd"] by (simp add: netd_inv_def) (simp add: holds_fd_def)
next
  case (accept i s fd cfd)
  then show ?case using held_listen [of "nd_fds s" "nd_listeners s" i "nd_fds s" "Waiting fd"] by (simp add: netd_inv_def) (simp add: holds_fd_def)
next
  case (unlisten i s fd)
  then show ?case using held_listen [of "nd_fds s" "nd_listeners s" i "nd_fds s - {fd}" Ended] by (simp add: netd_inv_def) (simp add: holds_fd_def)
qed (simp_all add: netd_inv_def)

lemma netd_left_step:
  "netd_step os cfg ports s s' \<Longrightarrow> nd_phase s \<noteq> Open_Stack \<Longrightarrow> netd_inv s \<Longrightarrow> netd_left s' < netd_left s \<and> nd_phase s' \<noteq> Open_Stack"
proof (induction rule: netd_step.induct)
  case (open_fail i s)
  with sum_list_update_nat [OF open_fail(1), of listener_left Ended] show ?case by (simp add: netd_left_def)
next
  case (open_ok i s fd)
  with sum_list_update_nat [OF open_ok(1), of listener_left "Waiting fd"] show ?case by (simp add: netd_left_def)
next
  case (poll i s fd)
  then show ?case by (simp add: netd_inv_def)
next
  case (no_event i s fd)
  with sum_list_update_nat [OF no_event(1), of listener_left "Waiting fd"] show ?case by (simp add: netd_left_def)
next
  case (accept i s fd cfd)
  with sum_list_update_nat [OF accept(1), of listener_left "Waiting fd"] show ?case by (simp add: netd_left_def)
next
  case (unlisten i s fd)
  with sum_list_update_nat [OF unlisten(1), of listener_left Ended] show ?case by (simp add: netd_left_def)
next
  case (forward j s cfd gp st fs)
  with sum_list_update_nat [OF forward(1), of forwarder_left "Fwd_Wait gp (st_eport (nd_stack s)) 1"] show ?case by (simp add: netd_left_def)
next
  case (syn j s gp ep k st fs)
  with sum_list_update_nat [OF syn(1), of forwarder_left "Fwd_Wait gp ep (k + 1)"] show ?case by (simp add: netd_left_def)
next
  case (answered j s gp ep k)
  with sum_list_update_nat [OF answered(1), of forwarder_left Fwd_Done] show ?case by (simp add: netd_left_def)
next
  case (late j s gp ep k)
  with sum_list_update_nat [OF late(1), of forwarder_left Fwd_Done] show ?case by (simp add: netd_left_def)
qed (simp_all add: netd_left_def)

lemma inbound_fwd_sends: "inbound_fwd cfg cfd gp s \<noteq> None"
  by (simp add: inbound_fwd_def conn_reply_def send_tcp_def emit_ip_def Let_def tcp_hdr_def be16_def)

lemma inbound_retry_sends: "inbound_retry cfg gp ep s \<noteq> None"
  by (simp add: inbound_retry_def send_tcp_def emit_ip_def Let_def tcp_hdr_def be16_def split: option.splits)

lemma netd_progress:
  assumes "\<nexists>s'. netd_step os cfg ports s s'" and "nd_phase s \<noteq> Open_Stack" and "netd_inv s"
  shows "nd_phase s = Gone \<and> set (nd_listeners s) \<subseteq> {Ended} \<and> set (nd_fwds s) \<subseteq> {Fwd_Done} \<and> nd_fds s = {}"
proof -
  have run: "\<not> nd_running s" using assms(2,3) by (simp add: netd_inv_def)
  have ended: "set (nd_listeners s) \<subseteq> {Ended}"
  proof
    fix l assume "l \<in> set (nd_listeners s)"
    then obtain i where i: "i < length (nd_listeners s)" "nd_listeners s ! i = l" by (auto simp: in_set_conv_nth)
    have "l \<noteq> Opening" using open_fail [OF i(1)] i(2) assms(1) by blast
    moreover have "l \<noteq> Waiting fd" for fd using unlisten [OF i(1) _ run] i(2) assms(1) by blast
    moreover have "l \<noteq> Polling fd" for fd using no_event [OF i(1)] i(2) assms(1) by blast
    ultimately show "l \<in> {Ended}" by (cases l) auto
  qed
  moreover have "set (nd_fwds s) \<subseteq> {Fwd_Done}"
  proof
    fix f assume "f \<in> set (nd_fwds s)"
    then obtain j where j: "j < length (nd_fwds s)" "nd_fwds s ! j = f" by (auto simp: in_set_conv_nth)
    have "f \<noteq> Fwd_New cfd gp" for cfd gp
    proof
      assume f: "f = Fwd_New cfd gp"
      obtain st fs where "inbound_fwd cfg cfd gp (nd_stack s) = Some (st, fs)" using inbound_fwd_sends by fastforce
      then show False using forward [OF j(1)] j(2) f assms(1) by blast
    qed
    moreover have "f \<noteq> Fwd_Wait gp ep k" for gp ep k
    proof
      assume f: "f = Fwd_Wait gp ep k"
      obtain st fs where "inbound_retry cfg gp ep (nd_stack s) = Some (st, fs)" using inbound_retry_sends by fastforce
      then show False using syn [OF j(1)] answered [OF j(1)] late [OF j(1)] j(2) f assms(1) by (meson not_le)
    qed
    ultimately show "f \<in> {Fwd_Done}" by (cases f) auto
  qed
  moreover have "nd_phase s = Gone"
    using assms(1,2) ended clear [of s] gone [of s] by (cases "nd_phase s") blast+
  moreover have "nd_fds s = {}"
    using assms(3) ended by (fastforce simp: netd_inv_def holds_fd_def)
  ultimately show ?thesis by simp
qed

lemma traffic_inv: "net_traffic os cfg s s' \<Longrightarrow> netd_inv s' = netd_inv s \<and> netd_left s' = netd_left s \<and> nd_phase s' = nd_phase s"
  using net_traffic_keeps [of os cfg s s'] by (simp add: netd_inv_def netd_left_def)

lemma traffics_inv:
  "(net_traffic os cfg)\<^sup>*\<^sup>* s s' \<Longrightarrow> netd_inv s' = netd_inv s \<and> netd_left s' = netd_left s \<and> nd_phase s' = nd_phase s"
  by (induction rule: rtranclp_induct) (auto dest: traffic_inv)

lemma netd_inv_reach: "(netd_any os cfg ports)\<^sup>*\<^sup>* (netd_new ports e) s \<Longrightarrow> netd_inv s"
  by (induction rule: rtranclp_induct) (auto simp: netd_any_def intro: netd_inv_new netd_inv_step dest: traffic_inv)

text \<open>
  C30. The destructor of the stack returns. From every state a stack can be in once its destructor has begun, whatever connections come in, whatever the
  detached threads of connections do in between and in whatever order all threads run: the threads of the port forwarding and the destructor take
  a bounded number of further steps; they can go on until the destructor has returned, every listening thread has ended and closed its socket, and
  every accepted connection has been given up or answered; and the connections' threads, which nobody waits for, change none of
  that.
\<close>

theorem stack_teardown:
  assumes "(netd_any os cfg ports)\<^sup>*\<^sup>* (netd_new ports e) s" and "nd_phase s \<noteq> Open_Stack"
  shows "\<forall>n s'. (((net_traffic os cfg)\<^sup>*\<^sup>* OO netd_step os cfg ports) ^^ n OO (net_traffic os cfg)\<^sup>*\<^sup>*) s s' \<longrightarrow> n \<le> netd_left s
    \<and> (nd_phase s' = Gone \<and> set (nd_listeners s') \<subseteq> {Ended} \<and> set (nd_fwds s') \<subseteq> {Fwd_Done} \<and> nd_fds s' = {}
       \<or> (\<exists>s''. netd_step os cfg ports s' s''))"
proof (intro allI impI)
  fix n s'
  assume "(((net_traffic os cfg)\<^sup>*\<^sup>* OO netd_step os cfg ports) ^^ n OO (net_traffic os cfg)\<^sup>*\<^sup>*) s s'"
  then obtain t where n: "(((net_traffic os cfg)\<^sup>*\<^sup>* OO netd_step os cfg ports) ^^ n) s t" and t: "(net_traffic os cfg)\<^sup>*\<^sup>* t s'" by blast
  have "netd_inv s" by (rule netd_inv_reach [OF assms(1)])
  with n have "netd_inv t \<and> nd_phase t \<noteq> Open_Stack \<and> n + netd_left t \<le> netd_left s"
  proof (induction n arbitrary: t)
    case 0
    with assms(2) show ?case by simp
  next
    case (Suc n)
    then obtain y z where y: "(((net_traffic os cfg)\<^sup>*\<^sup>* OO netd_step os cfg ports) ^^ n) s y" "(net_traffic os cfg)\<^sup>*\<^sup>* y z"
      "netd_step os cfg ports z t" by auto
    with Suc traffics_inv [OF y(2)] have "netd_inv z" "nd_phase z \<noteq> Open_Stack" "n + netd_left z \<le> netd_left s" by auto
    with netd_left_step [OF y(3)] netd_inv_step [OF y(3)] show ?case by force
  qed
  with traffics_inv [OF t] have "netd_inv s' \<and> nd_phase s' \<noteq> Open_Stack \<and> n \<le> netd_left s" by auto
  then show "n \<le> netd_left s \<and> (nd_phase s' = Gone \<and> set (nd_listeners s') \<subseteq> {Ended} \<and> set (nd_fwds s') \<subseteq> {Fwd_Done} \<and> nd_fds s' = {}
       \<or> (\<exists>s''. netd_step os cfg ports s' s''))"
    using netd_progress [of os cfg ports s'] by blast
qed

section \<open>The threads it does not wait for\<close>

text \<open>
  A forwarding thread can use the stack after it has been destroyed: a connection that is accepted while the machine is torn down
  gets a detached thread, which nobody joins. For any forwarded port some interleaving ends in a use of freed memory. The threads of the
  guest's own connections do the same (\<open>connected\<close>, \<open>relay_ends\<close> above when the object is gone).
\<close>

theorem forwarder_outlives_stack:
  "\<exists>s. (netd_step os cfg [port])\<^sup>*\<^sup>* (netd_new [port] e) s \<and> nd_phase s = Gone \<and> nd_after_free s"
proof -
  let ?step = "netd_step os cfg [port]"
  let ?s0 = "netd_new [port] e"
  let ?s1 = "listen_to 0 (Waiting 3) (?s0\<lparr>nd_fds := insert 3 (nd_fds ?s0)\<rparr>)"
  let ?s2 = "listen_to 0 (Polling 3) ?s1"
  let ?s3 = "?s2\<lparr>nd_running := False, nd_phase := Clearing\<rparr>"
  let ?s4 = "listen_to 0 (Waiting 3) (?s3\<lparr>nd_fwds := nd_fwds ?s3 @ [Fwd_New 4 (snd ([port] ! 0))]\<rparr>)"
  let ?s5 = "listen_to 0 Ended (?s4\<lparr>nd_fds := nd_fds ?s4 - {3}\<rparr>)"
  let ?s6 = "?s5\<lparr>nd_stack := clear_conns (nd_stack ?s5), nd_phase := Joining\<rparr>"
  let ?s7 = "?s6\<lparr>nd_phase := Gone\<rparr>"
  obtain st fs where f: "inbound_fwd cfg 4 (snd port) (nd_stack ?s7) = Some (st, fs)" using inbound_fwd_sends by fastforce
  let ?s8 = "forward_to 0 (Fwd_Wait (snd port) (st_eport (nd_stack ?s7)) 1) st ?s7"
  have a1: "?step ?s0 ?s1" by (rule open_ok) (simp_all add: netd_new_def)
  have a2: "?step ?s1 ?s2" by (rule poll) (simp_all add: netd_new_def)
  have a3: "?step ?s2 ?s3" by (rule destroy) (simp add: netd_new_def)
  have a4: "?step ?s3 ?s4" by (rule accept) (simp_all add: netd_new_def listen_to_def)
  have a5: "?step ?s4 ?s5" by (rule unlisten) (simp_all add: netd_new_def listen_to_def)
  have a6: "?step ?s5 ?s6" by (rule clear) (simp add: netd_new_def listen_to_def)
  have a7: "?step ?s6 ?s7" by (rule gone) (simp_all add: netd_new_def listen_to_def)
  have a8: "?step ?s7 ?s8" by (rule forward [OF _ _ f]) (simp_all add: netd_new_def listen_to_def)
  have "?step\<^sup>*\<^sup>* ?s0 ?s8"
    by (intro converse_rtranclp_into_rtranclp [where r = ?step, OF a1] converse_rtranclp_into_rtranclp [where r = ?step, OF a2] converse_rtranclp_into_rtranclp [where r = ?step, OF a3] converse_rtranclp_into_rtranclp [where r = ?step, OF a4] converse_rtranclp_into_rtranclp [where r = ?step, OF a5] converse_rtranclp_into_rtranclp [where r = ?step, OF a6] converse_rtranclp_into_rtranclp [where r = ?step, OF a7] converse_rtranclp_into_rtranclp [where r = ?step, OF a8]
      rtranclp.rtrancl_refl)
  moreover have "nd_phase ?s8 = Gone" "nd_after_free ?s8" by simp_all
  ultimately show ?thesis by blast
qed

text \<open>One port is forwarded; the destructor begins before the listening thread has opened its socket.\<close>

theorem stack_teardown_witness:
  "\<exists>s. (netd_any demo_net_os net_config_default [(2222, 22)])\<^sup>*\<^sup>* (netd_new [(2222, 22)] []) s \<and> nd_phase s = Clearing
    \<and> (\<nexists>n s'. (((net_traffic demo_net_os net_config_default)\<^sup>*\<^sup>* OO netd_step demo_net_os net_config_default [(2222, 22)]) ^^ n) s s' \<and> 4 < n)"
proof -
  let ?step = "netd_step demo_net_os net_config_default [(2222, 22)]"
  let ?traffic = "(net_traffic demo_net_os net_config_default)\<^sup>*\<^sup>*"
  let ?s0 = "netd_new [(2222, 22)] [] :: u8 list netd"
  let ?s1 = "?s0\<lparr>nd_running := False, nd_phase := Clearing\<rparr>"
  have "?step ?s0 ?s1" by (rule destroy) (simp add: netd_new_def)
  then have reach: "(netd_any demo_net_os net_config_default [(2222, 22)])\<^sup>*\<^sup>* ?s0 ?s1" by (blast intro: netd_any_def [THEN iffD2])
  have left: "netd_left ?s1 = 4" by (simp add: netd_left_def netd_new_def)
  have closing: "nd_phase ?s1 \<noteq> Open_Stack" by simp
  have "n \<le> 4" if "((?traffic OO ?step) ^^ n) ?s1 s'" for n s'
  proof -
    from that have "((?traffic OO ?step) ^^ n OO ?traffic) ?s1 s'" by (rule relcompp.relcompI) (rule rtranclp.rtrancl_refl)
    from stack_teardown [OF reach closing, rule_format, OF this] show ?thesis unfolding left by (rule conjunct1)
  qed
  then have "\<nexists>n s'. ((?traffic OO ?step) ^^ n) ?s1 s' \<and> 4 < n" by (meson not_le)
  moreover have "nd_phase ?s1 = Clearing" by simp
  ultimately show ?thesis using reach by blast
qed

end
