(* ===== verification/Net_Sockets.thy ===== *)
theory Net_Sockets
  imports Net_Listen
begin

text \<open>
  Who owns the objects and the sockets of TCP connections (\<^verbatim>\<open>src/src/hvf/network.cpp\<close>). A \<^verbatim>\<open>TcpConn\<close> is shared by the connection table and the
  detached threads that work on it; its destructor closes its socket. The connection table and what the threads do to it are those of \<open>Network\<close>
  and \<open>Net_Listen\<close>.
\<close>

section \<open>State\<close>

text \<open>
  The detached threads with what they hold: one that connects to a host, before and after its call of \<^verbatim>\<open>socket\<close>; a relay; a forwarding thread
  before and in \<^verbatim>\<open>inbound_fwd\<close>; one that has returned.
\<close>

datatype holder = Dial nat conn_key "int option" | Relaying nat conn_key | Accepted int u16 | Forwarding nat u16 u16 nat | Over

fun obj_of :: "holder \<Rightarrow> nat option" where
  "obj_of (Dial i _ _) = Some i"
| "obj_of (Relaying i _) = Some i"
| "obj_of (Forwarding i _ _ _) = Some i"
| "obj_of _ = None"

fun fd_of :: "holder \<Rightarrow> int option" where
  "fd_of (Dial _ _ fd) = fd"
| "fd_of (Accepted fd _) = Some fd"
| "fd_of _ = None"

fun holder_of :: "net_thread \<Rightarrow> holder" where
  "holder_of (Connect i key _ _) = Dial i key None"
| "holder_of (Relay i key) = Relaying i key"

record 'e conns =
  cs_stack :: "'e stack"
  cs_run :: "holder list"
  cs_dead :: "nat set"
  cs_open :: "int set"

definition conns_new :: "'e \<Rightarrow> 'e conns" where
  "conns_new e = \<lparr>cs_stack = stack_new e, cs_run = [], cs_dead = {}, cs_open = {}\<rparr>"

section \<open>Destruction\<close>

definition held :: "nat \<Rightarrow> 'e conns \<Rightarrow> bool" where
  "held i s \<longleftrightarrow> i \<in> ran (st_conns (cs_stack s)) \<or> (\<exists>h \<in> set (cs_run s). obj_of h = Some i)"

text \<open>\<^verbatim>\<open>TcpConn::~TcpConn\<close>.\<close>

definition tcp_conn_dtor :: "tcp_conn \<Rightarrow> int set \<Rightarrow> int set" where
  "tcp_conn_dtor cn fds = (if c_fd cn \<ge> 0 then fds - {c_fd cn} else fds)"

text \<open>At the end of an action the objects are destroyed whose last owner has gone.\<close>

definition released :: "'e conns \<Rightarrow> nat list" where
  "released s = filter (\<lambda>i. \<not> held i s \<and> i \<notin> cs_dead s) [0..<st_next (cs_stack s)]"

definition release :: "'e conns \<Rightarrow> 'e conns" where
  "release s =
     (let gone = released s
      in s\<lparr>cs_dead := cs_dead s \<union> set gone, cs_open := fold (\<lambda>i. tcp_conn_dtor (st_objs (cs_stack s) i)) gone (cs_open s)\<rparr>)"

section \<open>Steps\<close>

text \<open>Thread \<open>j\<close> goes on as \<open>h\<close>, with the stack \<open>st\<close>.\<close>

definition go_on :: "nat \<Rightarrow> holder \<Rightarrow> 'e stack \<Rightarrow> 'e conns \<Rightarrow> 'e conns" where
  "go_on j h st s = s\<lparr>cs_stack := st, cs_run := (cs_run s)[j := h]\<rparr>"

text \<open>
  \<open>no_socket\<close>, \<open>socket\<close>, \<open>dialed\<close> and \<open>refused\<close> are the thread of an outgoing connection, \<open>relay\<close> and \<open>relayed\<close> that of
  \<^verbatim>\<open>launch_io_thread\<close>, \<open>accept\<close> to \<open>late\<close> those of forwarded ports, \<open>clear\<close> the destructor of the stack. The system gives a descriptor that is not
  open.
\<close>

inductive conns_act :: "'e net_os \<Rightarrow> net_config \<Rightarrow> 'e conns \<Rightarrow> 'e conns \<Rightarrow> bool" for os cfg where
  frame: "handle_frame os cfg (cs_stack s) f = Some (st, fs) \<Longrightarrow>
    conns_act os cfg s (s\<lparr>cs_stack := st, cs_run := cs_run s @ map holder_of (drop (length (st_threads (cs_stack s))) (st_threads st))\<rparr>)"
| no_socket: "j < length (cs_run s) \<Longrightarrow> cs_run s ! j = Dial i key None \<Longrightarrow>
    conns_act os cfg s (go_on j Over (connect_fail key (cs_stack s)) s)"
| socket: "j < length (cs_run s) \<Longrightarrow> cs_run s ! j = Dial i key None \<Longrightarrow> 0 \<le> fd \<Longrightarrow> fd \<notin> cs_open s \<Longrightarrow>
    conns_act os cfg s ((go_on j (Dial i key (Some fd)) (cs_stack s) s)\<lparr>cs_open := insert fd (cs_open s)\<rparr>)"
| dialed: "j < length (cs_run s) \<Longrightarrow> cs_run s ! j = Dial i key (Some fd) \<Longrightarrow> connect_ok cfg i fd (cs_stack s) = Some (st, fs) \<Longrightarrow>
    conns_act os cfg s (go_on j Over st s)"
| refused: "j < length (cs_run s) \<Longrightarrow> cs_run s ! j = Dial i key (Some fd) \<Longrightarrow>
    conns_act os cfg s ((go_on j Over (connect_fail key (cs_stack s)) s)\<lparr>cs_open := cs_open s - {fd}\<rparr>)"
| relay: "j < length (cs_run s) \<Longrightarrow> cs_run s ! j = Relaying i key \<Longrightarrow> relay_data cfg i data (cs_stack s) = Some (st, fs) \<Longrightarrow>
    conns_act os cfg s (go_on j (Relaying i key) st s)"
| relayed: "j < length (cs_run s) \<Longrightarrow> cs_run s ! j = Relaying i key \<Longrightarrow> relay_end cfg i key (cs_stack s) = Some (st, fs) \<Longrightarrow>
    conns_act os cfg s (go_on j Over st s)"
| accept: "0 \<le> fd \<Longrightarrow> fd \<notin> cs_open s \<Longrightarrow>
    conns_act os cfg s (s\<lparr>cs_run := cs_run s @ [Accepted fd gp], cs_open := insert fd (cs_open s)\<rparr>)"
| forward: "j < length (cs_run s) \<Longrightarrow> cs_run s ! j = Accepted fd gp \<Longrightarrow> inbound_fwd cfg fd gp (cs_stack s) = Some (st, fs) \<Longrightarrow>
    conns_act os cfg s (go_on j (Forwarding (st_next (cs_stack s)) gp (st_eport (cs_stack s)) 1) st s)"
| syn: "j < length (cs_run s) \<Longrightarrow> cs_run s ! j = Forwarding i gp ep k \<Longrightarrow> k < 5 \<Longrightarrow> unanswered cfg gp ep (cs_stack s) \<Longrightarrow>
    inbound_retry cfg gp ep (cs_stack s) = Some (st, fs) \<Longrightarrow> conns_act os cfg s (go_on j (Forwarding i gp ep (k + 1)) st s)"
| answered: "j < length (cs_run s) \<Longrightarrow> cs_run s ! j = Forwarding i gp ep k \<Longrightarrow> \<not> unanswered cfg gp ep (cs_stack s) \<Longrightarrow>
    conns_act os cfg s (go_on j Over (cs_stack s) s)"
| late: "j < length (cs_run s) \<Longrightarrow> cs_run s ! j = Forwarding i gp ep k \<Longrightarrow> 5 \<le> k \<Longrightarrow> unanswered cfg gp ep (cs_stack s) \<Longrightarrow>
    conns_act os cfg s (go_on j Over (inbound_timeout (inbound_key cfg gp ep) (cs_stack s)) s)"
| clear: "conns_act os cfg s (s\<lparr>cs_stack := clear_conns (cs_stack s)\<rparr>)"

definition conns_step :: "'e net_os \<Rightarrow> net_config \<Rightarrow> 'e conns \<Rightarrow> 'e conns \<Rightarrow> bool" where
  "conns_step os cfg s s' \<longleftrightarrow> (\<exists>s1. conns_act os cfg s s1 \<and> s' = release s1)"

section \<open>Ownership\<close>

text \<open>What owns a socket: an object that is alive, or a thread that has not yet given it to its object.\<close>

datatype owner = Obj nat | Thr nat

fun owns :: "'e conns \<Rightarrow> owner \<Rightarrow> int option" where
  "owns s (Obj i) =
     (if i < st_next (cs_stack s) \<and> i \<notin> cs_dead s \<and> c_fd (st_objs (cs_stack s) i) \<ge> 0 then Some (c_fd (st_objs (cs_stack s) i)) else None)"
| "owns s (Thr j) = (if j < length (cs_run s) then fd_of (cs_run s ! j) else None)"

text \<open>Each open socket has exactly one owner.\<close>

definition owned :: "('o \<Rightarrow> int option) \<Rightarrow> int set \<Rightarrow> bool" where
  "owned f fds \<longleftrightarrow> (\<forall>x. x \<in> fds \<longleftrightarrow> (\<exists>o1. f o1 = Some x)) \<and> (\<forall>x o1 o2. f o1 = Some x \<longrightarrow> f o2 = Some x \<longrightarrow> o1 = o2)"

lemma owned_iff: "owned f fds \<Longrightarrow> x \<in> fds \<longleftrightarrow> (\<exists>o1. f o1 = Some x)"
  by (simp add: owned_def)

lemma owned_unique: "owned f fds \<Longrightarrow> f o1 = Some x \<Longrightarrow> f o2 = Some x \<Longrightarrow> o1 = o2"
  by (simp add: owned_def)

lemma owned_new:
  assumes "owned f fds" and "x \<notin> fds" and "f k = None"
  shows "owned (f(k \<mapsto> x)) (insert x fds)"
proof -
  have other: "(f(k \<mapsto> x)) o1 = Some y \<longleftrightarrow> (if o1 = k then y = x else f o1 = Some y)" for o1 y by auto
  have free: "f o1 \<noteq> Some x" for o1 using owned_iff [OF assms(1), of x] assms(2) by simp
  show ?thesis
    unfolding owned_def other using owned_iff [OF assms(1)] owned_unique [OF assms(1)] assms(3) free
    by (metis insert_iff option.distinct(1))
qed

lemma owned_drop:
  assumes "owned f fds" and "f k = Some x"
  shows "owned (f(k := None)) (fds - {x})"
proof -
  have other: "(f(k := None)) o1 = Some y \<longleftrightarrow> o1 \<noteq> k \<and> f o1 = Some y" for o1 y by auto
  have "f o1 = Some x \<longleftrightarrow> o1 = k" for o1 using owned_unique [OF assms(1)] assms(2) by blast
  then show ?thesis
    unfolding owned_def other using owned_iff [OF assms(1)] owned_unique [OF assms(1)]
    by (metis Diff_iff insert_iff empty_iff option.inject)
qed

lemma owned_move:
  assumes "owned f fds" and "f k = Some x" and "f l = None"
  shows "owned (f(k := None, l \<mapsto> x)) fds"
proof -
  have "(f(k := None)) l = None" "x \<notin> fds - {x}" "x \<in> fds" using assms by (auto simp: owned_def)
  with owned_new [OF owned_drop [OF assms(1,2)]] show ?thesis by (metis insert_Diff)
qed

section \<open>What the operations do to the table and the objects\<close>

text \<open>Nothing that matters here: entries may go, sockets stay, and no object gets out of or into \<open>CONNECTING\<close>.\<close>

definition benign :: "'e stack \<Rightarrow> 'e stack \<Rightarrow> bool" where
  "benign s s' \<longleftrightarrow> st_next s' = st_next s \<and> ran (st_conns s') \<subseteq> ran (st_conns s)
     \<and> (\<forall>i. c_fd (st_objs s' i) = c_fd (st_objs s i) \<and> (c_state (st_objs s' i) = CONNECTING \<longleftrightarrow> c_state (st_objs s i) = CONNECTING))"

text \<open>A new object \<open>st_next s\<close> with the descriptor \<open>fd\<close>, in the table or not.\<close>

definition adds :: "'e stack \<Rightarrow> 'e stack \<Rightarrow> int \<Rightarrow> tcp_state \<Rightarrow> bool" where
  "adds s s' fd q \<longleftrightarrow> st_next s' = Suc (st_next s) \<and> ran (st_conns s') \<subseteq> insert (st_next s) (ran (st_conns s))
     \<and> (\<forall>i. i \<noteq> st_next s \<longrightarrow> st_objs s' i = st_objs s i)
     \<and> c_fd (st_objs s' (st_next s)) = fd \<and> c_state (st_objs s' (st_next s)) = q"

lemma benign_refl [simp]: "benign s s"
  by (simp add: benign_def)

lemma benignI:
  assumes "st_next s' = st_next s" and "ran (st_conns s') \<subseteq> ran (st_conns s)" and "st_objs s' = (st_objs s)(i := cn)"
    and "c_fd cn = c_fd (st_objs s i)" and "c_state cn = CONNECTING \<longleftrightarrow> c_state (st_objs s i) = CONNECTING"
  shows "benign s s'"
  using assms by (simp add: benign_def)

lemma benign_trans: "benign s t \<Longrightarrow> benign t u \<Longrightarrow> benign s u"
  by (auto simp: benign_def)

lemma ran_del: "ran (m(k := None)) \<subseteq> ran m"
  by (auto simp: ran_def)

lemma ran_put: "ran (m(k \<mapsto> v)) \<subseteq> insert v (ran m)"
  by (auto simp: ran_def)

lemma benign_reap: "benign s (reap s)" "st_threads (reap s) = st_threads s"
  by (auto simp: benign_def reap_def ran_def split: if_splits)

lemma benign_parts:
  "benign s (s\<lparr>st_os := e\<rparr>)" "benign s (connect_fail key s)" "benign s (inbound_timeout key s)" "benign s (clear_conns s)"
  using ran_del [of "st_conns s" key]
  by (simp_all add: benign_def connect_fail_def inbound_timeout_def clear_conns_def)

lemma benign_relay: "relay_data cfg i data s = Some (s', fs) \<Longrightarrow> benign s s'" "relay_end cfg i key s = Some (s', fs) \<Longrightarrow> benign s s'"
  "inbound_retry cfg gp ep s = Some (s', fs) \<Longrightarrow> benign s s'"
  by (auto simp: benign_def relay_data_def relay_end_def inbound_retry_def Let_def bind_eq_Some_conv split: if_splits option.splits)

lemma benign_tcp_data: "tcp_data os cfg s key i seq flags data = Some (s', fs) \<Longrightarrow> benign s s' \<and> st_threads s' = st_threads s"
  using ran_del [of "st_conns s" key] by (auto simp: benign_def tcp_data_def Let_def bind_eq_Some_conv split: if_splits)

text \<open>A frame changes nothing, completes a handshake, which starts a relay, or begins a connection.\<close>

definition frame_effect :: "'e stack \<Rightarrow> 'e stack \<Rightarrow> bool" where
  "frame_effect s s' \<longleftrightarrow>
     benign s s' \<and> st_threads s' = st_threads s
     \<or> benign s s' \<and> (\<exists>i key. st_threads s' = st_threads s @ [Relay i key] \<and> i \<in> ran (st_conns s) \<and> c_state (st_objs s i) \<noteq> CONNECTING)
     \<or> adds s s' (- 1) CONNECTING \<and> (\<exists>key ip port. st_threads s' = st_threads s @ [Connect (st_next s) key ip port])"

lemma segment_effect: "tcp_segment os cfg s eth_src key seq ack_v flags fetch = Some (s', fs) \<Longrightarrow> frame_effect s s'"
proof (cases "st_conns s key")
  case None
  assume seg: "tcp_segment os cfg s eth_src key seq ack_v flags fetch = Some (s', fs)"
  show ?thesis
  proof (cases "flags AND TF_SYN \<noteq> 0 \<and> flags AND TF_ACK = 0")
    case True
    with seg None have "s' = s\<lparr>st_conns := (st_conns s)(key := Some (st_next s)), st_objs := (st_objs s)(st_next s := new_conn key eth_src seq),
        st_next := st_next s + 1, st_threads := st_threads s @ [Connect (st_next s) key (k_dip key) (k_dp key)]\<rparr>"
      by (simp add: tcp_segment_def)
    then show ?thesis
      using ran_put [of "st_conns s" key "st_next s"] by (simp add: frame_effect_def adds_def new_conn_def)
  next
    case False
    with seg None have "s' = s" by (auto simp: tcp_segment_def bind_eq_Some_conv split: if_splits)
    then show ?thesis by (simp add: frame_effect_def)
  qed
next
  case (Some i)
  assume seg: "tcp_segment os cfg s eth_src key seq ack_v flags fetch = Some (s', fs)"
  have ran: "i \<in> ran (st_conns s)" using Some by (rule ranI)
  show ?thesis
  proof (cases "flags AND TF_SYN \<noteq> 0 \<and> flags AND TF_ACK = 0")
    case True
    with seg Some have "s' = s" by (simp add: tcp_segment_def)
    then show ?thesis by (simp add: frame_effect_def)
  next
    case False
    note seg = seg [unfolded tcp_segment_def if_not_P [OF False] Some option.case]
    consider (rst) "flags AND TF_RST \<noteq> 0" | (ack) "flags AND TF_RST = 0" "c_state (st_objs s i) = SYNACK_SENT"
      | (other) "flags AND TF_RST = 0" "c_state (st_objs s i) \<noteq> SYNACK_SENT" by blast
    then show ?thesis
    proof cases
      case rst
      with seg have s': "s' = s\<lparr>st_objs := (st_objs s)(i := (st_objs s i)\<lparr>c_stop := True\<rparr>), st_conns := (st_conns s)(key := None)\<rparr>"
        by (simp add: Let_def)
      have "benign s s'" unfolding s' by (rule benignI [of _ _ i "(st_objs s i)\<lparr>c_stop := True\<rparr>"]) (simp_all add: ran_del)
      then show ?thesis by (simp add: frame_effect_def s')
    next
      case ack
      have "benign s (s\<lparr>st_objs := (st_objs s)(i := (st_objs s i)\<lparr>c_state := ESTABLISHED\<rparr>), st_threads := ts\<rparr>)" for ts
        by (rule benignI [of _ _ i "(st_objs s i)\<lparr>c_state := ESTABLISHED\<rparr>"]) (simp_all add: ack)
      with seg ack ran show ?thesis by (auto simp: Let_def frame_effect_def split: if_splits)
    next
      case other
      with seg show ?thesis
        by (auto simp: Let_def bind_eq_Some_conv frame_effect_def split: if_splits dest: benign_tcp_data)
    qed
  qed
qed

lemma tcp_effect: "handle_tcp os cfg s eth_src src dst bs plen = Some (s', fs) \<Longrightarrow> frame_effect s s'"
proof (cases "plen < 20")
  case True
  assume "handle_tcp os cfg s eth_src src dst bs plen = Some (s', fs)"
  with True show ?thesis by (simp add: handle_tcp_def frame_effect_def)
next
  case False
  assume "handle_tcp os cfg s eth_src src dst bs plen = Some (s', fs)"
  with False obtain key seq ack_v flags fetch where "tcp_segment os cfg (reap s) eth_src key seq ack_v flags fetch = Some (s', fs)"
    by (auto simp: handle_tcp_def bind_eq_Some_conv Let_def)
  then have "frame_effect (reap s) s'" by (rule segment_effect)
  moreover have r: "benign s (reap s)" "st_threads (reap s) = st_threads s" by (rule benign_reap)+
  moreover have "st_next (reap s) = st_next s" "st_objs (reap s) = st_objs s" "ran (st_conns (reap s)) \<subseteq> ran (st_conns s)"
    using r(1) by (simp_all add: benign_def reap_def)
  ultimately show ?thesis
    unfolding frame_effect_def adds_def by (auto intro: benign_trans)
qed

lemma handle_frame_effect: "handle_frame os cfg s f = Some (s', fs) \<Longrightarrow> frame_effect s s'"
proof -
  assume "handle_frame os cfg s f = Some (s', fs)"
  then consider "s' = s" | (udp) e where "s' = s\<lparr>st_os := e\<rparr>"
    | (tcp) eth_src src dst bs plen where "handle_tcp os cfg s eth_src src dst bs plen = Some (s', fs)"
    by (auto simp: handle_frame_def Let_def bind_eq_Some_conv split: if_splits prod.splits)
  then show ?thesis
  proof cases
    case udp
    then show ?thesis using benign_parts(1) [of s e] by (simp add: frame_effect_def)
  qed (auto simp: frame_effect_def dest: tcp_effect)
qed

lemma inbound_effect: "inbound_fwd cfg fd gp s = Some (s', fs) \<Longrightarrow> adds s s' fd SYNACK_SENT"
  using ran_put [of "st_conns s" "inbound_key cfg gp (st_eport s)" "st_next s"]
  by (auto simp: inbound_fwd_def Let_def bind_eq_Some_conv adds_def inbound_conn_def split: option.splits)

section \<open>The invariant\<close>

text \<open>
  Whatever is held is alive; each open socket has one owner; an object that is past \<open>CONNECTING\<close> has its socket, one that
  a thread still connects has none, and no second thread.
\<close>

definition conns_ok :: "'e conns \<Rightarrow> bool" where
  "conns_ok s \<longleftrightarrow>
     (\<forall>i. held i s \<longrightarrow> i < st_next (cs_stack s) \<and> i \<notin> cs_dead s) \<and> cs_dead s \<subseteq> {..<st_next (cs_stack s)}
     \<and> owned (owns s) (cs_open s) \<and> (\<forall>x \<in> cs_open s. 0 \<le> x)
     \<and> (\<forall>i. held i s \<longrightarrow> c_state (st_objs (cs_stack s) i) \<noteq> CONNECTING \<longrightarrow> 0 \<le> c_fd (st_objs (cs_stack s) i))
     \<and> (\<forall>j i key fd. j < length (cs_run s) \<longrightarrow> cs_run s ! j = Dial i key fd \<longrightarrow> c_fd (st_objs (cs_stack s) i) < 0
          \<and> (\<forall>k key' fd'. k < length (cs_run s) \<longrightarrow> cs_run s ! k = Dial i key' fd' \<longrightarrow> k = j))
     \<and> (\<forall>i key. Relaying i key \<in> set (cs_run s) \<longrightarrow> c_state (st_objs (cs_stack s) i) \<noteq> CONNECTING)"

lemma conns_okD:
  assumes "conns_ok s"
  shows "held i s \<Longrightarrow> i < st_next (cs_stack s)" "held i s \<Longrightarrow> i \<notin> cs_dead s" "i \<in> cs_dead s \<Longrightarrow> i < st_next (cs_stack s)"
    "owned (owns s) (cs_open s)" "x \<in> cs_open s \<Longrightarrow> 0 \<le> x"
    "held i s \<Longrightarrow> c_state (st_objs (cs_stack s) i) \<noteq> CONNECTING \<Longrightarrow> 0 \<le> c_fd (st_objs (cs_stack s) i)"
    "j < length (cs_run s) \<Longrightarrow> cs_run s ! j = Dial i key fd \<Longrightarrow> c_fd (st_objs (cs_stack s) i) < 0"
    "j < length (cs_run s) \<Longrightarrow> cs_run s ! j = Dial i key fd \<Longrightarrow> k < length (cs_run s) \<Longrightarrow> cs_run s ! k = Dial i key' fd' \<Longrightarrow> k = j"
    "Relaying i key \<in> set (cs_run s) \<Longrightarrow> c_state (st_objs (cs_stack s) i) \<noteq> CONNECTING"
  using assms unfolding conns_ok_def by blast+

lemma conns_okI:
  assumes "\<And>i. held i s \<Longrightarrow> i < st_next (cs_stack s) \<and> i \<notin> cs_dead s
      \<and> (c_state (st_objs (cs_stack s) i) \<noteq> CONNECTING \<longrightarrow> 0 \<le> c_fd (st_objs (cs_stack s) i))"
    and "\<And>i. i \<in> cs_dead s \<Longrightarrow> i < st_next (cs_stack s)" and "owned (owns s) (cs_open s)" and "\<And>x. x \<in> cs_open s \<Longrightarrow> 0 \<le> x"
    and "\<And>j i key fd. j < length (cs_run s) \<Longrightarrow> cs_run s ! j = Dial i key fd \<Longrightarrow> c_fd (st_objs (cs_stack s) i) < 0"
    and "\<And>j k i key fd key' fd'. j < length (cs_run s) \<Longrightarrow> cs_run s ! j = Dial i key fd \<Longrightarrow> k < length (cs_run s) \<Longrightarrow>
      cs_run s ! k = Dial i key' fd' \<Longrightarrow> k = j"
    and "\<And>i key. Relaying i key \<in> set (cs_run s) \<Longrightarrow> c_state (st_objs (cs_stack s) i) \<noteq> CONNECTING"
  shows "conns_ok s"
  unfolding conns_ok_def using assms by blast

lemma heldI: "j < length (cs_run s) \<Longrightarrow> obj_of (cs_run s ! j) = Some i \<Longrightarrow> held i s"
  unfolding held_def by (auto intro!: nth_mem)

text \<open>One thread goes on, with the same object or without, while the table and the objects change in a benign way.\<close>

definition same_task :: "holder \<Rightarrow> holder \<Rightarrow> bool" where
  "same_task h h' \<longleftrightarrow> h' = Over \<or> h' = h \<or> (case (h, h') of (Dial i k _, Dial i' k' _) \<Rightarrow> i = i' \<and> k = k' | (Forwarding i _ _ _, Forwarding i' _ _ _) \<Rightarrow> i = i' | _ \<Rightarrow> False)"

lemma same_task_obj: "same_task h h' \<Longrightarrow> obj_of h' = Some i \<Longrightarrow> obj_of h = Some i"
  by (cases h; cases h') (auto simp: same_task_def)

lemma held_go: "benign (cs_stack s) st \<Longrightarrow> j < length (cs_run s) \<Longrightarrow> same_task (cs_run s ! j) h \<Longrightarrow> held i (go_on j h st s) \<Longrightarrow> held i s"
proof -
  assume b: "benign (cs_stack s) st" and j: "j < length (cs_run s)" and t: "same_task (cs_run s ! j) h" and held: "held i (go_on j h st s)"
  show "held i s"
  proof (cases "i \<in> ran (st_conns st)")
    case True
    with b show ?thesis by (auto simp: held_def benign_def)
  next
    case False
    with held obtain x where x: "x \<in> set ((cs_run s)[j := h])" "obj_of x = Some i" by (auto simp: held_def go_on_def)
    then have "x = h \<or> x \<in> set (cs_run s)" using set_update_subset_insert by fastforce
    with x(2) same_task_obj [OF t] heldI [OF j] show ?thesis by (auto simp: held_def)
  qed
qed

lemma owns_go: "benign (cs_stack s) st \<Longrightarrow> j < length (cs_run s) \<Longrightarrow> owns (go_on j h st s) = (owns s)(Thr j := fd_of h)"
proof
  fix x assume "benign (cs_stack s) st" "j < length (cs_run s)"
  then show "owns (go_on j h st s) x = ((owns s)(Thr j := fd_of h)) x"
    by (cases x) (simp_all add: benign_def go_on_def nth_list_update)
qed

lemma owns_open [simp]: "owns (s\<lparr>cs_open := x\<rparr>) = owns s"
proof
  fix x show "owns (s\<lparr>cs_open := y\<rparr>) x = owns s x" for y by (cases x) simp_all
qed

lemma held_open [simp]: "held i (s\<lparr>cs_open := x\<rparr>) = held i s"
  by (simp add: held_def)

lemma conns_ok_go:
  assumes ok: "conns_ok s" and b: "benign (cs_stack s) st" and j: "j < length (cs_run s)" and t: "same_task (cs_run s ! j) h"
    and own: "owned ((owns s)(Thr j := fd_of h)) fds" "\<And>x. x \<in> fds \<Longrightarrow> 0 \<le> x"
  shows "conns_ok ((go_on j h st s)\<lparr>cs_open := fds\<rparr>)"
proof -
  note D = conns_okD [OF ok]
  have st: "st_next st = st_next (cs_stack s)" "c_fd (st_objs st i) = c_fd (st_objs (cs_stack s) i)"
    "c_state (st_objs st i) = CONNECTING \<longleftrightarrow> c_state (st_objs (cs_stack s) i) = CONNECTING" for i using b by (simp_all add: benign_def)
  have held: "held i (go_on j h st s) \<Longrightarrow> held i s" for i by (rule held_go [OF b j t])
  have dial: "\<exists>fd'. cs_run s ! k = Dial i key fd'" if "k < length (cs_run s)" "(cs_run s)[j := h] ! k = Dial i key fd" for k i key fd
    using that t by (cases "k = j"; cases "cs_run s ! j") (auto simp: same_task_def)
  let ?s = "(go_on j h st s)\<lparr>cs_open := fds\<rparr>"
  have f: "cs_stack ?s = st" "cs_run ?s = (cs_run s)[j := h]" "cs_dead ?s = cs_dead s" "cs_open ?s = fds" by (simp_all add: go_on_def)
  show ?thesis
  proof (rule conns_okI; unfold f held_open)
    show "i < st_next st \<and> i \<notin> cs_dead s \<and> (c_state (st_objs st i) \<noteq> CONNECTING \<longrightarrow> 0 \<le> c_fd (st_objs st i))"
      if "held i (go_on j h st s)" for i using D(1,2,6) [OF held [OF that]] by (simp add: st)
    show "owned (owns ?s) fds" using own(1) by (simp add: owns_go [OF b j])
    show "c_fd (st_objs st i) < 0" if l: "l < length ((cs_run s)[j := h])" "(cs_run s)[j := h] ! l = Dial i key fd" for l i key fd
      using dial [of l i key fd] D(7) l by (auto simp: st)
    show "k = l" if "l < length ((cs_run s)[j := h])" "(cs_run s)[j := h] ! l = Dial i key fd"
      "k < length ((cs_run s)[j := h])" "(cs_run s)[j := h] ! k = Dial i key' fd'" for l k i key fd key' fd'
    proof -
      from that dial [of l] dial [of k] obtain fd1 fd2 where "cs_run s ! l = Dial i key fd1" "cs_run s ! k = Dial i key' fd2" by fastforce
      with D(8) [of l i key fd1 k key' fd2] that show ?thesis by simp
    qed
    show "c_state (st_objs st i) \<noteq> CONNECTING" if "Relaying i key \<in> set ((cs_run s)[j := h])" for i key
    proof -
      have "Relaying i key = h \<or> Relaying i key \<in> set (cs_run s)" using that set_update_subset_insert by fastforce
      then have "Relaying i key \<in> set (cs_run s)" using t nth_mem [OF j] by (cases "cs_run s ! j") (auto simp: same_task_def)
      then show ?thesis using D(9) by (simp add: st)
    qed
  qed (use own(2) D(3) st in auto)
qed

text \<open>A frame starts a thread: a relay, or the thread that connects a new object.\<close>

lemma conns_ok_relay:
  assumes ok: "conns_ok s" and b: "benign (cs_stack s) st" and i: "i \<in> ran (st_conns (cs_stack s))"
    and q: "c_state (st_objs (cs_stack s) i) \<noteq> CONNECTING"
  shows "conns_ok (s\<lparr>cs_stack := st, cs_run := cs_run s @ [Relaying i key]\<rparr>)"
proof -
  let ?s = "s\<lparr>cs_stack := st, cs_run := cs_run s @ [Relaying i key]\<rparr>"
  note D = conns_okD [OF ok]
  have st: "st_next st = st_next (cs_stack s)" "c_fd (st_objs st i) = c_fd (st_objs (cs_stack s) i)"
    "c_state (st_objs st i) = CONNECTING \<longleftrightarrow> c_state (st_objs (cs_stack s) i) = CONNECTING" for i using b by (simp_all add: benign_def)
  have held: "held k ?s \<Longrightarrow> held k s" for k using b i by (auto simp: held_def benign_def)
  have "owns ?s x = owns s x" for x by (cases x) (auto simp: st nth_append)
  then have own: "owns ?s = owns s" ..
  have old: "l < length (cs_run s) \<and> cs_run s ! l = Dial k key1 fd" if "l < length (cs_run ?s)" "cs_run ?s ! l = Dial k key1 fd" for l k key1 fd
    using that by (auto simp: nth_append less_Suc_eq split: if_splits)
  show ?thesis
  proof (rule conns_okI)
    show "k < st_next (cs_stack ?s) \<and> k \<notin> cs_dead ?s \<and> (c_state (st_objs (cs_stack ?s) k) \<noteq> CONNECTING \<longrightarrow> 0 \<le> c_fd (st_objs (cs_stack ?s) k))"
      if "held k ?s" for k using D(1,2,6) [OF held [OF that]] by (simp add: st)
    show "owned (owns ?s) (cs_open ?s)" using D(4) by (simp add: own)
    show "c_fd (st_objs (cs_stack ?s) k) < 0" if "l < length (cs_run ?s)" "cs_run ?s ! l = Dial k key1 fd" for l k key1 fd
      using old [OF that] D(7) by (auto simp: st)
    show "m = l" if "l < length (cs_run ?s)" "cs_run ?s ! l = Dial k key1 fd" "m < length (cs_run ?s)" "cs_run ?s ! m = Dial k key2 fd2"
      for l m k key1 fd key2 fd2 using old [OF that(1,2)] old [OF that(3,4)] D(8) by blast
    show "c_state (st_objs (cs_stack ?s) k) \<noteq> CONNECTING" if "Relaying k key1 \<in> set (cs_run ?s)" for k key1
      using that q D(9) by (auto simp: st)
  qed (use D(3,5) in \<open>auto simp: st\<close>)
qed

lemma conns_ok_dial:
  assumes ok: "conns_ok s" and a: "adds (cs_stack s) st (- 1) CONNECTING"
  shows "conns_ok (s\<lparr>cs_stack := st, cs_run := cs_run s @ [Dial (st_next (cs_stack s)) key None]\<rparr>)"
proof -
  let ?n = "st_next (cs_stack s)"
  let ?s = "s\<lparr>cs_stack := st, cs_run := cs_run s @ [Dial ?n key None]\<rparr>"
  note D = conns_okD [OF ok]
  have st: "st_next st = Suc ?n" "k \<noteq> ?n \<Longrightarrow> st_objs st k = st_objs (cs_stack s) k" "c_fd (st_objs st ?n) = - 1"
    "c_state (st_objs st ?n) = CONNECTING" "ran (st_conns st) \<subseteq> insert ?n (ran (st_conns (cs_stack s)))" for k
    using a by (simp_all add: adds_def)
  have held: "held k ?s \<Longrightarrow> held k s \<or> k = ?n" for k using st(5) by (auto simp: held_def)
  have "owns ?s x = owns s x" for x
    by (cases x) (auto simp: st nth_append less_Suc_eq)
  then have own: "owns ?s = owns s" ..
  have old: "if l = length (cs_run s) then k = ?n else l < length (cs_run s) \<and> cs_run s ! l = Dial k key1 fd \<and> k < ?n"
    if "l < length (cs_run ?s)" "cs_run ?s ! l = Dial k key1 fd" for l k key1 fd
    using that D(1) heldI [of l s k] by (auto simp: nth_append less_Suc_eq split: if_splits)
  show ?thesis
  proof (rule conns_okI)
    show "k < st_next (cs_stack ?s) \<and> k \<notin> cs_dead ?s \<and> (c_state (st_objs (cs_stack ?s) k) \<noteq> CONNECTING \<longrightarrow> 0 \<le> c_fd (st_objs (cs_stack ?s) k))"
      if "held k ?s" for k
    proof (cases "k = ?n")
      case True
      with D(3) [of ?n] st(1,4) show ?thesis by auto
    next
      case False
      with held [OF that] have "held k s" by simp
      with D(1,2,6) [of k] st(1) st(2) [OF False] show ?thesis by simp
    qed
    show "owned (owns ?s) (cs_open ?s)" using D(4) by (simp add: own)
    show "c_fd (st_objs (cs_stack ?s) k) < 0" if l: "l < length (cs_run ?s)" "cs_run ?s ! l = Dial k key1 fd" for l k key1 fd
      using old [OF l] D(7) [of l k key1 fd] st(2) [of k] st(3) by (auto split: if_splits)
    show "m = l" if "l < length (cs_run ?s)" "cs_run ?s ! l = Dial k key1 fd" "m < length (cs_run ?s)" "cs_run ?s ! m = Dial k key2 fd2"
      for l m k key1 fd key2 fd2 using old [OF that(1,2)] old [OF that(3,4)] D(8) [of l k key1 fd m key2 fd2] by (auto split: if_splits)
    show "c_state (st_objs (cs_stack ?s) k) \<noteq> CONNECTING" if "Relaying k key1 \<in> set (cs_run ?s)" for k key1
    proof -
      have r: "Relaying k key1 \<in> set (cs_run s)" using that by simp
      then have "held k s" by (force simp: held_def)
      with D(1) [of k] D(9) [OF r] st(2) [of k] show ?thesis by auto
    qed
  qed (use D(3,5) st(1) in \<open>auto intro: less_SucI\<close>)
qed

lemma conns_ok_forward:
  assumes ok: "conns_ok s" and a: "adds (cs_stack s) st fd SYNACK_SENT" and j: "j < length (cs_run s)" "cs_run s ! j = Accepted fd gp"
  shows "conns_ok (go_on j (Forwarding (st_next (cs_stack s)) gp ep k0) st s)"
proof -
  let ?n = "st_next (cs_stack s)"
  let ?h = "Forwarding ?n gp ep k0"
  let ?s = "go_on j ?h st s"
  note D = conns_okD [OF ok]
  have st: "st_next st = Suc ?n" "k \<noteq> ?n \<Longrightarrow> st_objs st k = st_objs (cs_stack s) k" "c_fd (st_objs st ?n) = fd"
    "c_state (st_objs st ?n) = SYNACK_SENT" "ran (st_conns st) \<subseteq> insert ?n (ran (st_conns (cs_stack s)))" for k
    using a by (simp_all add: adds_def)
  have f: "cs_stack ?s = st" "cs_run ?s = (cs_run s)[j := ?h]" "cs_dead ?s = cs_dead s" "cs_open ?s = cs_open s" by (simp_all add: go_on_def)
  have thr: "owns s (Thr j) = Some fd" using j by simp
  have fd: "0 \<le> fd" using D(5) owned_iff [OF D(4)] thr by blast
  have run: "h \<in> set ((cs_run s)[j := ?h]) \<Longrightarrow> h = ?h \<or> h \<in> set (cs_run s)" for h using set_update_subset_insert by fastforce
  have held: "held k s \<or> k = ?n" if "held k ?s" for k
    using that st(5) by (auto simp: held_def f dest!: run)
  have "owns ?s x = ((owns s)(Thr j := None, Obj ?n \<mapsto> fd)) x" for x
    using j(1) D(3) [of ?n] fd by (cases x) (auto simp: f st(1,2,3) less_Suc_eq nth_list_update)
  then have "owns ?s = (owns s)(Thr j := None, Obj ?n \<mapsto> fd)" ..
  then have own: "owned (owns ?s) (cs_open s)" using owned_move [OF D(4) thr, of "Obj ?n"] by simp
  have old: "l < length (cs_run s) \<and> cs_run s ! l = Dial k key1 fd \<and> k < ?n"
    if "l < length ((cs_run s)[j := ?h])" "(cs_run s)[j := ?h] ! l = Dial k key1 fd" for l k key1 fd
    using that D(1) heldI [of l s k] by (cases "l = j") auto
  show ?thesis
  proof (rule conns_okI; unfold f)
    show "k < st_next st \<and> k \<notin> cs_dead s \<and> (c_state (st_objs st k) \<noteq> CONNECTING \<longrightarrow> 0 \<le> c_fd (st_objs st k))" if "held k ?s" for k
    proof (cases "k = ?n")
      case True
      with D(3) [of ?n] st(1,3) fd show ?thesis by auto
    next
      case False
      with held [OF that] have "held k s" by simp
      with D(1,2,6) [of k] st(1) st(2) [OF False] show ?thesis by simp
    qed
    show "owned (owns ?s) (cs_open s)" by (rule own)
    show "c_fd (st_objs st k) < 0" if l: "l < length ((cs_run s)[j := ?h])" "(cs_run s)[j := ?h] ! l = Dial k key1 fd1" for l k key1 fd1
      using old [OF l] D(7) [of l k key1 fd1] st(2) [of k] by auto
    show "m = l" if "l < length ((cs_run s)[j := ?h])" "(cs_run s)[j := ?h] ! l = Dial k key1 fd1"
      "m < length ((cs_run s)[j := ?h])" "(cs_run s)[j := ?h] ! m = Dial k key2 fd2" for l m k key1 fd1 key2 fd2
      using old [OF that(1,2)] old [OF that(3,4)] D(8) by blast
    show "c_state (st_objs st k) \<noteq> CONNECTING" if "Relaying k key1 \<in> set ((cs_run s)[j := ?h])" for k key1
    proof -
      have r: "Relaying k key1 \<in> set (cs_run s)" using run [OF that] by simp
      then have "held k s" by (force simp: held_def)
      with D(1) [of k] D(9) [OF r] st(2) [of k] show ?thesis by auto
    qed
  qed (use D(3,5) st(1) in \<open>auto intro: less_SucI\<close>)
qed

text \<open>A thread has connected its object and ends.\<close>

lemma conns_ok_dialed:
  assumes ok: "conns_ok s" and j: "j < length (cs_run s)" "cs_run s ! j = Dial i key (Some fd)"
    and c: "connect_ok cfg i fd (cs_stack s) = Some (st, fs)"
  shows "conns_ok (go_on j Over st s)"
proof -
  let ?n = "st_next (cs_stack s)" and ?s = "go_on j Over st s"
  note D = conns_okD [OF ok]
  have st: "st_next st = ?n" "st_conns st = st_conns (cs_stack s)" "k \<noteq> i \<Longrightarrow> st_objs st k = st_objs (cs_stack s) k"
    "c_fd (st_objs st i) = fd" "c_state (st_objs st i) = SYNACK_SENT" for k
    using c by (auto simp: connect_ok_def Let_def bind_eq_Some_conv)
  have f: "cs_stack ?s = st" "cs_run ?s = (cs_run s)[j := Over]" "cs_dead ?s = cs_dead s" "cs_open ?s = cs_open s" by (simp_all add: go_on_def)
  have i: "held i s" "i < ?n" "i \<notin> cs_dead s" using heldI [OF j(1), of i] j(2) D(1,2) by auto
  have thr: "owns s (Thr j) = Some fd" "owns s (Obj i) = None" using j D(7) [OF j] by simp_all
  have fd: "0 \<le> fd" using D(5) owned_iff [OF D(4)] thr(1) by blast
  have run: "h \<in> set ((cs_run s)[j := Over]) \<Longrightarrow> h = Over \<or> h \<in> set (cs_run s)" for h using set_update_subset_insert by fastforce
  have held: "held k s" if "held k ?s" for k using that by (auto simp: held_def f st(2) dest!: run)
  have "owns ?s x = ((owns s)(Thr j := None, Obj i \<mapsto> fd)) x" for x
    using j(1) i fd by (cases x) (auto simp: f st(1,3,4) nth_list_update)
  then have "owns ?s = (owns s)(Thr j := None, Obj i \<mapsto> fd)" ..
  then have own: "owned (owns ?s) (cs_open s)" using owned_move [OF D(4) thr] by simp
  have old: "l < length (cs_run s) \<and> cs_run s ! l = Dial k key1 fd1 \<and> k \<noteq> i"
    if "l < length ((cs_run s)[j := Over])" "(cs_run s)[j := Over] ! l = Dial k key1 fd1" for l k key1 fd1
  proof -
    have l: "l < length (cs_run s)" "l \<noteq> j" "cs_run s ! l = Dial k key1 fd1" using that j(1) by (cases "l = j"; simp)+
    then have "k \<noteq> i" using D(8) [OF j l(1), of key1 fd1] by blast
    with l show ?thesis by simp
  qed
  show ?thesis
  proof (rule conns_okI; unfold f)
    show "k < st_next st \<and> k \<notin> cs_dead s \<and> (c_state (st_objs st k) \<noteq> CONNECTING \<longrightarrow> 0 \<le> c_fd (st_objs st k))" if "held k ?s" for k
    proof (cases "k = i")
      case True
      with i fd show ?thesis by (simp add: st)
    next
      case False
      with D(1,2,6) [OF held [OF that]] show ?thesis by (simp add: st(1) st(3))
    qed
    show "owned (owns ?s) (cs_open s)" by (rule own)
    show "c_fd (st_objs st k) < 0" if l: "l < length ((cs_run s)[j := Over])" "(cs_run s)[j := Over] ! l = Dial k key1 fd1" for l k key1 fd1
      using old [OF l] D(7) [of l k key1 fd1] st(3) [of k] by auto
    show "m = l" if "l < length ((cs_run s)[j := Over])" "(cs_run s)[j := Over] ! l = Dial k key1 fd1"
      "m < length ((cs_run s)[j := Over])" "(cs_run s)[j := Over] ! m = Dial k key2 fd2" for l m k key1 fd1 key2 fd2
      using old [OF that(1,2)] old [OF that(3,4)] D(8) by blast
    show "c_state (st_objs st k) \<noteq> CONNECTING" if "Relaying k key1 \<in> set ((cs_run s)[j := Over])" for k key1
      using D(9) [of k key1] run [OF that] st(3) [of k] st(5) by (cases "k = i") auto
  qed (use D(3,5) st(1) in auto)
qed

text \<open>A connection is accepted.\<close>

lemma conns_ok_accept:
  assumes ok: "conns_ok s" and fd: "0 \<le> fd" "fd \<notin> cs_open s"
  shows "conns_ok (s\<lparr>cs_run := cs_run s @ [Accepted fd gp], cs_open := insert fd (cs_open s)\<rparr>)"
proof -
  let ?s = "s\<lparr>cs_run := cs_run s @ [Accepted fd gp], cs_open := insert fd (cs_open s)\<rparr>"
  note D = conns_okD [OF ok]
  have held: "held k ?s \<Longrightarrow> held k s" for k by (auto simp: held_def)
  have "owns ?s x = ((owns s)(Thr (length (cs_run s)) \<mapsto> fd)) x" for x by (cases x) (auto simp: nth_append less_Suc_eq)
  then have "owns ?s = (owns s)(Thr (length (cs_run s)) \<mapsto> fd)" ..
  then have own: "owned (owns ?s) (cs_open ?s)" using owned_new [OF D(4) fd(2), of "Thr (length (cs_run s))"] by simp
  have old: "l < length (cs_run s) \<and> cs_run s ! l = Dial k key1 fd1" if "l < length (cs_run ?s)" "cs_run ?s ! l = Dial k key1 fd1" for l k key1 fd1
    using that by (auto simp: nth_append less_Suc_eq split: if_splits)
  show ?thesis
  proof (rule conns_okI)
    show "k < st_next (cs_stack ?s) \<and> k \<notin> cs_dead ?s \<and> (c_state (st_objs (cs_stack ?s) k) \<noteq> CONNECTING \<longrightarrow> 0 \<le> c_fd (st_objs (cs_stack ?s) k))"
      if "held k ?s" for k using D(1,2,6) [OF held [OF that]] by simp
    show "c_fd (st_objs (cs_stack ?s) k) < 0" if "l < length (cs_run ?s)" "cs_run ?s ! l = Dial k key1 fd1" for l k key1 fd1
      using old [OF that] D(7) by auto
    show "m = l" if "l < length (cs_run ?s)" "cs_run ?s ! l = Dial k key1 fd1" "m < length (cs_run ?s)" "cs_run ?s ! m = Dial k key2 fd2"
      for l m k key1 fd1 key2 fd2 using old [OF that(1,2)] old [OF that(3,4)] D(8) by blast
    show "c_state (st_objs (cs_stack ?s) k) \<noteq> CONNECTING" if "Relaying k key1 \<in> set (cs_run ?s)" for k key1
      using that D(9) by simp
  qed (use D(3,5) fd(1) own in auto)
qed

lemma go_on_open: "(go_on j h st s)\<lparr>cs_open := cs_open s\<rparr> = go_on j h st s"
  by (simp add: go_on_def)

lemma conns_ok_quiet:
  assumes "conns_ok s" and "benign (cs_stack s) st" and "j < length (cs_run s)" and "same_task (cs_run s ! j) h"
    and "fd_of h = fd_of (cs_run s ! j)"
  shows "conns_ok (go_on j h st s)"
proof -
  have "(owns s)(Thr j := fd_of h) = owns s" using assms(3,5) by (simp add: fun_upd_idem)
  then show ?thesis
    using conns_ok_go [OF assms(1-4), of "cs_open s"] conns_okD(4,5) [OF assms(1)] by (simp add: go_on_open)
qed

lemma conns_ok_stack:
  assumes ok: "conns_ok s" and b: "benign (cs_stack s) st"
  shows "conns_ok (s\<lparr>cs_stack := st\<rparr>)"
proof -
  let ?s = "s\<lparr>cs_stack := st\<rparr>"
  note D = conns_okD [OF ok]
  have st: "st_next st = st_next (cs_stack s)" "c_fd (st_objs st i) = c_fd (st_objs (cs_stack s) i)"
    "c_state (st_objs st i) = CONNECTING \<longleftrightarrow> c_state (st_objs (cs_stack s) i) = CONNECTING" for i using b by (simp_all add: benign_def)
  have held: "held k ?s \<Longrightarrow> held k s" for k using b by (auto simp: held_def benign_def)
  have "owns ?s x = owns s x" for x by (cases x) (simp_all add: st)
  then have own: "owns ?s = owns s" ..
  show ?thesis
  proof (rule conns_okI)
    show "k < st_next (cs_stack ?s) \<and> k \<notin> cs_dead ?s \<and> (c_state (st_objs (cs_stack ?s) k) \<noteq> CONNECTING \<longrightarrow> 0 \<le> c_fd (st_objs (cs_stack ?s) k))"
      if "held k ?s" for k using D(1,2,6) [OF held [OF that]] by (simp add: st)
    show "owned (owns ?s) (cs_open ?s)" using D(4) by (simp add: own)
    show "m = l" if "l < length (cs_run ?s)" "cs_run ?s ! l = Dial k key1 fd1" "m < length (cs_run ?s)" "cs_run ?s ! m = Dial k key2 fd2"
      for l m k key1 fd1 key2 fd2 using D(8) [of l k key1 fd1 m key2 fd2] that by simp
  qed (use D(3,5,7,9) in \<open>simp_all add: st\<close>)
qed

lemma conns_ok_act: "conns_act os cfg s s' \<Longrightarrow> conns_ok s \<Longrightarrow> conns_ok s'"
proof (induction rule: conns_act.induct)
  case (frame s f st fs)
  from handle_frame_effect [OF frame(1)] show ?case unfolding frame_effect_def
  proof (elim disjE conjE exE)
    assume b: "benign (cs_stack s) st" and t: "st_threads st = st_threads (cs_stack s)"
    then show ?thesis using conns_ok_stack [OF frame(2)] by simp
  next
    fix i key assume "benign (cs_stack s) st" "st_threads st = st_threads (cs_stack s) @ [Relay i key]"
      "i \<in> ran (st_conns (cs_stack s))" "c_state (st_objs (cs_stack s) i) \<noteq> CONNECTING"
    then show ?thesis using conns_ok_relay [OF frame(2)] by simp
  next
    fix key ip port assume "adds (cs_stack s) st (- 1) CONNECTING" "st_threads st = st_threads (cs_stack s) @ [Connect (st_next (cs_stack s)) key ip port]"
    then show ?thesis using conns_ok_dial [OF frame(2)] by simp
  qed
next
  case (no_socket j s i key)
  then show ?case by (intro conns_ok_quiet) (simp_all add: benign_parts same_task_def)
next
  case (socket j s i key fd)
  note D = conns_okD [OF socket(5)]
  have "owned ((owns s)(Thr j \<mapsto> fd)) (insert fd (cs_open s))"
    using socket by (intro owned_new D(4)) simp_all
  then show ?case using socket D(5) by (intro conns_ok_go) (auto simp: same_task_def)
next
  case (dialed j s i key fd st fs)
  then show ?case by (intro conns_ok_dialed)
next
  case (refused j s i key fd)
  note D = conns_okD [OF refused(3)]
  have "owned ((owns s)(Thr j := None)) (cs_open s - {fd})" using refused by (intro owned_drop D(4)) simp
  then show ?case using refused D(5) by (intro conns_ok_go) (auto simp: same_task_def benign_parts)
next
  case (relay j s i key data st fs)
  then show ?case by (intro conns_ok_quiet benign_relay(1)) (auto simp: same_task_def)
next
  case (relayed j s i key st fs)
  then show ?case by (intro conns_ok_quiet benign_relay(2)) (auto simp: same_task_def)
next
  case (accept fd s gp)
  then show ?case by (intro conns_ok_accept)
next
  case (forward j s fd gp st fs)
  then show ?case using inbound_effect [OF forward(3)] conns_ok_forward by blast
next
  case (syn j s i gp ep k st fs)
  then show ?case by (intro conns_ok_quiet benign_relay(3)) (auto simp: same_task_def)
next
  case (answered j s i gp ep k)
  then show ?case by (intro conns_ok_quiet) (auto simp: same_task_def)
next
  case (late j s i gp ep k)
  then show ?case by (intro conns_ok_quiet) (auto simp: same_task_def benign_parts)
next
  case (clear s)
  then show ?case by (intro conns_ok_stack) (auto simp: benign_parts)
qed

section \<open>Destruction keeps the invariant\<close>

lemma owned_released:
  assumes "owned f fds" and "distinct is"
    and "\<And>i. i \<in> set is \<Longrightarrow> f (Obj i) = (if c_fd (obj i) \<ge> 0 then Some (c_fd (obj i)) else None)"
  shows "owned (\<lambda>x. if x \<in> Obj ` set is then None else f x) (fold (\<lambda>i. tcp_conn_dtor (obj i)) is fds)"
  using assms
proof (induction "is" arbitrary: f fds)
  case (Cons i "is")
  let ?f = "f(Obj i := None)"
  have one: "owned ?f (tcp_conn_dtor (obj i) fds)"
  proof (cases "c_fd (obj i) \<ge> 0")
    case True
    with owned_drop [OF Cons.prems(1)] Cons.prems(3) [of i] show ?thesis by (simp add: tcp_conn_dtor_def)
  next
    case False
    with Cons.prems(1) Cons.prems(3) [of i] show ?thesis by (simp add: tcp_conn_dtor_def fun_upd_idem)
  qed
  have "owned (\<lambda>x. if x \<in> Obj ` set is then None else ?f x) (fold (\<lambda>i. tcp_conn_dtor (obj i)) is (tcp_conn_dtor (obj i) fds))"
    by (rule Cons.IH [OF one]) (use Cons.prems(2,3) in auto)
  moreover have "(\<lambda>x. if x \<in> Obj ` set is then None else ?f x) = (\<lambda>x. if x \<in> Obj ` set (i # is) then None else f x)" by auto
  ultimately show ?case by simp
qed simp

lemma released_iff: "i \<in> set (released s) \<longleftrightarrow> i < st_next (cs_stack s) \<and> \<not> held i s \<and> i \<notin> cs_dead s" "distinct (released s)"
  by (auto simp: released_def)

lemma release_simps [simp]:
  "cs_stack (release s) = cs_stack s" "cs_run (release s) = cs_run s" "cs_dead (release s) = cs_dead s \<union> set (released s)"
  "held i (release s) = held i s"
  by (simp_all add: release_def held_def Let_def)

lemma conns_ok_release:
  assumes "conns_ok s"
  shows "conns_ok (release s)" "i < st_next (cs_stack s) \<Longrightarrow> i \<in> cs_dead (release s) \<longleftrightarrow> \<not> held i s"
proof -
  note D = conns_okD [OF assms]
  let ?gone = "set (released s)"
  have open_eq: "cs_open (release s) = fold (\<lambda>i. tcp_conn_dtor (st_objs (cs_stack s) i)) (released s) (cs_open s)"
    by (simp add: release_def Let_def)
  have "owned (\<lambda>x. if x \<in> Obj ` ?gone then None else owns s x) (cs_open (release s))"
    unfolding open_eq by (rule owned_released [OF D(4) released_iff(2)]) (auto simp: released_iff(1))
  moreover have "(if x \<in> Obj ` ?gone then None else owns s x) = owns (release s) x" for x
    by (cases x) auto
  ultimately have own: "owned (owns (release s)) (cs_open (release s))" by simp
  have sub: "cs_open (release s) \<subseteq> cs_open s"
  proof -
    have "fold (\<lambda>i. tcp_conn_dtor (st_objs (cs_stack s) i)) is fds \<subseteq> fds" for "is" fds
      by (induction "is" arbitrary: fds) (auto simp: tcp_conn_dtor_def dest: subsetD)
    then show ?thesis by (simp add: open_eq)
  qed
  show "conns_ok (release s)"
  proof (rule conns_okI)
    show "i < st_next (cs_stack (release s)) \<and> i \<notin> cs_dead (release s)
        \<and> (c_state (st_objs (cs_stack (release s)) i) \<noteq> CONNECTING \<longrightarrow> 0 \<le> c_fd (st_objs (cs_stack (release s)) i))"
      if "held i (release s)" for i using that D(1,2,6) [of i] by (simp add: released_iff)
    show "owned (owns (release s)) (cs_open (release s))" by (rule own)
    show "k = j" if "j < length (cs_run (release s))" "cs_run (release s) ! j = Dial i key fd"
      "k < length (cs_run (release s))" "cs_run (release s) ! k = Dial i key' fd'" for j k i key fd key' fd'
      using that D(8) [of j i key fd k key' fd'] by simp
  qed (use D(3,5,7,9) sub in \<open>auto simp: released_iff\<close>)
  show "i \<in> cs_dead (release s) \<longleftrightarrow> \<not> held i s" if "i < st_next (cs_stack s)"
    using that D(2) [of i] by (auto simp: released_iff)
qed

section \<open>The life of connections\<close>

text \<open>
  C14. Sockets and objects of TCP connections, in every interleaving of guest frames, relays, outgoing and forwarded connections, and the
  destructor of the stack. An object is destroyed exactly when neither the table nor a thread has it any more, so none is used after its
  destruction. Every open socket belongs to exactly one living object, or to one thread that has not handed it over yet: none is closed twice
  and none leaks. A relay, and the handler of a segment on an established connection, find their socket open. When the table is empty and
  the threads have ended, every socket is closed.
\<close>

theorem tcp_sockets_owned:
  assumes "(conns_step os cfg)\<^sup>*\<^sup>* (conns_new e) s"
  shows "(\<forall>i < st_next (cs_stack s). i \<in> cs_dead s \<longleftrightarrow> \<not> held i s)
    \<and> owned (owns s) (cs_open s)
    \<and> (\<forall>i. i \<in> ran (st_conns (cs_stack s)) \<and> c_state (st_objs (cs_stack s) i) = ESTABLISHED \<or> (\<exists>key. Relaying i key \<in> set (cs_run s)) \<longrightarrow>
        c_fd (st_objs (cs_stack s) i) \<in> cs_open s)
    \<and> (ran (st_conns (cs_stack s)) = {} \<and> set (cs_run s) \<subseteq> {Over} \<longrightarrow> cs_open s = {})"
proof -
  have start: "conns_ok (conns_new e)"
  proof (rule conns_okI)
    have "owns (conns_new e) x = None" for x by (cases x) (simp_all add: conns_new_def stack_new_def)
    then show "owned (owns (conns_new e)) (cs_open (conns_new e))" by (simp add: owned_def conns_new_def)
  qed (auto simp: conns_new_def stack_new_def held_def)
  have inv: "conns_ok s \<and> (\<forall>i < st_next (cs_stack s). i \<in> cs_dead s \<longleftrightarrow> \<not> held i s)"
    using assms
  proof (induction rule: rtranclp_induct)
    case base
    show ?case using start by (simp add: conns_new_def stack_new_def)
  next
    case (step s s')
    from step.hyps(2) obtain s1 where s1: "conns_act os cfg s s1" "s' = release s1" by (auto simp: conns_step_def)
    from conns_ok_act [OF s1(1)] step.IH have "conns_ok s1" by blast
    from conns_ok_release [OF this] show ?case unfolding s1(2) by simp
  qed
  then have ok: "conns_ok s" and dead: "\<And>i. i < st_next (cs_stack s) \<Longrightarrow> i \<in> cs_dead s \<longleftrightarrow> \<not> held i s" by simp_all
  note D = conns_okD [OF ok]
  have live: "c_fd (st_objs (cs_stack s) i) \<in> cs_open s" if "held i s" "c_state (st_objs (cs_stack s) i) \<noteq> CONNECTING" for i
  proof -
    have "owns s (Obj i) = Some (c_fd (st_objs (cs_stack s) i))" using D(1,2,6) that by simp
    then show ?thesis using owned_iff [OF D(4)] by blast
  qed
  have "c_fd (st_objs (cs_stack s) i) \<in> cs_open s"
    if "i \<in> ran (st_conns (cs_stack s)) \<and> c_state (st_objs (cs_stack s) i) = ESTABLISHED \<or> (\<exists>key. Relaying i key \<in> set (cs_run s))" for i
    using that D(9) [of i] by (intro live) (force simp: held_def)+
  moreover have "cs_open s = {}" if "ran (st_conns (cs_stack s)) = {} \<and> set (cs_run s) \<subseteq> {Over}"
  proof -
    have "\<not> held i s" for i using that by (auto simp: held_def)
    moreover have "fd_of (cs_run s ! j) = None" if "j < length (cs_run s)" for j
      using nth_mem [OF that] \<open>_ \<and> set (cs_run s) \<subseteq> {Over}\<close> by auto
    ultimately have "owns s x = None" for x using dead by (cases x) auto
    then show ?thesis using owned_iff [OF D(4)] by auto
  qed
  ultimately show ?thesis using dead D(4) by blast
qed

text \<open>
  The relay of a connection that the guest has reset leaves its key for the next segment, which removes whatever connection has the key by then: a
  guest that opens a connection with the same ports within the time that the relay needs to notice loses it, and is answered with a
  reset.
\<close>

theorem reset_kills_successor:
  assumes key: "key = \<lparr>k_sip = src, k_dip = dst, k_sp = sp, k_dp = dp\<rparr>" and relay: "relay_end cfg i key s = Some (s', fs)"
    and flags: "flags AND TF_ACK \<noteq> 0" "flags AND TF_RST = 0" and mac: "length eth_src = 6" "length (gw_mac cfg) = 6"
  shows "\<exists>f. handle_tcp os cfg s' eth_src src dst (tcp_hdr sp dp seq ack flags ck @ data) (20 + length data) = Some (reap s', [f])
    \<and> send_tcp cfg eth_src dst dp src sp ack 0 TF_RST [] = Some f \<and> st_conns (reap s') key = None"
proof -
  obtain f where f: "send_tcp cfg eth_src dst dp src sp ack 0 TF_RST [] = Some f" using send_tcp_empty [OF mac] by blast
  have "key \<in> set (st_done s')" using relay by (auto simp: relay_end_def Let_def bind_eq_Some_conv split: if_splits)
  then have none: "st_conns (reap s') key = None" by (simp add: reap_def)
  then show ?thesis
    unfolding handle_tcp_parse using flags f by (simp add: tcp_segment_def key)
qed

section \<open>Witnesses\<close>

text \<open>A connection is accepted on a forwarded port and forwarded to the guest.\<close>

theorem tcp_sockets_owned_witness:
  "\<exists>s. (conns_step demo_net_os net_config_default)\<^sup>*\<^sup>* (conns_new []) s \<and> cs_open s = {5} \<and> owned (owns s) {5} \<and> st_next (cs_stack s) = 1
    \<and> 0 \<notin> cs_dead s"
proof -
  have "\<exists>f. conn_reply net_config_default (inbound_conn net_config_default 5 22 49152) (inbound_isn 49152) 0 TF_SYN [] = Some f"
    using send_tcp_empty [of "guest_mac net_config_default" net_config_default] by (simp add: conn_reply_def inbound_conn_def)
  then obtain f st where st: "inbound_fwd net_config_default 5 22 (stack_new ([] :: u8 list)) = Some (st, [f])" "st_next st = 1"
    by (auto simp: inbound_fwd_def Let_def stack_new_def)
  let ?s0 = "conns_new ([] :: u8 list)"
  let ?s1 = "?s0\<lparr>cs_run := [Accepted 5 22], cs_open := {5}\<rparr>"
  let ?s2 = "go_on 0 (Forwarding 0 22 49152 1) st ?s1"
  have 1: "conns_act demo_net_os net_config_default ?s0 ?s1"
    using conns_act.accept [of 5 ?s0 demo_net_os net_config_default 22] by (simp add: conns_new_def)
  have 2: "conns_act demo_net_os net_config_default ?s1 ?s2"
    using conns_act.forward [of 0 ?s1 5 22 net_config_default st "[f]" demo_net_os] st by (simp add: conns_new_def stack_new_def)
  have rel: "release ?s1 = ?s1" by (simp add: release_def released_def conns_new_def stack_new_def)
  have held: "held 0 ?s2" by (simp add: held_def go_on_def)
  then have rel2: "release ?s2 = ?s2" using st(2) by (simp add: release_def released_def go_on_def conns_new_def)
  have "(conns_step demo_net_os net_config_default)\<^sup>*\<^sup>* ?s0 ?s2"
  proof -
    have "conns_step demo_net_os net_config_default ?s0 ?s1" using 1 rel by (auto simp: conns_step_def)
    moreover have "conns_step demo_net_os net_config_default ?s1 ?s2" using 2 rel2 by (auto simp: conns_step_def)
    ultimately show ?thesis by (meson converse_rtranclp_into_rtranclp r_into_rtranclp)
  qed
  from this tcp_sockets_owned [OF this] held st(2) show ?thesis
    by (intro exI [of _ ?s2]) (simp add: go_on_def)
qed

end
