(* ===== verification/Vm_Memory.thy ===== *)
theory Vm_Memory
  imports Prelude
begin

text \<open>
  Guest RAM as the VMM sees it. The host's address space is one flat byte memory; the guest's RAM is
  the window \<^verbatim>\<open>[ram_hva, ram_hva + ram_size)\<close> of it (\<^verbatim>\<open>src/src/hvf/vm_context.hpp\<close>,
  \<^verbatim>\<open>vm_context.cpp\<close>). Device code holds raw host pointers into that window, so an access past its
  end is an access to other host memory: the model performs it there, it does not hide it.
\<close>

section \<open>Host memory\<close>

type_synonym hmem = "u64 \<Rightarrow> u8"

text \<open>The bytes at \<open>p\<close>, \<open>p + 1\<close>, \dots; pointer arithmetic wraps at 64 bits.\<close>

definition read_bytes :: "hmem \<Rightarrow> u64 \<Rightarrow> nat \<Rightarrow> u8 list" where
  "read_bytes m p n = map (\<lambda>i. m (p + of_nat i)) [0..<n]"

fun write_bytes :: "hmem \<Rightarrow> u64 \<Rightarrow> u8 list \<Rightarrow> hmem" where
  "write_bytes m p [] = m"
| "write_bytes m p (b # bs) = write_bytes (m(p := b)) (p + 1) bs"

definition load16 :: "hmem \<Rightarrow> u64 \<Rightarrow> u16" where
  "load16 m p = of_nat (le_val (read_bytes m p 2))"

definition load32 :: "hmem \<Rightarrow> u64 \<Rightarrow> u32" where
  "load32 m p = of_nat (le_val (read_bytes m p 4))"

definition load64 :: "hmem \<Rightarrow> u64 \<Rightarrow> u64" where
  "load64 m p = of_nat (le_val (read_bytes m p 8))"

definition store16 :: "hmem \<Rightarrow> u64 \<Rightarrow> u16 \<Rightarrow> hmem" where
  "store16 m p v = write_bytes m p (le_bytes 2 (unat v))"

definition store32 :: "hmem \<Rightarrow> u64 \<Rightarrow> u32 \<Rightarrow> hmem" where
  "store32 m p v = write_bytes m p (le_bytes 4 (unat v))"

text \<open>The loads byte by byte, for evaluation on a concrete memory.\<close>

lemma load16_bytes: "load16 m p = ucast (m p) + 256 * ucast (m (p + 1))"
  by (simp add: load16_def read_bytes_def upt_conv_Cons)

lemma load32_bytes:
  "load32 m p = ucast (m p) + 256 * (ucast (m (p + 1)) + 256 * (ucast (m (p + 2)) + 256 * ucast (m (p + 3))))"
  by (simp add: load32_def read_bytes_def upt_conv_Cons)

lemma load64_bytes:
  "load64 m p = ucast (m p) + 256 * (ucast (m (p + 1)) + 256 * (ucast (m (p + 2)) + 256 * (ucast (m (p + 3))
     + 256 * (ucast (m (p + 4)) + 256 * (ucast (m (p + 5)) + 256 * (ucast (m (p + 6)) + 256 * ucast (m (p + 7))))))))"
  by (simp add: load64_def read_bytes_def upt_conv_Cons)

subsection \<open>Spans of addresses\<close>

text \<open>
  \<open>span p n\<close> is the set of the \<open>n\<close> addresses from \<open>p\<close> on, with wrap-around. Frame conditions are
  statements about spans.
\<close>

definition span :: "u64 \<Rightarrow> nat \<Rightarrow> u64 set" where
  "span p n = {a. unat (a - p) < n}"

definition agree_on :: "u64 set \<Rightarrow> hmem \<Rightarrow> hmem \<Rightarrow> bool" where
  "agree_on S m m' \<longleftrightarrow> (\<forall>a \<in> S. m a = m' a)"

lemma agree_on_refl [simp]: "agree_on S m m"
  by (simp add: agree_on_def)

lemma agree_on_sym: "agree_on S m m' \<Longrightarrow> agree_on S m' m"
  by (simp add: agree_on_def)

lemma agree_on_trans [trans]: "agree_on S m m' \<Longrightarrow> agree_on S m' m'' \<Longrightarrow> agree_on S m m''"
  by (simp add: agree_on_def)

lemma agree_on_mono: "agree_on S m m' \<Longrightarrow> T \<subseteq> S \<Longrightarrow> agree_on T m m'"
  by (auto simp: agree_on_def)

lemma agree_on_Un [simp]: "agree_on (S \<union> T) m m' \<longleftrightarrow> agree_on S m m' \<and> agree_on T m m'"
  by (auto simp: agree_on_def)

text \<open>What changes only inside \<open>W\<close> keeps every agreement on a set apart from \<open>W\<close>.\<close>

lemma agree_on_apart: "agree_on (- W) m1 m \<Longrightarrow> S \<inter> W = {} \<Longrightarrow> agree_on S m m0 \<Longrightarrow> agree_on S m1 m0"
  by (rule agree_on_trans [of S m1 m], rule agree_on_mono [of "- W"]) auto

lemma span_mono: "n \<le> k \<Longrightarrow> span p n \<subseteq> span p k"
  by (auto simp: span_def)

lemma span_0 [simp]: "span p 0 = {}"
  by (simp add: span_def)

lemma span_offset:
  assumes "o' + n \<le> k" and "k \<le> 2 ^ 64"
  shows "span (p + of_nat o') n \<subseteq> span p k"
proof
  fix a assume "a \<in> span (p + of_nat o') n"
  then have h: "unat (a - p - of_nat o') < n" by (simp add: span_def diff_diff_eq)
  have "unat (a - p) = (unat (a - p - of_nat o') + unat (of_nat o' :: u64)) mod 2 ^ 64"
    using unat_word_ariths(1) [of "a - p - of_nat o'" "of_nat o' :: u64"] by simp
  also have "\<dots> \<le> unat (a - p - of_nat o') + unat (of_nat o' :: u64)"
    by (rule mod_less_eq_dividend)
  also have "\<dots> \<le> unat (a - p - of_nat o') + o'"
    by (simp add: unat_of_nat)
  finally have "unat (a - p) < k" using h assms by linarith
  then show "a \<in> span p k" by (simp add: span_def)
qed

lemma span_unat_iff:
  assumes "unat p + n \<le> 2 ^ 64"
  shows "a \<in> span p n \<longleftrightarrow> unat p \<le> unat a \<and> unat a < unat p + n"
proof (cases "p \<le> a")
  case True
  then have "unat (a - p) = unat a - unat p" and "unat p \<le> unat a"
    by (simp_all add: unat_sub word_le_nat_alt)
  then show ?thesis by (auto simp: span_def)
next
  case False
  then have lt: "unat a < unat p" by (simp add: word_le_nat_alt not_le)
  have "unat (a - p) = 2 ^ 64 - unat p + unat a"
    using lt unat_u64_less [of p] by (simp add: unat_sub_if')
  then show ?thesis using lt assms by (auto simp: span_def)
qed

text \<open>Spans that do not wrap are disjoint when one ends before the other begins.\<close>

lemma span_disjointI:
  assumes "unat p + n \<le> unat q" and "unat q + k \<le> 2 ^ 64"
  shows "span p n \<inter> span q k = {}"
proof -
  have "unat p + n \<le> 2 ^ 64" using assms by linarith
  then show ?thesis using assms by (auto simp: span_unat_iff)
qed

lemma span_subsetI:
  assumes "unat q \<le> unat p" and "unat p + n \<le> unat q + k" and "unat q + k \<le> 2 ^ 64"
  shows "span p n \<subseteq> span q k"
  using assms by (auto simp: span_unat_iff)

subsection \<open>Stores and what they leave alone\<close>

lemma write_bytes_apply:
  "length bs \<le> 2 ^ 64 \<Longrightarrow>
   write_bytes m p bs a = (if unat (a - p) < length bs then bs ! unat (a - p) else m a)"
proof (induction bs arbitrary: m p)
  case Nil
  then show ?case by simp
next
  case (Cons b bs)
  show ?case
  proof (cases "a = p")
    case True
    have "unat (p - (p + 1)) = 2 ^ 64 - 1" by (simp add: unsigned_minus_1_eq_mask mask_eq_exp_minus_1)
    with Cons True show ?thesis by auto
  next
    case False
    with unat_minus_one_step [of p a] have "unat (a - p) = Suc (unat (a - (p + 1)))" by simp
    with Cons False show ?thesis by auto
  qed
qed

lemma length_read_bytes [simp]: "length (read_bytes m p n) = n"
  by (simp add: read_bytes_def)

lemma nth_read_bytes [simp]: "i < n \<Longrightarrow> read_bytes m p n ! i = m (p + of_nat i)"
  by (simp add: read_bytes_def)

lemma read_write_bytes [mem_simps]:
  assumes "length bs \<le> 2 ^ 64"
  shows "read_bytes (write_bytes m p bs) p (length bs) = bs"
proof (rule nth_equalityI)
  fix i assume "i < length (read_bytes (write_bytes m p bs) p (length bs))"
  then have i: "i < length bs" by simp
  then have "unat (of_nat i :: u64) = i" using assms by (simp add: unat_of_nat)
  with i assms show "read_bytes (write_bytes m p bs) p (length bs) ! i = bs ! i"
    by (simp add: write_bytes_apply)
qed simp

lemma write_bytes_frame:
  "length bs \<le> 2 ^ 64 \<Longrightarrow> a \<notin> span p (length bs) \<Longrightarrow> write_bytes m p bs a = m a"
  by (simp add: write_bytes_apply span_def)

lemma write_bytes_agree:
  "length bs \<le> 2 ^ 64 \<Longrightarrow> span p (length bs) \<inter> S = {} \<Longrightarrow> agree_on S (write_bytes m p bs) m"
  by (auto simp: agree_on_def intro: write_bytes_frame)

lemma span_memI: "i < n \<Longrightarrow> i < 2 ^ 64 \<Longrightarrow> p + of_nat i \<in> span p n"
  by (simp add: span_def unat_of_nat)

lemma read_bytes_agree:
  assumes "agree_on S m m'" and "span p n \<subseteq> S" and "n \<le> 2 ^ 64"
  shows "read_bytes m p n = read_bytes m' p n"
proof (rule nth_equalityI)
  fix i assume "i < length (read_bytes m p n)"
  then have "i < n" by simp
  then have "p + of_nat i \<in> span p n" using assms(3) by (intro span_memI) auto
  with assms \<open>i < n\<close> show "read_bytes m p n ! i = read_bytes m' p n ! i"
    by (auto simp: agree_on_def)
qed simp

lemma load16_agree: "agree_on S m m' \<Longrightarrow> span p 2 \<subseteq> S \<Longrightarrow> load16 m p = load16 m' p"
  by (simp add: load16_def read_bytes_agree [of S m m'])

lemma load32_agree: "agree_on S m m' \<Longrightarrow> span p 4 \<subseteq> S \<Longrightarrow> load32 m p = load32 m' p"
  by (simp add: load32_def read_bytes_agree [of S m m'])

lemma load64_agree: "agree_on S m m' \<Longrightarrow> span p 8 \<subseteq> S \<Longrightarrow> load64 m p = load64 m' p"
  by (simp add: load64_def read_bytes_agree [of S m m'])

lemma load16_store16 [mem_simps]: "load16 (store16 m p v) p = v"
proof -
  have "read_bytes (store16 m p v) p 2 = le_bytes 2 (unat v)"
    using read_write_bytes [of "le_bytes 2 (unat v)" m p] by (simp add: store16_def)
  then show ?thesis
    using unat_u16_less [of v] by (simp add: load16_def le_val_le_bytes)
qed

lemma load32_store32 [mem_simps]: "load32 (store32 m p v) p = v"
proof -
  have "read_bytes (store32 m p v) p 4 = le_bytes 4 (unat v)"
    using read_write_bytes [of "le_bytes 4 (unat v)" m p] by (simp add: store32_def)
  then show ?thesis
    using unat_u32_less [of v] by (simp add: load32_def le_val_le_bytes)
qed

lemma store16_agree [frame_simps]: "span p 2 \<inter> S = {} \<Longrightarrow> agree_on S (store16 m p v) m"
  unfolding store16_def by (rule write_bytes_agree) simp_all

lemma store32_agree [frame_simps]: "span p 4 \<inter> S = {} \<Longrightarrow> agree_on S (store32 m p v) m"
  unfolding store32_def by (rule write_bytes_agree) simp_all

section \<open>VMContext: the guest RAM window\<close>

record vm_map =
  ram_hva :: u64
  ram_gpa :: u64
  ram_size :: u64

definition gpa_to_hva :: "('a) vm_map_scheme \<Rightarrow> u64 \<Rightarrow> u64 option" where
  "gpa_to_hva c gpa =
     (if ram_hva c \<noteq> 0 \<and> gpa \<ge> ram_gpa c \<and> gpa < ram_gpa c + ram_size c
      then Some (ram_hva c + (gpa - ram_gpa c))
      else None)"

text \<open>A RAM window that wraps neither in the guest's nor in the host's address space.\<close>

definition ram_ok :: "('a) vm_map_scheme \<Rightarrow> bool" where
  "ram_ok c \<longleftrightarrow> ram_hva c \<noteq> 0
     \<and> unat (ram_gpa c) + unat (ram_size c) < 2 ^ 64
     \<and> unat (ram_hva c) + unat (ram_size c) < 2 ^ 64"

definition ram_span :: "('a) vm_map_scheme \<Rightarrow> u64 set" where
  "ram_span c = span (ram_hva c) (unat (ram_size c))"

lemma gpa_to_hva_unat:
  assumes "ram_ok c"
  shows "gpa_to_hva c g =
     (if unat (ram_gpa c) \<le> unat g \<and> unat g < unat (ram_gpa c) + unat (ram_size c)
      then Some (ram_hva c + (g - ram_gpa c)) else None)"
proof -
  have "unat (ram_gpa c + ram_size c) = unat (ram_gpa c) + unat (ram_size c)"
    using assms by (simp add: ram_ok_def unat_word_ariths)
  then show ?thesis
    using assms by (simp add: gpa_to_hva_def ram_ok_def word_le_nat_alt word_less_nat_alt)
qed

lemma gpa_to_hva_offset:
  assumes "ram_ok c" and "gpa_to_hva c g = Some p"
  shows "unat (p - ram_hva c) = unat g - unat (ram_gpa c)"
    and "unat (ram_gpa c) \<le> unat g"
    and "unat g - unat (ram_gpa c) < unat (ram_size c)"
proof -
  from assms have g: "unat (ram_gpa c) \<le> unat g" "unat g < unat (ram_gpa c) + unat (ram_size c)"
    and p: "p = ram_hva c + (g - ram_gpa c)"
    by (simp_all add: gpa_to_hva_unat split: if_splits)
  show "unat (ram_gpa c) \<le> unat g" by (rule g(1))
  show "unat (p - ram_hva c) = unat g - unat (ram_gpa c)"
    using g p by (simp add: unat_sub word_le_nat_alt)
  show "unat g - unat (ram_gpa c) < unat (ram_size c)"
    using g by simp
qed

text \<open>A buffer that fits below the end of guest RAM is translated to a span of the RAM window.\<close>

lemma gpa_to_hva_span:
  assumes ok: "ram_ok c" and tr: "gpa_to_hva c g = Some p"
    and fits: "unat g + n \<le> unat (ram_gpa c) + unat (ram_size c)"
  shows "span p n \<subseteq> ram_span c"
proof -
  define k where "k = unat g - unat (ram_gpa c)"
  note off = gpa_to_hva_offset [OF ok tr]
  have kk: "unat (p - ram_hva c) = k" using off(1) by (simp add: k_def)
  have "p = ram_hva c + of_nat k" by (simp add: kk [symmetric])
  moreover have "k + n \<le> unat (ram_size c)"
    using fits off(2) by (simp add: k_def)
  ultimately show ?thesis
    using span_offset [of k n "unat (ram_size c)" "ram_hva c"] unat_u64_less [of "ram_size c"]
    by (simp add: ram_span_def)
qed

end
