(* ===== verification/Virtqueue.thy ===== *)
theory Virtqueue
  imports Vm_Memory
begin

text \<open>
  The split virtqueue shared by all five virtio devices: the guest-memory layout of the descriptor
  table, the available ring and the used ring (\<^verbatim>\<open>VDesc\<close>, \<^verbatim>\<open>VAvail\<close>, \<^verbatim>\<open>VUsed\<close>), the per-queue
  registers (\<^verbatim>\<open>Queue\<close>) and the publication of a used element. Every device class of the source
  declares the same structs with its own \<^verbatim>\<open>kQueueSize\<close>, so the ring size is a parameter here.

  The locale \<open>ring_size\<close> holds what is true of the ring memory for any legal ring size; the locale
  \<open>virtq_drain\<close> is the contract of a device's drain loop
  (\<^verbatim>\<open>while (q.last_avail != avail->idx) { ... }\<close>) with what follows from it for every device.
\<close>

section \<open>Per-queue registers\<close>

record queue =
  num :: u32
  desc_gpa :: u64
  avail_gpa :: u64
  used_gpa :: u64
  last_avail :: u16
  ready :: bool

definition queue_init :: "u32 \<Rightarrow> queue" where
  "queue_init k = \<lparr>num = k, desc_gpa = 0, avail_gpa = 0, used_gpa = 0, last_avail = 0, ready = False\<rparr>"

text \<open>The guard at the head of every drain function: queue ready and all three rings programmed.\<close>

definition queue_live :: "queue \<Rightarrow> bool" where
  "queue_live q \<longleftrightarrow> ready q \<and> desc_gpa q \<noteq> 0 \<and> avail_gpa q \<noteq> 0 \<and> used_gpa q \<noteq> 0"

section \<open>Ring memory\<close>

definition VRING_DESC_F_NEXT :: u16 where
  "VRING_DESC_F_NEXT = 1"

definition VRING_DESC_F_WRITE :: u16 where
  "VRING_DESC_F_WRITE = 2"

definition desc_addr :: "hmem \<Rightarrow> u64 \<Rightarrow> u16 \<Rightarrow> u64" where
  "desc_addr m d i = load64 m (d + 16 * ucast i)"

definition desc_len :: "hmem \<Rightarrow> u64 \<Rightarrow> u16 \<Rightarrow> u32" where
  "desc_len m d i = load32 m (d + 16 * ucast i + 8)"

definition desc_flags :: "hmem \<Rightarrow> u64 \<Rightarrow> u16 \<Rightarrow> u16" where
  "desc_flags m d i = load16 m (d + 16 * ucast i + 12)"

definition desc_next :: "hmem \<Rightarrow> u64 \<Rightarrow> u16 \<Rightarrow> u16" where
  "desc_next m d i = load16 m (d + 16 * ucast i + 14)"

definition has_next :: "hmem \<Rightarrow> u64 \<Rightarrow> u16 \<Rightarrow> bool" where
  "has_next m d i \<longleftrightarrow> desc_flags m d i AND VRING_DESC_F_NEXT \<noteq> 0"

definition avail_idx :: "hmem \<Rightarrow> u64 \<Rightarrow> u16" where
  "avail_idx m a = load16 m (a + 2)"

definition avail_ring :: "nat \<Rightarrow> hmem \<Rightarrow> u64 \<Rightarrow> u16 \<Rightarrow> u16" where
  "avail_ring K m a n = load16 m (a + 4 + 2 * of_nat (unat n mod K))"

definition used_idx :: "hmem \<Rightarrow> u64 \<Rightarrow> u16" where
  "used_idx m u = load16 m (u + 2)"

definition used_elem :: "nat \<Rightarrow> hmem \<Rightarrow> u64 \<Rightarrow> u16 \<Rightarrow> u32 \<times> u32" where
  "used_elem K m u n =
     (load32 m (u + 4 + 8 * of_nat (unat n mod K)), load32 m (u + 4 + 8 * of_nat (unat n mod K) + 4))"

text \<open>
  \<^verbatim>\<open>ui = used->idx % kQueueSize; used->ring[ui].id = head; used->ring[ui].len = wrote;\<close>
  \<^verbatim>\<open>__atomic_store_n(&used->idx, used->idx + 1)\<close>: the index wraps at 16 bits.
\<close>

definition push_used :: "nat \<Rightarrow> hmem \<Rightarrow> u64 \<Rightarrow> u16 \<Rightarrow> u32 \<Rightarrow> hmem" where
  "push_used K m u head wrote =
     (let e = u + 4 + 8 * of_nat (unat (used_idx m u) mod K);
          m1 = store32 m e (ucast head);
          m2 = store32 m1 (e + 4) wrote
      in store16 m2 (u + 2) (used_idx m2 u + 1))"

definition desc_span :: "nat \<Rightarrow> u64 \<Rightarrow> u64 set" where
  "desc_span K d = span d (16 * K)"

definition avail_span :: "nat \<Rightarrow> u64 \<Rightarrow> u64 set" where
  "avail_span K a = span a (4 + 2 * K)"

definition used_span :: "nat \<Rightarrow> u64 \<Rightarrow> u64 set" where
  "used_span K u = span u (4 + 8 * K)"

lemma span_offset_disjoint:
  assumes "i + n \<le> j" and "j + k \<le> 2 ^ 64"
  shows "span (p + of_nat i) n \<inter> span (p + of_nat j) k = {}"
proof (rule ccontr)
  assume "\<not> ?thesis"
  then obtain a where a: "a \<in> span (p + of_nat i) n" "a \<in> span (p + of_nat j) k" by blast
  define x where "x = a - p"
  from a(1) assms have "0 < n" by (auto simp: span_def)
  from a(2) have "0 < k" by (auto simp: span_def)
  have xi: "x \<in> span (of_nat i) n" and xj: "x \<in> span (of_nat j) k"
    using a by (simp_all add: span_def x_def diff_diff_eq)
  have ij: "i < 2 ^ 64" "j < 2 ^ 64" using assms \<open>0 < n\<close> \<open>0 < k\<close> by linarith+
  then have u: "unat (of_nat i :: u64) = i" "unat (of_nat j :: u64) = j"
    by (simp_all add: unat_of_nat)
  from xi assms u have "unat x < i + n" by (simp add: span_unat_iff)
  moreover from xj assms u have "j \<le> unat x" by (simp add: span_unat_iff)
  ultimately show False using assms by linarith
qed

section \<open>Ring memory for a legal ring size\<close>

text \<open>A ring size divides the range of the free-running 16-bit indices.\<close>

locale ring_size =
  fixes K :: nat
  assumes K_dvd: "K dvd 65536"
begin

lemma K_pos: "0 < K"
  using K_dvd by (auto intro: Nat.gr0I)

lemma K_le: "K \<le> 65536"
  using K_dvd by (rule dvd_imp_le) simp

lemma mod_K_less: "i mod K < K"
  using K_pos by simp

lemma desc_offset: "unat i < K \<Longrightarrow> n \<le> 16 \<Longrightarrow> j + n \<le> 16 \<Longrightarrow>
  span (d + 16 * ucast (i :: u16) + of_nat j) n \<subseteq> desc_span K d"
proof -
  assume i: "unat i < K" and n: "n \<le> 16" and jn: "j + n \<le> 16"
  have "d + 16 * ucast i + of_nat j = d + of_nat (16 * unat i + j)"
    by (simp add: unat_ucast_up)
  moreover have "span (d + of_nat (16 * unat i + j)) n \<subseteq> span d (16 * K)"
    using i jn K_le by (intro span_offset) auto
  ultimately show ?thesis by (simp only: desc_span_def)
qed

lemma desc_agree:
  assumes "agree_on (desc_span K d) m m'" and "unat i < K"
  shows "desc_addr m d i = desc_addr m' d i" and "desc_len m d i = desc_len m' d i"
    and "desc_flags m d i = desc_flags m' d i" and "desc_next m d i = desc_next m' d i"
    and "has_next m d i = has_next m' d i"
proof -
  note off = desc_offset [OF assms(2), of _ _ d]
  show "desc_addr m d i = desc_addr m' d i"
    unfolding desc_addr_def using off [of 8 0] by (intro load64_agree [OF assms(1)]) simp
  show "desc_len m d i = desc_len m' d i"
    unfolding desc_len_def using off [of 4 8] by (intro load32_agree [OF assms(1)]) simp
  show flags: "desc_flags m d i = desc_flags m' d i"
    unfolding desc_flags_def using off [of 2 12] by (intro load16_agree [OF assms(1)]) simp
  show "desc_next m d i = desc_next m' d i"
    unfolding desc_next_def using off [of 2 14] by (intro load16_agree [OF assms(1)]) simp
  show "has_next m d i = has_next m' d i"
    by (simp add: has_next_def flags)
qed

lemma avail_agree:
  assumes "agree_on (avail_span K a) m m'"
  shows "avail_idx m a = avail_idx m' a" and "avail_ring K m a n = avail_ring K m' a n"
proof -
  have "span (a + of_nat 2) 2 \<subseteq> avail_span K a"
    unfolding avail_span_def using K_le by (intro span_offset) auto
  then show "avail_idx m a = avail_idx m' a"
    unfolding avail_idx_def by (intro load16_agree [OF assms]) simp
  have eq: "a + 4 + 2 * of_nat (unat n mod K) = a + of_nat (4 + 2 * (unat n mod K))"
    by simp
  have "span (a + of_nat (4 + 2 * (unat n mod K))) 2 \<subseteq> avail_span K a"
    unfolding avail_span_def using K_le mod_K_less [of "unat n"] by (intro span_offset) auto
  then show "avail_ring K m a n = avail_ring K m' a n"
    unfolding avail_ring_def eq by (intro load16_agree [OF assms])
qed

lemma used_slot_spans:
  "span (u + 4 + 8 * of_nat (n mod K)) 4 \<subseteq> used_span K u"
  "span (u + 4 + 8 * of_nat (n mod K) + 4) 4 \<subseteq> used_span K u"
  "span (u + 2) 2 \<subseteq> used_span K u"
proof -
  have sub: "\<And>j k. j + k \<le> 4 + 8 * K \<Longrightarrow> span (u + of_nat j) k \<subseteq> used_span K u"
    unfolding used_span_def using K_le by (intro span_offset) auto
  show "span (u + 4 + 8 * of_nat (n mod K)) 4 \<subseteq> used_span K u"
    using sub [of "4 + 8 * (n mod K)" 4] mod_K_less [of n] by (simp add: add.assoc)
  show "span (u + 4 + 8 * of_nat (n mod K) + 4) 4 \<subseteq> used_span K u"
    using sub [of "8 + 8 * (n mod K)" 4] mod_K_less [of n] by (simp add: algebra_simps)
  show "span (u + 2) 2 \<subseteq> used_span K u"
    using sub [of 2 2] by simp
qed

lemma used_agree:
  assumes "agree_on (used_span K u) m m'"
  shows "used_idx m u = used_idx m' u" and "used_elem K m u n = used_elem K m' u n"
  unfolding used_idx_def used_elem_def
  using load16_agree [OF assms used_slot_spans(3)] load32_agree [OF assms used_slot_spans(1)]
    load32_agree [OF assms used_slot_spans(2)]
  by simp_all

text \<open>
  What publishing a used element does: nothing outside the used ring is written, the index advances
  by one, the slot of the old index holds the element and every other slot is untouched.
\<close>

lemma push_used_agree:
  assumes "S \<inter> used_span K u = {}"
  shows "agree_on S (push_used K m u h w) m"
proof -
  let ?e = "u + 4 + 8 * of_nat (unat (used_idx m u) mod K)"
  let ?m1 = "store32 m ?e (ucast h)"
  let ?m2 = "store32 ?m1 (?e + 4) w"
  note slots = used_slot_spans(1,2) [where u = u and n = "unat (used_idx m u)"]
    used_slot_spans(3) [of u]
  have 1: "agree_on S ?m1 m" using slots(1) assms by (intro store32_agree) auto
  have 2: "agree_on S ?m2 ?m1" using slots(2) assms by (intro store32_agree) auto
  have 3: "agree_on S (store16 ?m2 (u + 2) (used_idx ?m2 u + 1)) ?m2"
    using slots(3) assms by (intro store16_agree) auto
  show ?thesis
    unfolding push_used_def Let_def using 3 2 1 by (blast intro: agree_on_trans)
qed

lemma slot_disjoint:
  assumes "i < K" and "j < K" and "i \<noteq> j"
  shows "span (u + 4 + 8 * of_nat i) 8 \<inter> span (u + 4 + 8 * of_nat j) 8 = {}"
proof -
  have eq: "\<And>k. u + 4 + 8 * of_nat k = u + of_nat (4 + 8 * k)" by simp
  consider "i < j" | "j < i" using assms(3) by linarith
  then show ?thesis
  proof cases
    case 1
    then show ?thesis
      unfolding eq using assms K_le by (intro span_offset_disjoint) auto
  next
    case 2
    then have "span (u + of_nat (4 + 8 * j)) 8 \<inter> span (u + of_nat (4 + 8 * i)) 8 = {}"
      using assms K_le by (intro span_offset_disjoint) auto
    then show ?thesis unfolding eq by blast
  qed
qed

lemma idx_slot_disjoint: "span (u + 2) 2 \<inter> span (u + 4 + 8 * of_nat (i mod K)) 8 = {}"
proof -
  have eq: "u + 4 + 8 * of_nat (i mod K) = u + of_nat (4 + 8 * (i mod K))" "u + 2 = u + of_nat 2"
    by simp_all
  show ?thesis
    unfolding eq using K_le mod_K_less [of i] by (intro span_offset_disjoint) auto
qed

lemma slot_halves:
  "span (p :: u64) 4 \<subseteq> span p 8" "span (p + 4) 4 \<subseteq> span p 8" "span p 4 \<inter> span (p + 4) 4 = {}"
  using span_mono [of 4 8 p] span_offset [of 4 4 8 p] span_offset_disjoint [of 0 4 4 4 p] by auto

lemma push_used_idx: "used_idx (push_used K m u h w) u = used_idx m u + 1"
proof -
  let ?e = "u + 4 + 8 * of_nat (unat (used_idx m u) mod K)"
  let ?m1 = "store32 m ?e (ucast h)"
  let ?m2 = "store32 ?m1 (?e + 4) w"
  note dis = idx_slot_disjoint [of u "unat (used_idx m u)"]
  have "agree_on (span (u + 2) 2) ?m1 m"
    using dis slot_halves [of ?e] by (intro store32_agree) blast
  moreover have "agree_on (span (u + 2) 2) ?m2 ?m1"
    using dis slot_halves [of ?e] by (intro store32_agree) blast
  ultimately have "agree_on (span (u + 2) 2) ?m2 m" by (blast intro: agree_on_trans)
  then have "used_idx ?m2 u = used_idx m u"
    unfolding used_idx_def by (rule load16_agree) simp
  then show ?thesis
    by (simp add: push_used_def Let_def used_idx_def [of "store16 _ _ _"] load16_store16)
qed

lemma push_used_slot: "used_elem K (push_used K m u h w) u (used_idx m u) = (ucast h, w)"
proof -
  let ?e = "u + 4 + 8 * of_nat (unat (used_idx m u) mod K)"
  let ?m1 = "store32 m ?e (ucast h)"
  let ?m2 = "store32 ?m1 (?e + 4) w"
  let ?m3 = "store16 ?m2 (u + 2) (used_idx ?m2 u + 1)"
  note dis = idx_slot_disjoint [of u "unat (used_idx m u)"]
  note half = slot_halves [of ?e]
  have 3: "agree_on (span ?e 8) ?m3 ?m2"
    using dis by (intro store16_agree) blast
  have 2: "agree_on (span ?e 4) ?m2 ?m1"
    using half by (intro store32_agree) blast
  have "load32 ?m3 ?e = load32 ?m2 ?e" using half by (intro load32_agree [OF 3]) blast
  also have "\<dots> = load32 ?m1 ?e" by (intro load32_agree [OF 2]) blast
  finally have a: "load32 ?m3 ?e = ucast h" by (simp add: load32_store32)
  have "load32 ?m3 (?e + 4) = load32 ?m2 (?e + 4)" using half by (intro load32_agree [OF 3]) blast
  then have b: "load32 ?m3 (?e + 4) = w" by (simp add: load32_store32)
  have "push_used K m u h w = ?m3" by (simp only: push_used_def Let_def)
  with a b show ?thesis by (simp only: used_elem_def)
qed

lemma push_used_other:
  assumes "unat n mod K \<noteq> unat (used_idx m u) mod K"
  shows "used_elem K (push_used K m u h w) u n = used_elem K m u n"
proof -
  let ?e = "u + 4 + 8 * of_nat (unat (used_idx m u) mod K)"
  let ?f = "u + 4 + 8 * of_nat (unat n mod K)"
  let ?m1 = "store32 m ?e (ucast h)"
  let ?m2 = "store32 ?m1 (?e + 4) w"
  let ?m3 = "store16 ?m2 (u + 2) (used_idx ?m2 u + 1)"
  note dis = slot_disjoint [OF mod_K_less mod_K_less assms, of u]
  note half = slot_halves [of ?e] slot_halves [of ?f]
  have "agree_on (span ?f 8) ?m1 m" using dis half by (intro store32_agree) blast
  moreover have "agree_on (span ?f 8) ?m2 ?m1" using dis half by (intro store32_agree) blast
  moreover have "agree_on (span ?f 8) ?m3 ?m2"
    using idx_slot_disjoint [of u "unat n"] by (intro store16_agree) blast
  ultimately have ag: "agree_on (span ?f 8) ?m3 m" by (blast intro: agree_on_trans)
  have "load32 ?m3 ?f = load32 m ?f" "load32 ?m3 (?f + 4) = load32 m (?f + 4)"
    using half by (blast intro: load32_agree [OF ag])+
  moreover have "push_used K m u h w = ?m3" by (simp only: push_used_def Let_def)
  ultimately show ?thesis by (simp only: used_elem_def)
qed

end

section \<open>The contract of a drain loop\<close>

text \<open>
  The requests a driver has made available and the device has not consumed, oldest first, and the
  ids the device has published from a used index on.
\<close>

definition pending :: "nat \<Rightarrow> hmem \<Rightarrow> u64 \<Rightarrow> u16 \<Rightarrow> u16 list" where
  "pending K m a l = map (\<lambda>i. avail_ring K m a (l + of_nat i)) [0..<unat (avail_idx m a - l)]"

definition published :: "nat \<Rightarrow> hmem \<Rightarrow> u64 \<Rightarrow> u16 \<Rightarrow> nat \<Rightarrow> u32 list" where
  "published K m u i n = map (\<lambda>k. fst (used_elem K m u (i + of_nat k))) [0..<n]"

text \<open>
  The abstract effect of draining a queue: from memory \<open>m\<close> and position \<open>l\<close> to memory \<open>m'\<close> and
  position \<open>l'\<close>. Every available request is consumed, exactly as many used elements are published,
  the available ring is untouched, and, when the driver has not overrun the ring, the published ids
  are the heads of the requests in the order the driver made them available.
\<close>

definition drained :: "nat \<Rightarrow> u64 \<Rightarrow> u64 \<Rightarrow> hmem \<Rightarrow> u16 \<Rightarrow> hmem \<Rightarrow> u16 \<Rightarrow> bool" where
  "drained K a u m l m' l' \<longleftrightarrow>
     l' = avail_idx m a
     \<and> agree_on (avail_span K a) m' m
     \<and> used_idx m' u = used_idx m u + (avail_idx m a - l)
     \<and> (length (pending K m a l) \<le> K \<longrightarrow>
          published K m' u (used_idx m u) (length (pending K m a l)) = map ucast (pending K m a l))"

lemma pending_Nil: "pending K m a l = [] \<longleftrightarrow> l = avail_idx m a"
  by (auto simp: pending_def unat_eq_zero)

lemma pending_Cons:
  assumes "l \<noteq> avail_idx m a"
  shows "pending K m a l = avail_ring K m a l # pending K m a (l + 1)"
proof -
  define n where "n = unat (avail_idx m a - (l + 1))"
  have "unat (avail_idx m a - l) = Suc n"
    using unat_minus_one_step [OF assms] by (simp add: n_def)
  then have "pending K m a l = map (\<lambda>i. avail_ring K m a (l + of_nat i)) (0 # map Suc [0..<n])"
    by (simp add: pending_def upt_conv_Cons map_Suc_upt del: upt_Suc)
  moreover have "pending K m a (l + 1) = map (\<lambda>i. avail_ring K m a (l + of_nat (Suc i))) [0..<n]"
    by (simp add: pending_def n_def ac_simps)
  ultimately show ?thesis by (simp add: comp_def)
qed

context ring_size
begin

lemma idx_mod_K: "unat (x + of_nat i :: u16) mod K = (unat x + i) mod K"
proof -
  have "unat (x + of_nat i :: u16) = (unat x + i) mod 65536"
    by (simp add: unat_word_ariths unat_of_nat mod_add_right_eq)
  then show ?thesis using K_dvd by (simp add: mod_mod_cancel)
qed

lemma idx_mod_K_inj:
  assumes "i < n" and "j < n" and "n \<le> K" and "(x + i) mod K = (x + j) mod K"
  shows "i = j"
proof -
  have "\<lbrakk>i < n; j < n; i \<le> j; (x + i) mod K = (x + j) mod K\<rbrakk> \<Longrightarrow> i = j" for i j
  proof -
    assume h: "i < n" "j < n" "i \<le> j" "(x + i) mod K = (x + j) mod K"
    have "x + i \<le> x + j" using h(3) by simp
    then have "K dvd (x + j) - (x + i)" using h(4) mod_eq_dvd_iff_nat [of "x + i" "x + j" K] by simp
    then have "K dvd j - i" by simp
    then show "i = j" using h assms(3) by (auto dest: dvd_imp_le)
  qed
  from this [of i j] this [of j i] show ?thesis using assms by (metis nat_le_linear)
qed

end

text \<open>
  Servicing a request in memory outside the rings and publishing its head: the memory law that one
  iteration of a drain loop obeys.
\<close>

definition served :: "nat \<Rightarrow> u64 \<Rightarrow> u64 \<Rightarrow> hmem \<Rightarrow> u16 \<Rightarrow> hmem \<Rightarrow> bool" where
  "served K a u m l m' \<longleftrightarrow>
     agree_on (avail_span K a) m' m
     \<and> used_idx m' u = used_idx m u + 1
     \<and> fst (used_elem K m' u (used_idx m u)) = ucast (avail_ring K m a l)
     \<and> (\<forall>n. unat n mod K \<noteq> unat (used_idx m u) mod K \<longrightarrow> used_elem K m' u n = used_elem K m u n)"

context ring_size
begin

lemma served_push_used:
  assumes "agree_on (- W) m1 m" and "W \<inter> (avail_span K a \<union> used_span K u) = {}"
    and "avail_span K a \<inter> used_span K u = {}"
  shows "served K a u m l (push_used K m1 u (avail_ring K m a l) w)"
proof -
  have av: "agree_on (avail_span K a) m1 m" and us: "agree_on (used_span K u) m1 m"
    using assms(1,2) by (auto intro: agree_on_mono)
  have "agree_on (avail_span K a) (push_used K m1 u (avail_ring K m a l) w) m1"
    using assms(3) by (rule push_used_agree)
  with av have 1: "agree_on (avail_span K a) (push_used K m1 u (avail_ring K m a l) w) m"
    by (blast intro: agree_on_trans)
  have ui: "used_idx m1 u = used_idx m u" "\<And>n. used_elem K m1 u n = used_elem K m u n"
    by (rule used_agree [OF us])+
  have "used_idx (push_used K m1 u (avail_ring K m a l) w) u = used_idx m u + 1"
    using push_used_idx [of m1 u] by (simp add: ui)
  moreover have "fst (used_elem K (push_used K m1 u (avail_ring K m a l) w) u (used_idx m u))
      = ucast (avail_ring K m a l)"
    using push_used_slot [of m1 u] by (simp add: ui)
  moreover have "\<forall>n. unat n mod K \<noteq> unat (used_idx m u) mod K \<longrightarrow>
      used_elem K (push_used K m1 u (avail_ring K m a l) w) u n = used_elem K m u n"
    using push_used_other [of _ m1 u] by (simp add: ui)
  ultimately show ?thesis using 1 by (simp add: served_def)
qed

end

text \<open>A run of \<open>n\<close> such iterations, and its effect on the rings.\<close>

inductive served_n :: "nat \<Rightarrow> u64 \<Rightarrow> u64 \<Rightarrow> hmem \<Rightarrow> u16 \<Rightarrow> hmem \<Rightarrow> nat \<Rightarrow> bool" for K a u where
  served_0: "served_n K a u m l m 0"
| served_Suc: "served K a u m l m1 \<Longrightarrow> served_n K a u m1 (l + 1) m' n \<Longrightarrow> served_n K a u m l m' (Suc n)"

inductive_cases served_0_E: "served_n K a u m l m' 0"
inductive_cases served_Suc_E: "served_n K a u m l m' (Suc n)"

context ring_size
begin

lemma served_n_effect:
  assumes "served_n K a u m l m' n"
  shows "agree_on (avail_span K a) m' m
      \<and> used_idx m' u = used_idx m u + of_nat n
      \<and> (\<forall>x. (\<forall>i < n. unat x mod K \<noteq> (unat (used_idx m u) + i) mod K) \<longrightarrow> used_elem K m' u x = used_elem K m u x)
      \<and> (n \<le> K \<longrightarrow> (\<forall>i < n. fst (used_elem K m' u (used_idx m u + of_nat i))
                          = ucast (avail_ring K m a (l + of_nat i))))"
  using assms
proof (induction rule: served_n.induct)
  case (served_0 m l)
  then show ?case by simp
next
  case (served_Suc m l m1 m' n)
  from served_Suc.hyps(1) have ag: "agree_on (avail_span K a) m1 m" and ui: "used_idx m1 u = used_idx m u + 1"
    and slot: "fst (used_elem K m1 u (used_idx m u)) = ucast (avail_ring K m a l)"
    and oth: "\<And>x. unat x mod K \<noteq> unat (used_idx m u) mod K \<Longrightarrow> used_elem K m1 u x = used_elem K m u x"
    unfolding served_def by blast+
  have av: "\<And>i. avail_ring K m1 a i = avail_ring K m a i" by (rule avail_agree(2) [OF ag])
  have e: "unat (used_idx m u + 1) mod K = Suc (unat (used_idx m u)) mod K"
    using idx_mod_K [of "used_idx m u" 1] by simp
  have um: "(unat (used_idx m1 u) + i) mod K = (unat (used_idx m u) + Suc i) mod K" for i
    unfolding ui by (subst mod_add_left_eq [symmetric]) (simp add: e mod_add_left_eq)
  from served_Suc.IH have t': "agree_on (avail_span K a) m' m1" "used_idx m' u = used_idx m u + 1 + of_nat n"
    and fr: "\<And>x. (\<forall>i < n. unat x mod K \<noteq> (unat (used_idx m u) + Suc i) mod K) \<Longrightarrow>
      used_elem K m' u x = used_elem K m1 u x"
    and ent: "\<And>i. n \<le> K \<Longrightarrow> i < n \<Longrightarrow> fst (used_elem K m' u (used_idx m u + 1 + of_nat i))
      = ucast (avail_ring K m a (l + 1 + of_nat i))"
    by (auto simp: av ui um [unfolded ui])
  have frame: "used_elem K m' u x = used_elem K m u x"
    if h: "\<forall>i < Suc n. unat x mod K \<noteq> (unat (used_idx m u) + i) mod K" for x
  proof -
    have "\<forall>i < n. unat x mod K \<noteq> (unat (used_idx m u) + Suc i) mod K" using h Suc_mono by blast
    moreover have "unat x mod K \<noteq> unat (used_idx m u) mod K" using h by force
    ultimately show ?thesis using fr oth by simp
  qed
  have entries: "fst (used_elem K m' u (used_idx m u + of_nat i)) = ucast (avail_ring K m a (l + of_nat i))"
    if "Suc n \<le> K" and "i < Suc n" for i
  proof (cases i)
    case 0
    have "\<forall>j < n. unat (used_idx m u) mod K \<noteq> (unat (used_idx m u) + Suc j) mod K"
      using idx_mod_K_inj [of 0 "Suc n" "Suc _" "unat (used_idx m u)"] \<open>Suc n \<le> K\<close> by force
    with fr [of "used_idx m u"] slot 0 show ?thesis by simp
  next
    case (Suc j)
    with ent [of j] that show ?thesis by (simp add: ac_simps)
  qed
  show ?case using t' ag frame entries by (auto intro: agree_on_trans simp: ac_simps)
qed

end

text \<open>
  One iteration of a device's loop, as every device implements it: on a nonempty queue the body
  returns without breaking, advances the position by one, leaves the available ring alone, and
  publishes one used element whose id is the head at the old position.
\<close>

locale virtq_drain = ring_size +
  fixes a u :: u64
    and memof :: "'s \<Rightarrow> hmem"
    and lastof :: "'s \<Rightarrow> u16"
    and body :: "'s \<Rightarrow> ('s \<times> bool) option"
    and inv :: "'s \<Rightarrow> bool"
  assumes service: "inv s \<Longrightarrow> lastof s \<noteq> avail_idx (memof s) a \<Longrightarrow>
      \<exists>t. body s = Some (t, False) \<and> inv t \<and> lastof t = lastof s + 1
        \<and> served K a u (memof s) (lastof s) (memof t)"
begin

lemma drain_step:
  assumes "inv s" and "n = unat (avail_idx (memof s) a - lastof s)"
  shows "\<exists>t. while_brk (\<lambda>s. lastof s \<noteq> avail_idx (memof s) a) body s = Some t \<and> inv t
      \<and> lastof t = avail_idx (memof s) a \<and> served_n K a u (memof s) (lastof s) (memof t) n"
  using assms
proof (induction n arbitrary: s)
  case 0
  then have "avail_idx (memof s) a - lastof s = 0" by (metis unat_eq_zero)
  then have "lastof s = avail_idx (memof s) a" by simp
  with 0 show ?case by (auto simp: while_brk_stop intro: served_0)
next
  case (Suc n)
  then have ne: "lastof s \<noteq> avail_idx (memof s) a" by auto
  from service [OF Suc.prems(1) ne] obtain t where
    t: "body s = Some (t, False)" "inv t" "lastof t = lastof s + 1"
      "served K a u (memof s) (lastof s) (memof t)" by blast
  have av: "avail_idx (memof t) a = avail_idx (memof s) a"
    using t(4) by (intro avail_agree(1)) (simp add: served_def)
  have "n = unat (avail_idx (memof t) a - lastof t)"
    using Suc.prems(2) unat_minus_one_step [OF ne] by (simp add: av t(3))
  from Suc.IH [OF t(2) this] t ne av show ?case
    by (auto simp: while_brk_step intro: served_Suc)
qed

text \<open>Draining returns, keeps the invariant and has the abstract effect.\<close>

lemma drain_all:
  assumes "inv s"
  shows "\<exists>t. while_brk (\<lambda>s. lastof s \<noteq> avail_idx (memof s) a) body s = Some t \<and> inv t
      \<and> drained K a u (memof s) (lastof s) (memof t) (lastof t)"
proof -
  from drain_step [OF assms refl] obtain t where
    t: "while_brk (\<lambda>s. lastof s \<noteq> avail_idx (memof s) a) body s = Some t" "inv t"
      "lastof t = avail_idx (memof s) a"
      "served_n K a u (memof s) (lastof s) (memof t) (unat (avail_idx (memof s) a - lastof s))" by blast
  from t(1-3) served_n_effect [OF t(4)] show ?thesis
    by (intro exI [of _ t]) (simp add: drained_def pending_def published_def)
qed

end

interpretation ring256: ring_size 256
  by unfold_locales simp

interpretation ring64: ring_size 64
  by unfold_locales simp

end
