(* ===== verification/Host_Env.thy ===== *)
theory Host_Env
  imports Vm_Memory
begin

text \<open>
  What the VMM can change outside its own objects: the host memory that guest RAM is mapped into,
  the interrupt lines of the GIC that Hypervisor.framework emulates (\<^verbatim>\<open>src/src/hvf/fw_gic.cpp\<close>), the
  bytes handed to \<^verbatim>\<open>::write\<close> on a descriptor, and the state of operating-system objects (disk image,
  pipes, sockets), which is opaque here and changed only by the system calls a device is given as
  parameters.
\<close>

record 'e host =
  mem :: hmem
  spi_calls :: "(u32 \<times> bool) list"
  sent :: "(int \<times> u8 list) list"
  ext :: 'e

abbreviation kGicSpiBase :: u32 where "kGicSpiBase \<equiv> 32"
abbreviation kSpiConsole :: u32 where "kSpiConsole \<equiv> 16"
abbreviation kSpiBlock :: u32 where "kSpiBlock \<equiv> 17"
abbreviation kSpiNet :: u32 where "kSpiNet \<equiv> 19"
abbreviation kSpiGpu :: u32 where "kSpiGpu \<equiv> 20"
abbreviation kSpiKeyboard :: u32 where "kSpiKeyboard \<equiv> 21"
abbreviation kSpiTablet :: u32 where "kSpiTablet \<equiv> 22"

text \<open>
  Assert, then deassert, the line of one shared peripheral interrupt. The two return codes only
  select a log message.
\<close>

definition raise_spi :: "u32 \<Rightarrow> 'e host \<Rightarrow> 'e host" where
  "raise_spi spi_number h =
     (let intid = kGicSpiBase + spi_number
      in h\<lparr>spi_calls := spi_calls h @ [(intid, True), (intid, False)]\<rparr>)"

text \<open>\<^verbatim>\<open>::write(fd, buf, n)\<close> with its result ignored, as the console paths call it.\<close>

definition fd_write :: "int \<Rightarrow> u8 list \<Rightarrow> 'e host \<Rightarrow> 'e host" where
  "fd_write fd bs h = h\<lparr>sent := sent h @ [(fd, bs)]\<rparr>"

lemma raise_spi_simps [simp]:
  "mem (raise_spi n h) = mem h" "sent (raise_spi n h) = sent h" "ext (raise_spi n h) = ext h"
  "spi_calls (raise_spi n h) = spi_calls h @ [(32 + n, True), (32 + n, False)]"
  by (simp_all add: raise_spi_def Let_def)

lemma fd_write_simps [simp]:
  "mem (fd_write fd bs h) = mem h" "spi_calls (fd_write fd bs h) = spi_calls h"
  "ext (fd_write fd bs h) = ext h" "sent (fd_write fd bs h) = sent h @ [(fd, bs)]"
  by (simp_all add: fd_write_def)

end
