(* ===== verification/Virtio_Mmio.thy ===== *)
theory Virtio_Mmio
  imports Virtqueue Host_Env
begin

text \<open>
  What the five virtio-mmio devices have in common beyond the ring memory: the register offsets
  (\<^verbatim>\<open>namespace Reg\<close> of each device source), descriptor chains, and the contract of the register
  interface as a driver uses it.
\<close>

section \<open>Register offsets\<close>

abbreviation Reg_Magic :: u32 where "Reg_Magic \<equiv> 0x000"
abbreviation Reg_Version :: u32 where "Reg_Version \<equiv> 0x004"
abbreviation Reg_DeviceId :: u32 where "Reg_DeviceId \<equiv> 0x008"
abbreviation Reg_VendorId :: u32 where "Reg_VendorId \<equiv> 0x00C"
abbreviation Reg_DeviceFeat :: u32 where "Reg_DeviceFeat \<equiv> 0x010"
abbreviation Reg_DeviceFeatSel :: u32 where "Reg_DeviceFeatSel \<equiv> 0x014"
abbreviation Reg_DriverFeat :: u32 where "Reg_DriverFeat \<equiv> 0x020"
abbreviation Reg_DriverFeatSel :: u32 where "Reg_DriverFeatSel \<equiv> 0x024"
abbreviation Reg_QueueSel :: u32 where "Reg_QueueSel \<equiv> 0x030"
abbreviation Reg_QueueNumMax :: u32 where "Reg_QueueNumMax \<equiv> 0x034"
abbreviation Reg_QueueNum :: u32 where "Reg_QueueNum \<equiv> 0x038"
abbreviation Reg_QueueReady :: u32 where "Reg_QueueReady \<equiv> 0x044"
abbreviation Reg_QueueNotify :: u32 where "Reg_QueueNotify \<equiv> 0x050"
abbreviation Reg_IrqStatus :: u32 where "Reg_IrqStatus \<equiv> 0x060"
abbreviation Reg_IrqAck :: u32 where "Reg_IrqAck \<equiv> 0x064"
abbreviation Reg_Status :: u32 where "Reg_Status \<equiv> 0x070"
abbreviation Reg_QueueDescLo :: u32 where "Reg_QueueDescLo \<equiv> 0x080"
abbreviation Reg_QueueDescHi :: u32 where "Reg_QueueDescHi \<equiv> 0x084"
abbreviation Reg_QueueAvailLo :: u32 where "Reg_QueueAvailLo \<equiv> 0x090"
abbreviation Reg_QueueAvailHi :: u32 where "Reg_QueueAvailHi \<equiv> 0x094"
abbreviation Reg_QueueUsedLo :: u32 where "Reg_QueueUsedLo \<equiv> 0x0A0"
abbreviation Reg_QueueUsedHi :: u32 where "Reg_QueueUsedHi \<equiv> 0x0A4"
abbreviation Reg_ConfigGen :: u32 where "Reg_ConfigGen \<equiv> 0x0FC"
abbreviation Reg_Config :: u32 where "Reg_Config \<equiv> 0x100"

abbreviation kMagicValue :: u32 where "kMagicValue \<equiv> 0x74726976"
abbreviation kVendor :: u32 where "kVendor \<equiv> 0x554D4551"

section \<open>Two queues behind one selector\<close>

text \<open>
  \<^verbatim>\<open>Queue queues_[2]\<close> and \<^verbatim>\<open>q = (queue_sel_ < 2) ? &queues_[queue_sel_] : nullptr\<close>; a write through
  the null pointer is skipped.
\<close>

type_synonym queues2 = "queue \<times> queue"

definition q_sel :: "queues2 \<Rightarrow> u32 \<Rightarrow> queue option" where
  "q_sel qs sel = (if sel = 0 then Some (fst qs) else if sel = 1 then Some (snd qs) else None)"

definition q_upd :: "queues2 \<Rightarrow> u32 \<Rightarrow> (queue \<Rightarrow> queue) \<Rightarrow> queues2" where
  "q_upd qs sel f =
     (if sel = 0 then (f (fst qs), snd qs) else if sel = 1 then (fst qs, f (snd qs)) else qs)"

lemma q_upd_0 [simp]: "q_upd qs 0 f = (f (fst qs), snd qs)"
  by (simp add: q_upd_def)

lemma q_sel_0 [simp]: "q_sel qs 0 = Some (fst qs)"
  by (simp add: q_sel_def)

section \<open>The register contract\<close>

text \<open>
  What a driver relies on when it programs a queue. \<open>q_write\<close> is the effect of one register write on
  the selected queue of a device with rings of \<open>K\<close> entries; \<open>queue_regs\<close> are the registers it covers.
\<close>

definition q_write :: "u32 \<Rightarrow> u32 \<Rightarrow> u32 \<Rightarrow> queue \<Rightarrow> queue" where
  "q_write K off v q =
     (if off = Reg_QueueNum then q\<lparr>num := min v K\<rparr>
      else if off = Reg_QueueReady then q\<lparr>ready := (v \<noteq> 0)\<rparr>
      else if off = Reg_QueueDescLo then q\<lparr>desc_gpa := set_lo (desc_gpa q) v\<rparr>
      else if off = Reg_QueueDescHi then q\<lparr>desc_gpa := set_hi (desc_gpa q) v\<rparr>
      else if off = Reg_QueueAvailLo then q\<lparr>avail_gpa := set_lo (avail_gpa q) v\<rparr>
      else if off = Reg_QueueAvailHi then q\<lparr>avail_gpa := set_hi (avail_gpa q) v\<rparr>
      else if off = Reg_QueueUsedLo then q\<lparr>used_gpa := set_lo (used_gpa q) v\<rparr>
      else if off = Reg_QueueUsedHi then q\<lparr>used_gpa := set_hi (used_gpa q) v\<rparr>
      else q)"

definition queue_regs :: "u32 set" where
  "queue_regs = {Reg_QueueNum, Reg_QueueReady, Reg_QueueDescLo, Reg_QueueDescHi, Reg_QueueAvailLo,
     Reg_QueueAvailHi, Reg_QueueUsedLo, Reg_QueueUsedHi}"

text \<open>A sequence of register writes; \<open>None\<close> when one of them does not return.\<close>

fun run_writes :: "('s \<Rightarrow> u32 \<Rightarrow> u32 \<Rightarrow> 's option) \<Rightarrow> 's \<Rightarrow> (u32 \<times> u32) list \<Rightarrow> 's option" where
  "run_writes wr s [] = Some s"
| "run_writes wr s ((off, v) # ws) = (case wr s off v of None \<Rightarrow> None | Some t \<Rightarrow> run_writes wr t ws)"

text \<open>The writes by which a driver sets up queue \<open>n\<close>, after a device reset.\<close>

definition setup_writes :: "u32 \<Rightarrow> u32 \<Rightarrow> u64 \<Rightarrow> u64 \<Rightarrow> u64 \<Rightarrow> (u32 \<times> u32) list" where
  "setup_writes n k d a u =
     [(Reg_QueueSel, n), (Reg_QueueNum, k),
      (Reg_QueueDescLo, lo32 d), (Reg_QueueDescHi, hi32 d), (Reg_QueueAvailLo, lo32 a),
      (Reg_QueueAvailHi, hi32 a), (Reg_QueueUsedLo, lo32 u), (Reg_QueueUsedHi, hi32 u),
      (Reg_QueueReady, 1)]"

text \<open>
  The contract. \<open>rd\<close> and \<open>wr\<close> are the register accesses of the device (\<open>None\<close>: undefined behaviour
  on a read, no return on a write), \<open>qv\<close> its queues, \<open>selq\<close> the selected one, \<open>nq\<close> their number,
  \<open>K\<close> the ring size, \<open>dev\<close> the device id, and \<open>ok\<close> an invariant of the device state.
\<close>

locale virtio_regs =
  fixes rd :: "'s \<Rightarrow> u32 \<Rightarrow> u32 option"
    and wr :: "'s \<Rightarrow> u32 \<Rightarrow> u32 \<Rightarrow> 's option"
    and qv :: "'s \<Rightarrow> u32 \<Rightarrow> queue"
    and selq :: "'s \<Rightarrow> u32"
    and nq K dev :: u32
    and ok :: "'s \<Rightarrow> bool"
  assumes ident: "rd s Reg_Magic = Some kMagicValue" "rd s Reg_Version = Some 2"
      "rd s Reg_DeviceId = Some dev" "rd s Reg_QueueNumMax = Some K"
    and reset: "ok s \<Longrightarrow> \<exists>t. wr s Reg_Status 0 = Some t \<and> ok t \<and> (\<forall>n < nq. qv t n = queue_init K)
      \<and> rd t Reg_Status = Some 0 \<and> rd t Reg_IrqStatus = Some 0"
    and select: "ok s \<Longrightarrow> n < nq \<Longrightarrow> \<exists>t. wr s Reg_QueueSel n = Some t \<and> ok t \<and> selq t = n \<and> qv t = qv s"
    and program: "ok s \<Longrightarrow> off \<in> queue_regs \<Longrightarrow> selq s < nq \<Longrightarrow>
      \<exists>t. wr s off v = Some t \<and> ok t \<and> selq t = selq s
        \<and> qv t = (qv s)(selq s := q_write K off v (qv s (selq s)))"
    and ready_rd: "ok s \<Longrightarrow> selq s < nq \<Longrightarrow>
      rd s Reg_QueueReady = Some (if ready (qv s (selq s)) then 1 else 0)"
begin

lemma program_run:
  assumes "ok s" and "selq s < nq" and "fst ` set ws \<subseteq> queue_regs"
  shows "\<exists>t. run_writes wr s ws = Some t \<and> ok t \<and> selq t = selq s
      \<and> qv t = (qv s)(selq s := fold (\<lambda>(off, v). q_write K off v) ws (qv s (selq s)))"
  using assms
proof (induction ws arbitrary: s)
  case Nil
  then show ?case by simp
next
  case (Cons w ws)
  obtain off v where w: "w = (off, v)" by force
  from program [OF Cons.prems(1), of off v] Cons.prems w obtain t where
    t: "wr s off v = Some t" "ok t" "selq t = selq s"
      "qv t = (qv s)(selq s := q_write K off v (qv s (selq s)))" by auto
  with Cons.IH [of t] Cons.prems w show ?case by (auto simp: fun_eq_iff)
qed

text \<open>
  The driver's set-up of one queue: it returns, the queue is the programmed one and ready, its ring
  addresses are the 64-bit values the driver split into halves, and the other queues are untouched.
\<close>

lemma setup_queue:
  assumes "ok s" and "n < nq"
  shows "\<exists>t. run_writes wr s (setup_writes n k d a u) = Some t \<and> ok t
      \<and> qv t = (qv s)(n := \<lparr>num = min k K, desc_gpa = d, avail_gpa = a, used_gpa = u,
                           last_avail = last_avail (qv s n), ready = True\<rparr>)
      \<and> rd t Reg_QueueReady = Some 1"
proof -
  from select [OF assms] obtain s1 where
    s1: "wr s Reg_QueueSel n = Some s1" "ok s1" "selq s1 = n" "qv s1 = qv s" by blast
  let ?ws = "tl (setup_writes n k d a u)"
  have "fst ` set ?ws \<subseteq> queue_regs" by (simp add: setup_writes_def queue_regs_def)
  with program_run [of s1 ?ws] s1 assms obtain t where
    t: "run_writes wr s1 ?ws = Some t" "ok t" "selq t = n"
      "qv t = (qv s)(n := fold (\<lambda>(off, v). q_write K off v) ?ws (qv s n))" by auto
  have "fold (\<lambda>(off, v). q_write K off v) ?ws (qv s n)
      = \<lparr>num = min k K, desc_gpa = d, avail_gpa = a, used_gpa = u, last_avail = last_avail (qv s n), ready = True\<rparr>"
    by (simp add: setup_writes_def q_write_def set_hi_set_lo)
  with t s1 ready_rd [of t] assms show ?thesis
    by (auto simp: setup_writes_def)
qed

text \<open>Reset, then set-up: the queue is live exactly when no ring address is zero.\<close>

lemma bring_up:
  assumes "ok s" and "n < nq"
  shows "\<exists>t. run_writes wr s ((Reg_Status, 0) # setup_writes n k d a u) = Some t \<and> ok t
      \<and> (\<forall>i < nq. qv t i = (if i = n then \<lparr>num = min k K, desc_gpa = d, avail_gpa = a, used_gpa = u,
                                     last_avail = 0, ready = True\<rparr> else queue_init K))
      \<and> rd t Reg_QueueReady = Some 1"
proof -
  from reset [OF assms(1)] obtain s1 where
    s1: "wr s Reg_Status 0 = Some s1" "ok s1" "\<forall>n < nq. qv s1 n = queue_init K" by blast
  from setup_queue [OF s1(2) assms(2)] s1 assms(2) show ?thesis
    by (fastforce simp: queue_init_def)
qed

end

section \<open>Descriptor chains\<close>

text \<open>
  The descriptors of a request as a driver lays them out: following \<^verbatim>\<open>next\<close> while the \<^verbatim>\<open>NEXT\<close> flag is
  set stays inside the table and ends within \<open>n\<close> descriptors. \<open>None\<close> for a chain that leaves the
  table or runs in a circle.
\<close>

fun chain :: "nat \<Rightarrow> hmem \<Rightarrow> u64 \<Rightarrow> nat \<Rightarrow> u16 \<Rightarrow> u16 list option" where
  "chain K m d 0 i = None"
| "chain K m d (Suc n) i =
     (if unat i < K
      then if has_next m d i then map_option ((#) i) (chain K m d n (desc_next m d i)) else Some [i]
      else None)"

lemma chain_numeral:
  "chain K m d (numeral v) i =
     (if unat i < K
      then if has_next m d i then map_option ((#) i) (chain K m d (pred_numeral v) (desc_next m d i))
           else Some [i]
      else None)"
  by (simp add: numeral_eq_Suc)

text \<open>Evaluation of the ring accessors on a concrete memory.\<close>

lemmas ring_eval = has_next_def VRING_DESC_F_NEXT_def VRING_DESC_F_WRITE_def desc_flags_def desc_next_def
  desc_addr_def desc_len_def avail_idx_def avail_ring_def used_idx_def load16_bytes load32_bytes
  load64_bytes

text \<open>Every mapped buffer of the chain (at least its first byte) lies in the host footprint \<open>W\<close>.\<close>

definition bufs_in :: "('a) vm_map_scheme \<Rightarrow> u64 set \<Rightarrow> hmem \<Rightarrow> u64 \<Rightarrow> u16 list \<Rightarrow> bool" where
  "bufs_in c W m d ds \<longleftrightarrow>
     (\<forall>i \<in> set ds. \<forall>p. gpa_to_hva c (desc_addr m d i) = Some p \<longrightarrow>
        span p (max 1 (unat (desc_len m d i))) \<subseteq> W)"

lemma chain_not_Nil [simp]: "chain K m d n i \<noteq> Some []"
  by (cases n) (auto split: if_splits)

lemma chain_Cons:
  "chain K m d n i = Some (j # ds) \<Longrightarrow>
     j = i \<and> unat i < K \<and> (if ds = [] then \<not> has_next m d i
       else has_next m d i \<and> (\<exists>n'. n = Suc n' \<and> chain K m d n' (desc_next m d i) = Some ds))"
  by (cases n) (auto split: if_splits)

context ring_size
begin

lemma chain_agree:
  "agree_on (desc_span K d) m m' \<Longrightarrow> chain K m d n i = chain K m' d n i"
proof (induction n arbitrary: i)
  case 0
  then show ?case by simp
next
  case (Suc n)
  show ?case
  proof (cases "unat i < K")
    case True
    with desc_agree [OF Suc.prems True] Suc show ?thesis by simp
  qed simp
qed

lemma chain_in_table: "chain K m d n i = Some ds \<Longrightarrow> j \<in> set ds \<Longrightarrow> unat j < K"
  by (induction n arbitrary: i ds) (auto split: if_splits)

lemma bufs_in_agree:
  assumes "agree_on (desc_span K d) m m'" and "chain K m d n i = Some ds" and "set es \<subseteq> set ds"
  shows "bufs_in c W m d es \<longleftrightarrow> bufs_in c W m' d es"
proof -
  have "\<And>j. j \<in> set es \<Longrightarrow> unat j < K" using assms(2,3) chain_in_table by blast
  then show ?thesis
    unfolding bufs_in_def using desc_agree(1,2) [OF assms(1)] by metis
qed

lemma bufs_in_single:
  assumes "agree_on (desc_span K d) m m'" and "unat i < K"
  shows "bufs_in c W m d [i] \<longleftrightarrow> bufs_in c W m' d [i]"
  using desc_agree(1,2) [OF assms] by (simp add: bufs_in_def)

end

section \<open>A small machine for the witnesses\<close>

text \<open>
  64 KiB of guest RAM at guest address \<open>0x40000000\<close>, mapped at host address \<open>0x10000\<close>; a descriptor
  table, an available ring with one request and an empty used ring; one chain of three descriptors:
  16 bytes for the device to read, 4 bytes and 1 byte for it to write.
\<close>

definition demo_ctx :: vm_map where
  "demo_ctx = \<lparr>ram_hva = 0x10000, ram_gpa = 0x40000000, ram_size = 0x10000\<rparr>"

definition demo_mem :: hmem where
  "demo_mem = (\<lambda>_. 0)
     (0x11001 := 0x40, 0x11003 := 0x40, 0x11008 := 0x10, 0x1100C := 1, 0x1100E := 1,
      0x11011 := 0x50, 0x11013 := 0x40, 0x11018 := 4, 0x1101C := 3, 0x1101E := 2,
      0x11021 := 0x60, 0x11023 := 0x40, 0x11028 := 1, 0x1102C := 2,
      0x12002 := 1)"

definition demo_queue :: queue where
  "demo_queue = \<lparr>num = 256, desc_gpa = 0x40001000, avail_gpa = 0x40002000, used_gpa = 0x40003000,
     last_avail = 0, ready = True\<rparr>"

lemma demo_chain: "chain 256 demo_mem 0x11000 256 0 = Some [0, 1, 2]"
  by (simp add: ring_eval demo_mem_def chain_numeral)

lemma demo_pending: "pending 256 demo_mem 0x12000 0 = [0]"
  by (simp add: ring_eval demo_mem_def pending_def)

lemma demo_desc:
  "desc_addr demo_mem 0x11000 0 = 0x40004000" "desc_addr demo_mem 0x11000 1 = 0x40005000"
  "desc_addr demo_mem 0x11000 2 = 0x40006000" "desc_len demo_mem 0x11000 0 = 16"
  "desc_len demo_mem 0x11000 1 = 4" "desc_len demo_mem 0x11000 2 = 1"
  by (simp_all add: ring_eval demo_mem_def)

lemma demo_hva:
  "gpa_to_hva demo_ctx 0x40001000 = Some 0x11000" "gpa_to_hva demo_ctx 0x40002000 = Some 0x12000"
  "gpa_to_hva demo_ctx 0x40003000 = Some 0x13000" "gpa_to_hva demo_ctx 0x40004000 = Some 0x14000"
  "gpa_to_hva demo_ctx 0x40005000 = Some 0x15000" "gpa_to_hva demo_ctx 0x40006000 = Some 0x16000"
  by (simp_all add: gpa_to_hva_def demo_ctx_def)

lemma demo_live: "queue_live demo_queue"
  by (simp add: queue_live_def demo_queue_def)

lemma demo_apart:
  "span 0x14000 0x3000 \<inter> (desc_span 256 0x11000 \<union> avail_span 256 0x12000 \<union> used_span 256 0x13000) = {}"
  "used_span 256 0x13000 \<inter> (desc_span 256 0x11000 \<union> avail_span 256 0x12000) = {}"
proof -
  have d: "span 0x11000 4096 \<inter> span 0x14000 0x3000 = {}" "span 0x12000 516 \<inter> span 0x14000 0x3000 = {}"
    "span 0x13000 2052 \<inter> span 0x14000 0x3000 = {}" "span 0x11000 4096 \<inter> span 0x13000 2052 = {}"
    "span 0x12000 516 \<inter> span 0x13000 2052 = {}"
    by (rule span_disjointI; simp)+
  show "span 0x14000 0x3000 \<inter> (desc_span 256 0x11000 \<union> avail_span 256 0x12000 \<union> used_span 256 0x13000) = {}"
    using d(1,2,3) by (auto simp: desc_span_def avail_span_def used_span_def)
  show "used_span 256 0x13000 \<inter> (desc_span 256 0x11000 \<union> avail_span 256 0x12000) = {}"
    using d(4,5) by (auto simp: desc_span_def avail_span_def used_span_def)
qed

lemma demo_bufs: "bufs_in demo_ctx (span 0x14000 0x3000) demo_mem 0x11000 [0, 1, 2]"
  by (simp add: bufs_in_def demo_desc demo_hva span_subsetI)

lemmas demo_eval = demo_chain demo_pending demo_desc demo_hva demo_live demo_bufs

end
