(* ===== verification/Virtio_Block.thy ===== *)
theory Virtio_Block
  imports Virtio_Mmio
begin

text \<open>
  The virtio block device (\<^verbatim>\<open>src/src/hvf/virtio_block.hpp\<close>, \<^verbatim>\<open>virtio_block.cpp\<close>): its registers, the
  service of one request and the drain of the request queue. The disk image is reached through
  \<^verbatim>\<open>pread\<close>, \<^verbatim>\<open>pwrite\<close> and \<^verbatim>\<open>fsync\<close>, which are parameters.
\<close>

section \<open>State\<close>

text \<open>
  The system calls on the image. \<open>pread e fd n off\<close> is the bytes delivered, \<open>None\<close> for a negative
  result; \<open>pwrite\<close> gives the new state of the file and whether the result was not negative.
\<close>

record 'e blk_os =
  pread :: "'e \<Rightarrow> int \<Rightarrow> nat \<Rightarrow> u64 \<Rightarrow> u8 list option"
  pwrite :: "'e \<Rightarrow> int \<Rightarrow> u8 list \<Rightarrow> u64 \<Rightarrow> 'e \<times> bool"
  fsync :: "'e \<Rightarrow> int \<Rightarrow> 'e"

text \<open>POSIX: a read delivers at most the number of bytes asked for.\<close>

definition pread_bounded :: "'e blk_os \<Rightarrow> bool" where
  "pread_bounded os \<longleftrightarrow> (\<forall>e fd n off bs. pread os e fd n off = Some bs \<longrightarrow> length bs \<le> n)"

abbreviation kBlkQueueSize :: nat where "kBlkQueueSize \<equiv> 256"

abbreviation kVirtioF_Version1 :: u64 where "kVirtioF_Version1 \<equiv> 0x100000000"
abbreviation kBlkF_SizeMax :: u64 where "kBlkF_SizeMax \<equiv> 2"
abbreviation kBlkF_SegMax :: u64 where "kBlkF_SegMax \<equiv> 4"
abbreviation kBlkF_BlkSize :: u64 where "kBlkF_BlkSize \<equiv> 0x40"
abbreviation kBlkF_Flush :: u64 where "kBlkF_Flush \<equiv> 0x200"

abbreviation kSizeMax :: u32 where "kSizeMax \<equiv> 65536"
abbreviation kSegMax :: u32 where "kSegMax \<equiv> 254"
abbreviation kBlkSize :: u32 where "kBlkSize \<equiv> 512"

abbreviation VIRTIO_BLK_T_IN :: u32 where "VIRTIO_BLK_T_IN \<equiv> 0"
abbreviation VIRTIO_BLK_T_OUT :: u32 where "VIRTIO_BLK_T_OUT \<equiv> 1"
abbreviation VIRTIO_BLK_T_FLUSH :: u32 where "VIRTIO_BLK_T_FLUSH \<equiv> 4"
abbreviation VIRTIO_BLK_T_GET_ID :: u32 where "VIRTIO_BLK_T_GET_ID \<equiv> 8"

abbreviation VIRTIO_BLK_S_OK :: u8 where "VIRTIO_BLK_S_OK \<equiv> 0"
abbreviation VIRTIO_BLK_S_IOERR :: u8 where "VIRTIO_BLK_S_IOERR \<equiv> 1"
abbreviation VIRTIO_BLK_S_UNSUPP :: u8 where "VIRTIO_BLK_S_UNSUPP \<equiv> 2"

record block =
  b_fd :: int
  b_capacity :: u64
  b_status :: u32
  b_irq_status :: u32
  b_dev_feat_sel :: u32
  b_drv_feat_sel :: u32
  b_features :: u64
  b_queue :: queue

text \<open>
  The constructor: \<open>fd\<close> is the result of \<^verbatim>\<open>::open\<close>, \<open>st\<close> the size \<^verbatim>\<open>fstat\<close> reports, if it succeeds.
\<close>

definition block_new :: "int \<Rightarrow> u64 option \<Rightarrow> block" where
  "block_new fd st =
     \<lparr>b_fd = fd,
      b_capacity = (if fd \<ge> 0 then case st of Some st_size \<Rightarrow> st_size div 512 | None \<Rightarrow> 0 else 0),
      b_status = 0, b_irq_status = 0, b_dev_feat_sel = 0, b_drv_feat_sel = 0,
      b_features = kVirtioF_Version1 OR kBlkF_Flush OR kBlkF_SegMax OR kBlkF_SizeMax OR kBlkF_BlkSize,
      b_queue = queue_init 256\<rparr>"

definition block_valid :: "block \<Rightarrow> bool" where
  "block_valid b \<longleftrightarrow> b_fd b \<ge> 0"

section \<open>One request\<close>

text \<open>The local variables of the service of one request.\<close>

record 'e blk_data =
  d_cur :: u16
  d_off :: u64
  d_status :: u8
  d_wrote :: u32
  d_host :: "'e host"

text \<open>
  The body of the loop over the data descriptors. The address and the length are read before the
  transfer, \<^verbatim>\<open>next\<close> after it, from the memory the transfer may have changed.
\<close>

definition blk_data_step ::
  "'e blk_os \<Rightarrow> ('a) vm_map_scheme \<Rightarrow> int \<Rightarrow> u64 \<Rightarrow> u32 \<Rightarrow> 'e blk_data \<Rightarrow> 'e blk_data" where
  "blk_data_step os c fd d type s =
     (let h = d_host s; m = mem h; cur = d_cur s; len = desc_len m d cur;
          s' = (case gpa_to_hva c (desc_addr m d cur) of
                  None \<Rightarrow> s
                | Some buf \<Rightarrow>
                    if len = 0 then s
                    else let t =
                      (if type = VIRTIO_BLK_T_IN then
                         (case pread os (ext h) fd (unat len) (d_off s) of
                            None \<Rightarrow> s\<lparr>d_status := VIRTIO_BLK_S_IOERR, d_wrote := d_wrote s + len\<rparr>
                          | Some bs \<Rightarrow> s\<lparr>d_host := h\<lparr>mem := write_bytes m buf bs\<rparr>, d_wrote := d_wrote s + len\<rparr>)
                       else if type = VIRTIO_BLK_T_OUT then
                         (let r = pwrite os (ext h) fd (read_bytes m buf (unat len)) (d_off s)
                          in s\<lparr>d_host := h\<lparr>ext := fst r\<rparr>,
                               d_status := (if snd r then d_status s else VIRTIO_BLK_S_IOERR)\<rparr>)
                       else s\<lparr>d_status := VIRTIO_BLK_S_UNSUPP\<rparr>)
                      in t\<lparr>d_off := d_off t + ucast len\<rparr>)
      in s'\<lparr>d_cur := desc_next (mem (d_host s')) d cur\<rparr>)"

text \<open>\<^verbatim>\<open>strncpy(buf, "vda", 20)\<close> writes the name and pads with zeros.\<close>

definition blk_id :: "u8 list" where
  "blk_id = [0x76, 0x64, 0x61] @ replicate 17 0"

text \<open>The three ways to find the status descriptor: FLUSH, GET\_ID, and the walk over data.\<close>

definition blk_data ::
  "'e blk_os \<Rightarrow> ('a) vm_map_scheme \<Rightarrow> int \<Rightarrow> u64 \<Rightarrow> u32 \<Rightarrow> 'e blk_data \<Rightarrow> 'e blk_data option" where
  "blk_data os c fd d type s =
     (if type = VIRTIO_BLK_T_FLUSH then
        Some (s\<lparr>d_host := (d_host s)\<lparr>ext := fsync os (ext (d_host s)) fd\<rparr>\<rparr>)
      else if type = VIRTIO_BLK_T_GET_ID then
        (let h = d_host s; m = mem h; cur = d_cur s; len = desc_len m d cur;
             s' = (case gpa_to_hva c (desc_addr m d cur) of
                     None \<Rightarrow> s
                   | Some buf \<Rightarrow>
                       if len \<ge> 20
                       then (let m1 = write_bytes m buf blk_id
                             in s\<lparr>d_host := h\<lparr>mem := m1\<rparr>, d_wrote := d_wrote s + desc_len m1 d cur\<rparr>)
                       else s);
             m' = mem (d_host s')
         in Some (if has_next m' d cur then s'\<lparr>d_cur := desc_next m' d cur\<rparr> else s'))
      else while_brk (\<lambda>s. has_next (mem (d_host s)) d (d_cur s))
             (\<lambda>s. Some (blk_data_step os c fd d type s, False)) s)"

text \<open>The state of the drain loop: \<^verbatim>\<open>q.last_avail\<close>, the host, and \<^verbatim>\<open>raised\<close>.\<close>

record 'e blk_run =
  r_last :: u16
  r_host :: "'e host"
  r_raised :: bool

definition blk_rq_step ::
  "'e blk_os \<Rightarrow> ('a) vm_map_scheme \<Rightarrow> int \<Rightarrow> u64 \<Rightarrow> u64 \<Rightarrow> u64 \<Rightarrow> 'e blk_run \<Rightarrow> ('e blk_run \<times> bool) option" where
  "blk_rq_step os c fd d a u s =
     (let m = mem (r_host s); head = avail_ring kBlkQueueSize m a (r_last s)
      in case gpa_to_hva c (desc_addr m d head) of
           None \<Rightarrow> Some (s, True)
         | Some req \<Rightarrow>
             if desc_len m d head < 16 then Some (s, True)
             else if \<not> has_next m d head then Some (s, True)
             else
               (let type = load32 m req; sector = load64 m (req + 8)
                in case blk_data os c fd d type
                          \<lparr>d_cur = desc_next m d head, d_off = sector * 512, d_status = VIRTIO_BLK_S_OK,
                           d_wrote = 0, d_host = r_host s\<rparr> of
                     None \<Rightarrow> None
                   | Some x \<Rightarrow>
                       (let h = d_host x;
                            hw = (case gpa_to_hva c (desc_addr (mem h) d (d_cur x)) of
                                    None \<Rightarrow> (h, d_wrote x)
                                  | Some p \<Rightarrow> (h\<lparr>mem := (mem h)(p := d_status x)\<rparr>, d_wrote x + 1));
                            h' = (fst hw)\<lparr>mem := push_used kBlkQueueSize (mem (fst hw)) u head (snd hw)\<rparr>
                        in Some (\<lparr>r_last = r_last s + 1, r_host = h', r_raised = True\<rparr>, False))))"

section \<open>The request queue\<close>

definition process_rq ::
  "'e blk_os \<Rightarrow> ('a) vm_map_scheme \<Rightarrow> block \<Rightarrow> 'e host \<Rightarrow> (block \<times> 'e host) option" where
  "process_rq os c b h =
     (let q = b_queue b
      in if \<not> queue_live q then Some (b, h)
         else case (gpa_to_hva c (desc_gpa q), gpa_to_hva c (avail_gpa q), gpa_to_hva c (used_gpa q)) of
           (Some d, Some a, Some u) \<Rightarrow>
             (case while_brk (\<lambda>s. r_last s \<noteq> avail_idx (mem (r_host s)) a) (blk_rq_step os c (b_fd b) d a u)
                     \<lparr>r_last = last_avail q, r_host = h, r_raised = False\<rparr> of
                None \<Rightarrow> None
              | Some r \<Rightarrow>
                  (let b' = b\<lparr>b_queue := q\<lparr>last_avail := r_last r\<rparr>\<rparr>
                   in if r_raised r
                      then Some (b'\<lparr>b_irq_status := b_irq_status b OR 1\<rparr>, raise_spi kSpiBlock (r_host r))
                      else Some (b', r_host r)))
         | _ \<Rightarrow> Some (b, h))"

section \<open>Registers\<close>

definition block_read :: "block \<Rightarrow> u32 \<Rightarrow> u32" where
  "block_read b off =
     (if off \<ge> Reg_Config then
        (let cfg = off - Reg_Config
         in if cfg = 0x00 then lo32 (b_capacity b)
            else if cfg = 0x04 then hi32 (b_capacity b)
            else if cfg = 0x08 then kSizeMax
            else if cfg = 0x0C then kSegMax
            else if cfg = 0x10 then 0
            else if cfg = 0x14 then kBlkSize
            else 0)
      else if off = Reg_Magic then kMagicValue
      else if off = Reg_Version then 2
      else if off = Reg_DeviceId then 2
      else if off = Reg_VendorId then kVendor
      else if off = Reg_DeviceFeat then
        (if b_dev_feat_sel b = 0 then lo32 (b_features b)
         else if b_dev_feat_sel b = 1 then hi32 (b_features b) else 0)
      else if off = Reg_QueueNumMax then 256
      else if off = Reg_QueueReady then (if ready (b_queue b) then 1 else 0)
      else if off = Reg_IrqStatus then b_irq_status b
      else if off = Reg_Status then b_status b
      else if off = Reg_ConfigGen then 0
      else 0)"

definition block_write ::
  "'e blk_os \<Rightarrow> ('a) vm_map_scheme \<Rightarrow> block \<times> 'e host \<Rightarrow> u32 \<Rightarrow> u32 \<Rightarrow> (block \<times> 'e host) option" where
  "block_write os c s off val =
     (let b = fst s; h = snd s; q = b_queue b
      in if off = Reg_DeviceFeatSel then Some (b\<lparr>b_dev_feat_sel := val\<rparr>, h)
         else if off = Reg_DriverFeatSel then Some (b\<lparr>b_drv_feat_sel := val\<rparr>, h)
         else if off = Reg_DriverFeat then
           (if b_drv_feat_sel b = 0 then Some (b\<lparr>b_features := set_lo (b_features b) val\<rparr>, h)
            else if b_drv_feat_sel b = 1 then Some (b\<lparr>b_features := set_hi (b_features b) val\<rparr>, h)
            else Some (b, h))
         else if off = Reg_QueueSel then Some (b, h)
         else if off = Reg_QueueNum then Some (b\<lparr>b_queue := q\<lparr>num := min val 256\<rparr>\<rparr>, h)
         else if off = Reg_QueueReady then Some (b\<lparr>b_queue := q\<lparr>ready := (val \<noteq> 0)\<rparr>\<rparr>, h)
         else if off = Reg_QueueNotify then (if val = 0 then process_rq os c b h else Some (b, h))
         else if off = Reg_IrqAck then Some (b\<lparr>b_irq_status := b_irq_status b AND NOT val\<rparr>, h)
         else if off = Reg_Status then
           (if val = 0 then Some (b\<lparr>b_status := val, b_queue := queue_init 256, b_irq_status := 0\<rparr>, h)
            else Some (b\<lparr>b_status := val\<rparr>, h))
         else if off = Reg_QueueDescLo then Some (b\<lparr>b_queue := q\<lparr>desc_gpa := set_lo (desc_gpa q) val\<rparr>\<rparr>, h)
         else if off = Reg_QueueDescHi then Some (b\<lparr>b_queue := q\<lparr>desc_gpa := set_hi (desc_gpa q) val\<rparr>\<rparr>, h)
         else if off = Reg_QueueAvailLo then Some (b\<lparr>b_queue := q\<lparr>avail_gpa := set_lo (avail_gpa q) val\<rparr>\<rparr>, h)
         else if off = Reg_QueueAvailHi then Some (b\<lparr>b_queue := q\<lparr>avail_gpa := set_hi (avail_gpa q) val\<rparr>\<rparr>, h)
         else if off = Reg_QueueUsedLo then Some (b\<lparr>b_queue := q\<lparr>used_gpa := set_lo (used_gpa q) val\<rparr>\<rparr>, h)
         else if off = Reg_QueueUsedHi then Some (b\<lparr>b_queue := q\<lparr>used_gpa := set_hi (used_gpa q) val\<rparr>\<rparr>, h)
         else Some (b, h))"

section \<open>The walk over a descriptor chain\<close>

lemma blk_data_step_cur:
  "d_cur (blk_data_step os c fd d type s)
     = desc_next (mem (d_host (blk_data_step os c fd d type s))) d (d_cur s)"
  by (simp add: blk_data_step_def Let_def)

text \<open>A transfer writes at most the buffer of the descriptor it serves.\<close>

lemma blk_data_step_agree:
  assumes "pread_bounded os" and "bufs_in c W (mem (d_host s)) d [d_cur s]"
  shows "agree_on (- W) (mem (d_host (blk_data_step os c fd d type s))) (mem (d_host s))"
proof -
  let ?m = "mem (d_host s)" and ?len = "desc_len (mem (d_host s)) d (d_cur s)"
  have "agree_on (- W) (write_bytes ?m p bs) ?m"
    if p: "gpa_to_hva c (desc_addr ?m d (d_cur s)) = Some p"
      and bs: "pread os (ext (d_host s)) fd (unat ?len) (d_off s) = Some bs" for p bs
  proof (rule write_bytes_agree)
    have len: "length bs \<le> unat ?len" using assms(1) bs by (simp add: pread_bounded_def)
    then show "length bs \<le> 2 ^ 64" using unat_u32_less [of ?len] by simp
    have "span p (length bs) \<subseteq> span p (max 1 (unat ?len))" using len by (intro span_mono) simp
    also have "\<dots> \<subseteq> W" using assms(2) p by (simp add: bufs_in_def)
    finally show "span p (length bs) \<inter> - W = {}" by blast
  qed
  then show ?thesis
    by (auto simp: blk_data_step_def Let_def split: option.splits)
qed

text \<open>
  On a well-formed chain the data loop returns, and it is the body once per descriptor but the
  last, at which it stops.
\<close>

lemma blk_walk:
  assumes "chain 256 m0 d n (d_cur s) = Some ds" and "bufs_in c W m0 d ds"
    and "desc_span 256 d \<inter> W = {}" and "agree_on (desc_span 256 d) (mem (d_host s)) m0"
    and "pread_bounded os"
  shows "\<exists>t. while_brk (\<lambda>s. has_next (mem (d_host s)) d (d_cur s))
               (\<lambda>s. Some (blk_data_step os c fd d type s, False)) s = Some t
           \<and> t = (blk_data_step os c fd d type ^^ (length ds - 1)) s
           \<and> d_cur t = last ds \<and> agree_on (- W) (mem (d_host t)) (mem (d_host s))"
  using assms
proof (induction ds arbitrary: s n)
  case Nil
  then show ?case by simp
next
  case (Cons i ds)
  note ch = chain_Cons [OF Cons.prems(1)]
  have hn: "has_next (mem (d_host s)) d (d_cur s) = has_next m0 d (d_cur s)"
    using ring256.desc_agree(5) [OF Cons.prems(4)] ch by simp
  show ?case
  proof (cases "ds = []")
    case True
    with ch hn show ?thesis by (auto simp: while_brk_stop)
  next
    case False
    let ?t = "blk_data_step os c fd d type s"
    from ch False obtain n' where nx: "has_next m0 d (d_cur s)" "unat (d_cur s) < 256"
      and rest: "chain 256 m0 d n' (desc_next m0 d (d_cur s)) = Some ds" by auto
    have "bufs_in c W m0 d [d_cur s]" using Cons.prems(2) ch by (simp add: bufs_in_def)
    then have "bufs_in c W (mem (d_host s)) d [d_cur s]"
      using ring256.bufs_in_single [OF Cons.prems(4) nx(2)] by blast
    then have ag: "agree_on (- W) (mem (d_host ?t)) (mem (d_host s))"
      by (rule blk_data_step_agree [OF Cons.prems(5)])
    then have ag0: "agree_on (desc_span 256 d) (mem (d_host ?t)) m0"
      using Cons.prems(3,4) by (rule agree_on_apart)
    have cur: "d_cur ?t = desc_next m0 d (d_cur s)"
      using blk_data_step_cur ring256.desc_agree(4) [OF ag0 nx(2)] by metis
    have "bufs_in c W m0 d ds" using Cons.prems(2) by (simp add: bufs_in_def)
    from Cons.IH [OF _ this Cons.prems(3) ag0 Cons.prems(5), of n'] rest cur obtain t where
      t: "while_brk (\<lambda>s. has_next (mem (d_host s)) d (d_cur s))
            (\<lambda>s. Some (blk_data_step os c fd d type s, False)) ?t = Some t"
        "t = (blk_data_step os c fd d type ^^ (length ds - 1)) ?t" "d_cur t = last ds"
        "agree_on (- W) (mem (d_host t)) (mem (d_host ?t))" by auto
    have "(blk_data_step os c fd d type ^^ (length ds - 1)) ?t = (blk_data_step os c fd d type ^^ length ds) s"
      using False by (cases ds) (simp_all add: funpow_swap1)
    with t ag hn nx False show ?thesis
      by (auto simp: while_brk_step intro: agree_on_trans)
  qed
qed

section \<open>The service of a request\<close>

text \<open>
  A request the driver built to the letter of the device's expectations: a chain of at least two
  descriptors inside the table, a mapped header of at least 16 bytes, and every buffer after the
  header inside the footprint \<open>W\<close>.
\<close>

definition blk_rq_ok :: "('a) vm_map_scheme \<Rightarrow> u64 set \<Rightarrow> hmem \<Rightarrow> u64 \<Rightarrow> u16 \<Rightarrow> bool" where
  "blk_rq_ok c W m d h \<longleftrightarrow>
     (case chain 256 m d 256 h of
        None \<Rightarrow> False
      | Some ds \<Rightarrow> 2 \<le> length ds \<and> bufs_in c W m d (tl ds)
          \<and> gpa_to_hva c (desc_addr m d h) \<noteq> None \<and> 16 \<le> desc_len m d h)"

lemma blk_data_returns:
  assumes "chain 256 m0 d n (d_cur s) = Some ds" and "bufs_in c W m0 d ds"
    and "desc_span 256 d \<inter> W = {}" and "agree_on (desc_span 256 d) (mem (d_host s)) m0"
    and "pread_bounded os"
  shows "\<exists>t. blk_data os c fd d type s = Some t \<and> d_cur t \<in> set ds
      \<and> agree_on (- W) (mem (d_host t)) (mem (d_host s)) \<and> spi_calls (d_host t) = spi_calls (d_host s)"
proof -
  obtain i es where ds: "ds = i # es" using assms(1) by (cases ds) auto
  note ch = chain_Cons [OF assms(1) [unfolded ds]]
  have in_tab: "unat (d_cur s) < 256" and i: "i = d_cur s" using ch by simp_all
  consider (flush) "type = VIRTIO_BLK_T_FLUSH" | (get_id) "type = VIRTIO_BLK_T_GET_ID"
    | (walk) "type \<noteq> VIRTIO_BLK_T_FLUSH" "type \<noteq> VIRTIO_BLK_T_GET_ID" by blast
  then show ?thesis
  proof cases
    case flush
    then show ?thesis by (simp add: blk_data_def ds i)
  next
    case get_id
    let ?m = "mem (d_host s)"
    have frame: "agree_on (- W) (write_bytes ?m p blk_id) ?m"
      if p: "gpa_to_hva c (desc_addr ?m d (d_cur s)) = Some p" and len: "20 \<le> desc_len ?m d (d_cur s)" for p
    proof (rule write_bytes_agree)
      show "length blk_id \<le> 2 ^ 64" by (simp add: blk_id_def)
      have "span p (length blk_id) \<subseteq> span p (max 1 (unat (desc_len ?m d (d_cur s))))"
        using len by (intro span_mono) (simp add: blk_id_def word_le_nat_alt)
      also have "\<dots> \<subseteq> W"
        using assms(2) p ring256.desc_agree(1,2) [OF assms(4) in_tab] by (simp add: bufs_in_def ds i)
      finally show "span p (length blk_id) \<inter> - W = {}" by blast
    qed
    have next_in: "desc_next m' d (d_cur s) \<in> set ds"
      if "agree_on (- W) m' ?m" and "has_next m' d (d_cur s)" for m'
    proof -
      have "agree_on (desc_span 256 d) m' m0"
        using that(1) assms(3,4) by (rule agree_on_apart)
      with that(2) in_tab have "has_next m0 d (d_cur s)" "desc_next m' d (d_cur s) = desc_next m0 d (d_cur s)"
        using ring256.desc_agree(4,5) by blast+
      with ch show ?thesis by (auto simp: ds split: if_splits) (metis chain_Cons list.exhaust list.set_intros(1) chain_not_Nil)
    qed
    show ?thesis
      using get_id frame next_in [of "write_bytes ?m _ blk_id"] next_in [of ?m]
      by (auto simp: blk_data_def Let_def ds i split: option.splits)
  next
    case walk
    with blk_walk [OF assms, of fd type] obtain t where
      t: "blk_data os c fd d type s = Some t" "t = (blk_data_step os c fd d type ^^ (length ds - 1)) s"
        "d_cur t = last ds" "agree_on (- W) (mem (d_host t)) (mem (d_host s))"
      by (auto simp: blk_data_def)
    have one: "spi_calls (d_host (blk_data_step os c fd d type x)) = spi_calls (d_host x)" for x
      by (auto simp: blk_data_step_def Let_def split: option.splits)
    have "spi_calls (d_host ((blk_data_step os c fd d type ^^ k) s)) = spi_calls (d_host s)" for k
      by (induction k) (simp_all add: one)
    with t show ?thesis by (simp add: ds)
  qed
qed

lemma blk_rq_step_ok:
  assumes ok: "blk_rq_ok c W m0 d (avail_ring 256 (mem (r_host s)) a (r_last s))"
    and dis: "desc_span 256 d \<inter> W = {}"
    and ag: "agree_on (desc_span 256 d) (mem (r_host s)) m0" and os: "pread_bounded os"
  shows "\<exists>t m1 w. blk_rq_step os c fd d a u s = Some (t, False)
      \<and> r_last t = r_last s + 1 \<and> r_raised t \<and> spi_calls (r_host t) = spi_calls (r_host s)
      \<and> mem (r_host t) = push_used 256 m1 u (avail_ring 256 (mem (r_host s)) a (r_last s)) w
      \<and> agree_on (- W) m1 (mem (r_host s))"
proof -
  let ?m = "mem (r_host s)" and ?h = "avail_ring 256 (mem (r_host s)) a (r_last s)"
  from ok obtain ds where ch: "chain 256 m0 d 256 ?h = Some ds" and len: "2 \<le> length ds"
    and bufs: "bufs_in c W m0 d (tl ds)" and req: "gpa_to_hva c (desc_addr m0 d ?h) \<noteq> None"
    and hlen: "16 \<le> desc_len m0 d ?h"
    by (auto simp: blk_rq_ok_def split: option.splits)
  obtain es where ds: "ds = ?h # es" and es: "es \<noteq> []"
    using ch len chain_Cons by (cases ds) fastforce+
  note cc = chain_Cons [OF ch [unfolded ds]]
  note da = ring256.desc_agree [OF ag, of ?h]
  have hd: "unat ?h < 256" "has_next ?m d ?h" using cc es da(5) by auto
  obtain n where rest: "chain 256 m0 d n (desc_next ?m d ?h) = Some es"
    using cc es da(4) by auto
  obtain req where r: "gpa_to_hva c (desc_addr ?m d ?h) = Some req" using req da(1) hd by auto
  have nl: "\<not> desc_len ?m d ?h < 16" using hlen da(2) hd by simp
  define x0 where "x0 = \<lparr>d_cur = desc_next ?m d ?h, d_off = load64 ?m (req + 8) * 512,
    d_status = VIRTIO_BLK_S_OK, d_wrote = 0, d_host = r_host s\<rparr>"
  have "\<exists>x. blk_data os c fd d (load32 ?m req) x0 = Some x \<and> d_cur x \<in> set es
      \<and> agree_on (- W) (mem (d_host x)) (mem (d_host x0)) \<and> spi_calls (d_host x) = spi_calls (d_host x0)"
    using rest bufs dis ag os by (intro blk_data_returns) (auto simp: x0_def ds)
  then obtain x where x: "blk_data os c fd d (load32 ?m req) x0 = Some x" "d_cur x \<in> set es"
      "agree_on (- W) (mem (d_host x)) ?m" "spi_calls (d_host x) = spi_calls (r_host s)"
    by (auto simp: x0_def)
  have agx: "agree_on (desc_span 256 d) (mem (d_host x)) m0"
    using x(3) dis ag by (rule agree_on_apart)
  have curx: "unat (d_cur x) < 256" using ring256.chain_in_table [OF rest x(2)] .
  have stat: "agree_on (- W) ((mem (d_host x))(p := d_status x)) ?m"
    if "gpa_to_hva c (desc_addr (mem (d_host x)) d (d_cur x)) = Some p" for p
  proof -
    have "span p (max 1 (unat (desc_len m0 d (d_cur x)))) \<subseteq> W"
      using that bufs x(2) ring256.desc_agree(1) [OF agx curx] by (simp add: bufs_in_def ds)
    moreover have "p \<in> span p (max 1 (unat (desc_len m0 d (d_cur x))))" by (simp add: span_def)
    ultimately show ?thesis using x(3) by (auto simp: agree_on_def)
  qed
  show ?thesis
    using r nl hd x stat by (auto simp: blk_rq_step_def Let_def x0_def split: option.splits)
qed

section \<open>The drain of the request queue\<close>

text \<open>
  The invariant of the drain, from memory \<open>m0\<close> and position \<open>l0\<close> on: the footprint is disjoint from
  the rings, nothing outside footprint and used ring has changed, what is still pending is well
  formed, and \<^verbatim>\<open>raised\<close> says whether a request has been served.
\<close>

definition blk_inv ::
  "'e blk_os \<Rightarrow> ('a) vm_map_scheme \<Rightarrow> u64 \<Rightarrow> u64 \<Rightarrow> u64 \<Rightarrow> u64 set \<Rightarrow> 'e host \<Rightarrow> u16 \<Rightarrow> 'e blk_run \<Rightarrow> bool" where
  "blk_inv os c d a u W h0 l0 s \<longleftrightarrow>
     pread_bounded os
     \<and> W \<inter> (desc_span 256 d \<union> avail_span 256 a \<union> used_span 256 u) = {}
     \<and> used_span 256 u \<inter> (desc_span 256 d \<union> avail_span 256 a) = {}
     \<and> agree_on (- (W \<union> used_span 256 u)) (mem (r_host s)) (mem h0)
     \<and> (\<forall>h \<in> set (pending 256 (mem h0) a (r_last s)). blk_rq_ok c W (mem h0) d h)
     \<and> spi_calls (r_host s) = spi_calls h0
     \<and> unat (avail_idx (mem h0) a - r_last s) \<le> unat (avail_idx (mem h0) a - l0)
     \<and> (r_raised s \<longleftrightarrow> r_last s \<noteq> l0)"

lemma blk_inv_agree:
  assumes "blk_inv os c d a u W h0 l0 s"
  shows "agree_on (desc_span 256 d) (mem (r_host s)) (mem h0)"
    and "agree_on (avail_span 256 a) (mem (r_host s)) (mem h0)"
  using assms by (auto simp: blk_inv_def intro: agree_on_mono)

lemma blk_service:
  assumes inv: "blk_inv os c d a u W h0 l0 s" and ne: "r_last s \<noteq> avail_idx (mem (r_host s)) a"
  shows "\<exists>t. blk_rq_step os c fd d a u s = Some (t, False) \<and> blk_inv os c d a u W h0 l0 t
      \<and> r_last t = r_last s + 1 \<and> served 256 a u (mem (r_host s)) (r_last s) (mem (r_host t))"
proof -
  note ag = blk_inv_agree [OF inv]
  have av: "avail_idx (mem (r_host s)) a = avail_idx (mem h0) a"
    "\<And>n. avail_ring 256 (mem (r_host s)) a n = avail_ring 256 (mem h0) a n"
    by (rule ring256.avail_agree [OF ag(2)])+
  from ne have ne0: "r_last s \<noteq> avail_idx (mem h0) a" by (simp add: av)
  note pc = pending_Cons [OF ne0, of 256]
  have os: "pread_bounded os" and W: "W \<inter> (desc_span 256 d \<union> avail_span 256 a \<union> used_span 256 u) = {}"
    and U: "used_span 256 u \<inter> (desc_span 256 d \<union> avail_span 256 a) = {}"
    using inv by (simp_all add: blk_inv_def)
  have "blk_rq_ok c W (mem h0) d (avail_ring 256 (mem (r_host s)) a (r_last s))"
    using inv pc by (simp add: blk_inv_def av)
  moreover have "desc_span 256 d \<inter> W = {}" using W by blast
  ultimately obtain t m1 w where t: "blk_rq_step os c fd d a u s = Some (t, False)"
      "r_last t = r_last s + 1" "r_raised t" "spi_calls (r_host t) = spi_calls (r_host s)"
      "mem (r_host t) = push_used 256 m1 u (avail_ring 256 (mem (r_host s)) a (r_last s)) w"
    and m1: "agree_on (- W) m1 (mem (r_host s))"
    using blk_rq_step_ok [OF _ _ ag(1) os] by blast
  have srv: "served 256 a u (mem (r_host s)) (r_last s) (mem (r_host t))"
    unfolding t(5) using m1 W U by (intro ring256.served_push_used [of W]) auto
  have "agree_on (- used_span 256 u) (mem (r_host t)) m1"
    unfolding t(5) by (rule ring256.push_used_agree) auto
  then have fr: "agree_on (- (W \<union> used_span 256 u)) (mem (r_host t)) (mem h0)"
    using m1 inv by (auto simp: blk_inv_def agree_on_def)
  have step: "unat (avail_idx (mem h0) a - r_last s) = Suc (unat (avail_idx (mem h0) a - r_last t))"
    using unat_minus_one_step [OF ne0] t(2) by simp
  then have "r_last t \<noteq> l0" using inv by (auto simp: blk_inv_def)
  then have "blk_inv os c d a u W h0 l0 t"
    using inv t pc fr step by (simp add: blk_inv_def)
  with t srv show ?thesis by blast
qed

interpretation blkq: virtq_drain 256 a u "\<lambda>s. mem (r_host s)" r_last
    "blk_rq_step os c fd d a u" "blk_inv os c d a u W h0 l0"
  for os :: "'e blk_os" and c :: "('a) vm_map_scheme" and fd d a u W and h0 :: "'e host" and l0
  by unfold_locales (rule blk_service)

text \<open>
  C4. On a live queue whose rings are mapped and do not overlap each other or the request buffers,
  and whose available requests are well formed, \<^verbatim>\<open>Block::process_rq\<close> returns: every available
  request is consumed, the used ring receives their heads in order, no byte of host memory outside
  the buffers and the used ring changes, and the interrupt is pulsed (and bit 0 of the interrupt
  status set) exactly when there was a request to serve.
\<close>

theorem process_rq_drains:
  assumes live: "queue_live (b_queue b)"
    and rings: "gpa_to_hva c (desc_gpa (b_queue b)) = Some d"
      "gpa_to_hva c (avail_gpa (b_queue b)) = Some a" "gpa_to_hva c (used_gpa (b_queue b)) = Some u"
    and os: "pread_bounded os"
    and apart: "W \<inter> (desc_span 256 d \<union> avail_span 256 a \<union> used_span 256 u) = {}"
      "used_span 256 u \<inter> (desc_span 256 d \<union> avail_span 256 a) = {}"
    and wf: "\<forall>r \<in> set (pending 256 (mem h) a (last_avail (b_queue b))). blk_rq_ok c W (mem h) d r"
  shows "\<exists>b' h'. process_rq os c b h = Some (b', h')
      \<and> drained 256 a u (mem h) (last_avail (b_queue b)) (mem h') (last_avail (b_queue b'))
      \<and> agree_on (- (W \<union> used_span 256 u)) (mem h') (mem h)
      \<and> (if pending 256 (mem h) a (last_avail (b_queue b)) = []
         then spi_calls h' = spi_calls h \<and> b_irq_status b' = b_irq_status b
         else spi_calls h' = spi_calls h @ [(49, True), (49, False)]
              \<and> b_irq_status b' = b_irq_status b OR 1)"
proof -
  let ?l = "last_avail (b_queue b)"
  let ?s = "\<lparr>r_last = ?l, r_host = h, r_raised = False\<rparr>"
  have "blk_inv os c d a u W h ?l ?s" using os apart wf by (simp add: blk_inv_def)
  from blkq.drain_all [OF this, of "b_fd b"] obtain t where
    t: "while_brk (\<lambda>s. r_last s \<noteq> avail_idx (mem (r_host s)) a) (blk_rq_step os c (b_fd b) d a u) ?s = Some t"
      "blk_inv os c d a u W h ?l t" "drained 256 a u (mem h) ?l (mem (r_host t)) (r_last t)"
    by auto
  from t(3) have "r_last t = avail_idx (mem h) a" by (simp add: drained_def)
  then have "r_raised t \<longleftrightarrow> pending 256 (mem h) a ?l \<noteq> []"
    using t(2) by (auto simp: blk_inv_def pending_Nil)
  with t live rings show ?thesis
    by (auto simp: process_rq_def Let_def blk_inv_def)
qed

definition demo_block :: block where
  "demo_block = (block_new 3 (Some 4096))\<lparr>b_queue := demo_queue\<rparr>"

definition demo_os :: "unit blk_os" where
  "demo_os = \<lparr>pread = (\<lambda>_ _ n _. Some (replicate n 7)), pwrite = (\<lambda>_ _ _ _. ((), True)), fsync = (\<lambda>_ _. ())\<rparr>"

definition demo_host :: "unit host" where
  "demo_host = \<lparr>mem = demo_mem, spi_calls = [], sent = [], ext = ()\<rparr>"

lemma demo_blk_ok: "blk_rq_ok demo_ctx (span 0x14000 0x3000) demo_mem 0x11000 0"
  using demo_bufs by (simp add: blk_rq_ok_def demo_eval bufs_in_def)

theorem process_rq_drains_witness:
  "\<exists>b' h'. process_rq demo_os demo_ctx demo_block demo_host = Some (b', h')
      \<and> drained 256 0x12000 0x13000 demo_mem 0 (mem h') (last_avail (b_queue b'))
      \<and> spi_calls h' = [(49, True), (49, False)]"
proof -
  have "pread_bounded demo_os" by (simp add: pread_bounded_def demo_os_def)
  moreover have "\<forall>r \<in> set (pending 256 (mem demo_host) 0x12000 (last_avail (b_queue demo_block))).
      blk_rq_ok demo_ctx (span 0x14000 0x3000) (mem demo_host) 0x11000 r"
    using demo_blk_ok by (simp add: demo_host_def demo_block_def demo_queue_def demo_pending)
  ultimately show ?thesis
    using process_rq_drains [of demo_block demo_ctx "0x11000" "0x12000" "0x13000" demo_os
        "span 0x14000 0x3000" demo_host] demo_apart demo_live
    by (simp add: demo_block_def demo_queue_def demo_hva demo_host_def demo_pending)
      blast
qed

section \<open>Reading from the disk\<close>

text \<open>
  What the walk of an IN request does when every data buffer is mapped and \<^verbatim>\<open>pread\<close> delivers: the
  buffers, in chain order, receive consecutive pieces of the image.
\<close>

definition seg_off :: "hmem \<Rightarrow> u64 \<Rightarrow> u64 \<Rightarrow> u16 list \<Rightarrow> nat \<Rightarrow> u64" where
  "seg_off m d off es k = off + sum_list (map (\<lambda>i. ucast (desc_len m d i)) (take k es))"

lemma seg_off_Cons: "seg_off m d off (i # es) (Suc k) = seg_off m d (off + ucast (desc_len m d i)) es k"
  by (simp add: seg_off_def ac_simps)

lemma blk_data_step_in:
  assumes "gpa_to_hva c (desc_addr (mem (d_host s)) d (d_cur s)) = Some p"
    and "desc_len (mem (d_host s)) d (d_cur s) \<noteq> 0"
    and "pread os (ext (d_host s)) fd (unat (desc_len (mem (d_host s)) d (d_cur s))) (d_off s) = Some bs"
  shows "blk_data_step os c fd d VIRTIO_BLK_T_IN s =
     \<lparr>d_cur = desc_next (write_bytes (mem (d_host s)) p bs) d (d_cur s),
      d_off = d_off s + ucast (desc_len (mem (d_host s)) d (d_cur s)), d_status = d_status s,
      d_wrote = d_wrote s + desc_len (mem (d_host s)) d (d_cur s),
      d_host = (d_host s)\<lparr>mem := write_bytes (mem (d_host s)) p bs\<rparr>\<rparr>"
  using assms by (simp add: blk_data_step_def Let_def)

lemma blk_in_walk:
  assumes "chain 256 m0 d n (d_cur s) = Some (es @ [st])"
    and "agree_on (desc_span 256 d) (mem (d_host s)) m0"
    and "\<And>i. i \<in> set es \<Longrightarrow> gpa_to_hva c (desc_addr m0 d i) = Some (P i) \<and> desc_len m0 d i \<noteq> 0
           \<and> span (P i) (unat (desc_len m0 d i)) \<inter> desc_span 256 d = {}"
    and "\<And>j k. j < k \<Longrightarrow> k < length es \<Longrightarrow>
           span (P (es ! j)) (unat (desc_len m0 d (es ! j))) \<inter> span (P (es ! k)) (unat (desc_len m0 d (es ! k))) = {}"
    and "\<And>k. k < length es \<Longrightarrow> \<exists>bs. pread os (ext (d_host s)) fd (unat (desc_len m0 d (es ! k)))
           (seg_off m0 d (d_off s) es k) = Some bs \<and> length bs = unat (desc_len m0 d (es ! k))"
  shows "\<exists>t. while_brk (\<lambda>s. has_next (mem (d_host s)) d (d_cur s))
               (\<lambda>s. Some (blk_data_step os c fd d VIRTIO_BLK_T_IN s, False)) s = Some t
      \<and> d_cur t = st \<and> d_status t = d_status s
      \<and> d_wrote t = d_wrote s + sum_list (map (desc_len m0 d) es)
      \<and> agree_on (- (\<Union>i \<in> set es. span (P i) (unat (desc_len m0 d i)))) (mem (d_host t)) (mem (d_host s))
      \<and> (\<forall>k < length es. pread os (ext (d_host s)) fd (unat (desc_len m0 d (es ! k))) (seg_off m0 d (d_off s) es k)
            = Some (read_bytes (mem (d_host t)) (P (es ! k)) (unat (desc_len m0 d (es ! k)))))"
  using assms
proof (induction es arbitrary: s n)
  case Nil
  have "\<not> has_next (mem (d_host s)) d (d_cur s)" "d_cur s = st"
    using chain_Cons [OF Nil(1) [simplified]] ring256.desc_agree(5) [OF Nil(2)] by auto
  then show ?case by (simp add: while_brk_stop)
next
  case (Cons i es)
  let ?m = "mem (d_host s)" and ?len = "desc_len m0 d i"
  note ch = chain_Cons [OF Cons.prems(1) [simplified]]
  from ch obtain n' where i: "d_cur s = i" "unat i < 256" "has_next m0 d i"
    and rest: "chain 256 m0 d n' (desc_next m0 d i) = Some (es @ [st])" by auto
  note da = ring256.desc_agree [OF Cons.prems(2) i(2)]
  have P: "gpa_to_hva c (desc_addr m0 d i) = Some (P i)" "?len \<noteq> 0"
    "span (P i) (unat ?len) \<inter> desc_span 256 d = {}" using Cons.prems(3) [of i] by auto
  obtain bs where bs: "pread os (ext (d_host s)) fd (unat ?len) (d_off s) = Some bs" "length bs = unat ?len"
    using Cons.prems(5) [of 0] by (auto simp: seg_off_def)
  have small: "length bs \<le> 2 ^ 64" using bs(2) unat_u32_less [of ?len] by simp
  let ?m1 = "write_bytes ?m (P i) bs"
  let ?s1 = "blk_data_step os c fd d VIRTIO_BLK_T_IN s"
  have agm: "agree_on (- span (P i) (unat ?len)) ?m1 ?m"
    using small bs(2) by (intro write_bytes_agree) auto
  have ag1: "agree_on (desc_span 256 d) ?m1 m0"
    using agm P(3) Cons.prems(2) by (auto intro: agree_on_apart)
  have s1: "?s1 = \<lparr>d_cur = desc_next m0 d i, d_off = d_off s + ucast ?len, d_status = d_status s,
      d_wrote = d_wrote s + ?len, d_host = (d_host s)\<lparr>mem := ?m1\<rparr>\<rparr>"
    using blk_data_step_in [of c s d "P i" os fd bs] P bs da ring256.desc_agree(4) [OF ag1 i(2)]
    by (simp add: i(1))
  let ?loop = "while_brk (\<lambda>s. has_next (mem (d_host s)) d (d_cur s))
      (\<lambda>s. Some (blk_data_step os c fd d VIRTIO_BLK_T_IN s, False))"
  have "\<exists>t. ?loop ?s1 = Some t
      \<and> d_cur t = st \<and> d_status t = d_status ?s1
      \<and> d_wrote t = d_wrote ?s1 + sum_list (map (desc_len m0 d) es)
      \<and> agree_on (- (\<Union>i \<in> set es. span (P i) (unat (desc_len m0 d i)))) (mem (d_host t)) (mem (d_host ?s1))
      \<and> (\<forall>k < length es. pread os (ext (d_host ?s1)) fd (unat (desc_len m0 d (es ! k))) (seg_off m0 d (d_off ?s1) es k)
            = Some (read_bytes (mem (d_host t)) (P (es ! k)) (unat (desc_len m0 d (es ! k)))))"
  proof (rule Cons.IH [where n = n'])
    show "chain 256 m0 d n' (d_cur ?s1) = Some (es @ [st])" using rest by (simp add: s1)
    show "agree_on (desc_span 256 d) (mem (d_host ?s1)) m0" using ag1 by (simp add: s1)
  next
    fix j k assume "j < k" "k < length es"
    then show "span (P (es ! j)) (unat (desc_len m0 d (es ! j))) \<inter> span (P (es ! k)) (unat (desc_len m0 d (es ! k))) = {}"
      using Cons.prems(4) [of "Suc j" "Suc k"] by simp
  next
    fix k assume "k < length es"
    then show "\<exists>bs. pread os (ext (d_host ?s1)) fd (unat (desc_len m0 d (es ! k))) (seg_off m0 d (d_off ?s1) es k) = Some bs
        \<and> length bs = unat (desc_len m0 d (es ! k))"
      using Cons.prems(5) [of "Suc k"] by (simp add: s1 seg_off_Cons)
  qed (use Cons.prems(3) in auto)
  then obtain t where t: "?loop ?s1 = Some t" "d_cur t = st" "d_status t = d_status s"
      "d_wrote t = d_wrote s + ?len + sum_list (map (desc_len m0 d) es)"
    and fr: "agree_on (- (\<Union>i \<in> set es. span (P i) (unat (desc_len m0 d i)))) (mem (d_host t)) ?m1"
    and seg: "\<And>k. k < length es \<Longrightarrow> pread os (ext (d_host s)) fd (unat (desc_len m0 d (es ! k)))
        (seg_off m0 d (d_off s) (i # es) (Suc k))
        = Some (read_bytes (mem (d_host t)) (P (es ! k)) (unat (desc_len m0 d (es ! k))))"
    by (auto simp: s1 seg_off_Cons)
  have run: "?loop s = Some t"
    using t(1) da(5) i by (simp add: while_brk_step)
  have keep: "span (P i) (unat ?len) \<subseteq> - (\<Union>i \<in> set es. span (P i) (unat (desc_len m0 d i)))"
  proof -
    have "span (P i) (unat ?len) \<inter> span (P j) (unat (desc_len m0 d j)) = {}" if "j \<in> set es" for j
      using that Cons.prems(4) [of 0 "Suc k" for k] by (auto simp: in_set_conv_nth)
    then show ?thesis by blast
  qed
  have "read_bytes (mem (d_host t)) (P i) (unat ?len) = read_bytes ?m1 (P i) (unat ?len)"
    using unat_u32_less [of ?len] by (intro read_bytes_agree [OF fr keep]) simp
  also have "\<dots> = bs" using read_write_bytes [OF small, of ?m "P i"] bs(2) by simp
  finally have first: "pread os (ext (d_host s)) fd (unat ?len) (seg_off m0 d (d_off s) (i # es) 0)
      = Some (read_bytes (mem (d_host t)) (P i) (unat ?len))"
    using bs(1) by (simp add: seg_off_def)
  have all: "\<forall>k < length (i # es). pread os (ext (d_host s)) fd (unat (desc_len m0 d ((i # es) ! k)))
      (seg_off m0 d (d_off s) (i # es) k)
      = Some (read_bytes (mem (d_host t)) (P ((i # es) ! k)) (unat (desc_len m0 d ((i # es) ! k))))"
    using first seg by (auto simp: less_Suc_eq_0_disj)
  have "agree_on (- (\<Union>i \<in> set (i # es). span (P i) (unat (desc_len m0 d i)))) (mem (d_host t)) ?m"
    using fr agm by (auto simp: agree_on_def)
  with run t all show ?case by (auto simp: add.assoc)
qed

text \<open>
  C19. The service of an IN request whose data buffers are mapped, nonempty, disjoint and apart from
  the rings, when \<^verbatim>\<open>pread\<close> delivers every piece in full: the buffers receive, in chain order,
  consecutive pieces of the image starting at byte \<open>sector * 512\<close>, the status byte is OK, and the
  used element published for the request carries its head and the number of bytes written
  (data plus the status byte).
\<close>

theorem blk_read_request:
  assumes head: "h = avail_ring 256 (mem H) a l"
    and ch: "chain 256 (mem H) d n h = Some (h # es @ [st])"
    and req: "gpa_to_hva c (desc_addr (mem H) d h) = Some req" "16 \<le> desc_len (mem H) d h"
    and type: "load32 (mem H) req = VIRTIO_BLK_T_IN"
    and data: "\<And>i. i \<in> set es \<Longrightarrow> gpa_to_hva c (desc_addr (mem H) d i) = Some (P i)
        \<and> desc_len (mem H) d i \<noteq> 0
        \<and> span (P i) (unat (desc_len (mem H) d i)) \<inter> (desc_span 256 d \<union> used_span 256 u \<union> {ps}) = {}"
    and apart: "\<And>j k. j < k \<Longrightarrow> k < length es \<Longrightarrow>
        span (P (es ! j)) (unat (desc_len (mem H) d (es ! j)))
          \<inter> span (P (es ! k)) (unat (desc_len (mem H) d (es ! k))) = {}"
    and status: "gpa_to_hva c (desc_addr (mem H) d st) = Some ps" "ps \<notin> used_span 256 u"
    and disk: "\<And>k. k < length es \<Longrightarrow> \<exists>bs. pread os (ext H) fd (unat (desc_len (mem H) d (es ! k)))
        (seg_off (mem H) d (load64 (mem H) (req + 8) * 512) es k) = Some bs
        \<and> length bs = unat (desc_len (mem H) d (es ! k))"
  shows "\<exists>t. blk_rq_step os c fd d a u \<lparr>r_last = l, r_host = H, r_raised = f\<rparr> = Some (t, False)
      \<and> r_last t = l + 1
      \<and> (\<forall>k < length es. pread os (ext H) fd (unat (desc_len (mem H) d (es ! k)))
            (seg_off (mem H) d (load64 (mem H) (req + 8) * 512) es k)
            = Some (read_bytes (mem (r_host t)) (P (es ! k)) (unat (desc_len (mem H) d (es ! k)))))
      \<and> mem (r_host t) ps = VIRTIO_BLK_S_OK
      \<and> used_idx (mem (r_host t)) u = used_idx (mem H) u + 1
      \<and> used_elem 256 (mem (r_host t)) u (used_idx (mem H) u)
          = (ucast h, sum_list (map (desc_len (mem H) d) es) + 1)"
proof -
  let ?m = "mem H" and ?D = "\<Union>i \<in> set es. span (P i) (unat (desc_len (mem H) d i))"
  note cc = chain_Cons [OF ch]
  obtain n' where rest: "chain 256 ?m d n' (desc_next ?m d h) = Some (es @ [st])"
    and hd: "has_next ?m d h" using cc by auto
  define x0 where "x0 = \<lparr>d_cur = desc_next ?m d h, d_off = load64 ?m (req + 8) * 512,
    d_status = VIRTIO_BLK_S_OK, d_wrote = 0, d_host = H\<rparr>"
  have "\<exists>x. while_brk (\<lambda>s. has_next (mem (d_host s)) d (d_cur s))
               (\<lambda>s. Some (blk_data_step os c fd d VIRTIO_BLK_T_IN s, False)) x0 = Some x
      \<and> d_cur x = st \<and> d_status x = d_status x0
      \<and> d_wrote x = d_wrote x0 + sum_list (map (desc_len ?m d) es)
      \<and> agree_on (- ?D) (mem (d_host x)) (mem (d_host x0))
      \<and> (\<forall>k < length es. pread os (ext (d_host x0)) fd (unat (desc_len ?m d (es ! k))) (seg_off ?m d (d_off x0) es k)
            = Some (read_bytes (mem (d_host x)) (P (es ! k)) (unat (desc_len ?m d (es ! k)))))"
  proof (rule blk_in_walk)
    show "chain 256 ?m d n' (d_cur x0) = Some (es @ [st])" using rest by (simp add: x0_def)
    show "agree_on (desc_span 256 d) (mem (d_host x0)) ?m" by (simp add: x0_def)
    show "gpa_to_hva c (desc_addr ?m d i) = Some (P i) \<and> desc_len ?m d i \<noteq> 0
           \<and> span (P i) (unat (desc_len ?m d i)) \<inter> desc_span 256 d = {}" if "i \<in> set es" for i
      using data [OF that] by blast
    show "\<exists>bs. pread os (ext (d_host x0)) fd (unat (desc_len ?m d (es ! k))) (seg_off ?m d (d_off x0) es k) = Some bs
        \<and> length bs = unat (desc_len ?m d (es ! k))" if "k < length es" for k
      using disk [OF that] by (simp add: x0_def)
  qed (rule apart)
  then obtain x where x: "blk_data os c fd d VIRTIO_BLK_T_IN x0 = Some x" "d_cur x = st" "d_status x = VIRTIO_BLK_S_OK"
      "d_wrote x = sum_list (map (desc_len ?m d) es)" "agree_on (- ?D) (mem (d_host x)) ?m"
    and seg: "\<forall>k < length es. pread os (ext H) fd (unat (desc_len ?m d (es ! k)))
        (seg_off ?m d (load64 ?m (req + 8) * 512) es k)
        = Some (read_bytes (mem (d_host x)) (P (es ! k)) (unat (desc_len ?m d (es ! k))))"
    by (auto simp: x0_def blk_data_def)
  have D: "?D \<inter> (desc_span 256 d \<union> used_span 256 u \<union> {ps}) = {}" using data by blast
  have st: "unat st < 256" using ring256.chain_in_table [OF rest] by simp
  have "desc_span 256 d \<inter> ?D = {}" using D by blast
  with x(5) have "agree_on (desc_span 256 d) (mem (d_host x)) ?m"
    by (rule agree_on_apart) simp
  from ring256.desc_agree(1) [OF this st] have ps: "gpa_to_hva c (desc_addr (mem (d_host x)) d st) = Some ps"
    using status(1) by simp
  define m1 where "m1 = (mem (d_host x))(ps := VIRTIO_BLK_S_OK)"
  define m2 where "m2 = push_used 256 m1 u h (sum_list (map (desc_len ?m d) es) + 1)"
  have step: "blk_rq_step os c fd d a u \<lparr>r_last = l, r_host = H, r_raised = f\<rparr>
      = Some (\<lparr>r_last = l + 1, r_host = (d_host x)\<lparr>mem := m2\<rparr>, r_raised = True\<rparr>, False)"
    using req type hd x ps
    by (simp add: blk_rq_step_def Let_def head [symmetric] not_less x0_def m1_def m2_def)
  have us: "agree_on (used_span 256 u) m1 ?m"
    using x(5) D status(2) by (auto simp: m1_def agree_on_def)
  have pu: "agree_on (- used_span 256 u) m2 m1"
    unfolding m2_def by (rule ring256.push_used_agree) auto
  have "used_idx m2 u = used_idx ?m u + 1"
    "used_elem 256 m2 u (used_idx ?m u) = (ucast h, sum_list (map (desc_len ?m d) es) + 1)"
    using ring256.push_used_idx [of m1 u] ring256.push_used_slot [of m1 u] ring256.used_agree(1) [OF us]
    by (simp_all add: m2_def)
  moreover have "m2 ps = VIRTIO_BLK_S_OK"
    using pu status(2) by (auto simp: agree_on_def m1_def)
  moreover have "read_bytes m2 (P (es ! k)) (unat (desc_len ?m d (es ! k)))
      = read_bytes (mem (d_host x)) (P (es ! k)) (unat (desc_len ?m d (es ! k)))" if "k < length es" for k
  proof (rule read_bytes_agree)
    show "agree_on (- used_span 256 u - {ps}) m2 (mem (d_host x))"
      using pu by (auto simp: agree_on_def m1_def)
    show "span (P (es ! k)) (unat (desc_len ?m d (es ! k))) \<subseteq> - used_span 256 u - {ps}"
      using D that nth_mem by fastforce
    show "unat (desc_len ?m d (es ! k)) \<le> 2 ^ 64" using unat_u32_less [of "desc_len ?m d (es ! k)"] by simp
  qed
  ultimately show ?thesis using step seg by simp
qed

theorem blk_read_request_witness:
  "\<exists>t. blk_rq_step demo_os demo_ctx 3 0x11000 0x12000 0x13000
         \<lparr>r_last = 0, r_host = demo_host, r_raised = False\<rparr> = Some (t, False)
     \<and> read_bytes (mem (r_host t)) 0x15000 4 = [7, 7, 7, 7] \<and> mem (r_host t) 0x16000 = 0
     \<and> used_elem 256 (mem (r_host t)) 0x13000 0 = (0, 5)"
proof -
  have m: "mem demo_host = demo_mem" "ext demo_host = ()" by (simp_all add: demo_host_def)
  have zero: "used_idx demo_mem 0x13000 = 0" "load32 demo_mem 0x14000 = 0" "avail_ring 256 demo_mem 0x12000 0 = 0"
    by (simp_all add: ring_eval demo_mem_def)
  have sp: "span 0x15000 4 \<inter> desc_span 256 0x11000 = {}" "span 0x15000 4 \<inter> used_span 256 0x13000 = {}"
    "0x16000 \<notin> span 0x15000 4" "0x16000 \<notin> used_span 256 0x13000"
    using span_disjointI [of "0x11000" 4096 "0x15000" 4] span_disjointI [of "0x13000" 2052 "0x15000" 4]
    by (auto simp: desc_span_def used_span_def span_unat_iff)
  have rd: "pread demo_os () fd 4 x = Some [7, 7, 7, 7]" for fd x
    by (simp add: demo_os_def numeral_eq_Suc)
  from blk_read_request [of 0 demo_host "0x12000" 0 "0x11000" 256 "[1]" 2 demo_ctx "0x14000" "\<lambda>_. 0x15000"
      "0x13000" "0x16000" demo_os 3 False] sp
  show ?thesis
    by (auto simp: m zero demo_eval rd Int_Un_distrib)
qed

section \<open>Descriptors the device trusts\<close>

text \<open>
  C40. \<^verbatim>\<open>gpa_to_hva\<close> checks the first byte of a buffer only. A read request whose buffer starts inside
  guest RAM and runs past its end makes the device write bytes of the disk image to host memory
  beyond the RAM mapping.
\<close>

theorem blk_read_overruns_ram:
  assumes ok: "ram_ok c"
    and buf: "gpa_to_hva c (desc_addr (mem (d_host s)) d (d_cur s)) = Some p"
      "desc_len (mem (d_host s)) d (d_cur s) \<noteq> 0"
    and disk: "pread os (ext (d_host s)) fd (unat (desc_len (mem (d_host s)) d (d_cur s))) (d_off s) = Some bs"
      "pread_bounded os"
    and past: "unat (ram_size c) < unat (p - ram_hva c) + length bs"
  shows "ram_hva c + ram_size c \<notin> ram_span c
    \<and> mem (d_host (blk_data_step os c fd d VIRTIO_BLK_T_IN s)) (ram_hva c + ram_size c)
        = bs ! (unat (ram_size c) - unat (p - ram_hva c))"
proof
  show "ram_hva c + ram_size c \<notin> ram_span c" by (simp add: ram_span_def span_def)
  let ?len = "desc_len (mem (d_host s)) d (d_cur s)"
  have "length bs \<le> unat ?len" using disk by (simp add: pread_bounded_def)
  then have len: "length bs \<le> 2 ^ 64" using unat_u32_less [of ?len] by simp
  have lt: "unat (p - ram_hva c) < unat (ram_size c)" using gpa_to_hva_offset [OF ok buf(1)] by simp
  have eq: "ram_hva c + ram_size c - p = ram_size c - (p - ram_hva c)" by simp
  have "unat (ram_hva c + ram_size c - p) = unat (ram_size c) - unat (p - ram_hva c)"
    unfolding eq using lt by (intro unat_sub) (simp add: word_le_nat_alt)
  moreover have "unat (ram_size c) - unat (p - ram_hva c) < length bs" using past lt by linarith
  ultimately show "mem (d_host (blk_data_step os c fd d VIRTIO_BLK_T_IN s)) (ram_hva c + ram_size c)
      = bs ! (unat (ram_size c) - unat (p - ram_hva c))"
    using len by (simp add: blk_data_step_in [OF buf disk(1)] write_bytes_apply)
qed

definition edge_mem :: hmem where
  "edge_mem = (\<lambda>_. 0)(0x11010 := 0xFE, 0x11011 := 0xFF, 0x11013 := 0x40, 0x11018 := 4)"

theorem blk_read_overruns_ram_witness:
  "0x20000 \<notin> ram_span demo_ctx
   \<and> mem (d_host (blk_data_step demo_os demo_ctx 3 0x11000 VIRTIO_BLK_T_IN
        \<lparr>d_cur = 1, d_off = 0, d_status = 0, d_wrote = 0, d_host = demo_host\<lparr>mem := edge_mem\<rparr>\<rparr>)) 0x20000 = 7"
proof -
  let ?s = "\<lparr>d_cur = 1, d_off = 0, d_status = 0, d_wrote = 0, d_host = demo_host\<lparr>mem := edge_mem\<rparr>\<rparr>"
  have d: "desc_addr edge_mem 0x11000 1 = 0x4000FFFE" "desc_len edge_mem 0x11000 1 = 4"
    by (simp_all add: ring_eval edge_mem_def)
  have c: "ram_ok demo_ctx" "gpa_to_hva demo_ctx 0x4000FFFE = Some 0x1FFFE"
    by (simp_all add: ram_ok_def gpa_to_hva_def demo_ctx_def)
  have "pread_bounded demo_os" by (simp add: pread_bounded_def demo_os_def)
  with blk_read_overruns_ram [of demo_ctx ?s "0x11000" "0x1FFFE" demo_os 3 "replicate 4 7"] d c
  show ?thesis by (simp add: demo_os_def demo_ctx_def)
qed

text \<open>
  The walk over the data descriptors is bounded by nothing but the \<^verbatim>\<open>NEXT\<close> flags. When the chain
  of an available write (or unknown) request runs into a cycle, \<^verbatim>\<open>Block::process_rq\<close> never
  returns: the vCPU thread that wrote the notify register spins with the device lock held.
\<close>

theorem blk_cyclic_chain_hangs:
  assumes live: "queue_live (b_queue b)"
    and rings: "gpa_to_hva c (desc_gpa (b_queue b)) = Some d"
      "gpa_to_hva c (avail_gpa (b_queue b)) = Some a" "gpa_to_hva c (used_gpa (b_queue b)) = Some u"
    and avail: "last_avail (b_queue b) \<noteq> avail_idx (mem h) a"
      "r = avail_ring 256 (mem h) a (last_avail (b_queue b))"
    and req: "gpa_to_hva c (desc_addr (mem h) d r) = Some p" "16 \<le> desc_len (mem h) d r" "has_next (mem h) d r"
    and type: "load32 (mem h) p \<notin> {VIRTIO_BLK_T_IN, VIRTIO_BLK_T_FLUSH, VIRTIO_BLK_T_GET_ID}"
    and cycle: "desc_next (mem h) d r \<in> C" "\<forall>i \<in> C. has_next (mem h) d i \<and> desc_next (mem h) d i \<in> C"
  shows "process_rq os c b h = None"
proof -
  let ?type = "load32 (mem h) p"
  have keep: "mem (d_host (blk_data_step os c (b_fd b) d ?type x)) = mem (d_host x)" for x
    using type by (auto simp: blk_data_step_def Let_def split: option.splits)
  have walk: "while_brk (\<lambda>s. has_next (mem (d_host s)) d (d_cur s))
      (\<lambda>s. Some (blk_data_step os c (b_fd b) d ?type s, False)) x = None"
    if "d_cur x \<in> C" "mem (d_host x) = mem h" for x
    using that cycle
    by (intro while_brk_diverges [where P = "\<lambda>x. d_cur x \<in> C \<and> mem (d_host x) = mem h"])
      (auto simp: keep blk_data_step_cur)
  have "blk_rq_step os c (b_fd b) d a u \<lparr>r_last = last_avail (b_queue b), r_host = h, r_raised = False\<rparr> = None"
    using req type cycle walk avail(2)
    by (auto simp: blk_rq_step_def Let_def blk_data_def not_less)
  with live rings avail(1) show ?thesis
    by (simp add: process_rq_def Let_def while_brk_hang)
qed

definition cycle_mem :: hmem where
  "cycle_mem = demo_mem(0x14000 := 1, 0x1101E := 1)"

theorem blk_cyclic_chain_hangs_witness:
  "process_rq demo_os demo_ctx demo_block (demo_host\<lparr>mem := cycle_mem\<rparr>) = None"
proof -
  have m: "avail_idx cycle_mem 0x12000 = 1" "avail_ring 256 cycle_mem 0x12000 0 = 0"
    "desc_addr cycle_mem 0x11000 0 = 0x40004000" "desc_len cycle_mem 0x11000 0 = 16"
    "has_next cycle_mem 0x11000 0" "desc_next cycle_mem 0x11000 0 = 1" "load32 cycle_mem 0x14000 = 1"
    "has_next cycle_mem 0x11000 1" "desc_next cycle_mem 0x11000 1 = 1"
    by (simp_all add: ring_eval cycle_mem_def demo_mem_def)
  show ?thesis
    using blk_cyclic_chain_hangs [of demo_block demo_ctx "0x11000" "0x12000" "0x13000"
        "demo_host\<lparr>mem := cycle_mem\<rparr>" 0 "0x14000" "{1}" demo_os] demo_live
    by (simp add: demo_block_def demo_queue_def demo_hva m)
qed

section \<open>The register interface\<close>

text \<open>The block device has one queue and ignores the queue selector.\<close>

definition blk_qv :: "block \<times> 'e host \<Rightarrow> u32 \<Rightarrow> queue" where
  "blk_qv s n = (if n = 0 then b_queue (fst s) else queue_init 256)"

lemma block_write_queue:
  "off \<in> queue_regs \<Longrightarrow>
     block_write os c (b, h) off v = Some (b\<lparr>b_queue := q_write 256 off v (b_queue b)\<rparr>, h)"
  unfolding queue_regs_def by (elim insertE emptyE) (simp_all add: block_write_def q_write_def Let_def)

lemma block_write_control:
  "block_write os c (b, h) Reg_Status 0 = Some (b\<lparr>b_status := 0, b_queue := queue_init 256, b_irq_status := 0\<rparr>, h)"
  "block_write os c (b, h) Reg_QueueSel v = Some (b, h)"
  by (simp_all add: block_write_def)

lemma block_read_regs:
  "block_read b Reg_Magic = kMagicValue" "block_read b Reg_Version = 2" "block_read b Reg_DeviceId = 2"
  "block_read b Reg_QueueNumMax = 256" "block_read b Reg_Status = b_status b"
  "block_read b Reg_IrqStatus = b_irq_status b"
  "block_read b Reg_QueueReady = (if ready (b_queue b) then 1 else 0)"
  by (simp_all add: block_read_def)

interpretation blk_regs: virtio_regs "\<lambda>s off. Some (block_read (fst s) off)" "block_write os c"
    blk_qv "\<lambda>s. 0" 1 256 2 "\<lambda>s. True"
  for os :: "'e blk_os" and c :: "('a) vm_map_scheme"
  by unfold_locales
    (auto simp: block_read_regs block_write_queue block_write_control blk_qv_def fun_eq_iff word_less_1)

text \<open>
  Bring-up of the block queue. After a reset and the driver's set-up writes the request queue
  holds exactly the programmed ring addresses, starts at position 0 and is ready, and
  \<^verbatim>\<open>QueueReady\<close> reads back as 1.
\<close>

theorem block_bring_up:
  "\<exists>b' h'. run_writes (block_write os c) (b, h) ((Reg_Status, 0) # setup_writes 0 k d a u) = Some (b', h')
     \<and> b_queue b' = \<lparr>num = min k 256, desc_gpa = d, avail_gpa = a, used_gpa = u, last_avail = 0, ready = True\<rparr>
     \<and> block_read b' Reg_QueueReady = 1"
  using blk_regs.bring_up [of 0 os c "(b, h)" k d a u] by (auto simp: blk_qv_def)

end
