(* ===== verification/Virtio_Console.thy ===== *)
theory Virtio_Console
  imports Virtio_Mmio
begin

text \<open>
  The virtio console (\<^verbatim>\<open>src/src/hvf/virtio_console.hpp\<close>, \<^verbatim>\<open>virtio_console.cpp\<close>): its registers, the
  transmit queue that forwards guest output to a host descriptor, and the receive queue that is fed
  one byte at a time from the host.
\<close>

section \<open>State\<close>

record console =
  con_rx_fd :: int
  con_tx_fd :: int
  con_status :: u32
  con_queue_sel :: u32
  con_irq_status :: u32
  con_dev_feat_sel :: u32
  con_drv_feat_sel :: u32
  con_features :: u64
  con_queues :: queues2

definition console_new :: "int \<Rightarrow> int \<Rightarrow> console" where
  "console_new rx tx =
     \<lparr>con_rx_fd = rx, con_tx_fd = tx, con_status = 0, con_queue_sel = 0, con_irq_status = 0,
      con_dev_feat_sel = 0, con_drv_feat_sel = 0, con_features = 0x100000000,
      con_queues = (queue_init 256, queue_init 256)\<rparr>"

section \<open>Transmit: guest to host\<close>

record 'e con_chain =
  cc_cur :: u16
  cc_wrote :: u32
  cc_host :: "'e host"

text \<open>The body of the \<^verbatim>\<open>do ... while (true)\<close> over one chain.\<close>

definition con_chain_step ::
  "('a) vm_map_scheme \<Rightarrow> int \<Rightarrow> u64 \<Rightarrow> 'e con_chain \<Rightarrow> ('e con_chain \<times> bool) option" where
  "con_chain_step c tx d s =
     (let m = mem (cc_host s); cur = cc_cur s; len = desc_len m d cur;
          s' = (case gpa_to_hva c (desc_addr m d cur) of
                  None \<Rightarrow> s
                | Some buf \<Rightarrow>
                    if len = 0 then s
                    else s\<lparr>cc_host := (if tx \<ge> 0 then fd_write tx (read_bytes m buf (unat len)) (cc_host s)
                                      else cc_host s),
                           cc_wrote := cc_wrote s + len\<rparr>)
      in if \<not> has_next m d cur then Some (s', True)
         else Some (s'\<lparr>cc_cur := desc_next m d cur\<rparr>, False))"

record 'e con_run =
  cr_last :: u16
  cr_host :: "'e host"

definition con_tx_step ::
  "('a) vm_map_scheme \<Rightarrow> int \<Rightarrow> u64 \<Rightarrow> u64 \<Rightarrow> u64 \<Rightarrow> 'e con_run \<Rightarrow> ('e con_run \<times> bool) option" where
  "con_tx_step c tx d a u s =
     (let head = avail_ring 256 (mem (cr_host s)) a (cr_last s)
      in case while_brk (\<lambda>_. True) (con_chain_step c tx d)
                \<lparr>cc_cur = head, cc_wrote = 0, cc_host = cr_host s\<rparr> of
           None \<Rightarrow> None
         | Some x \<Rightarrow>
             Some (\<lparr>cr_last = cr_last s + 1,
                    cr_host = (cc_host x)\<lparr>mem := push_used 256 (mem (cc_host x)) u head (cc_wrote x)\<rparr>\<rparr>, False))"

text \<open>The interrupt is pulsed after the loop even when no request was pending.\<close>

definition console_process_tx ::
  "('a) vm_map_scheme \<Rightarrow> console \<Rightarrow> 'e host \<Rightarrow> (console \<times> 'e host) option" where
  "console_process_tx c con h =
     (let q = snd (con_queues con)
      in if \<not> queue_live q then Some (con, h)
         else case (gpa_to_hva c (desc_gpa q), gpa_to_hva c (avail_gpa q), gpa_to_hva c (used_gpa q)) of
           (Some d, Some a, Some u) \<Rightarrow>
             (case while_brk (\<lambda>s. cr_last s \<noteq> avail_idx (mem (cr_host s)) a)
                     (con_tx_step c (con_tx_fd con) d a u) \<lparr>cr_last = last_avail q, cr_host = h\<rparr> of
                None \<Rightarrow> None
              | Some r \<Rightarrow>
                  Some (con\<lparr>con_queues := (fst (con_queues con), q\<lparr>last_avail := cr_last r\<rparr>),
                            con_irq_status := con_irq_status con OR 1\<rparr>,
                        raise_spi kSpiConsole (cr_host r)))
         | _ \<Rightarrow> Some (con, h))"

section \<open>Receive: host to guest\<close>

text \<open>
  \<open>rd e fd\<close> is \<^verbatim>\<open>::read(fd, &c, 1)\<close>: the byte, or \<open>None\<close> for a result that is not positive, and the
  new state of the descriptor.
\<close>

definition feed_rx ::
  "('e \<Rightarrow> int \<Rightarrow> u8 option \<times> 'e) \<Rightarrow> ('a) vm_map_scheme \<Rightarrow> console \<Rightarrow> 'e host \<Rightarrow> console \<times> 'e host" where
  "feed_rx rd c con h =
     (let q = fst (con_queues con); m = mem h
      in if con_rx_fd con < 0 then (con, h)
         else if \<not> queue_live q then (con, h)
         else case (gpa_to_hva c (desc_gpa q), gpa_to_hva c (avail_gpa q), gpa_to_hva c (used_gpa q)) of
           (Some d, Some a, Some u) \<Rightarrow>
             if last_avail q = avail_idx m a then (con, h)
             else
               (let head = avail_ring 256 m a (last_avail q)
                in case gpa_to_hva c (desc_addr m d head) of
                     None \<Rightarrow> (con, h)
                   | Some buf \<Rightarrow>
                       if desc_len m d head = 0 then (con, h)
                       else case rd (ext h) (con_rx_fd con) of
                         (None, e) \<Rightarrow> (con, h\<lparr>ext := e\<rparr>)
                       | (Some ch, e) \<Rightarrow>
                           (con\<lparr>con_queues := (q\<lparr>last_avail := last_avail q + 1\<rparr>, snd (con_queues con)),
                                con_irq_status := con_irq_status con OR 1\<rparr>,
                            raise_spi kSpiConsole
                              (h\<lparr>mem := push_used 256 (m(buf := ch)) u head 1, ext := e\<rparr>)))
         | _ \<Rightarrow> (con, h))"

section \<open>Registers\<close>

definition console_read :: "console \<Rightarrow> u32 \<Rightarrow> u32" where
  "console_read con off =
     (let q = q_sel (con_queues con) (con_queue_sel con)
      in if off = Reg_Magic then kMagicValue
         else if off = Reg_Version then 2
         else if off = Reg_DeviceId then 3
         else if off = Reg_VendorId then kVendor
         else if off = Reg_DeviceFeat then
           (if con_dev_feat_sel con = 0 then lo32 (con_features con)
            else if con_dev_feat_sel con = 1 then hi32 (con_features con) else 0)
         else if off = Reg_QueueNumMax then 256
         else if off = Reg_QueueReady then (case q of Some x \<Rightarrow> if ready x then 1 else 0 | None \<Rightarrow> 0)
         else if off = Reg_IrqStatus then con_irq_status con
         else if off = Reg_Status then con_status con
         else if off = Reg_ConfigGen then 0
         else 0)"

definition console_write ::
  "('a) vm_map_scheme \<Rightarrow> console \<times> 'e host \<Rightarrow> u32 \<Rightarrow> u32 \<Rightarrow> (console \<times> 'e host) option" where
  "console_write c s off val =
     (let con = fst s; h = snd s;
          upd = (\<lambda>f. Some (con\<lparr>con_queues := q_upd (con_queues con) (con_queue_sel con) f\<rparr>, h))
      in if off = Reg_DeviceFeatSel then Some (con\<lparr>con_dev_feat_sel := val\<rparr>, h)
         else if off = Reg_DriverFeatSel then Some (con\<lparr>con_drv_feat_sel := val\<rparr>, h)
         else if off = Reg_DriverFeat then
           (if con_drv_feat_sel con = 0 then Some (con\<lparr>con_features := set_lo (con_features con) val\<rparr>, h)
            else if con_drv_feat_sel con = 1 then Some (con\<lparr>con_features := set_hi (con_features con) val\<rparr>, h)
            else Some (con, h))
         else if off = Reg_QueueSel then Some (con\<lparr>con_queue_sel := val\<rparr>, h)
         else if off = Reg_QueueNum then upd (\<lambda>q. q\<lparr>num := min val 256\<rparr>)
         else if off = Reg_QueueReady then upd (\<lambda>q. q\<lparr>ready := (val \<noteq> 0)\<rparr>)
         else if off = Reg_QueueNotify then (if val = 1 then console_process_tx c con h else Some (con, h))
         else if off = Reg_IrqAck then Some (con\<lparr>con_irq_status := con_irq_status con AND NOT val\<rparr>, h)
         else if off = Reg_Status then
           (if val = 0
            then Some (con\<lparr>con_status := val, con_queues := (queue_init 256, queue_init 256), con_irq_status := 0\<rparr>, h)
            else Some (con\<lparr>con_status := val\<rparr>, h))
         else if off = Reg_QueueDescLo then upd (\<lambda>q. q\<lparr>desc_gpa := set_lo (desc_gpa q) val\<rparr>)
         else if off = Reg_QueueDescHi then upd (\<lambda>q. q\<lparr>desc_gpa := set_hi (desc_gpa q) val\<rparr>)
         else if off = Reg_QueueAvailLo then upd (\<lambda>q. q\<lparr>avail_gpa := set_lo (avail_gpa q) val\<rparr>)
         else if off = Reg_QueueAvailHi then upd (\<lambda>q. q\<lparr>avail_gpa := set_hi (avail_gpa q) val\<rparr>)
         else if off = Reg_QueueUsedLo then upd (\<lambda>q. q\<lparr>used_gpa := set_lo (used_gpa q) val\<rparr>)
         else if off = Reg_QueueUsedHi then upd (\<lambda>q. q\<lparr>used_gpa := set_hi (used_gpa q) val\<rparr>)
         else Some (con, h))"

section \<open>The transmit queue\<close>

text \<open>The data a chain asks the device to transmit: the buffers that are mapped and not empty, in order.\<close>

definition tx_bufs :: "('a) vm_map_scheme \<Rightarrow> hmem \<Rightarrow> u64 \<Rightarrow> u16 list \<Rightarrow> u8 list list" where
  "tx_bufs c m d ds = concat (map (\<lambda>i.
     case gpa_to_hva c (desc_addr m d i) of
       None \<Rightarrow> []
     | Some p \<Rightarrow> if desc_len m d i = 0 then [] else [read_bytes m p (unat (desc_len m d i))]) ds)"

definition bytes_count :: "u8 list list \<Rightarrow> u32" where
  "bytes_count bss = sum_list (map (\<lambda>bs. of_nat (length bs)) bss)"

lemma bytes_count_append [simp]: "bytes_count (xs @ ys) = bytes_count xs + bytes_count ys"
  by (simp add: bytes_count_def)

definition con_emit :: "int \<Rightarrow> u8 list list \<Rightarrow> 'e host \<Rightarrow> 'e host" where
  "con_emit tx bss h = h\<lparr>sent := sent h @ (if tx \<ge> 0 then map (Pair tx) bss else [])\<rparr>"

lemma con_emit_simps [simp]:
  "mem (con_emit tx bss h) = mem h" "spi_calls (con_emit tx bss h) = spi_calls h"
  "ext (con_emit tx bss h) = ext h"
  "sent (con_emit tx bss h) = sent h @ (if tx \<ge> 0 then map (Pair tx) bss else [])"
  by (simp_all add: con_emit_def)

lemma con_emit_append: "con_emit tx ys (con_emit tx xs h) = con_emit tx (xs @ ys) h"
  by (simp add: con_emit_def)

lemma con_emit_Nil: "con_emit tx [] h = h"
  by (simp add: con_emit_def)

lemma con_chain_step_eq:
  "con_chain_step c tx d s =
     (let m = mem (cc_host s); bss = tx_bufs c m d [cc_cur s];
          s' = s\<lparr>cc_host := con_emit tx bss (cc_host s), cc_wrote := cc_wrote s + bytes_count bss\<rparr>
      in if has_next m d (cc_cur s) then Some (s'\<lparr>cc_cur := desc_next m d (cc_cur s)\<rparr>, False) else Some (s', True))"
  by (auto simp: con_chain_step_def Let_def tx_bufs_def con_emit_def fd_write_def bytes_count_def split: option.splits)

lemma tx_bufs_Cons: "tx_bufs c m d (i # ds) = tx_bufs c m d [i] @ tx_bufs c m d ds"
  by (simp add: tx_bufs_def)

text \<open>On a chain that ends, the inner loop emits the buffers of the chain and counts their bytes.\<close>

lemma con_walk:
  assumes "chain 256 (mem (cc_host s)) d n (cc_cur s) = Some ds"
  shows "\<exists>k. while_brk (\<lambda>_. True) (con_chain_step c tx d) s =
      Some \<lparr>cc_cur = k,
            cc_wrote = cc_wrote s + bytes_count (tx_bufs c (mem (cc_host s)) d ds),
            cc_host = con_emit tx (tx_bufs c (mem (cc_host s)) d ds) (cc_host s)\<rparr>"
  using assms
proof (induction ds arbitrary: s n)
  case Nil
  then show ?case by simp
next
  case (Cons i ds)
  note ch = chain_Cons [OF Cons.prems]
  let ?m = "mem (cc_host s)" and ?b = "tx_bufs c (mem (cc_host s)) d [cc_cur s]"
  show ?case
  proof (cases "ds = []")
    case True
    with ch show ?thesis
      by (intro exI [of _ "cc_cur s"]) (cases s, simp add: while_brk_break con_chain_step_eq Let_def)
  next
    case False
    let ?t = "\<lparr>cc_cur = desc_next ?m d (cc_cur s),
      cc_wrote = cc_wrote s + bytes_count ?b, cc_host = con_emit tx ?b (cc_host s)\<rparr>"
    from ch False obtain n' where "has_next ?m d (cc_cur s)" and i: "i = cc_cur s"
      and rest: "chain 256 ?m d n' (desc_next ?m d (cc_cur s)) = Some ds" by auto
    then have "while_brk (\<lambda>_. True) (con_chain_step c tx d) s = while_brk (\<lambda>_. True) (con_chain_step c tx d) ?t"
      by (intro while_brk_step) (simp_all add: con_chain_step_eq Let_def)
    with Cons.IH [of ?t n'] rest show ?thesis
      by (simp add: con_emit_append tx_bufs_Cons [of c ?m d "cc_cur s" ds] i add.assoc)
  qed
qed

text \<open>
  The invariant of the transmit loop, from host \<open>h0\<close> and position \<open>l0\<close> on: nothing outside the used
  ring has changed, the pending chains end and their buffers are apart from the used ring, and what
  has been written to the descriptor is what the requests consumed so far ask for.
\<close>

definition con_rq_ok :: "('a) vm_map_scheme \<Rightarrow> hmem \<Rightarrow> u64 \<Rightarrow> u64 \<Rightarrow> u16 \<Rightarrow> bool" where
  "con_rq_ok c m d u h \<longleftrightarrow>
     (case chain 256 m d 256 h of None \<Rightarrow> False | Some ds \<Rightarrow> bufs_in c (- used_span 256 u) m d ds)"

definition tx_all :: "('a) vm_map_scheme \<Rightarrow> hmem \<Rightarrow> u64 \<Rightarrow> u16 list \<Rightarrow> u8 list list" where
  "tx_all c m d hs = concat (map (\<lambda>h. case chain 256 m d 256 h of None \<Rightarrow> [] | Some ds \<Rightarrow> tx_bufs c m d ds) hs)"

definition con_inv ::
  "('a) vm_map_scheme \<Rightarrow> int \<Rightarrow> u64 \<Rightarrow> u64 \<Rightarrow> u64 \<Rightarrow> 'e host \<Rightarrow> u16 \<Rightarrow> 'e con_run \<Rightarrow> bool" where
  "con_inv c tx d a u h0 l0 s \<longleftrightarrow>
     used_span 256 u \<inter> (desc_span 256 d \<union> avail_span 256 a) = {}
     \<and> agree_on (- used_span 256 u) (mem (cr_host s)) (mem h0)
     \<and> (\<forall>h \<in> set (pending 256 (mem h0) a (cr_last s)). con_rq_ok c (mem h0) d u h)
     \<and> (\<exists>ex. con_emit tx ex h0 = (cr_host s)\<lparr>mem := mem h0\<rparr>
          \<and> ex @ tx_all c (mem h0) d (pending 256 (mem h0) a (cr_last s))
              = tx_all c (mem h0) d (pending 256 (mem h0) a l0))"

lemma tx_bufs_agree:
  assumes "agree_on (- used_span 256 u) m m0" and "used_span 256 u \<inter> desc_span 256 d = {}"
    and "chain 256 m0 d n i = Some ds" and "bufs_in c (- used_span 256 u) m0 d ds"
  shows "tx_bufs c m d ds = tx_bufs c m0 d ds"
proof -
  have ag: "agree_on (desc_span 256 d) m m0" using assms(1,2) by (blast intro: agree_on_mono)
  have "tx_bufs c m d [j] = tx_bufs c m0 d [j]" if j: "j \<in> set ds" for j
  proof -
    note da = ring256.desc_agree(1,2) [OF ag ring256.chain_in_table [OF assms(3) j]]
    have "read_bytes m p (unat (desc_len m0 d j)) = read_bytes m0 p (unat (desc_len m0 d j))"
      if p: "gpa_to_hva c (desc_addr m0 d j) = Some p" for p
    proof (rule read_bytes_agree [OF assms(1)])
      have "span p (unat (desc_len m0 d j)) \<subseteq> span p (max 1 (unat (desc_len m0 d j)))" by (rule span_mono) simp
      also have "\<dots> \<subseteq> - used_span 256 u" using assms(4) j p by (simp add: bufs_in_def)
      finally show "span p (unat (desc_len m0 d j)) \<subseteq> - used_span 256 u" .
      show "unat (desc_len m0 d j) \<le> 2 ^ 64" using unat_u32_less [of "desc_len m0 d j"] by simp
    qed
    then show ?thesis by (simp add: tx_bufs_def da split: option.splits)
  qed
  then have "map (\<lambda>j. tx_bufs c m d [j]) ds = map (\<lambda>j. tx_bufs c m0 d [j]) ds" by simp
  then have "concat (map (\<lambda>j. tx_bufs c m d [j]) ds) = concat (map (\<lambda>j. tx_bufs c m0 d [j]) ds)" by (rule arg_cong)
  then show ?thesis by (simp add: tx_bufs_def)
qed

lemma con_service:
  assumes inv: "con_inv c tx d a u h0 l0 s" and ne: "cr_last s \<noteq> avail_idx (mem (cr_host s)) a"
  shows "\<exists>t. con_tx_step c tx d a u s = Some (t, False) \<and> con_inv c tx d a u h0 l0 t
      \<and> cr_last t = cr_last s + 1 \<and> served 256 a u (mem (cr_host s)) (cr_last s) (mem (cr_host t))"
proof -
  let ?m = "mem (cr_host s)" and ?n = "mem h0"
  have U: "used_span 256 u \<inter> desc_span 256 d = {}" "avail_span 256 a \<inter> used_span 256 u = {}"
    and ag: "agree_on (- used_span 256 u) ?m ?n" using inv by (auto simp: con_inv_def)
  have agd: "agree_on (desc_span 256 d) ?m ?n" "agree_on (avail_span 256 a) ?m ?n"
    using ag U by (auto intro: agree_on_mono)
  have av: "avail_idx ?m a = avail_idx ?n a" "\<And>n. avail_ring 256 ?m a n = avail_ring 256 ?n a n"
    by (rule ring256.avail_agree [OF agd(2)])+
  have ne0: "cr_last s \<noteq> avail_idx ?n a" using ne unfolding av(1) .
  note pc = pending_Cons [OF ne0, of 256]
  let ?h = "avail_ring 256 ?n a (cr_last s)"
  from inv pc obtain ds where ch: "chain 256 ?n d 256 ?h = Some ds" and bufs: "bufs_in c (- used_span 256 u) ?n d ds"
    by (auto simp: con_inv_def con_rq_ok_def split: option.splits)
  note tx = tx_bufs_agree [OF ag U(1) ch bufs]
  from ch have chm: "chain 256 ?m d 256 ?h = Some ds" using ring256.chain_agree [OF agd(1)] by simp
  let ?b = "tx_bufs c ?n d ds"
  let ?t = "\<lparr>cr_last = cr_last s + 1,
    cr_host = (con_emit tx ?b (cr_host s))\<lparr>mem := push_used 256 ?m u ?h (bytes_count ?b)\<rparr>\<rparr>"
  have step: "con_tx_step c tx d a u s = Some (?t, False)"
    using con_walk [of "\<lparr>cc_cur = ?h, cc_wrote = 0, cc_host = cr_host s\<rparr>" d 256 ds c tx] chm tx
    by (auto simp: con_tx_step_def Let_def av)
  have srv: "served 256 a u ?m (cr_last s) (mem (cr_host ?t))"
    using ring256.served_push_used [of "{}" ?m ?m a u "cr_last s" "bytes_count ?b"] U(2) by (simp add: av)
  have fr: "agree_on (- used_span 256 u) (push_used 256 ?m u ?h (bytes_count ?b)) ?n"
    using ring256.push_used_agree [of "- used_span 256 u" u ?m ?h] ag by (auto intro: agree_on_trans)
  obtain ex where ex: "con_emit tx ex h0 = (cr_host s)\<lparr>mem := ?n\<rparr>"
    "ex @ tx_all c ?n d (pending 256 ?n a (cr_last s)) = tx_all c ?n d (pending 256 ?n a l0)"
    using inv by (auto simp: con_inv_def)
  have "con_emit tx (ex @ ?b) h0 = (cr_host ?t)\<lparr>mem := ?n\<rparr>"
    using ex(1) by (simp add: con_emit_append [symmetric])
  moreover have "(ex @ ?b) @ tx_all c ?n d (pending 256 ?n a (cr_last ?t)) = tx_all c ?n d (pending 256 ?n a l0)"
    using ex(2) pc ch by (simp add: tx_all_def)
  ultimately have "con_inv c tx d a u h0 l0 ?t"
    using inv fr pc by (auto simp: con_inv_def)
  with step srv show ?thesis by auto
qed

interpretation conq: virtq_drain 256 a u "\<lambda>s. mem (cr_host s)" cr_last
    "con_tx_step c tx d a u" "con_inv c tx d a u h0 l0"
  for c :: "('a) vm_map_scheme" and tx d a u and h0 :: "'e host" and l0
  by unfold_locales (rule con_service)

text \<open>
  C18. On a live transmit queue whose rings are mapped and whose pending chains end and keep their
  buffers apart from the used ring, \<^verbatim>\<open>Console::process_tx\<close> returns: the host descriptor receives
  exactly the mapped, nonempty buffers of the pending chains, in ring order and chain order; every
  request is consumed and published in order; no memory outside the used ring changes; and the
  interrupt is pulsed once.
\<close>

theorem console_tx_forwards:
  assumes live: "queue_live (snd (con_queues con))"
    and rings: "gpa_to_hva c (desc_gpa (snd (con_queues con))) = Some d"
      "gpa_to_hva c (avail_gpa (snd (con_queues con))) = Some a"
      "gpa_to_hva c (used_gpa (snd (con_queues con))) = Some u"
    and apart: "used_span 256 u \<inter> (desc_span 256 d \<union> avail_span 256 a) = {}"
    and wf: "\<forall>r \<in> set (pending 256 (mem h) a (last_avail (snd (con_queues con)))). con_rq_ok c (mem h) d u r"
    and fd: "con_tx_fd con \<ge> 0"
  shows "\<exists>con' h'. console_process_tx c con h = Some (con', h')
      \<and> sent h' = sent h @ map (Pair (con_tx_fd con))
            (tx_all c (mem h) d (pending 256 (mem h) a (last_avail (snd (con_queues con)))))
      \<and> drained 256 a u (mem h) (last_avail (snd (con_queues con))) (mem h') (last_avail (snd (con_queues con')))
      \<and> agree_on (- used_span 256 u) (mem h') (mem h)
      \<and> con_irq_status con' = con_irq_status con OR 1
      \<and> spi_calls h' = spi_calls h @ [(48, True), (48, False)]"
proof -
  let ?l = "last_avail (snd (con_queues con))" and ?tx = "con_tx_fd con"
  let ?s = "\<lparr>cr_last = ?l, cr_host = h\<rparr>"
  have "con_emit ?tx [] h = h\<lparr>mem := mem h\<rparr>" by (simp add: con_emit_Nil)
  then have "con_inv c ?tx d a u h ?l ?s" using apart wf unfolding con_inv_def by fastforce
  from conq.drain_all [OF this] obtain t where
    t: "while_brk (\<lambda>s. cr_last s \<noteq> avail_idx (mem (cr_host s)) a) (con_tx_step c ?tx d a u) ?s = Some t"
      "con_inv c ?tx d a u h ?l t" "drained 256 a u (mem h) ?l (mem (cr_host t)) (cr_last t)"
    by auto
  from t(3) have "pending 256 (mem h) a (cr_last t) = []" by (simp add: drained_def pending_Nil)
  with t(2) have "con_emit ?tx (tx_all c (mem h) d (pending 256 (mem h) a ?l)) h = (cr_host t)\<lparr>mem := mem h\<rparr>"
    by (auto simp: con_inv_def tx_all_def)
  from arg_cong [OF this, of sent] arg_cong [OF this, of spi_calls]
  have "sent (cr_host t) = sent h @ map (Pair ?tx) (tx_all c (mem h) d (pending 256 (mem h) a ?l))"
    "spi_calls (cr_host t) = spi_calls h"
    using fd by simp_all
  with t live rings show ?thesis
    by (auto simp: console_process_tx_def Let_def con_inv_def)
qed

definition demo_console :: console where
  "demo_console = (console_new 4 5)\<lparr>con_queues := (demo_queue, demo_queue)\<rparr>"

definition demo_con_host :: "u8 list host" where
  "demo_con_host = \<lparr>mem = demo_mem(0x14000 := 0x68, 0x14001 := 0x69, 0x11008 := 2, 0x1100C := 0),
     spi_calls = [], sent = [], ext = [0x78]\<rparr>"

theorem console_tx_forwards_witness:
  "\<exists>con' h'. console_process_tx demo_ctx demo_console demo_con_host = Some (con', h')
     \<and> sent h' = [(5, [0x68, 0x69])] \<and> spi_calls h' = [(48, True), (48, False)]"
proof -
  let ?m = "mem demo_con_host"
  have m: "avail_idx ?m 0x12000 = 1" "avail_ring 256 ?m 0x12000 0 = 0" "desc_addr ?m 0x11000 0 = 0x40004000"
    "desc_len ?m 0x11000 0 = 2" "\<not> has_next ?m 0x11000 0"
    by (simp_all add: ring_eval demo_con_host_def demo_mem_def)
  have p: "pending 256 ?m 0x12000 0 = [0]" by (simp add: pending_def m)
  have ch: "chain 256 ?m 0x11000 256 0 = Some [0]" by (simp add: chain_numeral m)
  have "span 0x14000 2 \<subseteq> - used_span 256 0x13000"
    using span_disjointI [of "0x13000" 2052 "0x14000" 2] by (auto simp: used_span_def)
  then have ok: "con_rq_ok demo_ctx ?m 0x11000 0x13000 0"
    by (simp add: con_rq_ok_def ch bufs_in_def m demo_hva) (simp add: numeral_2_eq_2)
  have "read_bytes ?m 0x14000 2 = [0x68, 0x69]"
    by (simp add: demo_con_host_def demo_mem_def read_bytes_def upt_conv_Cons)
  then have tx: "tx_all demo_ctx ?m 0x11000 [0] = [[0x68, 0x69]]"
    by (simp add: tx_all_def tx_bufs_def ch m demo_hva)
  show ?thesis
    using console_tx_forwards [of demo_console demo_ctx "0x11000" "0x12000" "0x13000" demo_con_host]
      demo_live demo_apart(2) ok tx
    by (simp add: demo_console_def demo_queue_def demo_hva p console_new_def) (auto simp: demo_con_host_def)
qed

section \<open>The receive queue\<close>

text \<open>
  One call of \<^verbatim>\<open>Console::feed_rx\<close> loses no input. With a buffer posted by the guest (mapped,
  not empty, its first byte apart from the used ring) it reads the descriptor once: the byte it gets
  becomes the first byte of that buffer, published as one used element of length 1, with the
  interrupt pulsed; without a byte the guest sees no change. With no buffer posted it does not read
  the descriptor at all.
\<close>

theorem console_rx_no_loss:
  assumes fd: "con_rx_fd con \<ge> 0" and live: "queue_live q" "q = fst (con_queues con)"
    and rings: "gpa_to_hva c (desc_gpa q) = Some d" "gpa_to_hva c (avail_gpa q) = Some a"
      "gpa_to_hva c (used_gpa q) = Some u"
    and head: "r = avail_ring 256 (mem h) a (last_avail q)"
    and buf: "gpa_to_hva c (desc_addr (mem h) d r) = Some p" "desc_len (mem h) d r \<noteq> 0" "p \<notin> used_span 256 u"
    and rd: "rd (ext h) (con_rx_fd con) = (ch, e)"
  shows "\<exists>con' h'. feed_rx rd c con h = (con', h') \<and>
      (if pending 256 (mem h) a (last_avail q) = [] then con' = con \<and> h' = h
       else case ch of
         None \<Rightarrow> con' = con \<and> h' = h\<lparr>ext := e\<rparr>
       | Some b \<Rightarrow> ext h' = e \<and> mem h' p = b
           \<and> used_idx (mem h') u = used_idx (mem h) u + 1
           \<and> used_elem 256 (mem h') u (used_idx (mem h) u) = (ucast r, 1)
           \<and> agree_on (- insert p (used_span 256 u)) (mem h') (mem h)
           \<and> last_avail (fst (con_queues con')) = last_avail q + 1
           \<and> con_irq_status con' = con_irq_status con OR 1
           \<and> spi_calls h' = spi_calls h @ [(48, True), (48, False)])"
proof (cases ch)
  case None
  with assms show ?thesis by (auto simp: feed_rx_def Let_def pending_Nil)
next
  case (Some b)
  let ?m = "(mem h)(p := b)"
  have us: "agree_on (used_span 256 u) ?m (mem h)" using buf(3) by (auto simp: agree_on_def)
  have pu: "agree_on (- used_span 256 u) (push_used 256 ?m u r 1) ?m"
    by (rule ring256.push_used_agree) auto
  then have "push_used 256 ?m u r 1 p = b" using buf(3) by (auto simp: agree_on_def)
  moreover have "agree_on (- insert p (used_span 256 u)) (push_used 256 ?m u r 1) (mem h)"
    using pu by (auto simp: agree_on_def)
  moreover have "used_idx (push_used 256 ?m u r 1) u = used_idx (mem h) u + 1"
    "used_elem 256 (push_used 256 ?m u r 1) u (used_idx (mem h) u) = (ucast r, 1)"
    using ring256.push_used_idx [of ?m u] ring256.push_used_slot [of ?m u] ring256.used_agree(1) [OF us]
    by simp_all
  ultimately show ?thesis
    using assms Some by (simp add: feed_rx_def Let_def pending_Nil)
qed

definition demo_rd :: "u8 list \<Rightarrow> int \<Rightarrow> u8 option \<times> u8 list" where
  "demo_rd bs fd = (case bs of [] \<Rightarrow> (None, []) | b # bs' \<Rightarrow> (Some b, bs'))"

theorem console_rx_no_loss_witness:
  "\<exists>con' h'. feed_rx demo_rd demo_ctx demo_console demo_con_host = (con', h')
     \<and> mem h' 0x14000 = 0x78 \<and> ext h' = [] \<and> used_elem 256 (mem h') 0x13000 0 = (0, 1)"
proof -
  let ?m = "mem demo_con_host"
  have m: "avail_idx ?m 0x12000 = 1" "avail_ring 256 ?m 0x12000 0 = 0" "desc_addr ?m 0x11000 0 = 0x40004000"
    "desc_len ?m 0x11000 0 = 2" "used_idx ?m 0x13000 = 0"
    by (simp_all add: ring_eval demo_con_host_def demo_mem_def)
  have p: "pending 256 ?m 0x12000 0 = [0]" by (simp add: pending_def m)
  have u: "0x14000 \<notin> used_span 256 0x13000" by (simp add: used_span_def span_unat_iff)
  have rd: "demo_rd (ext demo_con_host) 4 = (Some 0x78, [])" by (simp add: demo_rd_def demo_con_host_def)
  show ?thesis
    using console_rx_no_loss [of demo_console demo_queue demo_ctx "0x11000" "0x12000" "0x13000" 0 demo_con_host
        "0x14000" demo_rd "Some 0x78" "[]"] demo_live m p u rd
    by (auto simp: demo_console_def demo_queue_def demo_hva console_new_def)
qed

section \<open>The register interface\<close>

definition con_qv :: "console \<times> 'e host \<Rightarrow> u32 \<Rightarrow> queue" where
  "con_qv s n = (if n = 0 then fst (con_queues (fst s)) else if n = 1 then snd (con_queues (fst s)) else queue_init 256)"

lemma console_write_queue:
  "off \<in> queue_regs \<Longrightarrow> console_write c (con, h) off v
     = Some (con\<lparr>con_queues := q_upd (con_queues con) (con_queue_sel con) (q_write 256 off v)\<rparr>, h)"
  unfolding queue_regs_def
  by (elim insertE emptyE) (simp_all add: console_write_def q_write_def [abs_def] Let_def)

lemma console_write_control:
  "console_write c (con, h) Reg_Status 0
     = Some (con\<lparr>con_status := 0, con_queues := (queue_init 256, queue_init 256), con_irq_status := 0\<rparr>, h)"
  "console_write c (con, h) Reg_QueueSel v = Some (con\<lparr>con_queue_sel := v\<rparr>, h)"
  by (simp_all add: console_write_def)

lemma console_read_regs:
  "console_read con Reg_Magic = kMagicValue" "console_read con Reg_Version = 2" "console_read con Reg_DeviceId = 3"
  "console_read con Reg_QueueNumMax = 256" "console_read con Reg_Status = con_status con"
  "console_read con Reg_IrqStatus = con_irq_status con"
  "console_read con Reg_QueueReady
     = (case q_sel (con_queues con) (con_queue_sel con) of Some x \<Rightarrow> if ready x then 1 else 0 | None \<Rightarrow> 0)"
  by (simp_all add: console_read_def Let_def)

interpretation con_regs: virtio_regs "\<lambda>s off. Some (console_read (fst s) off)" "console_write c"
    con_qv "\<lambda>s. con_queue_sel (fst s)" 2 256 3 "\<lambda>s. True"
  for c :: "('a) vm_map_scheme"
  by unfold_locales
    (auto simp: console_read_regs console_write_queue console_write_control con_qv_def q_sel_def q_upd_def
      fun_eq_iff u32_less_2)

text \<open>
  Bring-up of either console queue. After a reset and the driver's set-up writes for queue
  \<open>n\<close> that queue holds exactly the programmed ring addresses, starts at position 0 and is ready,
  the other queue is in its reset state, and \<^verbatim>\<open>QueueReady\<close> reads back as 1.
\<close>

theorem console_bring_up:
  assumes "n = 0 \<or> n = 1"
  shows "\<exists>con' h'. run_writes (console_write c) (con, h) ((Reg_Status, 0) # setup_writes n k d a u) = Some (con', h')
     \<and> q_sel (con_queues con') n
         = Some \<lparr>num = min k 256, desc_gpa = d, avail_gpa = a, used_gpa = u, last_avail = 0, ready = True\<rparr>
     \<and> q_sel (con_queues con') (1 - n) = Some (queue_init 256)
     \<and> console_read con' Reg_QueueReady = 1"
  using con_regs.bring_up [of n c "(con, h)" k d a u] assms
  by (auto simp: con_qv_def q_sel_def all_u32_less_2)

theorem console_bring_up_witness:
  "\<exists>con' h'. run_writes (console_write demo_ctx) (console_new 4 5, demo_con_host)
       ((Reg_Status, 0) # setup_writes 1 256 0x40001000 0x40002000 0x40003000) = Some (con', h')
     \<and> q_sel (con_queues con') 1 = Some demo_queue \<and> q_sel (con_queues con') 0 = Some (queue_init 256)"
  using console_bring_up [of 1 demo_ctx "console_new 4 5" demo_con_host 256 "0x40001000" "0x40002000" "0x40003000"]
  by (auto simp: demo_queue_def)

end
