(* ===== verification/Virtio_Input.thy ===== *)
theory Virtio_Input
  imports Virtio_Mmio
begin

text \<open>
  The virtio input device (\<^verbatim>\<open>src/src/hvf/virtio_input.hpp\<close>, \<^verbatim>\<open>virtio_input.cpp\<close>): keyboard and tablet.
  The configuration multiplexer, the bounded queue of events, the event queue and the status queue.
  An access outside an array of the device object, or outside a local variable, is the value \<open>None\<close>.
\<close>

section \<open>State\<close>

datatype input_type = Keyboard | Tablet

record input_event =
  ev_type :: u16
  ev_code :: u16
  ev_value :: u32

definition ev_bytes :: "input_event \<Rightarrow> u8 list" where
  "ev_bytes e = le_bytes 2 (unat (ev_type e)) @ le_bytes 2 (unat (ev_code e)) @ le_bytes 4 (unat (ev_value e))"

lemma length_ev_bytes [simp]: "length (ev_bytes e) = 8"
  by (simp add: ev_bytes_def)

abbreviation kInQueueSize :: nat where "kInQueueSize \<equiv> 64"

abbreviation EV_SYN :: u16 where "EV_SYN \<equiv> 0"
abbreviation EV_KEY :: u16 where "EV_KEY \<equiv> 1"
abbreviation EV_ABS :: u16 where "EV_ABS \<equiv> 3"
abbreviation SYN_REPORT :: u16 where "SYN_REPORT \<equiv> 0"
abbreviation BTN_LEFT :: u16 where "BTN_LEFT \<equiv> 0x110"
abbreviation BTN_RIGHT :: u16 where "BTN_RIGHT \<equiv> 0x111"
abbreviation ABS_X :: u16 where "ABS_X \<equiv> 0"
abbreviation ABS_Y :: u16 where "ABS_Y \<equiv> 1"

record input =
  in_type :: input_type
  in_abs_width :: u32
  in_abs_height :: u32
  in_spi :: u32
  in_status :: u32
  in_queue_sel :: u32
  in_irq_status :: u32
  in_dev_feat_sel :: u32
  in_drv_feat_sel :: u32
  in_device_features :: u64
  in_driver_features :: u64
  in_queues :: queues2
  in_pending :: "input_event list"
  in_config :: "u8 list"

section \<open>The configuration multiplexer\<close>

definition kbd_name :: "u8 list" where
  "kbd_name = [0x76, 0x69, 0x72, 0x74, 0x69, 0x6F, 0x2D, 0x6B, 0x65, 0x79, 0x62, 0x6F, 0x61, 0x72, 0x64]"

definition tablet_name :: "u8 list" where
  "tablet_name = [0x76, 0x69, 0x72, 0x74, 0x69, 0x6F, 0x2D, 0x74, 0x61, 0x62, 0x6C, 0x65, 0x74]"

text \<open>\<^verbatim>\<open>virtio_input_absinfo\<close> with only \<^verbatim>\<open>max\<close> set.\<close>

definition absinfo :: "u32 \<Rightarrow> u8 list" where
  "absinfo mx = le_bytes 4 0 @ le_bytes 4 (unat mx) @ replicate 12 0"

definition update_config :: "input \<Rightarrow> input" where
  "update_config s =
     (let cfg = in_config s; select = cfg ! 0; subsel = cfg ! 1;
          cfg = patch (cfg[2 := 0]) 8 (replicate 128 0);
          payload = (\<lambda>bs. (patch cfg 8 bs)[2 := of_nat (length bs)])
      in s\<lparr>in_config :=
        (if select = 0x01 then payload (if in_type s = Keyboard then kbd_name else tablet_name)
         else if select = 0x11 then
           (if subsel = 0 then payload [1]
            else if subsel = 1 then
              (case in_type s of
                 Keyboard \<Rightarrow> payload (replicate 128 0xFF)
               | Tablet \<Rightarrow>
                   (let c1 = cfg[8 + 34 := cfg ! (8 + 34) OR 1];
                        c2 = c1[8 + 34 := c1 ! (8 + 34) OR 2];
                        c3 = c2[8 + 34 := c2 ! (8 + 34) OR 4]
                    in c3[2 := 35]))
            else if subsel = 3 \<and> in_type s = Tablet then payload [3]
            else cfg)
         else if select = 0x12 \<and> in_type s = Tablet then
           (if subsel = 0 then payload (absinfo (in_abs_width s))
            else if subsel = 1 then payload (absinfo (in_abs_height s))
            else cfg)
         else cfg)\<rparr>)"

definition input_new :: "u32 \<Rightarrow> input_type \<Rightarrow> u32 \<Rightarrow> u32 \<Rightarrow> input" where
  "input_new spi ty w h = update_config
     \<lparr>in_type = ty, in_abs_width = w, in_abs_height = h, in_spi = spi, in_status = 0, in_queue_sel = 0,
      in_irq_status = 0, in_dev_feat_sel = 0, in_drv_feat_sel = 0, in_device_features = 0x100000000,
      in_driver_features = 0, in_queues = (queue_init 64, queue_init 64), in_pending = [],
      in_config = replicate 256 0\<rparr>"

section \<open>Events\<close>

definition push_event_locked :: "u16 \<Rightarrow> u16 \<Rightarrow> u32 \<Rightarrow> input \<Rightarrow> input" where
  "push_event_locked ty code v s =
     (let evs = in_pending s @ [\<lparr>ev_type = ty, ev_code = code, ev_value = v\<rparr>]
      in s\<lparr>in_pending := (if length evs > kInQueueSize * 2 then tl evs else evs)\<rparr>)"

record 'e in_run =
  ir_last :: u16
  ir_pending :: "input_event list"
  ir_host :: "'e host"
  ir_injected :: bool

definition flush_step ::
  "('a) vm_map_scheme \<Rightarrow> u64 \<Rightarrow> u64 \<Rightarrow> u64 \<Rightarrow> 'e in_run \<Rightarrow> ('e in_run \<times> bool) option" where
  "flush_step c d a u s =
     (let m = mem (ir_host s); head = avail_ring kInQueueSize m a (ir_last s);
          skip = s\<lparr>ir_last := ir_last s + 1\<rparr>
      in case gpa_to_hva c (desc_addr m d head) of
           None \<Rightarrow> Some (skip, False)
         | Some hva \<Rightarrow>
             if desc_flags m d head AND VRING_DESC_F_WRITE \<noteq> 0 \<and> desc_len m d head \<ge> 8
             then
               (let ev = hd (ir_pending s); m1 = write_bytes m hva (ev_bytes ev)
                in Some (\<lparr>ir_last = ir_last s + 1, ir_pending = tl (ir_pending s),
                          ir_host = (ir_host s)\<lparr>mem := push_used kInQueueSize m1 u head 8\<rparr>,
                          ir_injected = True\<rparr>, False))
             else Some (skip, False))"

definition flush_events_locked :: "('a) vm_map_scheme \<Rightarrow> input \<Rightarrow> 'e host \<Rightarrow> (input \<times> 'e host) option" where
  "flush_events_locked c s h =
     (let q = fst (in_queues s)
      in if \<not> (ready q \<and> avail_gpa q \<noteq> 0 \<and> used_gpa q \<noteq> 0) then Some (s, h)
         else case (gpa_to_hva c (avail_gpa q), gpa_to_hva c (used_gpa q), gpa_to_hva c (desc_gpa q)) of
           (Some a, Some u, Some d) \<Rightarrow>
             (case while_brk (\<lambda>r. ir_pending r \<noteq> [] \<and> ir_last r \<noteq> avail_idx (mem (ir_host r)) a)
                     (flush_step c d a u)
                     \<lparr>ir_last = last_avail q, ir_pending = in_pending s, ir_host = h, ir_injected = False\<rparr> of
                None \<Rightarrow> None
              | Some r \<Rightarrow>
                  (let s' = s\<lparr>in_queues := (q\<lparr>last_avail := ir_last r\<rparr>, snd (in_queues s)), in_pending := ir_pending r\<rparr>
                   in if ir_injected r
                      then Some (s'\<lparr>in_irq_status := in_irq_status s OR 1\<rparr>, raise_spi (in_spi s) (ir_host r))
                      else Some (s', ir_host r)))
         | _ \<Rightarrow> Some (s, h))"

definition send_key :: "('a) vm_map_scheme \<Rightarrow> u16 \<Rightarrow> bool \<Rightarrow> input \<Rightarrow> 'e host \<Rightarrow> (input \<times> 'e host) option" where
  "send_key c code pressed s h =
     flush_events_locked c
       (push_event_locked EV_SYN SYN_REPORT 0
         (push_event_locked EV_KEY code (if pressed then 1 else 0) s)) h"

definition send_pointer ::
  "('a) vm_map_scheme \<Rightarrow> u32 \<Rightarrow> u32 \<Rightarrow> bool \<Rightarrow> bool \<Rightarrow> input \<Rightarrow> 'e host \<Rightarrow> (input \<times> 'e host) option" where
  "send_pointer c x y l r s h =
     flush_events_locked c
       (push_event_locked EV_SYN SYN_REPORT 0
         (push_event_locked EV_KEY BTN_RIGHT (if r then 1 else 0)
           (push_event_locked EV_KEY BTN_LEFT (if l then 1 else 0)
             (push_event_locked EV_ABS ABS_Y y
               (push_event_locked EV_ABS ABS_X x s))))) h"

section \<open>The status queue\<close>

record 'e st_run =
  sr_last :: u16
  sr_host :: "'e host"
  sr_drained :: bool

definition statusq_step :: "u64 \<Rightarrow> u64 \<Rightarrow> 'e st_run \<Rightarrow> ('e st_run \<times> bool) option" where
  "statusq_step a u s =
     (let m = mem (sr_host s); head = avail_ring kInQueueSize m a (sr_last s)
      in Some (\<lparr>sr_last = sr_last s + 1, sr_host = (sr_host s)\<lparr>mem := push_used kInQueueSize m u head 0\<rparr>,
                sr_drained = True\<rparr>, False))"

definition process_statusq :: "('a) vm_map_scheme \<Rightarrow> input \<Rightarrow> 'e host \<Rightarrow> (input \<times> 'e host) option" where
  "process_statusq c s h =
     (let q = snd (in_queues s)
      in if \<not> (ready q \<and> avail_gpa q \<noteq> 0 \<and> used_gpa q \<noteq> 0) then Some (s, h)
         else case (gpa_to_hva c (avail_gpa q), gpa_to_hva c (used_gpa q)) of
           (Some a, Some u) \<Rightarrow>
             (case while_brk (\<lambda>r. sr_last r \<noteq> avail_idx (mem (sr_host r)) a) (statusq_step a u)
                     \<lparr>sr_last = last_avail q, sr_host = h, sr_drained = False\<rparr> of
                None \<Rightarrow> None
              | Some r \<Rightarrow>
                  (let s' = s\<lparr>in_queues := (fst (in_queues s), q\<lparr>last_avail := sr_last r\<rparr>)\<rparr>
                   in if sr_drained r
                      then Some (s'\<lparr>in_irq_status := in_irq_status s OR 1\<rparr>, raise_spi (in_spi s) (sr_host r))
                      else Some (s', sr_host r)))
         | _ \<Rightarrow> Some (s, h))"

section \<open>Registers\<close>

text \<open>
  The configuration space is copied with \<^verbatim>\<open>memcpy\<close> to or from a 4-byte local, with the length of the
  access, which the exit handler takes from the syndrome and may be 8.
\<close>

definition input_read :: "input \<Rightarrow> u32 \<Rightarrow> u32 \<Rightarrow> u32 option" where
  "input_read s off len =
     (if off \<ge> Reg_Config \<and> off < Reg_Config + 256 then
        (let c_off = off - Reg_Config; copy_len = min len (256 - c_off)
         in if copy_len > 4 then None
            else Some (of_nat (le_val (take (unat copy_len) (drop (unat c_off) (in_config s))))))
      else if off = Reg_Magic then Some kMagicValue
      else if off = Reg_Version then Some 2
      else if off = Reg_DeviceId then Some 18
      else if off = Reg_VendorId then Some kVendor
      else if off = Reg_DeviceFeat then
        Some (if in_dev_feat_sel s = 0 then lo32 (in_device_features s)
              else if in_dev_feat_sel s = 1 then hi32 (in_device_features s) else 0)
      else if off = Reg_QueueNumMax then Some 64
      else if off = Reg_QueueReady then
        map_option (\<lambda>q. if ready q then 1 else 0) (q_sel (in_queues s) (in_queue_sel s))
      else if off = Reg_IrqStatus then Some (in_irq_status s)
      else if off = Reg_Status then Some (in_status s)
      else Some 0)"

definition input_write ::
  "('a) vm_map_scheme \<Rightarrow> input \<times> 'e host \<Rightarrow> u32 \<Rightarrow> u32 \<Rightarrow> u32 \<Rightarrow> (input \<times> 'e host) option" where
  "input_write c sh off val len =
     (let s = fst sh; h = snd sh;
          upd = (\<lambda>f. Some (s\<lparr>in_queues := q_upd (in_queues s) (in_queue_sel s mod 2) f\<rparr>, h))
      in if off \<ge> Reg_Config \<and> off < Reg_Config + 256 then
           (let c_off = off - Reg_Config; copy_len = min len (256 - c_off)
            in if copy_len > 4 then None
               else
                 (let s' = s\<lparr>in_config := patch (in_config s) (unat c_off) (take (unat copy_len) (le_bytes 4 (unat val)))\<rparr>
                  in Some (if c_off = 0 \<or> c_off = 1 then update_config s' else s', h)))
         else if off = Reg_DeviceFeatSel then Some (s\<lparr>in_dev_feat_sel := val\<rparr>, h)
         else if off = Reg_DriverFeatSel then Some (s\<lparr>in_drv_feat_sel := val\<rparr>, h)
         else if off = Reg_DriverFeat then
           (if in_drv_feat_sel s = 0 then Some (s\<lparr>in_driver_features := set_lo (in_driver_features s) val\<rparr>, h)
            else if in_drv_feat_sel s = 1 then Some (s\<lparr>in_driver_features := set_hi (in_driver_features s) val\<rparr>, h)
            else Some (s, h))
         else if off = Reg_QueueSel then Some (s\<lparr>in_queue_sel := min val 1\<rparr>, h)
         else if off = Reg_QueueNum then upd (\<lambda>q. q\<lparr>num := min val 64\<rparr>)
         else if off = Reg_QueueReady then upd (\<lambda>q. q\<lparr>ready := (val \<noteq> 0)\<rparr>)
         else if off = Reg_QueueNotify then
           (if val = 0 then flush_events_locked c s h
            else if val = 1 then process_statusq c s h
            else Some (s, h))
         else if off = Reg_IrqAck then Some (s\<lparr>in_irq_status := in_irq_status s AND NOT val\<rparr>, h)
         else if off = Reg_Status then
           (if val = 0
            then Some (s\<lparr>in_status := val, in_queues := (queue_init 64, queue_init 64), in_irq_status := 0,
                        in_driver_features := 0, in_pending := []\<rparr>, h)
            else Some (s\<lparr>in_status := val\<rparr>, h))
         else if off = Reg_QueueDescLo then upd (\<lambda>q. q\<lparr>desc_gpa := set_lo (desc_gpa q) val\<rparr>)
         else if off = Reg_QueueDescHi then upd (\<lambda>q. q\<lparr>desc_gpa := set_hi (desc_gpa q) val\<rparr>)
         else if off = Reg_QueueAvailLo then upd (\<lambda>q. q\<lparr>avail_gpa := set_lo (avail_gpa q) val\<rparr>)
         else if off = Reg_QueueAvailHi then upd (\<lambda>q. q\<lparr>avail_gpa := set_hi (avail_gpa q) val\<rparr>)
         else if off = Reg_QueueUsedLo then upd (\<lambda>q. q\<lparr>used_gpa := set_lo (used_gpa q) val\<rparr>)
         else if off = Reg_QueueUsedHi then upd (\<lambda>q. q\<lparr>used_gpa := set_hi (used_gpa q) val\<rparr>)
         else Some (s, h))"

section \<open>The invariant\<close>

text \<open>
  What every operation keeps: the configuration array has 256 bytes, at most 128 events wait, the
  queue selector is an index of \<^verbatim>\<open>queues_[2]\<close>, and the queue sizes are at most 64.
\<close>

definition input_inv :: "input \<Rightarrow> bool" where
  "input_inv s \<longleftrightarrow> length (in_config s) = 256 \<and> length (in_pending s) \<le> 128
     \<and> in_queue_sel s \<le> 1 \<and> num (fst (in_queues s)) \<le> 64 \<and> num (snd (in_queues s)) \<le> 64"

lemma length_names [simp]: "length kbd_name = 15" "length tablet_name = 13"
  by (simp_all add: kbd_name_def tablet_name_def)

lemma length_absinfo [simp]: "length (absinfo mx) = 20"
  by (simp add: absinfo_def)

lemma length_update_config:
  "length (in_config s) = 256 \<Longrightarrow> length (in_config (update_config s)) = 256"
  by (simp add: update_config_def Let_def length_patch split: input_type.split)

lemma update_config_keeps [simp]:
  "in_pending (update_config s) = in_pending s" "in_queue_sel (update_config s) = in_queue_sel s"
  "in_queues (update_config s) = in_queues s" "in_type (update_config s) = in_type s"
  "in_abs_width (update_config s) = in_abs_width s" "in_abs_height (update_config s) = in_abs_height s"
  by (simp_all add: update_config_def Let_def)

lemma input_inv_new: "input_inv (input_new spi ty w h)"
  by (simp add: input_inv_def input_new_def length_update_config queue_init_def)

lemma input_inv_push: "input_inv s \<Longrightarrow> input_inv (push_event_locked ty code v s)"
  by (auto simp: input_inv_def push_event_locked_def Let_def)

lemma flush_step_pending:
  "flush_step c d a u r = Some (t, k) \<Longrightarrow> length (ir_pending t) \<le> length (ir_pending r)"
  by (auto simp: flush_step_def Let_def split: option.splits if_splits)

lemma input_inv_flush:
  assumes "flush_events_locked c s h = Some (s', h')" and "input_inv s"
  shows "input_inv s'"
proof -
  have len: "length (ir_pending r) \<le> length (in_pending s)"
    if "while_brk b (flush_step c d a u) \<lparr>ir_last = l, ir_pending = in_pending s, ir_host = h, ir_injected = False\<rparr>
      = Some r" for b d a u l r
    by (rule while_brk_rule [OF that]) (auto dest: flush_step_pending)
  with assms show ?thesis
    by (auto simp: flush_events_locked_def input_inv_def Let_def split: option.splits if_splits dest: len)
qed

lemma input_inv_statusq: "process_statusq c s h = Some (s', h') \<Longrightarrow> input_inv s \<Longrightarrow> input_inv s'"
  by (auto simp: process_statusq_def input_inv_def Let_def split: option.splits if_splits)

lemma input_inv_config:
  assumes "input_inv s" and "off \<ge> Reg_Config" "off < Reg_Config + 256" "min len (256 - (off - Reg_Config)) \<le> 4"
    and "input_write c (s, h) off val len = Some (s', h')"
  shows "input_inv s'"
proof -
  let ?o = "unat (off - Reg_Config)" and ?n = "unat (min len (256 - (off - Reg_Config)))"
  have o: "?o < 256" using assms(2,3) by (simp add: word_less_nat_alt word_le_nat_alt unat_sub_if')
  have "?n \<le> unat (256 - (off - Reg_Config))" by (simp add: word_le_nat_alt [symmetric])
  also have "\<dots> = 256 - ?o" using o by (subst unat_sub) (simp_all add: word_le_nat_alt)
  finally have n: "?o + ?n \<le> 256" using o by simp
  have "length (patch (in_config s) ?o (take ?n (le_bytes 4 (unat val)))) = 256"
    using assms(1) n by (subst length_patch) (auto simp: input_inv_def)
  then show ?thesis
    using assms by (auto simp: input_write_def Let_def input_inv_def length_update_config split: if_splits)
qed

text \<open>
  C27. The invariant of the input device: the constructor establishes it and every operation of the
  public interface that returns keeps it, whatever the guest's memory holds.
\<close>

theorem input_inv_ops:
  "input_inv (input_new spi ty w ht)
   \<and> (input_inv s \<longrightarrow>
       (\<forall>s' h'. (send_key c code p s h = Some (s', h') \<or> send_pointer c x y l r s h = Some (s', h')
           \<or> input_write c (s, h) off val len = Some (s', h')) \<longrightarrow> input_inv s'))"
proof (intro conjI impI allI input_inv_new)
  fix s' h'
  assume inv: "input_inv s"
    and "send_key c code p s h = Some (s', h') \<or> send_pointer c x y l r s h = Some (s', h')
           \<or> input_write c (s, h) off val len = Some (s', h')"
  then consider "send_key c code p s h = Some (s', h')" | "send_pointer c x y l r s h = Some (s', h')"
    | (wr) "input_write c (s, h) off val len = Some (s', h')" by blast
  then show "input_inv s'"
  proof cases
    case wr
    have sel: "min val 1 \<le> 1" by simp
    show ?thesis
    proof (cases "off \<ge> Reg_Config \<and> off < Reg_Config + 256")
      case True
      moreover from True wr have "min len (256 - (off - Reg_Config)) \<le> 4"
        by (intro leI notI) (simp add: input_write_def Let_def)
      ultimately show ?thesis using input_inv_config [OF inv _ _ _ wr] by blast
    next
      case False
      show ?thesis
        using wr inv False input_inv_flush [of c s h s' h'] input_inv_statusq [of c s h s' h']
        by (auto simp: input_write_def Let_def input_inv_def q_upd_def queue_init_def split: if_splits)
    qed
  qed (auto simp: send_key_def send_pointer_def inv intro!: input_inv_push elim!: input_inv_flush)
qed

definition demo_tablet :: input where
  "demo_tablet = (input_new kSpiTablet Tablet 1280 720)\<lparr>in_queues := (demo_queue\<lparr>num := 64\<rparr>, demo_queue\<lparr>num := 64\<rparr>)\<rparr>"

definition demo_in_host :: "unit host" where
  "demo_in_host = \<lparr>mem = demo_mem(0x11001 := 0x40, 0x1100C := 2), spi_calls = [], sent = [], ext = ()\<rparr>"

lemma demo_tablet_inv: "input_inv demo_tablet"
  using input_inv_new [of kSpiTablet Tablet 1280 720] by (simp add: demo_tablet_def input_inv_def)

theorem input_inv_ops_witness:
  "\<exists>s' h'. input_write demo_ctx (demo_tablet, demo_in_host) Reg_QueueSel 7 4 = Some (s', h') \<and> input_inv s'"
proof -
  have "input_write demo_ctx (demo_tablet, demo_in_host) Reg_QueueSel 7 4
      = Some (demo_tablet\<lparr>in_queue_sel := 1\<rparr>, demo_in_host)"
    by (simp add: input_write_def)
  with input_inv_ops [of 22 Tablet 1280 720 demo_tablet demo_ctx 30 True demo_in_host 0 0 False False Reg_QueueSel 7 4]
    demo_tablet_inv
  show ?thesis by blast
qed

text \<open>
  Register accesses of at most 4 bytes are safe: on a device that satisfies the invariant no
  such read or configuration write leaves the arrays of the device or the 4-byte local it is
  copied through.
\<close>

theorem input_access_safe:
  assumes "input_inv s" and "len \<le> 4"
  shows "input_read s off len \<noteq> None
    \<and> (off \<ge> Reg_Config \<and> off < Reg_Config + 256 \<longrightarrow> input_write c (s, h) off val len \<noteq> None)"
proof -
  have n: "\<not> min len k > 4" for k using assms(2) by (auto simp: min_def)
  have "in_queue_sel s = 0 \<or> in_queue_sel s = 1"
    using assms(1) u32_less_2 [of "in_queue_sel s"] by (simp add: input_inv_def word_le_nat_alt word_less_nat_alt)
  then have "input_read s off len \<noteq> None" using n by (auto simp: input_read_def Let_def q_sel_def)
  moreover have "off \<ge> Reg_Config \<and> off < Reg_Config + 256 \<longrightarrow> input_write c (s, h) off val len \<noteq> None"
    using assms(2) by (auto simp: input_write_def Let_def)
  ultimately show ?thesis ..
qed

theorem input_access_safe_witness: "input_read demo_tablet 0x1FC 4 \<noteq> None"
  using input_access_safe [OF demo_tablet_inv, of 4 "0x1FC" demo_ctx demo_in_host 0] by simp

text \<open>
  An 8-byte access to the first 249 bytes of the configuration space overruns the 4-byte
  local \<^verbatim>\<open>val\<close>: a guest \<^verbatim>\<open>ldr x0\<close> corrupts the VMM's stack, and a guest \<^verbatim>\<open>str x0\<close> copies 4 bytes
  of it into \<^verbatim>\<open>config_\<close>.
\<close>

theorem input_wide_access_overruns:
  assumes "off \<ge> Reg_Config" and "off \<le> Reg_Config + 248"
  shows "input_read s off 8 = None \<and> input_write c (s, h) off val 8 = None"
proof -
  have o: "unat (off - Reg_Config) \<le> 248" using assms by (simp add: word_le_nat_alt unat_sub_if')
  have "unat (256 - (off - Reg_Config)) = 256 - unat (off - Reg_Config)"
    using o by (subst unat_sub) (simp_all add: word_le_nat_alt)
  then have "min 8 (256 - (off - Reg_Config)) > 4" using o by (simp add: min_def word_less_nat_alt word_le_nat_alt)
  moreover have "off < Reg_Config + 256" using assms(2) by (simp add: word_less_nat_alt word_le_nat_alt)
  ultimately show ?thesis
    using assms(1) by (simp add: input_read_def input_write_def Let_def)
qed

theorem input_wide_access_overruns_witness:
  "input_read demo_tablet 0x108 8 = None \<and> input_write demo_ctx (demo_tablet, demo_in_host) 0x108 5 8 = None"
  using input_wide_access_overruns [of "0x108" demo_tablet demo_ctx demo_in_host 5] by simp

section \<open>The event queue\<close>

text \<open>
  Flushing always returns: whatever the guest put into the rings, even when they overlap, every
  iteration either delivers one of the finitely many waiting events or moves on to the next
  available entry of unchanged memory.
\<close>

theorem input_flush_returns:
  fixes h :: "'e host"
  shows "\<exists>s' h'. flush_events_locked c s h = Some (s', h')"
proof -
  have "\<exists>t. while_brk (\<lambda>r. ir_pending r \<noteq> [] \<and> ir_last r \<noteq> avail_idx (mem (ir_host r)) a) (flush_step c d a u) r0
      = Some t \<and> True" for a d u and r0 :: "'e in_run"
  proof (rule while_brk_total [where f = "\<lambda>r. 65536 * length (ir_pending r) + unat (avail_idx (mem (ir_host r)) a - ir_last r)"])
    fix r :: "'e in_run"
    assume b: "ir_pending r \<noteq> [] \<and> ir_last r \<noteq> avail_idx (mem (ir_host r)) a"
    then have step: "unat (avail_idx (mem (ir_host r)) a - ir_last r)
        = Suc (unat (avail_idx (mem (ir_host r)) a - (ir_last r + 1)))" by (intro unat_minus_one_step) simp
    have pop: "65536 * length (tl (ir_pending r)) + unat (x :: u16) < 65536 * length (ir_pending r) + y" for x y
      using b unat_u16_less [of x] by (cases "ir_pending r") simp_all
    show "\<exists>t k. flush_step c d a u r = Some (t, k) \<and> True
        \<and> 65536 * length (ir_pending t) + unat (avail_idx (mem (ir_host t)) a - ir_last t)
          < 65536 * length (ir_pending r) + unat (avail_idx (mem (ir_host r)) a - ir_last r)"
      using step by (auto simp: flush_step_def Let_def split: option.split intro!: less_SucI pop [simplified])
  qed simp
  then show ?thesis
    by (auto simp: flush_events_locked_def Let_def split: option.split) (metis option.distinct(1))+
qed

text \<open>
  The entries of the available ring that the next \<open>k\<close> deliveries will use: mapped, device-writable,
  large enough, with buffers \<open>P i\<close> apart from the rings and from each other.
\<close>

definition ev_slots ::
  "('a) vm_map_scheme \<Rightarrow> hmem \<Rightarrow> u64 \<Rightarrow> u64 \<Rightarrow> u64 \<Rightarrow> u16 \<Rightarrow> (nat \<Rightarrow> u64) \<Rightarrow> nat \<Rightarrow> bool" where
  "ev_slots c m d a u l P k \<longleftrightarrow>
     used_span 64 u \<inter> (desc_span 64 d \<union> avail_span 64 a) = {}
     \<and> (\<forall>i < k. let h = avail_ring 64 m a (l + of_nat i) in
          unat h < 64 \<and> gpa_to_hva c (desc_addr m d h) = Some (P i)
          \<and> desc_flags m d h AND VRING_DESC_F_WRITE \<noteq> 0 \<and> 8 \<le> desc_len m d h
          \<and> span (P i) 8 \<inter> (desc_span 64 d \<union> avail_span 64 a \<union> used_span 64 u) = {}
          \<and> (\<forall>j < i. span (P j) 8 \<inter> span (P i) 8 = {}))"

lemma ev_slots_0:
  assumes "ev_slots c m d a u l P (Suc k)"
  shows "unat (avail_ring 64 m a l) < 64" "gpa_to_hva c (desc_addr m d (avail_ring 64 m a l)) = Some (P 0)"
    "desc_flags m d (avail_ring 64 m a l) AND VRING_DESC_F_WRITE \<noteq> 0" "8 \<le> desc_len m d (avail_ring 64 m a l)"
    "span (P 0) 8 \<inter> (desc_span 64 d \<union> avail_span 64 a \<union> used_span 64 u) = {}"
    "used_span 64 u \<inter> (desc_span 64 d \<union> avail_span 64 a) = {}"
    "\<forall>i < k. span (P 0) 8 \<inter> span (P (Suc i)) 8 = {}"
proof -
  from assms have *: "\<And>i. i < Suc k \<Longrightarrow> let h = avail_ring 64 m a (l + of_nat i) in
          unat h < 64 \<and> gpa_to_hva c (desc_addr m d h) = Some (P i)
          \<and> desc_flags m d h AND VRING_DESC_F_WRITE \<noteq> 0 \<and> 8 \<le> desc_len m d h
          \<and> span (P i) 8 \<inter> (desc_span 64 d \<union> avail_span 64 a \<union> used_span 64 u) = {}
          \<and> (\<forall>j < i. span (P j) 8 \<inter> span (P i) 8 = {})"
    unfolding ev_slots_def by blast
  from * [of 0] show "unat (avail_ring 64 m a l) < 64" "gpa_to_hva c (desc_addr m d (avail_ring 64 m a l)) = Some (P 0)"
    "desc_flags m d (avail_ring 64 m a l) AND VRING_DESC_F_WRITE \<noteq> 0" "8 \<le> desc_len m d (avail_ring 64 m a l)"
    "span (P 0) 8 \<inter> (desc_span 64 d \<union> avail_span 64 a \<union> used_span 64 u) = {}" by (simp_all add: Let_def)
  show "used_span 64 u \<inter> (desc_span 64 d \<union> avail_span 64 a) = {}" using assms by (simp add: ev_slots_def)
  show "\<forall>i < k. span (P 0) 8 \<inter> span (P (Suc i)) 8 = {}" using * by (auto simp: Let_def)
qed

lemma ev_slots_Suc:
  "ev_slots c m d a u l P (Suc k) \<Longrightarrow> ev_slots c m d a u (l + 1) (\<lambda>i. P (Suc i)) k"
  unfolding ev_slots_def by (auto simp: Let_def add.assoc dest!: spec [of _ "Suc _"])

lemma ev_slots_agree:
  assumes "agree_on (desc_span 64 d \<union> avail_span 64 a) m' m" and "ev_slots c m d a u l P k"
  shows "ev_slots c m' d a u l P k"
proof -
  have ag: "agree_on (desc_span 64 d) m' m" "agree_on (avail_span 64 a) m' m" using assms(1) by simp_all
  note av = ring64.avail_agree(2) [OF ag(2)]
  from assms(2) show ?thesis
    unfolding ev_slots_def av Let_def using ring64.desc_agree(1,2,3) [OF ag(1)] by auto
qed

lemma flush_step_deliver:
  assumes sl: "ev_slots c (mem (ir_host r)) d a u (ir_last r) P (Suc k)" and ev: "ir_pending r = e # es"
  shows "\<exists>t. flush_step c d a u r = Some (t, False) \<and> ir_last t = ir_last r + 1 \<and> ir_pending t = es
      \<and> ir_injected t \<and> spi_calls (ir_host t) = spi_calls (ir_host r)
      \<and> served 64 a u (mem (ir_host r)) (ir_last r) (mem (ir_host t))
      \<and> agree_on (- (span (P 0) 8 \<union> used_span 64 u)) (mem (ir_host t)) (mem (ir_host r))
      \<and> read_bytes (mem (ir_host t)) (P 0) 8 = ev_bytes e"
proof -
  let ?m = "mem (ir_host r)" and ?h = "avail_ring 64 (mem (ir_host r)) a (ir_last r)"
  note s0 = ev_slots_0 [OF sl]
  let ?w = "write_bytes ?m (P 0) (ev_bytes e)"
  let ?p = "push_used 64 ?w u ?h 8"
  have step: "flush_step c d a u r = Some (\<lparr>ir_last = ir_last r + 1, ir_pending = es,
      ir_host = (ir_host r)\<lparr>mem := ?p\<rparr>, ir_injected = True\<rparr>, False)"
    using s0 ev by (simp add: flush_step_def Let_def)
  have w: "agree_on (- span (P 0) 8) ?w ?m" by (rule write_bytes_agree) simp_all
  have p: "agree_on (- used_span 64 u) ?p ?w" by (rule ring64.push_used_agree) auto
  have "read_bytes ?p (P 0) 8 = read_bytes ?w (P 0) 8"
    using s0(5) by (intro read_bytes_agree [OF p]) auto
  also have "\<dots> = ev_bytes e" using read_write_bytes [of "ev_bytes e" ?m "P 0"] by simp
  finally have rd: "read_bytes ?p (P 0) 8 = ev_bytes e" .
  have "served 64 a u ?m (ir_last r) ?p"
    using w s0(5,6) by (intro ring64.served_push_used [of "span (P 0) 8"]) auto
  moreover have "agree_on (- (span (P 0) 8 \<union> used_span 64 u)) ?p ?m"
    using w p by (auto simp: agree_on_def)
  ultimately show ?thesis using step rd by simp
qed

text \<open>The loop, from any point of a run: \<open>k\<close> deliveries, where \<open>k\<close> is bounded by events and entries.\<close>

lemma flush_run:
  assumes "ev_slots c (mem (ir_host r)) d a u (ir_last r) P k"
    and "k = min (length (ir_pending r)) (unat (avail_idx (mem (ir_host r)) a - ir_last r))"
  shows "\<exists>t. while_brk (\<lambda>r. ir_pending r \<noteq> [] \<and> ir_last r \<noteq> avail_idx (mem (ir_host r)) a) (flush_step c d a u) r = Some t
      \<and> ir_last t = ir_last r + of_nat k \<and> ir_pending t = drop k (ir_pending r)
      \<and> ir_injected t = (ir_injected r \<or> k > 0) \<and> spi_calls (ir_host t) = spi_calls (ir_host r)
      \<and> served_n 64 a u (mem (ir_host r)) (ir_last r) (mem (ir_host t)) k
      \<and> agree_on (- ((\<Union>i < k. span (P i) 8) \<union> used_span 64 u)) (mem (ir_host t)) (mem (ir_host r))
      \<and> (\<forall>i < k. read_bytes (mem (ir_host t)) (P i) 8 = ev_bytes (ir_pending r ! i))"
  using assms
proof (induction k arbitrary: r P)
  case 0
  then have "ir_pending r = [] \<or> unat (avail_idx (mem (ir_host r)) a - ir_last r) = 0"
    by (metis length_0_conv min_def)
  then have "\<not> (ir_pending r \<noteq> [] \<and> ir_last r \<noteq> avail_idx (mem (ir_host r)) a)" by (auto simp: unat_eq_zero)
  then show ?case by (auto simp: while_brk_stop intro: served_0)
next
  case (Suc k)
  let ?m = "mem (ir_host r)"
  from Suc.prems(2) obtain e es where ev: "ir_pending r = e # es" by (cases "ir_pending r") auto
  from Suc.prems(2) have ne: "ir_last r \<noteq> avail_idx ?m a" by auto
  note s0 = ev_slots_0 [OF Suc.prems(1)]
  from flush_step_deliver [OF Suc.prems(1) ev] obtain t where
    t: "flush_step c d a u r = Some (t, False)" "ir_last t = ir_last r + 1" "ir_pending t = es" "ir_injected t"
      "spi_calls (ir_host t) = spi_calls (ir_host r)" "served 64 a u ?m (ir_last r) (mem (ir_host t))"
    and ag: "agree_on (- (span (P 0) 8 \<union> used_span 64 u)) (mem (ir_host t)) ?m"
    and rd: "read_bytes (mem (ir_host t)) (P 0) 8 = ev_bytes e" by blast
  have "desc_span 64 d \<union> avail_span 64 a \<subseteq> - (span (P 0) 8 \<union> used_span 64 u)" using s0(5,6) by blast
  with ag have da: "agree_on (desc_span 64 d \<union> avail_span 64 a) (mem (ir_host t)) ?m" by (rule agree_on_mono)
  have sl: "ev_slots c (mem (ir_host t)) d a u (ir_last t) (\<lambda>i. P (Suc i)) k"
    using ev_slots_agree [OF da ev_slots_Suc [OF Suc.prems(1)]] t(2) by simp
  have av: "avail_idx (mem (ir_host t)) a = avail_idx ?m a"
    using da by (intro ring64.avail_agree(1)) simp
  have k: "k = min (length (ir_pending t)) (unat (avail_idx (mem (ir_host t)) a - ir_last t))"
    using Suc.prems(2) unat_minus_one_step [OF ne] ev t(2,3) by (simp add: av)
  from Suc.IH [OF sl k] obtain t' where
    t': "while_brk (\<lambda>r. ir_pending r \<noteq> [] \<and> ir_last r \<noteq> avail_idx (mem (ir_host r)) a) (flush_step c d a u) t = Some t'"
      "ir_last t' = ir_last t + of_nat k" "ir_pending t' = drop k es" "ir_injected t'"
      "spi_calls (ir_host t') = spi_calls (ir_host t)"
      "served_n 64 a u (mem (ir_host t)) (ir_last t) (mem (ir_host t')) k"
    and ag': "agree_on (- ((\<Union>i < k. span (P (Suc i)) 8) \<union> used_span 64 u)) (mem (ir_host t')) (mem (ir_host t))"
    and rd': "\<forall>i < k. read_bytes (mem (ir_host t')) (P (Suc i)) 8 = ev_bytes (es ! i)"
    using t by auto
  have U: "(\<Union>i < Suc k. span (P i) 8) = span (P 0) 8 \<union> (\<Union>i < k. span (P (Suc i)) 8)"
    by (auto simp: less_Suc_eq_0_disj)
  have "span (P 0) 8 \<subseteq> - ((\<Union>i < k. span (P (Suc i)) 8) \<union> used_span 64 u)" using s0(5,7) by blast
  then have "read_bytes (mem (ir_host t')) (P 0) 8 = ev_bytes e"
    using read_bytes_agree [OF ag', of "P 0" 8] rd by simp
  then have all: "\<forall>i < Suc k. read_bytes (mem (ir_host t')) (P i) 8 = ev_bytes (ir_pending r ! i)"
    using rd' ev by (auto simp: less_Suc_eq_0_disj)
  have "agree_on (- ((\<Union>i < Suc k. span (P i) 8) \<union> used_span 64 u)) (mem (ir_host t')) ?m"
    unfolding U using ag ag' by (auto simp: agree_on_def)
  moreover have "while_brk (\<lambda>r. ir_pending r \<noteq> [] \<and> ir_last r \<noteq> avail_idx (mem (ir_host r)) a) (flush_step c d a u) r = Some t'"
    using ne ev t(1) t'(1) by (simp add: while_brk_step)
  moreover have "served_n 64 a u ?m (ir_last r) (mem (ir_host t')) (Suc k)"
    using t(2,6) t'(6) by (auto intro: served_Suc)
  moreover have "ir_last t' = ir_last r + of_nat (Suc k)" using t(2) t'(2) by simp
  moreover have "ir_pending t' = drop (Suc k) (ir_pending r)" using t'(3) ev by simp
  moreover have "ir_injected t' = (ir_injected r \<or> Suc k > 0)" "spi_calls (ir_host t') = spi_calls (ir_host r)"
    using t(5) t'(4,5) by simp_all
  ultimately show ?case using all by blast
qed

text \<open>
  C28. Delivery of events. With \<open>k\<close> the smaller of the numbers of waiting events and of available
  entries, and well-formed entries, \<^verbatim>\<open>Input::flush_events_locked\<close> puts the encodings of the \<open>k\<close> oldest
  events, in order, into the buffers of the next \<open>k\<close> entries, publishes these entries in order, keeps
  the remaining events, and pulses the interrupt exactly when it delivered one.
\<close>

theorem input_flush_delivers:
  assumes live: "ready q" "avail_gpa q \<noteq> 0" "used_gpa q \<noteq> 0" "q = fst (in_queues s)"
    and rings: "gpa_to_hva c (desc_gpa q) = Some d" "gpa_to_hva c (avail_gpa q) = Some a" "gpa_to_hva c (used_gpa q) = Some u"
    and k: "k = min (length (in_pending s)) (length (pending 64 (mem h) a (last_avail q)))" "k \<le> 64"
    and slots: "ev_slots c (mem h) d a u (last_avail q) P k"
  shows "\<exists>s' h'. flush_events_locked c s h = Some (s', h')
      \<and> in_pending s' = drop k (in_pending s)
      \<and> last_avail (fst (in_queues s')) = last_avail q + of_nat k
      \<and> (\<forall>i < k. read_bytes (mem h') (P i) 8 = ev_bytes (in_pending s ! i))
      \<and> used_idx (mem h') u = used_idx (mem h) u + of_nat k
      \<and> published 64 (mem h') u (used_idx (mem h) u) k = map ucast (take k (pending 64 (mem h) a (last_avail q)))
      \<and> agree_on (- ((\<Union>i < k. span (P i) 8) \<union> used_span 64 u)) (mem h') (mem h)
      \<and> spi_calls h' = spi_calls h @ (if k = 0 then [] else [(32 + in_spi s, True), (32 + in_spi s, False)])"
proof -
  let ?r = "\<lparr>ir_last = last_avail q, ir_pending = in_pending s, ir_host = h, ir_injected = False\<rparr>"
  have "k = min (length (in_pending s)) (unat (avail_idx (mem h) a - last_avail q))"
    using k(1) by (simp add: pending_def)
  with flush_run [of c ?r d a u P k] slots obtain t where
    t: "while_brk (\<lambda>r. ir_pending r \<noteq> [] \<and> ir_last r \<noteq> avail_idx (mem (ir_host r)) a) (flush_step c d a u) ?r = Some t"
      "ir_last t = last_avail q + of_nat k" "ir_pending t = drop k (in_pending s)" "ir_injected t = (k > 0)"
      "spi_calls (ir_host t) = spi_calls h"
      "agree_on (- ((\<Union>i < k. span (P i) 8) \<union> used_span 64 u)) (mem (ir_host t)) (mem h)"
      "\<forall>i < k. read_bytes (mem (ir_host t)) (P i) 8 = ev_bytes (in_pending s ! i)"
    and sn: "served_n 64 a u (mem h) (last_avail q) (mem (ir_host t)) k"
    by auto
  note eff = ring64.served_n_effect [OF sn]
  have pub: "published 64 (mem (ir_host t)) u (used_idx (mem h) u) k
      = map ucast (take k (pending 64 (mem h) a (last_avail q)))"
    using eff k by (intro nth_equalityI) (auto simp: published_def pending_def)
  show ?thesis
    using live rings t eff pub by (cases "k = 0") (auto simp: flush_events_locked_def Let_def)
qed

theorem input_flush_delivers_witness:
  "\<exists>s' h'. flush_events_locked demo_ctx
       (demo_tablet\<lparr>in_pending := [\<lparr>ev_type = 3, ev_code = 1, ev_value = 513\<rparr>]\<rparr>) demo_in_host = Some (s', h')
     \<and> in_pending s' = [] \<and> read_bytes (mem h') 0x14000 8 = [3, 0, 1, 0, 1, 2, 0, 0]
     \<and> spi_calls h' = [(54, True), (54, False)]"
proof -
  let ?m = "mem demo_in_host" and ?e = "\<lparr>ev_type = 3, ev_code = 1, ev_value = 513\<rparr>"
  let ?q = "demo_queue\<lparr>num := 64\<rparr>"
  have m: "avail_idx ?m 0x12000 = 1" "avail_ring 64 ?m 0x12000 0 = 0" "desc_addr ?m 0x11000 0 = 0x40004000"
    "desc_len ?m 0x11000 0 = 16" "desc_flags ?m 0x11000 0 = 2"
    by (simp_all add: ring_eval demo_in_host_def demo_mem_def)
  have p: "pending 64 ?m 0x12000 0 = [0]" by (simp add: pending_def m)
  have ap: "span 0x14000 8 \<inter> desc_span 64 0x11000 = {}" "span 0x14000 8 \<inter> avail_span 64 0x12000 = {}"
    "span 0x14000 8 \<inter> used_span 64 0x13000 = {}" "used_span 64 0x13000 \<inter> desc_span 64 0x11000 = {}"
    "used_span 64 0x13000 \<inter> avail_span 64 0x12000 = {}"
    using span_disjointI [of "0x11000" 1024 "0x14000" 8] span_disjointI [of "0x12000" 132 "0x14000" 8]
      span_disjointI [of "0x13000" 516 "0x14000" 8] span_disjointI [of "0x11000" 1024 "0x13000" 516]
      span_disjointI [of "0x12000" 132 "0x13000" 516]
    by (auto simp: desc_span_def avail_span_def used_span_def)
  then have sl: "ev_slots demo_ctx ?m 0x11000 0x12000 0x13000 0 (\<lambda>_. 0x14000) 1"
    by (simp add: ev_slots_def m demo_hva VRING_DESC_F_WRITE_def Int_Un_distrib)
  let ?s = "demo_tablet\<lparr>in_pending := [?e]\<rparr>"
  have eb: "ev_bytes ?e = [3, 0, 1, 0, 1, 2, 0, 0]" by (simp add: ev_bytes_def le_bytes_numeral)
  have q: "?q = fst (in_queues ?s)" "in_spi ?s = 22" "in_pending ?s = [?e]"
    by (simp_all add: demo_tablet_def input_new_def update_config_def Let_def)
  have qf: "ready ?q" "avail_gpa ?q = 0x40002000" "used_gpa ?q = 0x40003000" "desc_gpa ?q = 0x40001000"
    "last_avail ?q = 0" "spi_calls demo_in_host = []"
    by (simp_all add: demo_queue_def demo_in_host_def)
  have k: "1 = min (length (in_pending ?s)) (length (pending 64 ?m 0x12000 (last_avail ?q)))"
    by (simp add: q(3) qf(5) p)
  from input_flush_delivers [OF qf(1) _ _ q(1) _ _ _ k, of demo_ctx "0x11000" "0x13000" "\<lambda>_. 0x14000"] sl obtain s' h' where
    "flush_events_locked demo_ctx ?s demo_in_host = Some (s', h')" "in_pending s' = drop 1 [?e]"
    "\<forall>i < (1 :: nat). read_bytes (mem h') 0x14000 8 = ev_bytes (in_pending ?s ! i)"
    "spi_calls h' = [(32 + in_spi ?s, True), (32 + in_spi ?s, False)]"
    unfolding qf q(3) by (auto simp: demo_hva)
  then show ?thesis using q eb by simp
qed

section \<open>The status queue\<close>

definition st_inv :: "u64 \<Rightarrow> u64 \<Rightarrow> 'e host \<Rightarrow> u16 \<Rightarrow> 'e st_run \<Rightarrow> bool" where
  "st_inv a u h0 l0 s \<longleftrightarrow> avail_span 64 a \<inter> used_span 64 u = {}
     \<and> agree_on (- used_span 64 u) (mem (sr_host s)) (mem h0) \<and> spi_calls (sr_host s) = spi_calls h0
     \<and> unat (avail_idx (mem h0) a - sr_last s) \<le> unat (avail_idx (mem h0) a - l0)
     \<and> (sr_drained s \<longleftrightarrow> sr_last s \<noteq> l0)"

lemma statusq_service:
  assumes inv: "st_inv a u h0 l0 s" and ne: "sr_last s \<noteq> avail_idx (mem (sr_host s)) a"
  shows "\<exists>t. statusq_step a u s = Some (t, False) \<and> st_inv a u h0 l0 t
      \<and> sr_last t = sr_last s + 1 \<and> served 64 a u (mem (sr_host s)) (sr_last s) (mem (sr_host t))"
proof -
  let ?m = "mem (sr_host s)" and ?h = "avail_ring 64 (mem (sr_host s)) a (sr_last s)"
  have ap: "avail_span 64 a \<inter> used_span 64 u = {}" and ag: "agree_on (- used_span 64 u) ?m (mem h0)"
    using inv by (simp_all add: st_inv_def)
  have "agree_on (avail_span 64 a) ?m (mem h0)" using ag ap by (blast intro: agree_on_mono)
  then have "avail_idx ?m a = avail_idx (mem h0) a" by (rule ring64.avail_agree(1))
  with ne have step: "unat (avail_idx (mem h0) a - sr_last s) = Suc (unat (avail_idx (mem h0) a - (sr_last s + 1)))"
    by (intro unat_minus_one_step) simp
  then have "sr_last s + 1 \<noteq> l0" using inv by (auto simp: st_inv_def)
  moreover have "agree_on (- used_span 64 u) (push_used 64 ?m u ?h 0) (mem h0)"
    using ring64.push_used_agree [of "- used_span 64 u" u ?m ?h 0] ag by (auto intro: agree_on_trans)
  moreover have "served 64 a u ?m (sr_last s) (push_used 64 ?m u ?h 0)"
    using ap by (intro ring64.served_push_used [of "{}"]) simp_all
  ultimately show ?thesis using inv step by (simp add: statusq_step_def Let_def st_inv_def)
qed

interpretation statusq: virtq_drain 64 a u "\<lambda>s. mem (sr_host s)" sr_last "statusq_step a u" "st_inv a u h0 l0"
  for a u and h0 :: "'e host" and l0
  by unfold_locales (rule statusq_service)

text \<open>
  The status queue: with disjoint rings \<^verbatim>\<open>Input::process_statusq\<close> returns every available entry
  to the driver, in order and unread, and interrupts exactly when there was one.
\<close>

theorem input_statusq_drains:
  assumes live: "ready q" "avail_gpa q \<noteq> 0" "used_gpa q \<noteq> 0" "q = snd (in_queues s)"
    and rings: "gpa_to_hva c (avail_gpa q) = Some a" "gpa_to_hva c (used_gpa q) = Some u"
    and apart: "avail_span 64 a \<inter> used_span 64 u = {}"
  shows "\<exists>s' h'. process_statusq c s h = Some (s', h')
      \<and> drained 64 a u (mem h) (last_avail q) (mem h') (last_avail (snd (in_queues s')))
      \<and> agree_on (- used_span 64 u) (mem h') (mem h)
      \<and> spi_calls h' = spi_calls h @ (if pending 64 (mem h) a (last_avail q) = [] then []
          else [(32 + in_spi s, True), (32 + in_spi s, False)])"
proof -
  let ?r = "\<lparr>sr_last = last_avail q, sr_host = h, sr_drained = False\<rparr>"
  have "st_inv a u h (last_avail q) ?r" using apart by (simp add: st_inv_def)
  from statusq.drain_all [OF this] obtain t where
    t: "while_brk (\<lambda>s. sr_last s \<noteq> avail_idx (mem (sr_host s)) a) (statusq_step a u) ?r = Some t"
      "st_inv a u h (last_avail q) t" "drained 64 a u (mem h) (last_avail q) (mem (sr_host t)) (sr_last t)"
    by auto
  from t(3) have "sr_last t = avail_idx (mem h) a" by (simp add: drained_def)
  then have "sr_drained t \<longleftrightarrow> pending 64 (mem h) a (last_avail q) \<noteq> []"
    using t(2) by (auto simp: st_inv_def pending_Nil)
  with t live rings show ?thesis by (auto simp: process_statusq_def Let_def st_inv_def)
qed

theorem input_statusq_drains_witness:
  "\<exists>s' h'. process_statusq demo_ctx demo_tablet demo_in_host = Some (s', h')
     \<and> drained 64 0x12000 0x13000 (mem demo_in_host) 0 (mem h') (last_avail (snd (in_queues s')))"
proof -
  have "avail_span 64 0x12000 \<inter> used_span 64 0x13000 = {}"
    using span_disjointI [of "0x12000" 132 "0x13000" 516] by (simp add: avail_span_def used_span_def)
  then show ?thesis
    using input_statusq_drains [of "demo_queue\<lparr>num := 64\<rparr>" demo_tablet demo_ctx "0x12000" "0x13000" demo_in_host]
    by (auto simp: demo_tablet_def demo_queue_def demo_hva)
qed

section \<open>Configuration and registers\<close>

lemma input_config_write:
  assumes "length (in_config s) = 256" and "k < 2"
  shows "input_write c (s, h) (Reg_Config + of_nat k) v 1
     = Some (update_config (s\<lparr>in_config := (in_config s)[k := ucast v]\<rparr>), h)"
proof -
  have t: "take (Suc 0) (le_bytes 4 (unat v)) = [ucast v]" by (simp add: le_bytes_numeral)
  have p: "patch (in_config s) k [ucast v] = (in_config s)[k := ucast v]"
    using assms by (simp add: patch_def upd_conv_take_nth_drop)
  from assms(2) consider "k = 0" | "k = 1" by linarith
  then show ?thesis
    by cases (use t p in \<open>simp_all add: input_write_def Let_def min_def del: le_bytes.simps\<close>)
qed

text \<open>
  The axis ranges of the tablet: after the driver selects \<^verbatim>\<open>ABS_INFO\<close> and an axis with two byte
  writes, the configuration space reports a 20-byte payload whose minimum is 0 and whose maximum is
  the width (axis 0) or the height (axis 1) the device was created with.
\<close>

theorem tablet_abs_range:
  assumes "input_inv s" and "in_type s = Tablet" and "axis = 0 \<or> axis = 1"
  shows "\<exists>s' h'. run_writes (\<lambda>sh off v. input_write c sh off v 1) (s, h)
             [(0x100, 0x12), (0x101, axis)] = Some (s', h')
      \<and> input_read s' 0x102 1 = Some 20 \<and> input_read s' 0x108 4 = Some 0
      \<and> input_read s' 0x10C 4 = Some (if axis = 0 then in_abs_width s else in_abs_height s)"
proof -
  have len: "length (in_config s) = 256" using assms(1) by (simp add: input_inv_def)
  let ?s1 = "update_config (s\<lparr>in_config := (in_config s)[0 := 0x12]\<rparr>)"
  have len1: "length (in_config ?s1) = 256" using len by (intro length_update_config) simp
  have sel1: "in_config ?s1 ! 0 = 0x12"
    using len assms(2) by (simp add: update_config_def Let_def nth_patch length_patch)
  let ?cfg = "(in_config ?s1)[1 := ucast axis]"
  let ?s2 = "update_config (?s1\<lparr>in_config := ?cfg\<rparr>)"
  let ?mx = "if axis = 0 then in_abs_width s else in_abs_height s"
  have run: "run_writes (\<lambda>sh off v. input_write c sh off v 1) (s, h) [(0x100, 0x12), (0x101, axis)] = Some (?s2, h)"
    using input_config_write [OF len, of 0 c h "0x12"] input_config_write [OF len1, of 1 c h axis] by simp
  have cfg: "in_config ?s2 = (patch (patch (?cfg[2 := 0]) 8 (replicate 128 0)) 8 (absinfo ?mx))[2 := 20]"
    using sel1 len1 assms(2,3) by (auto simp: update_config_def [of "?s1\<lparr>in_config := _\<rparr>"] Let_def)
  let ?base = "patch (?cfg[2 := 0]) 8 (replicate 128 0)"
  have lb: "length ?base = 256" using len1 by (simp add: length_patch)
  have at: "in_config ?s2 ! (8 + j) = absinfo ?mx ! j" if "j < 20" for j
    using that lb unfolding cfg by (simp add: nth_patch)
  have l2: "length (in_config ?s2) = 256" using lb unfolding cfg by (simp add: length_patch)
  have win: "take 4 (drop (8 + i) (in_config ?s2)) = take 4 (drop i (absinfo ?mx))" if "i \<le> 16" for i
    using that l2 at by (intro nth_equalityI) (auto simp: add.assoc)
  have "take 1 (drop 2 (in_config ?s2)) = [20]"
    using lb unfolding cfg by (simp add: take_Suc_conv_app_nth hd_drop_conv_nth length_patch take_Suc)
  moreover have "take 4 (drop 8 (in_config ?s2)) = le_bytes 4 0" using win [of 0] by (simp add: absinfo_def)
  moreover have "take 4 (drop 12 (in_config ?s2)) = le_bytes 4 (unat ?mx)" using win [of 4] by (simp add: absinfo_def)
  ultimately have "input_read ?s2 0x102 1 = Some 20 \<and> input_read ?s2 0x108 4 = Some 0
      \<and> input_read ?s2 0x10C 4 = Some ?mx"
    using unat_u32_less [of ?mx] by (simp add: input_read_def Let_def min_def le_val_le_bytes)
  with run show ?thesis by blast
qed

theorem tablet_abs_range_witness:
  "\<exists>s' h'. run_writes (\<lambda>sh off v. input_write demo_ctx sh off v 1) (demo_tablet, demo_in_host)
       [(0x100, 0x12), (0x101, 1)] = Some (s', h') \<and> input_read s' 0x10C 4 = Some 720"
proof -
  have "in_type demo_tablet = Tablet" "in_abs_height demo_tablet = 720"
    by (simp_all add: demo_tablet_def input_new_def)
  with tablet_abs_range [OF demo_tablet_inv, of 1 demo_ctx demo_in_host] show ?thesis by auto
qed

definition in_qv :: "input \<times> 'e host \<Rightarrow> u32 \<Rightarrow> queue" where
  "in_qv s n = (if n = 0 then fst (in_queues (fst s)) else if n = 1 then snd (in_queues (fst s)) else queue_init 64)"

lemma input_write_queue:
  "off \<in> queue_regs \<Longrightarrow> in_queue_sel s \<le> 1 \<Longrightarrow> input_write c (s, h) off v 4
     = Some (s\<lparr>in_queues := q_upd (in_queues s) (in_queue_sel s) (q_write 64 off v)\<rparr>, h)"
proof -
  assume o: "off \<in> queue_regs" and sel: "in_queue_sel s \<le> 1"
  have "in_queue_sel s = 0 \<or> in_queue_sel s = 1"
    using sel u32_less_2 [of "in_queue_sel s"] by (simp add: word_le_nat_alt word_less_nat_alt)
  then have "in_queue_sel s mod 2 = in_queue_sel s" by auto
  with o show ?thesis
    unfolding queue_regs_def
    by (elim insertE emptyE) (simp_all add: input_write_def q_write_def [abs_def] Let_def)
qed

lemma input_write_control:
  "input_write c (s, h) Reg_Status 0 4 = Some (s\<lparr>in_status := 0, in_queues := (queue_init 64, queue_init 64),
     in_irq_status := 0, in_driver_features := 0, in_pending := []\<rparr>, h)"
  "input_write c (s, h) Reg_QueueSel v 4 = Some (s\<lparr>in_queue_sel := min v 1\<rparr>, h)"
  by (simp_all add: input_write_def)

lemma input_read_regs:
  "input_read s Reg_Magic 4 = Some kMagicValue" "input_read s Reg_Version 4 = Some 2"
  "input_read s Reg_DeviceId 4 = Some 18" "input_read s Reg_QueueNumMax 4 = Some 64"
  "input_read s Reg_Status 4 = Some (in_status s)" "input_read s Reg_IrqStatus 4 = Some (in_irq_status s)"
  "input_read s Reg_QueueReady 4
     = map_option (\<lambda>q. if ready q then 1 else 0) (q_sel (in_queues s) (in_queue_sel s))"
  by (simp_all add: input_read_def)

interpretation in_regs: virtio_regs "\<lambda>s off. input_read (fst s) off 4" "\<lambda>s off v. input_write c s off v 4"
    in_qv "\<lambda>s. in_queue_sel (fst s)" 2 64 18 "\<lambda>s. in_queue_sel (fst s) \<le> 1"
  for c :: "('a) vm_map_scheme"
  by unfold_locales
    (auto simp: input_read_regs input_write_queue input_write_control in_qv_def q_sel_def q_upd_def
      fun_eq_iff u32_less_2 min_def)

end
