(* ===== verification/Virtio_Net.thy ===== *)
theory Virtio_Net
  imports Virtio_Mmio
begin

text \<open>
  The virtio network device (\<^verbatim>\<open>src/src/hvf/virtio_net.hpp\<close>, \<^verbatim>\<open>virtio_net.cpp\<close>): the queue of frames
  from the user-mode network stack to the guest, the receive ring, the transmit ring and the
  registers. The stack is a parameter here: \<open>gtx e frame\<close> is \<^verbatim>\<open>stack_->guest_tx\<close>, which changes the
  stack's state and calls \<^verbatim>\<open>enqueue_rx\<close> for each frame of the returned list before it returns (\<open>None\<close>:
  the stack leaves its buffers).
\<close>

section \<open>State\<close>

type_synonym frame = "u8 list"

abbreviation kNetQueueSize :: nat where "kNetQueueSize \<equiv> 256"

text \<open>\<^verbatim>\<open>sizeof(VirtioNetHdr)\<close>\<close>

abbreviation kNetHdr :: nat where "kNetHdr \<equiv> 12"

record net =
  n_status :: u32
  n_queue_sel :: u32
  n_irq_status :: u32
  n_dev_feat_sel :: u32
  n_drv_feat_sel :: u32
  n_features :: u64
  n_mac :: "u8 list"
  n_queues :: queues2
  n_rx_queue :: "frame list"

definition net_new :: "u8 list \<Rightarrow> net" where
  "net_new mac =
     \<lparr>n_status = 0, n_queue_sel = 0, n_irq_status = 0, n_dev_feat_sel = 0, n_drv_feat_sel = 0,
      n_features = 0x100000000 OR 0x20, n_mac = mac, n_queues = (queue_init 256, queue_init 256),
      n_rx_queue = []\<rparr>"

text \<open>
  \<open>enqueue_rx\<close> takes \<^verbatim>\<open>mtx_\<close>, which is not recursive. \<open>held\<close> says whether the calling thread already
  holds it; then the call never returns.
\<close>

definition enqueue_rx :: "bool \<Rightarrow> frame \<Rightarrow> net \<Rightarrow> net option" where
  "enqueue_rx held f s = (if held then None else Some (s\<lparr>n_rx_queue := n_rx_queue s @ [f]\<rparr>))"

fun enqueue_all :: "bool \<Rightarrow> frame list \<Rightarrow> net \<Rightarrow> net option" where
  "enqueue_all held [] s = Some s"
| "enqueue_all held (f # fs) s =
     (case enqueue_rx held f s of None \<Rightarrow> None | Some t \<Rightarrow> enqueue_all held fs t)"

section \<open>Receive: stack to guest\<close>

record rx_walk =
  rw_cur :: u16
  rw_buf :: "u64 option"
  rw_wrote :: u32
  rw_off :: nat
  rw_mem :: hmem

text \<open>The body of the loop that copies the frame into the descriptors of the chain.\<close>

definition rx_step :: "('a) vm_map_scheme \<Rightarrow> u64 \<Rightarrow> u16 \<Rightarrow> frame \<Rightarrow> rx_walk \<Rightarrow> (rx_walk \<times> bool) option" where
  "rx_step c d head f s =
     (case rw_buf s of
        None \<Rightarrow> Some (s, True)
      | Some buf \<Rightarrow>
          (let m = rw_mem s; cur = rw_cur s;
               hdr = (if rw_wrote s > 0 \<and> cur = head then 12 else 0);
               cap = (ucast (desc_len m d cur) - hdr :: u64);
               to_copy = min (length f - rw_off s) (unat cap);
               s1 = (if to_copy > 0
                     then s\<lparr>rw_mem := write_bytes m (buf + hdr) (take to_copy (drop (rw_off s) f)),
                            rw_wrote := rw_wrote s + of_nat to_copy, rw_off := rw_off s + to_copy\<rparr>
                     else s);
               m1 = rw_mem s1
           in if rw_off s1 < length f \<and> has_next m1 d cur
              then Some (s1\<lparr>rw_cur := desc_next m1 d cur,
                            rw_buf := gpa_to_hva c (desc_addr m1 d (desc_next m1 d cur))\<rparr>, False)
              else Some (s1, True)))"

definition do_feed_rx :: "('a) vm_map_scheme \<Rightarrow> frame \<Rightarrow> net \<Rightarrow> 'e host \<Rightarrow> (net \<times> 'e host) option" where
  "do_feed_rx c f s h =
     (let q = fst (n_queues s)
      in if \<not> queue_live q then Some (s, h)
         else case (gpa_to_hva c (desc_gpa q), gpa_to_hva c (avail_gpa q), gpa_to_hva c (used_gpa q)) of
           (Some d, Some a, Some u) \<Rightarrow>
             (let m = mem h
              in if last_avail q = avail_idx m a then Some (s, h)
                 else
                   (let head = avail_ring kNetQueueSize m a (last_avail q);
                        buf = gpa_to_hva c (desc_addr m d head);
                        w0 = (case buf of
                                None \<Rightarrow> (m, 0)
                              | Some p \<Rightarrow> if desc_len m d head \<ge> 12
                                          then (write_bytes m p (replicate kNetHdr 0), 12) else (m, 0))
                    in case while_brk (\<lambda>w. rw_off w < length f) (rx_step c d head f)
                              \<lparr>rw_cur = head, rw_buf = buf, rw_wrote = snd w0, rw_off = 0, rw_mem = fst w0\<rparr> of
                         None \<Rightarrow> None
                       | Some w \<Rightarrow>
                           Some (s\<lparr>n_queues := (q\<lparr>last_avail := last_avail q + 1\<rparr>, snd (n_queues s)),
                                   n_irq_status := n_irq_status s OR 1\<rparr>,
                                 raise_spi kSpiNet
                                   (h\<lparr>mem := push_used kNetQueueSize (rw_mem w) u head (rw_wrote w)\<rparr>))))
         | _ \<Rightarrow> Some (s, h))"

text \<open>One round of \<^verbatim>\<open>rx_flush_func\<close> with a frame in the queue: pop it and try to deliver it.\<close>

definition rx_flush_round :: "('a) vm_map_scheme \<Rightarrow> net \<Rightarrow> 'e host \<Rightarrow> (net \<times> 'e host) option" where
  "rx_flush_round c s h =
     (case n_rx_queue s of
        [] \<Rightarrow> Some (s, h)
      | f # fs \<Rightarrow> do_feed_rx c f (s\<lparr>n_rx_queue := fs\<rparr>) h)"

section \<open>Transmit: guest to stack\<close>

record tx_walk =
  tw_cur :: u16
  tw_buf :: frame

definition net_chain_step :: "('a) vm_map_scheme \<Rightarrow> hmem \<Rightarrow> u64 \<Rightarrow> tx_walk \<Rightarrow> (tx_walk \<times> bool) option" where
  "net_chain_step c m d s =
     (let cur = tw_cur s;
          s' = (case gpa_to_hva c (desc_addr m d cur) of
                  None \<Rightarrow> s
                | Some p \<Rightarrow> s\<lparr>tw_buf := tw_buf s @ read_bytes m p (unat (desc_len m d cur))\<rparr>)
      in if \<not> has_next m d cur then Some (s', True)
         else Some (s'\<lparr>tw_cur := desc_next m d cur\<rparr>, False))"

record 'e net_run =
  nr_last :: u16
  nr_host :: "'e host"
  nr_net :: net
  nr_raised :: bool

text \<open>
  One request. \<^verbatim>\<open>process_tx\<close> runs inside \<^verbatim>\<open>Net::write\<close>, with \<^verbatim>\<open>mtx_\<close> held, so the frames the stack
  answers with are enqueued with the lock held.
\<close>

definition net_tx_step ::
  "('e \<Rightarrow> frame \<Rightarrow> ('e \<times> frame list) option) \<Rightarrow> ('a) vm_map_scheme \<Rightarrow> u64 \<Rightarrow> u64 \<Rightarrow> u64 \<Rightarrow> 'e net_run
     \<Rightarrow> ('e net_run \<times> bool) option" where
  "net_tx_step gtx c d a u s =
     (let m = mem (nr_host s); head = avail_ring kNetQueueSize m a (nr_last s)
      in case while_brk (\<lambda>_. True) (net_chain_step c m d) \<lparr>tw_cur = head, tw_buf = []\<rparr> of
           None \<Rightarrow> None
         | Some x \<Rightarrow>
             (let fb = tw_buf x;
                  r = (if length fb > kNetHdr then gtx (ext (nr_host s)) (drop kNetHdr fb)
                       else Some (ext (nr_host s), []))
              in case r of
                   None \<Rightarrow> None
                 | Some (e', fs) \<Rightarrow>
                     (case enqueue_all True fs (nr_net s) of
                        None \<Rightarrow> None
                      | Some net' \<Rightarrow>
                          Some (\<lparr>nr_last = nr_last s + 1,
                                 nr_host = (nr_host s)\<lparr>ext := e',
                                   mem := push_used kNetQueueSize m u head (of_nat (length fb))\<rparr>,
                                 nr_net = net', nr_raised = True\<rparr>, False))))"

definition net_process_tx ::
  "('e \<Rightarrow> frame \<Rightarrow> ('e \<times> frame list) option) \<Rightarrow> ('a) vm_map_scheme \<Rightarrow> net \<Rightarrow> 'e host \<Rightarrow> (net \<times> 'e host) option" where
  "net_process_tx gtx c s h =
     (let q = snd (n_queues s)
      in if \<not> queue_live q then Some (s, h)
         else case (gpa_to_hva c (desc_gpa q), gpa_to_hva c (avail_gpa q), gpa_to_hva c (used_gpa q)) of
           (Some d, Some a, Some u) \<Rightarrow>
             (case while_brk (\<lambda>r. nr_last r \<noteq> avail_idx (mem (nr_host r)) a) (net_tx_step gtx c d a u)
                     \<lparr>nr_last = last_avail q, nr_host = h, nr_net = s, nr_raised = False\<rparr> of
                None \<Rightarrow> None
              | Some r \<Rightarrow>
                  (let s' = (nr_net r)\<lparr>n_queues := (fst (n_queues s), q\<lparr>last_avail := nr_last r\<rparr>)\<rparr>
                   in if nr_raised r
                      then Some (s'\<lparr>n_irq_status := n_irq_status s OR 1\<rparr>, raise_spi kSpiNet (nr_host r))
                      else Some (s', nr_host r)))
         | _ \<Rightarrow> Some (s, h))"

section \<open>Registers\<close>

text \<open>The MAC address is copied with the access length into a 4-byte local; \<open>None\<close>: it overruns it.\<close>

definition net_read :: "net \<Rightarrow> u32 \<Rightarrow> u32 \<Rightarrow> u32 option" where
  "net_read s off len =
     (if off \<ge> Reg_Config \<and> off < Reg_Config + 6 then
        (let k = off - Reg_Config; n = min len (6 - k)
         in if n > 4 then None else Some (of_nat (le_val (take (unat n) (drop (unat k) (n_mac s))))))
      else if off = Reg_Magic then Some kMagicValue
      else if off = Reg_Version then Some 2
      else if off = Reg_DeviceId then Some 1
      else if off = Reg_VendorId then Some kVendor
      else if off = Reg_DeviceFeat then
        Some (if n_dev_feat_sel s = 0 then lo32 (n_features s)
              else if n_dev_feat_sel s = 1 then hi32 (n_features s) else 0)
      else if off = Reg_QueueNumMax then Some 256
      else if off = Reg_QueueReady then
        Some (case q_sel (n_queues s) (n_queue_sel s) of Some x \<Rightarrow> if ready x then 1 else 0 | None \<Rightarrow> 0)
      else if off = Reg_IrqStatus then Some (n_irq_status s)
      else if off = Reg_Status then Some (n_status s)
      else if off = Reg_ConfigGen then Some 0
      else Some 0)"

definition net_write ::
  "('e \<Rightarrow> frame \<Rightarrow> ('e \<times> frame list) option) \<Rightarrow> ('a) vm_map_scheme \<Rightarrow> net \<times> 'e host \<Rightarrow> u32 \<Rightarrow> u32 \<Rightarrow> (net \<times> 'e host) option" where
  "net_write gtx c sh off val =
     (let s = fst sh; h = snd sh;
          upd = (\<lambda>f. Some (s\<lparr>n_queues := q_upd (n_queues s) (n_queue_sel s) f\<rparr>, h))
      in if off = Reg_DeviceFeatSel then Some (s\<lparr>n_dev_feat_sel := val\<rparr>, h)
         else if off = Reg_DriverFeatSel then Some (s\<lparr>n_drv_feat_sel := val\<rparr>, h)
         else if off = Reg_DriverFeat then
           (if n_drv_feat_sel s = 0 then Some (s\<lparr>n_features := set_lo (n_features s) val\<rparr>, h)
            else if n_drv_feat_sel s = 1 then Some (s\<lparr>n_features := set_hi (n_features s) val\<rparr>, h)
            else Some (s, h))
         else if off = Reg_QueueSel then Some (s\<lparr>n_queue_sel := val\<rparr>, h)
         else if off = Reg_QueueNum then upd (\<lambda>q. q\<lparr>num := min val 256\<rparr>)
         else if off = Reg_QueueReady then upd (\<lambda>q. q\<lparr>ready := (val \<noteq> 0)\<rparr>)
         else if off = Reg_QueueNotify then (if val = 1 then net_process_tx gtx c s h else Some (s, h))
         else if off = Reg_IrqAck then Some (s\<lparr>n_irq_status := n_irq_status s AND NOT val\<rparr>, h)
         else if off = Reg_Status then
           (if val = 0
            then Some (s\<lparr>n_status := val, n_queues := (queue_init 256, queue_init 256), n_irq_status := 0\<rparr>, h)
            else Some (s\<lparr>n_status := val\<rparr>, h))
         else if off = Reg_QueueDescLo then upd (\<lambda>q. q\<lparr>desc_gpa := set_lo (desc_gpa q) val\<rparr>)
         else if off = Reg_QueueDescHi then upd (\<lambda>q. q\<lparr>desc_gpa := set_hi (desc_gpa q) val\<rparr>)
         else if off = Reg_QueueAvailLo then upd (\<lambda>q. q\<lparr>avail_gpa := set_lo (avail_gpa q) val\<rparr>)
         else if off = Reg_QueueAvailHi then upd (\<lambda>q. q\<lparr>avail_gpa := set_hi (avail_gpa q) val\<rparr>)
         else if off = Reg_QueueUsedLo then upd (\<lambda>q. q\<lparr>used_gpa := set_lo (used_gpa q) val\<rparr>)
         else if off = Reg_QueueUsedHi then upd (\<lambda>q. q\<lparr>used_gpa := set_hi (used_gpa q) val\<rparr>)
         else Some (s, h))"

section \<open>The transmit queue\<close>

text \<open>The bytes of a chain: the mapped buffers, in order.\<close>

definition chain_bytes :: "('a) vm_map_scheme \<Rightarrow> hmem \<Rightarrow> u64 \<Rightarrow> u16 list \<Rightarrow> u8 list" where
  "chain_bytes c m d ds = concat (map (\<lambda>i.
     case gpa_to_hva c (desc_addr m d i) of None \<Rightarrow> [] | Some p \<Rightarrow> read_bytes m p (unat (desc_len m d i))) ds)"

lemma net_walk:
  assumes "chain 256 m d n (tw_cur s) = Some ds"
  shows "\<exists>k. while_brk (\<lambda>_. True) (net_chain_step c m d) s
      = Some \<lparr>tw_cur = k, tw_buf = tw_buf s @ chain_bytes c m d ds\<rparr>"
  using assms
proof (induction ds arbitrary: s n)
  case Nil
  then show ?case by simp
next
  case (Cons i ds)
  note ch = chain_Cons [OF Cons.prems]
  have step: "net_chain_step c m d s =
      (let s' = s\<lparr>tw_buf := tw_buf s @ chain_bytes c m d [tw_cur s]\<rparr>
       in if has_next m d (tw_cur s) then Some (s'\<lparr>tw_cur := desc_next m d (tw_cur s)\<rparr>, False) else Some (s', True))"
    by (simp add: net_chain_step_def Let_def chain_bytes_def split: option.split)
  show ?case
  proof (cases "ds = []")
    case True
    with ch step show ?thesis
      by (intro exI [of _ "tw_cur s"]) (cases s, simp add: while_brk_break Let_def)
  next
    case False
    let ?t = "\<lparr>tw_cur = desc_next m d (tw_cur s), tw_buf = tw_buf s @ chain_bytes c m d [tw_cur s]\<rparr>"
    from ch False obtain n' where hn: "has_next m d (tw_cur s)" and i: "i = tw_cur s"
      and rest: "chain 256 m d n' (desc_next m d (tw_cur s)) = Some ds" by auto
    have "while_brk (\<lambda>_. True) (net_chain_step c m d) s = while_brk (\<lambda>_. True) (net_chain_step c m d) ?t"
      using hn step by (intro while_brk_step) (simp_all add: Let_def)
    with Cons.IH [of n' ?t] rest show ?thesis by (simp add: i chain_bytes_def)
  qed
qed

text \<open>
  What the pending requests do to the stack when it never answers from within \<^verbatim>\<open>guest_tx\<close>: each
  chain longer than the virtio header is one frame, handed over in ring order. \<open>None\<close> when the stack
  answers one of them synchronously or fails.
\<close>

fun tx_feed :: "('e \<Rightarrow> frame \<Rightarrow> ('e \<times> frame list) option) \<Rightarrow> ('a) vm_map_scheme \<Rightarrow> hmem \<Rightarrow> u64 \<Rightarrow> u16 list \<Rightarrow> 'e \<Rightarrow> 'e option" where
  "tx_feed gtx c m d [] e = Some e"
| "tx_feed gtx c m d (h # hs) e =
     (let fb = (case chain 256 m d 256 h of None \<Rightarrow> [] | Some ds \<Rightarrow> chain_bytes c m d ds)
      in if length fb \<le> kNetHdr then tx_feed gtx c m d hs e
         else case gtx e (drop kNetHdr fb) of
                None \<Rightarrow> None
              | Some (e', fs) \<Rightarrow> if fs = [] then tx_feed gtx c m d hs e' else None)"

definition net_rq_ok :: "('a) vm_map_scheme \<Rightarrow> hmem \<Rightarrow> u64 \<Rightarrow> u64 \<Rightarrow> u16 \<Rightarrow> bool" where
  "net_rq_ok c m d u h \<longleftrightarrow>
     (case chain 256 m d 256 h of None \<Rightarrow> False | Some ds \<Rightarrow> bufs_in c (- used_span 256 u) m d ds)"

definition net_inv ::
  "('e \<Rightarrow> frame \<Rightarrow> ('e \<times> frame list) option) \<Rightarrow> ('a) vm_map_scheme \<Rightarrow> u64 \<Rightarrow> u64 \<Rightarrow> u64 \<Rightarrow> net \<Rightarrow> 'e host \<Rightarrow> u16
     \<Rightarrow> 'e net_run \<Rightarrow> bool" where
  "net_inv gtx c d a u s0 h0 l0 s \<longleftrightarrow>
     used_span 256 u \<inter> (desc_span 256 d \<union> avail_span 256 a) = {}
     \<and> agree_on (- used_span 256 u) (mem (nr_host s)) (mem h0)
     \<and> (\<forall>h \<in> set (pending 256 (mem h0) a (nr_last s)). net_rq_ok c (mem h0) d u h)
     \<and> nr_net s = s0 \<and> spi_calls (nr_host s) = spi_calls h0
     \<and> unat (avail_idx (mem h0) a - nr_last s) \<le> unat (avail_idx (mem h0) a - l0)
     \<and> (nr_raised s \<longleftrightarrow> nr_last s \<noteq> l0)
     \<and> tx_feed gtx c (mem h0) d (pending 256 (mem h0) a (nr_last s)) (ext (nr_host s))
         = tx_feed gtx c (mem h0) d (pending 256 (mem h0) a l0) (ext h0)"

lemma chain_bytes_agree:
  assumes "agree_on (- used_span 256 u) m m0" and "used_span 256 u \<inter> desc_span 256 d = {}"
    and "chain 256 m0 d n i = Some ds" and "bufs_in c (- used_span 256 u) m0 d ds"
  shows "chain_bytes c m d ds = chain_bytes c m0 d ds"
proof -
  have ag: "agree_on (desc_span 256 d) m m0" using assms(1,2) by (blast intro: agree_on_mono)
  have "chain_bytes c m d [j] = chain_bytes c m0 d [j]" if j: "j \<in> set ds" for j
  proof -
    note da = ring256.desc_agree(1,2) [OF ag ring256.chain_in_table [OF assms(3) j]]
    have "read_bytes m p (unat (desc_len m0 d j)) = read_bytes m0 p (unat (desc_len m0 d j))"
      if p: "gpa_to_hva c (desc_addr m0 d j) = Some p" for p
    proof (rule read_bytes_agree [OF assms(1)])
      have "span p (unat (desc_len m0 d j)) \<subseteq> span p (max 1 (unat (desc_len m0 d j)))" by (rule span_mono) simp
      also have "\<dots> \<subseteq> - used_span 256 u" using assms(4) j p by (simp add: bufs_in_def)
      finally show "span p (unat (desc_len m0 d j)) \<subseteq> - used_span 256 u" .
      show "unat (desc_len m0 d j) \<le> 2 ^ 64" using unat_u32_less [of "desc_len m0 d j"] by simp
    qed
    then show ?thesis by (simp add: chain_bytes_def da split: option.splits)
  qed
  then have "map (\<lambda>j. chain_bytes c m d [j]) ds = map (\<lambda>j. chain_bytes c m0 d [j]) ds" by simp
  then have "concat (map (\<lambda>j. chain_bytes c m d [j]) ds) = concat (map (\<lambda>j. chain_bytes c m0 d [j]) ds)"
    by (rule arg_cong)
  then show ?thesis by (simp add: chain_bytes_def)
qed

text \<open>
  One iteration under the invariant: either it serves the request and the stack stays quiet, or the
  stack answers and the iteration never returns.
\<close>

lemma net_iteration:
  assumes inv: "net_inv gtx c d a u s0 h0 l0 s" and ne: "nr_last s \<noteq> avail_idx (mem (nr_host s)) a"
  shows "(tx_feed gtx c (mem h0) d (pending 256 (mem h0) a l0) (ext h0) = None \<and> net_tx_step gtx c d a u s = None)
    \<or> (\<exists>t. net_tx_step gtx c d a u s = Some (t, False) \<and> net_inv gtx c d a u s0 h0 l0 t
      \<and> nr_last t = nr_last s + 1 \<and> served 256 a u (mem (nr_host s)) (nr_last s) (mem (nr_host t)))"
proof -
  let ?m = "mem (nr_host s)" and ?n = "mem h0"
  have U: "used_span 256 u \<inter> desc_span 256 d = {}" "avail_span 256 a \<inter> used_span 256 u = {}"
    and ag: "agree_on (- used_span 256 u) ?m ?n" using inv by (auto simp: net_inv_def)
  have agd: "agree_on (desc_span 256 d) ?m ?n" "agree_on (avail_span 256 a) ?m ?n"
    using ag U by (auto intro: agree_on_mono)
  have av: "avail_idx ?m a = avail_idx ?n a" "\<And>n. avail_ring 256 ?m a n = avail_ring 256 ?n a n"
    by (rule ring256.avail_agree [OF agd(2)])+
  have ne0: "nr_last s \<noteq> avail_idx ?n a" using ne unfolding av(1) .
  note pc = pending_Cons [OF ne0, of 256]
  let ?h = "avail_ring 256 ?n a (nr_last s)"
  from inv pc obtain ds where ch: "chain 256 ?n d 256 ?h = Some ds" and bufs: "bufs_in c (- used_span 256 u) ?n d ds"
    by (auto simp: net_inv_def net_rq_ok_def split: option.splits)
  note cb = chain_bytes_agree [OF ag U(1) ch bufs]
  from ch have chm: "chain 256 ?m d 256 ?h = Some ds" using ring256.chain_agree [OF agd(1)] by simp
  let ?b = "chain_bytes c ?n d ds"
  let ?r = "if length ?b > kNetHdr then gtx (ext (nr_host s)) (drop kNetHdr ?b) else Some (ext (nr_host s), [])"
  let ?p = "push_used 256 ?m u ?h (of_nat (length ?b))"
  have step: "net_tx_step gtx c d a u s = (case ?r of None \<Rightarrow> None
      | Some (e', fs) \<Rightarrow> (case enqueue_all True fs (nr_net s) of None \<Rightarrow> None
      | Some net' \<Rightarrow> Some (\<lparr>nr_last = nr_last s + 1, nr_host = (nr_host s)\<lparr>ext := e', mem := ?p\<rparr>,
          nr_net = net', nr_raised = True\<rparr>, False)))"
    using net_walk [of ?m d 256 "\<lparr>tw_cur = ?h, tw_buf = []\<rparr>" ds c] chm cb
    by (auto simp: net_tx_step_def Let_def av cong: option.case_cong)
  have feed: "tx_feed gtx c ?n d (pending 256 ?n a l0) (ext h0)
      = (case ?r of None \<Rightarrow> None | Some (e', fs) \<Rightarrow>
          if fs = [] then tx_feed gtx c ?n d (pending 256 ?n a (nr_last s + 1)) e' else None)"
  proof -
    have "tx_feed gtx c ?n d (pending 256 ?n a l0) (ext h0)
        = tx_feed gtx c ?n d (?h # pending 256 ?n a (nr_last s + 1)) (ext (nr_host s))"
      using inv by (simp only: net_inv_def pc)
    then show ?thesis by (simp add: ch Let_def not_less)
  qed
  show ?thesis
  proof (cases "\<exists>e'. ?r = Some (e', [])")
    case True
    then obtain e' where r: "?r = Some (e', [])" by blast
    have "served 256 a u ?m (nr_last s) ?p"
      using ring256.served_push_used [of "{}" ?m ?m a u "nr_last s"] U(2) by (simp add: av)
    moreover have "agree_on (- used_span 256 u) ?p ?n"
      using ring256.push_used_agree [of "- used_span 256 u" u ?m ?h] ag by (auto intro: agree_on_trans)
    moreover have "unat (avail_idx ?n a - nr_last s) = Suc (unat (avail_idx ?n a - (nr_last s + 1)))"
      by (rule unat_minus_one_step [OF ne0])
    moreover from this have "nr_last s + 1 \<noteq> l0" using inv by (auto simp: net_inv_def)
    ultimately show ?thesis
      using step feed inv pc unfolding r by (intro disjI2) (auto simp: net_inv_def)
  next
    case False
    then consider "?r = None" | e' f fs where "?r = Some (e', f # fs)" by (cases ?r) (auto, metis list.exhaust)
    then show ?thesis using step feed by cases (simp_all add: enqueue_rx_def)
  qed
qed

interpretation netq: virtq_drain 256 a u "\<lambda>s. mem (nr_host s)" nr_last "net_tx_step gtx c d a u"
    "\<lambda>s. net_inv gtx c d a u s0 h0 l0 s \<and> tx_feed gtx c (mem h0) d (pending 256 (mem h0) a l0) (ext h0) \<noteq> None"
  for gtx :: "'e \<Rightarrow> frame \<Rightarrow> ('e \<times> frame list) option" and c :: "('a) vm_map_scheme" and d a u s0 h0 l0
proof
  fix s :: "'e net_run"
  assume inv: "net_inv gtx c d a u s0 h0 l0 s \<and> tx_feed gtx c (mem h0) d (pending 256 (mem h0) a l0) (ext h0) \<noteq> None"
    and ne: "nr_last s \<noteq> avail_idx (mem (nr_host s)) a"
  with net_iteration [OF conjunct1 [OF inv] ne]
  show "\<exists>t. net_tx_step gtx c d a u s = Some (t, False)
      \<and> (net_inv gtx c d a u s0 h0 l0 t \<and> tx_feed gtx c (mem h0) d (pending 256 (mem h0) a l0) (ext h0) \<noteq> None)
      \<and> nr_last t = nr_last s + 1 \<and> served 256 a u (mem (nr_host s)) (nr_last s) (mem (nr_host t))"
    by auto
qed

lemma net_inv_avail:
  assumes "net_inv gtx c d a u s0 h0 l0 s"
  shows "avail_idx (mem (nr_host s)) a = avail_idx (mem h0) a"
proof (rule ring256.avail_agree(1))
  show "agree_on (avail_span 256 a) (mem (nr_host s)) (mem h0)"
    using assms by (auto simp: net_inv_def intro: agree_on_mono)
qed

text \<open>When the stack answers one of the pending frames, the loop does not return.\<close>

lemma net_run_deadlock:
  assumes "net_inv gtx c d a u s0 h0 l0 s"
    and "tx_feed gtx c (mem h0) d (pending 256 (mem h0) a l0) (ext h0) = None"
  shows "while_brk (\<lambda>r. nr_last r \<noteq> avail_idx (mem (nr_host r)) a) (net_tx_step gtx c d a u) s = None"
  using assms(1)
proof (induction "unat (avail_idx (mem h0) a - nr_last s)" arbitrary: s rule: less_induct)
  case less
  have ne0: "nr_last s \<noteq> avail_idx (mem h0) a"
  proof
    assume "nr_last s = avail_idx (mem h0) a"
    then have "pending 256 (mem h0) a (nr_last s) = []" by (simp add: pending_Nil)
    with less.prems assms(2) show False by (simp add: net_inv_def)
  qed
  then have ne: "nr_last s \<noteq> avail_idx (mem (nr_host s)) a" by (simp add: net_inv_avail [OF less.prems])
  from net_iteration [OF less.prems ne] show ?case
  proof (elim disjE conjE exE)
    assume "net_tx_step gtx c d a u s = None"
    with ne show ?thesis by (simp add: while_brk_hang)
  next
    fix t assume t: "net_tx_step gtx c d a u s = Some (t, False)" "net_inv gtx c d a u s0 h0 l0 t" "nr_last t = nr_last s + 1"
    have "unat (avail_idx (mem h0) a - nr_last t) < unat (avail_idx (mem h0) a - nr_last s)"
      using unat_minus_one_step [OF ne0] t(3) by simp
    with less.hyps t ne show ?thesis by (simp add: while_brk_step)
  qed
qed

lemma net_process_tx_deadlock:
  assumes live: "queue_live q" "q = snd (n_queues s)"
    and rings: "gpa_to_hva c (desc_gpa q) = Some d" "gpa_to_hva c (avail_gpa q) = Some a"
      "gpa_to_hva c (used_gpa q) = Some u"
    and apart: "used_span 256 u \<inter> (desc_span 256 d \<union> avail_span 256 a) = {}"
    and wf: "\<forall>r \<in> set (pending 256 (mem h) a (last_avail q)). net_rq_ok c (mem h) d u r"
    and none: "tx_feed gtx c (mem h) d (pending 256 (mem h) a (last_avail q)) (ext h) = None"
  shows "net_process_tx gtx c s h = None"
proof -
  have "net_inv gtx c d a u s h (last_avail q)
      \<lparr>nr_last = last_avail q, nr_host = h, nr_net = s, nr_raised = False\<rparr>"
    using apart wf by (simp add: net_inv_def)
  from net_run_deadlock [OF this none] live rings show ?thesis by (simp add: net_process_tx_def Let_def)
qed

text \<open>
  C6. \<^verbatim>\<open>Net::process_tx\<close> on a live queue with well-formed requests. If the stack answers none of the
  pending frames from within \<^verbatim>\<open>guest_tx\<close>, the call returns: every chain's bytes without the 12-byte
  virtio header have been handed to the stack in order, the queue is drained and the interrupt is
  pulsed when a request was served. If the stack does answer one of them (or leaves its buffers),
  the call does not return: \<^verbatim>\<open>enqueue_rx\<close> waits for the mutex that \<^verbatim>\<open>Net::write\<close> holds.
\<close>

theorem net_tx_drains_or_deadlocks:
  assumes live: "queue_live q" "q = snd (n_queues s)"
    and rings: "gpa_to_hva c (desc_gpa q) = Some d" "gpa_to_hva c (avail_gpa q) = Some a"
      "gpa_to_hva c (used_gpa q) = Some u"
    and apart: "used_span 256 u \<inter> (desc_span 256 d \<union> avail_span 256 a) = {}"
    and wf: "\<forall>r \<in> set (pending 256 (mem h) a (last_avail q)). net_rq_ok c (mem h) d u r"
  shows "case tx_feed gtx c (mem h) d (pending 256 (mem h) a (last_avail q)) (ext h) of
      None \<Rightarrow> net_process_tx gtx c s h = None
    | Some e' \<Rightarrow> \<exists>s' h'. net_process_tx gtx c s h = Some (s', h') \<and> ext h' = e' \<and> n_rx_queue s' = n_rx_queue s
        \<and> drained 256 a u (mem h) (last_avail q) (mem h') (last_avail (snd (n_queues s')))
        \<and> agree_on (- used_span 256 u) (mem h') (mem h)
        \<and> spi_calls h' = spi_calls h @ (if pending 256 (mem h) a (last_avail q) = [] then [] else [(51, True), (51, False)])"
proof -
  let ?l = "last_avail q" and ?r = "\<lparr>nr_last = last_avail q, nr_host = h, nr_net = s, nr_raised = False\<rparr>"
  have inv: "net_inv gtx c d a u s h ?l ?r" using apart wf by (simp add: net_inv_def)
  show ?thesis
  proof (cases "tx_feed gtx c (mem h) d (pending 256 (mem h) a ?l) (ext h)")
    case None
    with net_process_tx_deadlock [OF live rings apart wf None] show ?thesis by simp
  next
    case (Some e')
    with netq.drain_all [of gtx c d a u s h ?l ?r] inv obtain t where
      t: "while_brk (\<lambda>r. nr_last r \<noteq> avail_idx (mem (nr_host r)) a) (net_tx_step gtx c d a u) ?r = Some t"
        "net_inv gtx c d a u s h ?l t" "drained 256 a u (mem h) ?l (mem (nr_host t)) (nr_last t)"
      by auto
    from t(3) have l: "nr_last t = avail_idx (mem h) a" by (simp add: drained_def)
    then have p: "pending 256 (mem h) a (nr_last t) = []" by (simp add: pending_Nil)
    from t(2) Some have "ext (nr_host t) = e'" by (simp add: net_inv_def p)
    moreover have "nr_raised t \<longleftrightarrow> pending 256 (mem h) a ?l \<noteq> []"
      using t(2) l by (auto simp: net_inv_def pending_Nil)
    ultimately show ?thesis using t live rings Some by (auto simp: net_process_tx_def Let_def net_inv_def)
  qed
qed

definition demo_net :: net where
  "demo_net = (net_new [0x52, 0x54, 0, 0x12, 0x34, 0x56])\<lparr>n_queues := (demo_queue, demo_queue)\<rparr>"

definition demo_net_host :: "nat host" where
  "demo_net_host = \<lparr>mem = demo_mem, spi_calls = [], sent = [], ext = 0\<rparr>"

theorem net_tx_drains_or_deadlocks_witness:
  "(\<exists>s' h'. net_process_tx (\<lambda>e f. Some (e, [])) demo_ctx demo_net demo_net_host = Some (s', h')
       \<and> drained 256 0x12000 0x13000 demo_mem 0 (mem h') (last_avail (snd (n_queues s'))))
   \<and> net_process_tx (\<lambda>e f. Some (e, [f])) demo_ctx demo_net demo_net_host = None"
proof -
  have q: "queue_live demo_queue" "demo_queue = snd (n_queues demo_net)" "mem demo_net_host = demo_mem"
    "last_avail demo_queue = 0" "desc_gpa demo_queue = 0x40001000" "avail_gpa demo_queue = 0x40002000"
    "used_gpa demo_queue = 0x40003000"
    using demo_live by (simp_all add: demo_net_def demo_net_host_def demo_queue_def)
  have "span 0x14000 0x3000 \<subseteq> - used_span 256 0x13000" using demo_apart(1) by blast
  with demo_bufs have "bufs_in demo_ctx (- used_span 256 0x13000) demo_mem 0x11000 [0, 1, 2]"
    unfolding bufs_in_def by blast
  then have ok: "net_rq_ok demo_ctx demo_mem 0x11000 0x13000 0" by (simp add: net_rq_ok_def demo_chain)
  have len: "length (chain_bytes demo_ctx demo_mem 0x11000 [0, 1, 2]) = 21"
    by (simp add: chain_bytes_def demo_desc demo_hva)
  note net_thm = net_tx_drains_or_deadlocks [OF q(1,2), of demo_ctx "0x11000" "0x12000" "0x13000" demo_net_host]
  show ?thesis
    using net_thm [of "\<lambda>e f. Some (e, [])"] net_thm [of "\<lambda>e f. Some (e, [f])"] ok len demo_apart(2)
    by (auto simp: q(3-7) demo_hva demo_pending demo_chain cong: option.case_cong)
qed

section \<open>The receive ring\<close>

text \<open>
  The part of descriptor \<open>i\<close> that receives frame data: everything, but for the first 12 bytes of the
  head, which hold the virtio header.
\<close>

definition rx_ptr :: "(u16 \<Rightarrow> u64) \<Rightarrow> u16 \<Rightarrow> u16 \<Rightarrow> u64" where
  "rx_ptr P head i = (if i = head then P i + 12 else P i)"

definition rx_cap :: "hmem \<Rightarrow> u64 \<Rightarrow> u16 \<Rightarrow> u16 \<Rightarrow> nat" where
  "rx_cap m d head i = (if i = head then unat (desc_len m d i) - 12 else unat (desc_len m d i))"

lemma rx_cap_le: "rx_cap m d head i \<le> 2 ^ 64"
  using unat_u32_less [of "desc_len m d i"] by (auto simp: rx_cap_def)

lemma rx_step_eq:
  assumes buf: "rw_buf w = Some (P (rw_cur w))" and wrote: "rw_wrote w > 0"
    and len: "desc_len (rw_mem w) d (rw_cur w) = desc_len m0 d (rw_cur w)"
    and hd: "rw_cur w = head \<Longrightarrow> 12 \<le> desc_len m0 d head"
    and k: "k = min (length f - rw_off w) (rx_cap m0 d head (rw_cur w))"
    and m1: "m1 = write_bytes (rw_mem w) (rx_ptr P head (rw_cur w)) (take k (drop (rw_off w) f))"
  shows "rx_step c d head f w =
     (let w1 = w\<lparr>rw_mem := m1, rw_wrote := rw_wrote w + of_nat k, rw_off := rw_off w + k\<rparr>
      in if rw_off w + k < length f \<and> has_next m1 d (rw_cur w)
         then Some (w1\<lparr>rw_cur := desc_next m1 d (rw_cur w),
                       rw_buf := gpa_to_hva c (desc_addr m1 d (desc_next m1 d (rw_cur w)))\<rparr>, False)
         else Some (w1, True))"
proof -
  let ?hdr = "if rw_wrote w > 0 \<and> rw_cur w = head then 12 else 0 :: u64"
  have cap: "unat (ucast (desc_len m0 d (rw_cur w)) - ?hdr :: u64) = rx_cap m0 d head (rw_cur w)"
  proof (cases "rw_cur w = head")
    case True
    then have "12 \<le> (ucast (desc_len m0 d (rw_cur w)) :: u64)"
      using hd by (simp add: word_le_nat_alt unat_ucast_up)
    with True wrote show ?thesis by (simp add: rx_cap_def unat_sub unat_ucast_up)
  qed (simp add: rx_cap_def unat_ucast_up)
  have ptr: "P (rw_cur w) + ?hdr = rx_ptr P head (rw_cur w)"
    using wrote by (simp add: rx_ptr_def)
  have eq: "rx_step c d head f w = (let s1 = (if k > 0
        then w\<lparr>rw_mem := m1, rw_wrote := rw_wrote w + of_nat k, rw_off := rw_off w + k\<rparr> else w)
      in if rw_off s1 < length f \<and> has_next (rw_mem s1) d (rw_cur w)
         then Some (s1\<lparr>rw_cur := desc_next (rw_mem s1) d (rw_cur w),
                       rw_buf := gpa_to_hva c (desc_addr (rw_mem s1) d (desc_next (rw_mem s1) d (rw_cur w)))\<rparr>, False)
         else Some (s1, True))"
    unfolding rx_step_def buf option.case Let_def len cap k [symmetric] ptr m1 [symmetric] ..
  show ?thesis
  proof (cases "k = 0")
    case True
    then have "m1 = rw_mem w" using m1 by simp
    with True show ?thesis unfolding eq by (simp add: Let_def)
  qed (simp add: eq Let_def)
qed

lemma rx_walk_run:
  assumes "chain 256 m0 d n (rw_cur w) = Some ds" and "rw_buf w = Some (P (rw_cur w))"
    and "agree_on (desc_span 256 d) (rw_mem w) m0" and "12 \<le> desc_len m0 d head"
    and "\<And>i. i \<in> set ds \<Longrightarrow> gpa_to_hva c (desc_addr m0 d i) = Some (P i)
           \<and> span (rx_ptr P head i) (rx_cap m0 d head i) \<inter> desc_span 256 d = {}"
    and "\<And>j k. j < k \<Longrightarrow> k < length ds \<Longrightarrow>
           span (rx_ptr P head (ds ! j)) (rx_cap m0 d head (ds ! j))
             \<inter> span (rx_ptr P head (ds ! k)) (rx_cap m0 d head (ds ! k)) = {}"
    and "rw_off w \<le> length f" and "length f - rw_off w \<le> sum_list (map (rx_cap m0 d head) ds)"
    and "unat (rw_wrote w) = 12 + rw_off w" and "12 + length f < 2 ^ 32"
  shows "\<exists>v. while_brk (\<lambda>w. rw_off w < length f) (rx_step c d head f) w = Some v
      \<and> rw_wrote v = of_nat (12 + length f)
      \<and> agree_on (- (\<Union>i \<in> set ds. span (rx_ptr P head i) (rx_cap m0 d head i))) (rw_mem v) (rw_mem w)
      \<and> take (length f - rw_off w) (concat (map (\<lambda>i. read_bytes (rw_mem v) (rx_ptr P head i) (rx_cap m0 d head i)) ds))
          = drop (rw_off w) f"
  using assms
proof (induction ds arbitrary: w n)
  case Nil
  then show ?case by simp
next
  case (Cons i ds)
  note ch = chain_Cons [OF Cons.prems(1)]
  have i: "i = rw_cur w" and tab: "unat (rw_cur w) < 256" using ch by simp_all
  let ?S = "rx_ptr P head" and ?N = "rx_cap m0 d head"
  define k where "k = min (length f - rw_off w) (?N i)"
  define m1 where "m1 = write_bytes (rw_mem w) (?S i) (take k (drop (rw_off w) f))"
  have bl: "length (take k (drop (rw_off w) f)) = k" by (simp add: k_def)
  have k64: "k \<le> 2 ^ 64" "k \<le> ?N i" using rx_cap_le [of m0 d head i] by (simp_all add: k_def)
  have ws: "agree_on (- span (?S i) (?N i)) m1 (rw_mem w)"
    unfolding m1_def using k64 span_mono [of k "?N i" "?S i"] by (intro write_bytes_agree) (auto simp only: bl)
  have "read_bytes m1 (?S i) k = take k (drop (rw_off w) f)"
    unfolding m1_def using read_write_bytes [of "take k (drop (rw_off w) f)", unfolded bl] k64(1) by blast
  then have rd: "take k (read_bytes m1 (?S i) (?N i)) = take k (drop (rw_off w) f)"
    using k64(2) by (simp add: read_bytes_def take_map)
  show ?case
  proof (cases "rw_off w < length f")
    case False
    have "rw_wrote w = of_nat (12 + rw_off w)" by (rule unat_eq_of_nat [OF Cons.prems(9)])
    with False Cons.prems(7) show ?thesis by (simp add: while_brk_stop)
  next
    case True
    have "desc_len (rw_mem w) d (rw_cur w) = desc_len m0 d (rw_cur w)"
      by (rule ring256.desc_agree(2) [OF Cons.prems(3) tab])
    moreover have "rw_wrote w > 0" using Cons.prems(9) by (simp add: word_less_nat_alt)
    ultimately have step: "rx_step c d head f w =
     (let w1 = w\<lparr>rw_mem := m1, rw_wrote := rw_wrote w + of_nat k, rw_off := rw_off w + k\<rparr>
      in if rw_off w + k < length f \<and> has_next m1 d (rw_cur w)
         then Some (w1\<lparr>rw_cur := desc_next m1 d (rw_cur w),
                       rw_buf := gpa_to_hva c (desc_addr m1 d (desc_next m1 d (rw_cur w)))\<rparr>, False)
         else Some (w1, True))"
      using Cons.prems(2,4) by (intro rx_step_eq) (auto simp: k_def m1_def i)
    have wr: "unat (rw_wrote w + of_nat k) = 12 + (rw_off w + k)"
    proof -
      have "12 + rw_off w + k < 2 ^ 32" using Cons.prems(7,10) by (simp add: k_def)
      then show ?thesis using Cons.prems(9) by (simp add: unat_word_ariths unat_of_nat)
    qed
    show ?thesis
    proof (cases "rw_off w + k < length f")
      case False
      then have kk: "k = length f - rw_off w" by (simp add: k_def)
      let ?v = "w\<lparr>rw_mem := m1, rw_wrote := rw_wrote w + of_nat k, rw_off := rw_off w + k\<rparr>"
      have "while_brk (\<lambda>w. rw_off w < length f) (rx_step c d head f) w = Some ?v"
        using True False step by (simp add: while_brk_break Let_def)
      moreover have "rw_wrote ?v = of_nat (12 + length f)"
        using unat_eq_of_nat [OF wr] kk True by simp
      moreover have "take k (read_bytes m1 (?S i) (?N i) @ xs) = drop (rw_off w) f" for xs
        using rd kk k64(2) by simp
      moreover have "agree_on (- (\<Union>i \<in> set (i # ds). span (?S i) (?N i))) m1 (rw_mem w)"
        using ws by (rule agree_on_mono) auto
      ultimately show ?thesis using kk by auto
    next
      case more: True
      then have kk: "k = ?N i" by (simp add: k_def min_def split: if_splits)
      have ne: "ds \<noteq> []" using Cons.prems(8) more kk by auto
      from ch ne obtain n' where hn: "has_next m0 d (rw_cur w)"
        and rest: "chain 256 m0 d n' (desc_next m0 d (rw_cur w)) = Some ds" by auto
      have dis: "desc_span 256 d \<inter> span (?S i) (?N i) = {}" using Cons.prems(5) by auto
      then have ag1: "agree_on (desc_span 256 d) m1 m0" by (rule agree_on_apart [OF ws _ Cons.prems(3)])
      note da = ring256.desc_agree [OF ag1 tab]
      obtain j ds' where ds: "ds = j # ds'" using ne by (cases ds) auto
      have j: "j = desc_next m0 d (rw_cur w)" "unat j < 256" using chain_Cons [OF rest [unfolded ds]] by simp_all
      let ?w = "w\<lparr>rw_mem := m1, rw_wrote := rw_wrote w + of_nat k, rw_off := rw_off w + k, rw_cur := j, rw_buf := Some (P j)\<rparr>"
      have "gpa_to_hva c (desc_addr m1 d j) = Some (P j)"
        using Cons.prems(5) ring256.desc_agree(1) [OF ag1 j(2)] by (simp add: ds)
      then have "rx_step c d head f w = Some (?w, False)"
        using step more hn da(4,5) j(1) by (simp add: Let_def)
      then have run: "while_brk (\<lambda>w. rw_off w < length f) (rx_step c d head f) w
          = while_brk (\<lambda>w. rw_off w < length f) (rx_step c d head f) ?w"
        using True by (simp add: while_brk_step)
      have dj: "span (?S i) (?N i) \<inter> span (?S (ds ! b)) (?N (ds ! b)) = {}" if "b < length ds" for b
        using Cons.prems(6) [of 0 "Suc b"] that by simp
      have "\<exists>v. while_brk (\<lambda>w. rw_off w < length f) (rx_step c d head f) ?w = Some v
          \<and> rw_wrote v = of_nat (12 + length f)
          \<and> agree_on (- (\<Union>i \<in> set ds. span (?S i) (?N i))) (rw_mem v) (rw_mem ?w)
          \<and> take (length f - rw_off ?w) (concat (map (\<lambda>i. read_bytes (rw_mem v) (?S i) (?N i)) ds)) = drop (rw_off ?w) f"
      proof (rule Cons.IH)
        show "chain 256 m0 d n' (rw_cur ?w) = Some ds" using rest j(1) by simp
        show "length f - rw_off ?w \<le> sum_list (map ?N ds)" using Cons.prems(8) kk by simp
        show "span (?S (ds ! a)) (?N (ds ! a)) \<inter> span (?S (ds ! b)) (?N (ds ! b)) = {}" if "a < b" "b < length ds" for a b
          using Cons.prems(6) [of "Suc a" "Suc b"] that by simp
      qed (use ag1 Cons.prems(4,5,10) more wr in auto)
      then obtain v where v: "while_brk (\<lambda>w. rw_off w < length f) (rx_step c d head f) ?w = Some v"
          "rw_wrote v = of_nat (12 + length f)"
          "agree_on (- (\<Union>i \<in> set ds. span (?S i) (?N i))) (rw_mem v) m1"
          "take (length f - (rw_off w + k)) (concat (map (\<lambda>i. read_bytes (rw_mem v) (?S i) (?N i)) ds)) = drop (rw_off w + k) f"
        by auto
      have "span (?S i) (?N i) \<subseteq> - (\<Union>i \<in> set ds. span (?S i) (?N i))"
        using dj by (fastforce simp: in_set_conv_nth)
      from read_bytes_agree [OF v(3) this rx_cap_le] have "read_bytes (rw_mem v) (?S i) (?N i) = take k (drop (rw_off w) f)"
        using rd kk by simp
      then have "take (length f - rw_off w) (concat (map (\<lambda>i. read_bytes (rw_mem v) (?S i) (?N i)) (i # ds)))
          = take k (drop (rw_off w) f) @ drop (rw_off w + k) f"
        using v(4) more bl by (simp add: diff_diff_left)
      also have "\<dots> = drop (rw_off w) f" by (metis append_take_drop_id drop_drop add.commute)
      finally have data: "take (length f - rw_off w)
          (concat (map (\<lambda>i. read_bytes (rw_mem v) (?S i) (?N i)) (i # ds))) = drop (rw_off w) f" .
      have "agree_on (- (\<Union>i \<in> set (i # ds). span (?S i) (?N i))) (rw_mem v) (rw_mem w)"
        using v(3) ws by (auto simp: agree_on_def)
      with run v(1,2) data show ?thesis by auto
    qed
  qed
qed

text \<open>
  C29. Delivery of a frame into the receive ring. When the chain at the head of the available ring
  has mapped buffers, apart from each other and from the rings, with room for the 12-byte
  header in the first one and for the frame in total, \<^verbatim>\<open>Net::do_feed_rx\<close> returns: the first
  buffer starts with a zero header, the buffers in chain order hold the frame, and one used element
  with the head and the length 12 plus the frame's is published, with an interrupt.
\<close>

theorem net_rx_delivers:
  fixes f :: frame
  assumes live: "queue_live q" "q = fst (n_queues s)"
    and rings: "gpa_to_hva c (desc_gpa q) = Some d" "gpa_to_hva c (avail_gpa q) = Some a"
      "gpa_to_hva c (used_gpa q) = Some u"
    and avail: "last_avail q \<noteq> avail_idx (mem h) a" "head = avail_ring 256 (mem h) a (last_avail q)"
    and ch: "chain 256 (mem h) d 256 head = Some ds" and hlen: "12 \<le> desc_len (mem h) d head"
    and bufs: "\<And>i. i \<in> set ds \<Longrightarrow> gpa_to_hva c (desc_addr (mem h) d i) = Some (P i)
        \<and> span (rx_ptr P head i) (rx_cap (mem h) d head i)
            \<inter> (desc_span 256 d \<union> used_span 256 u \<union> span (P head) 12) = {}"
    and apart: "\<And>j k. j < k \<Longrightarrow> k < length ds \<Longrightarrow>
        span (rx_ptr P head (ds ! j)) (rx_cap (mem h) d head (ds ! j))
          \<inter> span (rx_ptr P head (ds ! k)) (rx_cap (mem h) d head (ds ! k)) = {}"
      "span (P head) 12 \<inter> (desc_span 256 d \<union> used_span 256 u) = {}"
    and room: "length f \<le> sum_list (map (rx_cap (mem h) d head) ds)" "12 + length f < 2 ^ 32"
  shows "\<exists>s' h'. do_feed_rx c f s h = Some (s', h')
      \<and> read_bytes (mem h') (P head) 12 = replicate 12 0
      \<and> take (length f) (concat (map (\<lambda>i. read_bytes (mem h') (rx_ptr P head i) (rx_cap (mem h) d head i)) ds)) = f
      \<and> used_idx (mem h') u = used_idx (mem h) u + 1
      \<and> used_elem 256 (mem h') u (used_idx (mem h) u) = (ucast head, of_nat (12 + length f))
      \<and> last_avail (fst (n_queues s')) = last_avail q + 1
      \<and> spi_calls h' = spi_calls h @ [(51, True), (51, False)]"
proof -
  let ?S = "rx_ptr P head" and ?N = "rx_cap (mem h) d head"
  let ?D = "\<Union>i \<in> set ds. span (?S i) (?N i)" and ?Z = "replicate 12 0 :: u8 list"
  obtain es where ds: "ds = head # es" using ch chain_Cons by (cases ds) fastforce+
  define m1 where "m1 = write_bytes (mem h) (P head) ?Z"
  have m1: "agree_on (- span (P head) 12) m1 (mem h)"
    unfolding m1_def by (rule write_bytes_agree) simp_all
  let ?w = "\<lparr>rw_cur = head, rw_buf = Some (P head), rw_wrote = 12, rw_off = 0, rw_mem = m1\<rparr>"
  have "\<exists>v. while_brk (\<lambda>w. rw_off w < length f) (rx_step c d head f) ?w = Some v
      \<and> rw_wrote v = of_nat (12 + length f)
      \<and> agree_on (- ?D) (rw_mem v) (rw_mem ?w)
      \<and> take (length f - rw_off ?w) (concat (map (\<lambda>i. read_bytes (rw_mem v) (?S i) (?N i)) ds)) = drop (rw_off ?w) f"
  proof (rule rx_walk_run)
    show "agree_on (desc_span 256 d) (rw_mem ?w) (mem h)"
      using m1 apart(2) by (auto intro: agree_on_mono)
    show "gpa_to_hva c (desc_addr (mem h) d i) = Some (P i) \<and> span (?S i) (?N i) \<inter> desc_span 256 d = {}"
      if "i \<in> set ds" for i using bufs [OF that] by blast
    show "chain 256 (mem h) d 256 (rw_cur ?w) = Some ds" using ch by simp
  qed (use hlen room apart(1) in simp_all)
  then obtain v where v: "while_brk (\<lambda>w. rw_off w < length f) (rx_step c d head f) ?w = Some v"
      "rw_wrote v = of_nat (12 + length f)" "agree_on (- ?D) (rw_mem v) m1"
      "take (length f) (concat (map (\<lambda>i. read_bytes (rw_mem v) (?S i) (?N i)) ds)) = f" by auto
  let ?p = "push_used 256 (rw_mem v) u head (of_nat (12 + length f))"
  have hd: "gpa_to_hva c (desc_addr (mem h) d head) = Some (P head)" using bufs ds by simp
  have run: "do_feed_rx c f s h = Some (s\<lparr>n_queues := (q\<lparr>last_avail := last_avail q + 1\<rparr>, snd (n_queues s)),
      n_irq_status := n_irq_status s OR 1\<rparr>, raise_spi kSpiNet (h\<lparr>mem := ?p\<rparr>))"
    using live(1) rings avail(1) hd hlen v(1,2)
    by (simp add: do_feed_rx_def Let_def live(2) [symmetric] avail(2) [symmetric] m1_def [symmetric])
  have D: "?D \<inter> (used_span 256 u \<union> span (P head) 12) = {}" using bufs by blast
  have pu: "agree_on (- used_span 256 u) ?p (rw_mem v)" by (rule ring256.push_used_agree) auto
  have us: "agree_on (used_span 256 u) (rw_mem v) (mem h)"
  proof (rule agree_on_apart [OF v(3)])
    show "used_span 256 u \<inter> ?D = {}" using D by blast
    show "agree_on (used_span 256 u) m1 (mem h)" using m1 by (rule agree_on_mono) (use apart(2) in blast)
  qed
  have "agree_on (- (used_span 256 u \<union> ?D)) ?p m1"
    by (rule agree_on_trans [of _ _ "rw_mem v"]; rule agree_on_mono [OF pu] agree_on_mono [OF v(3)]; blast)
  then have "read_bytes ?p (P head) 12 = read_bytes m1 (P head) 12"
    by (rule read_bytes_agree) (use D apart(2) in auto)
  also have "\<dots> = ?Z" using read_write_bytes [of ?Z "mem h" "P head"] by (simp add: m1_def)
  finally have hdr: "read_bytes ?p (P head) 12 = ?Z" .
  have "read_bytes ?p (?S i) (?N i) = read_bytes (rw_mem v) (?S i) (?N i)" if "i \<in> set ds" for i
    by (rule read_bytes_agree [OF pu _ rx_cap_le]) (use D that in auto)
  then have data: "map (\<lambda>i. read_bytes ?p (?S i) (?N i)) ds = map (\<lambda>i. read_bytes (rw_mem v) (?S i) (?N i)) ds"
    by simp
  have "used_idx ?p u = used_idx (mem h) u + 1"
    "used_elem 256 ?p u (used_idx (mem h) u) = (ucast head, of_nat (12 + length f))"
    using ring256.push_used_idx [of "rw_mem v" u] ring256.push_used_slot [of "rw_mem v" u]
      ring256.used_agree(1) [OF us] by simp_all
  moreover have "take (length f) (concat (map (\<lambda>i. read_bytes ?p (?S i) (?N i)) ds)) = f"
    unfolding data by (rule v(4))
  ultimately show ?thesis using run hdr by simp
qed

theorem net_rx_delivers_witness:
  "\<exists>s' h'. do_feed_rx demo_ctx [1, 2, 3, 4, 5] demo_net demo_net_host = Some (s', h')
     \<and> read_bytes (mem h') 0x14000 12 = replicate 12 0
     \<and> take 5 (read_bytes (mem h') 0x1400C 4 @ read_bytes (mem h') 0x15000 4 @ read_bytes (mem h') 0x16000 1)
         = [1, 2, 3, 4, 5]"
proof -
  let ?P = "\<lambda>i :: u16. if i = 0 then 0x14000 else if i = 1 then 0x15000 else 0x16000 :: u64"
  have cap: "rx_cap demo_mem 0x11000 0 0 = 4" "rx_cap demo_mem 0x11000 0 1 = 4" "rx_cap demo_mem 0x11000 0 2 = 1"
    by (simp_all add: rx_cap_def demo_desc)
  have ptr: "rx_ptr ?P 0 0 = 0x1400C" "rx_ptr ?P 0 1 = 0x15000" "rx_ptr ?P 0 2 = 0x16000"
    by (simp_all add: rx_ptr_def)
  have q: "queue_live demo_queue" "demo_queue = fst (n_queues demo_net)" "mem demo_net_host = demo_mem"
    using demo_live by (simp_all add: demo_net_def demo_net_host_def)
  have qf: "last_avail demo_queue = 0" "desc_gpa demo_queue = 0x40001000" "avail_gpa demo_queue = 0x40002000"
    "used_gpa demo_queue = 0x40003000" by (simp_all add: demo_queue_def)
  have av: "last_avail demo_queue \<noteq> avail_idx demo_mem 0x12000" "avail_ring 256 demo_mem 0x12000 0 = 0"
    by (simp_all add: ring_eval demo_mem_def qf)
  have sp: "span 0x1400C 4 \<subseteq> span 0x14000 0x3000" "span 0x15000 4 \<subseteq> span 0x14000 0x3000"
    "span 0x16000 1 \<subseteq> span 0x14000 0x3000" "span 0x14000 12 \<subseteq> span 0x14000 0x3000"
    by (simp_all add: span_subsetI)
  have dj: "span 0x14000 12 \<inter> span 0x1400C 4 = {}" "span 0x14000 12 \<inter> span 0x15000 4 = {}"
    "span 0x14000 12 \<inter> span 0x16000 1 = {}" "span 0x1400C 4 \<inter> span 0x15000 4 = {}"
    "span 0x1400C 4 \<inter> span 0x16000 1 = {}" "span 0x15000 4 \<inter> span 0x16000 1 = {}"
    by (rule span_disjointI; simp)+
  have bufs: "gpa_to_hva demo_ctx (desc_addr demo_mem 0x11000 i) = Some (?P i)
        \<and> span (rx_ptr ?P 0 i) (rx_cap demo_mem 0x11000 0 i)
            \<inter> (desc_span 256 0x11000 \<union> used_span 256 0x13000 \<union> span (?P 0) 12) = {}" if "i \<in> set [0, 1, 2]" for i
  proof -
    from that consider "i = 0" | "i = 1" | "i = 2" by auto
    then show ?thesis
      by cases (use dj sp demo_apart(1) in \<open>auto simp: demo_desc demo_hva cap ptr\<close>)
  qed
  have ap: "span (rx_ptr ?P 0 ([0, 1, 2] ! j)) (rx_cap demo_mem 0x11000 0 ([0, 1, 2] ! j))
      \<inter> span (rx_ptr ?P 0 ([0, 1, 2] ! k)) (rx_cap demo_mem 0x11000 0 ([0, 1, 2] ! k)) = {}"
    if "j < k" "k < length [0 :: u16, 1, 2]" for j k
  proof -
    from that consider "j = 0" "k = 1" | "j = 0" "k = 2" | "j = 1" "k = 2" by force
    then show ?thesis by cases (use dj in \<open>simp_all add: cap ptr\<close>)
  qed
  have hd: "span (?P 0) 12 \<inter> (desc_span 256 0x11000 \<union> used_span 256 0x13000) = {}"
    using sp(4) demo_apart(1) by auto
  have "length [1 :: u8, 2, 3, 4, 5] \<le> sum_list (map (rx_cap demo_mem 0x11000 0) [0, 1, 2])" by (simp add: cap)
  with net_rx_delivers [OF q(1,2), of demo_ctx "0x11000" "0x12000" "0x13000" demo_net_host 0 "[0, 1, 2]" ?P
      "[1, 2, 3, 4, 5]", unfolded q(3) qf, OF demo_hva(1,2,3) av(1) [unfolded qf] av(2) [symmetric] demo_chain _ bufs ap hd]
  show ?thesis by (simp add: demo_desc cap ptr) fastforce
qed

section \<open>The register interface\<close>

definition net_qv :: "net \<times> 'e host \<Rightarrow> u32 \<Rightarrow> queue" where
  "net_qv s n = (if n = 0 then fst (n_queues (fst s)) else if n = 1 then snd (n_queues (fst s)) else queue_init 256)"

lemma net_write_queue:
  "off \<in> queue_regs \<Longrightarrow> net_write gtx c (s, h) off v
     = Some (s\<lparr>n_queues := q_upd (n_queues s) (n_queue_sel s) (q_write 256 off v)\<rparr>, h)"
  unfolding queue_regs_def
  by (elim insertE emptyE) (simp_all add: net_write_def q_write_def [abs_def] Let_def)

lemma net_write_control:
  "net_write gtx c (s, h) Reg_Status 0
     = Some (s\<lparr>n_status := 0, n_queues := (queue_init 256, queue_init 256), n_irq_status := 0\<rparr>, h)"
  "net_write gtx c (s, h) Reg_QueueSel v = Some (s\<lparr>n_queue_sel := v\<rparr>, h)"
  by (simp_all add: net_write_def)

lemma net_read_regs:
  "net_read s Reg_Magic 4 = Some kMagicValue" "net_read s Reg_Version 4 = Some 2"
  "net_read s Reg_DeviceId 4 = Some 1" "net_read s Reg_QueueNumMax 4 = Some 256"
  "net_read s Reg_Status 4 = Some (n_status s)" "net_read s Reg_IrqStatus 4 = Some (n_irq_status s)"
  "net_read s Reg_QueueReady 4
     = Some (case q_sel (n_queues s) (n_queue_sel s) of Some x \<Rightarrow> if ready x then 1 else 0 | None \<Rightarrow> 0)"
  by (simp_all add: net_read_def)

interpretation net_regs: virtio_regs "\<lambda>s off. net_read (fst s) off 4" "net_write gtx c"
    net_qv "\<lambda>s. n_queue_sel (fst s)" 2 256 1 "\<lambda>s. True"
  for gtx :: "'e \<Rightarrow> frame \<Rightarrow> ('e \<times> frame list) option" and c :: "('a) vm_map_scheme"
  by unfold_locales
    (auto simp: net_read_regs net_write_queue net_write_control net_qv_def q_sel_def q_upd_def
      fun_eq_iff u32_less_2)

text \<open>
  A reset does not restore the feature bits a driver wrote. \<^verbatim>\<open>features_\<close> holds both the offered
  and the accepted bits, so after a driver that accepted \<open>v\<close> in the upper half and a reset, the next
  driver is offered \<open>v\<close>; a driver that accepted nothing leaves a device that no longer offers
  \<^verbatim>\<open>VIRTIO_F_VERSION_1\<close>.
\<close>

theorem net_reset_forgets_offer:
  "\<exists>s' h'. run_writes (net_write gtx c) (s, h)
       [(Reg_DriverFeatSel, 1), (Reg_DriverFeat, v), (Reg_Status, 0), (Reg_DeviceFeatSel, 1)] = Some (s', h')
     \<and> net_read s' Reg_DeviceFeat 4 = Some v"
  by (simp add: net_write_def net_read_def)

end
