(* ===== verification/Virtio_Gpu.thy ===== *)
theory Virtio_Gpu
  imports Virtio_Mmio "HOL-Library.Monad_Syntax"
begin

text \<open>
  The virtio GPU in 2D mode (\<^verbatim>\<open>src/src/hvf/virtio_gpu.hpp\<close>, \<^verbatim>\<open>virtio_gpu.cpp\<close>): resources with their
  host pixel buffers and guest backing pages, the eight control commands, the control queue, the
  registers with feature negotiation, and the frames handed to the display callback.

  A value \<open>None\<close> is a call that does not return normally: a copy that leaves a pixel buffer, or the
  \<^verbatim>\<open>std::length_error\<close> of a vector larger than \<^verbatim>\<open>max_size()\<close>. Exhaustion of host memory is not modelled.
\<close>

section \<open>State\<close>

record mem_entry =
  me_gpa :: u64
  me_len :: u32

record resource =
  res_id :: u32
  res_format :: u32
  res_width :: u32
  res_height :: u32
  backing :: "mem_entry list"
  host_buf :: "u8 list"

record pending_frame =
  pf_pixels :: "u8 list"
  pf_width :: u32
  pf_height :: u32
  pf_stride :: u32

text \<open>\<open>g_cb\<close>: a display callback is installed.\<close>

record gpu =
  g_cb :: bool
  g_width :: u32
  g_height :: u32
  g_status :: u32
  g_queue_sel :: u32
  g_irq_status :: u32
  g_dev_feat_sel :: u32
  g_drv_feat_sel :: u32
  g_device_features :: u64
  g_driver_features :: u64
  g_queues :: queues2
  g_scanout :: u32
  g_resources :: "u32 \<Rightarrow> resource option"
  g_frames :: "pending_frame list"

abbreviation kVirtioF_Version1 :: u64 where "kVirtioF_Version1 \<equiv> 0x100000000"

definition gpu_new :: "u32 \<Rightarrow> u32 \<Rightarrow> bool \<Rightarrow> gpu" where
  "gpu_new w h cb =
     \<lparr>g_cb = cb, g_width = w, g_height = h, g_status = 0, g_queue_sel = 0, g_irq_status = 0, g_dev_feat_sel = 0,
      g_drv_feat_sel = 0, g_device_features = kVirtioF_Version1, g_driver_features = 0,
      g_queues = (queue_init 256, queue_init 256), g_scanout = 0, g_resources = (\<lambda>_. None), g_frames = []\<rparr>"

definition find_resource :: "gpu \<Rightarrow> u32 \<Rightarrow> resource option" where
  "find_resource g i = g_resources g i"

section \<open>Backing store\<close>

text \<open>
  The loop over the backing entries; all offsets are \<^verbatim>\<open>size_t\<close>, with wrap-around. \<open>dst\<close> is the offset of
  the destination row in the pixel buffer \<open>buf\<close>.
\<close>

fun backing_go :: "('a) vm_map_scheme \<Rightarrow> hmem \<Rightarrow> u64 \<Rightarrow> u64 \<Rightarrow> nat \<Rightarrow> mem_entry list \<Rightarrow> u64 \<Rightarrow> u8 list \<Rightarrow> u64
    \<Rightarrow> (u8 list \<times> u64) option" where
  "backing_go c m start_off end_off dst [] lin_base buf copied = Some (buf, copied)"
| "backing_go c m start_off end_off dst (e # es) lin_base buf copied =
     (if lin_base \<ge> end_off then Some (buf, copied)
      else
        (let lin_end = lin_base + ucast (me_len e);
             ov_start = max lin_base start_off;
             ov_end = min lin_end end_off
         in if ov_start < ov_end
            then
              (let in_entry = ov_start - lin_base;
                   n = unat (ov_end - ov_start);
                   dst_off = dst + unat (ov_start - start_off);
                   bs = (case gpa_to_hva c (me_gpa e + in_entry) of Some p \<Rightarrow> read_bytes m p n | None \<Rightarrow> replicate n 0)
               in if dst_off + n > length buf then None
                  else backing_go c m start_off end_off dst es lin_end (patch buf dst_off bs) (copied + of_nat n))
            else backing_go c m start_off end_off dst es lin_end buf copied))"

definition read_backing :: "('a) vm_map_scheme \<Rightarrow> hmem \<Rightarrow> mem_entry list \<Rightarrow> u64 \<Rightarrow> nat \<Rightarrow> u64 \<Rightarrow> u8 list
    \<Rightarrow> (u8 list \<times> u64) option" where
  "read_backing c m es start_off dst len buf = backing_go c m start_off (start_off + len) dst es 0 buf 0"

section \<open>Commands\<close>

definition rq32 :: "u8 list \<Rightarrow> nat \<Rightarrow> u32" where
  "rq32 req k = of_nat (le_val (take 4 (drop k req)))"

definition rq64 :: "u8 list \<Rightarrow> nat \<Rightarrow> u64" where
  "rq64 req k = of_nat (le_val (take 8 (drop k req)))"

abbreviation CMD_GET_DISPLAY_INFO :: u32 where "CMD_GET_DISPLAY_INFO \<equiv> 0x0100"
abbreviation CMD_RESOURCE_CREATE_2D :: u32 where "CMD_RESOURCE_CREATE_2D \<equiv> 0x0101"
abbreviation CMD_RESOURCE_UNREF :: u32 where "CMD_RESOURCE_UNREF \<equiv> 0x0102"
abbreviation CMD_SET_SCANOUT :: u32 where "CMD_SET_SCANOUT \<equiv> 0x0103"
abbreviation CMD_RESOURCE_FLUSH :: u32 where "CMD_RESOURCE_FLUSH \<equiv> 0x0104"
abbreviation CMD_TRANSFER_TO_HOST_2D :: u32 where "CMD_TRANSFER_TO_HOST_2D \<equiv> 0x0105"
abbreviation CMD_ATTACH_BACKING :: u32 where "CMD_ATTACH_BACKING \<equiv> 0x0106"
abbreviation CMD_DETACH_BACKING :: u32 where "CMD_DETACH_BACKING \<equiv> 0x0107"
abbreviation RESP_OK_NODATA :: u32 where "RESP_OK_NODATA \<equiv> 0x1100"
abbreviation RESP_OK_DISPLAY_INFO :: u32 where "RESP_OK_DISPLAY_INFO \<equiv> 0x1101"
abbreviation RESP_ERR_UNSPEC :: u32 where "RESP_ERR_UNSPEC \<equiv> 0x1200"
abbreviation RESP_ERR_INVALID_RESOURCE_ID :: u32 where "RESP_ERR_INVALID_RESOURCE_ID \<equiv> 0x1203"

text \<open>The 24 bytes of \<^verbatim>\<open>GpuCtrlHdr\<close>; a fenced request gets its fence back.\<close>

definition ctrl_hdr :: "u32 \<Rightarrow> u32 \<Rightarrow> u64 \<Rightarrow> u8 list" where
  "ctrl_hdr t flags fence = le_bytes 4 (unat t) @ le_bytes 4 (unat flags) @ le_bytes 8 (unat fence) @ replicate 8 0"

definition fenced_hdr :: "u32 \<Rightarrow> u8 list \<Rightarrow> u8 list" where
  "fenced_hdr t req =
     (if rq32 req 4 AND 1 \<noteq> 0 then ctrl_hdr t 1 (rq64 req 8) else ctrl_hdr t 0 0)"

definition ok_nodata :: "u8 list \<Rightarrow> u8 list" where
  "ok_nodata req = fenced_hdr RESP_OK_NODATA req"

definition gpu_err :: "u32 \<Rightarrow> u8 list" where
  "gpu_err t = ctrl_hdr t 0 0"

definition display_info :: "gpu \<Rightarrow> u8 list \<Rightarrow> u8 list" where
  "display_info g req =
     fenced_hdr RESP_OK_DISPLAY_INFO req
       @ replicate 8 0 @ le_bytes 4 (unat (g_width g)) @ le_bytes 4 (unat (g_height g)) @ le_bytes 4 1 @ replicate 4 0
       @ replicate 360 0"

text \<open>\<^verbatim>\<open>size_t(width) * height * 4\<close>, and the largest size of a \<^verbatim>\<open>std::vector<uint8_t>\<close>.\<close>

definition buf_bytes :: "u32 \<Rightarrow> u32 \<Rightarrow> u64" where
  "buf_bytes w h = ucast w * ucast h * 4"

abbreviation kVecMax :: nat where "kVecMax \<equiv> 2 ^ 63 - 1"

definition create_2d :: "gpu \<Rightarrow> u8 list \<Rightarrow> gpu option" where
  "create_2d g req =
     (let i = rq32 req 24; w = rq32 req 32; h = rq32 req 36; n = unat (buf_bytes w h)
      in if n > kVecMax then None
         else Some (g\<lparr>g_resources := (g_resources g)(i \<mapsto>
                \<lparr>res_id = i, res_format = rq32 req 28, res_width = w, res_height = h, backing = [],
                 host_buf = replicate n 0\<rparr>)\<rparr>))"

text \<open>The rows of a transfer, from \<^verbatim>\<open>cmd.r.y\<close> up; \<open>stride\<close> and \<open>row_bytes\<close> are 32-bit.\<close>

fun transfer_rows :: "('a) vm_map_scheme \<Rightarrow> hmem \<Rightarrow> mem_entry list \<Rightarrow> u64 \<Rightarrow> u32 \<Rightarrow> u32 \<Rightarrow> u32 \<Rightarrow> u32 \<Rightarrow> u32 list
    \<Rightarrow> u8 list \<Rightarrow> u8 list option" where
  "transfer_rows c m es offset x y stride row_bytes [] buf = Some buf"
| "transfer_rows c m es offset x y stride row_bytes (row # rows) buf =
     (let src_off = offset + ucast (row - y) * ucast stride;
          dst = unat (ucast row * ucast stride + ucast x * 4 :: u64)
      in case read_backing c m es src_off dst (ucast row_bytes) buf of
           None \<Rightarrow> None
         | Some (buf', copied) \<Rightarrow> transfer_rows c m es offset x y stride row_bytes rows buf')"

definition rows_from :: "u32 \<Rightarrow> u32 \<Rightarrow> u32 list" where
  "rows_from y ry2 = map of_nat [unat y..<unat ry2]"

definition transfer_2d :: "('a) vm_map_scheme \<Rightarrow> hmem \<Rightarrow> resource \<Rightarrow> u32 \<Rightarrow> u32 \<Rightarrow> u32 \<Rightarrow> u32 \<Rightarrow> u64 \<Rightarrow> resource option" where
  "transfer_2d c m r x y w h offset =
     (let total = unat (buf_bytes (res_width r) (res_height r));
          buf = (if length (host_buf r) < total then host_buf r @ replicate (total - length (host_buf r)) 0 else host_buf r);
          rx2 = min (x + w) (res_width r);
          ry2 = min (y + h) (res_height r)
      in if length (host_buf r) < total \<and> total > kVecMax then None
         else if x < rx2 \<and> y < ry2
         then map_option (\<lambda>b. r\<lparr>host_buf := b\<rparr>)
                (transfer_rows c m (backing r) offset x y (res_width r * 4) ((rx2 - x) * 4) (rows_from y ry2) buf)
         else Some (r\<lparr>host_buf := buf\<rparr>))"

text \<open>The entries of an attach request: \<open>n\<close> of them from number \<open>i\<close> on, as far as the request goes.\<close>

fun attach_entries :: "u8 list \<Rightarrow> u32 \<Rightarrow> nat \<Rightarrow> nat \<Rightarrow> mem_entry list" where
  "attach_entries req req_len 0 i = []"
| "attach_entries req req_len (Suc n) i =
     (let off = 32 + i * 16
      in if off + 16 > unat req_len then []
         else \<lparr>me_gpa = rq64 req off, me_len = rq32 req (off + 8)\<rparr> # attach_entries req req_len n (i + 1))"

definition handle_command :: "('a) vm_map_scheme \<Rightarrow> hmem \<Rightarrow> u8 list \<Rightarrow> u32 \<Rightarrow> gpu \<Rightarrow> (gpu \<times> u8 list) option" where
  "handle_command c m req resp_cap g =
     (let req_len = of_nat (length req) :: u32; t = rq32 req 0; ok = ok_nodata req
      in if req_len < 24 then Some (g, [])
         else if t = CMD_GET_DISPLAY_INFO then Some (g, take (unat (min resp_cap 408)) (display_info g req))
         else if t = CMD_RESOURCE_CREATE_2D then
           (if req_len < 40 then Some (g, gpu_err RESP_ERR_UNSPEC)
            else map_option (\<lambda>g'. (g', ok)) (create_2d g req))
         else if t = CMD_RESOURCE_UNREF then
           (if req_len < 32 then Some (g, gpu_err RESP_ERR_UNSPEC)
            else (let i = rq32 req 24
                  in Some (g\<lparr>g_resources := (g_resources g)(i := None),
                             g_scanout := (if g_scanout g = i then 0 else g_scanout g)\<rparr>, ok)))
         else if t = CMD_SET_SCANOUT then
           (if req_len < 48 then Some (g, gpu_err RESP_ERR_UNSPEC)
            else Some (if rq32 req 40 = 0 then g\<lparr>g_scanout := rq32 req 44\<rparr> else g, ok))
         else if t = CMD_RESOURCE_FLUSH then
           (if req_len < 48 then Some (g, gpu_err RESP_ERR_UNSPEC)
            else case find_resource g (rq32 req 40) of
                   None \<Rightarrow> Some (g, gpu_err RESP_ERR_INVALID_RESOURCE_ID)
                 | Some r \<Rightarrow>
                     Some (if g_cb g \<and> rq32 req 40 = g_scanout g \<and> host_buf r \<noteq> []
                           then g\<lparr>g_frames := g_frames g @
                                  [\<lparr>pf_pixels = host_buf r, pf_width = res_width r, pf_height = res_height r,
                                    pf_stride = res_width r * 4\<rparr>]\<rparr>
                           else g, ok))
         else if t = CMD_TRANSFER_TO_HOST_2D then
           (if req_len < 56 then Some (g, gpu_err RESP_ERR_UNSPEC)
            else case find_resource g (rq32 req 48) of
                   None \<Rightarrow> Some (g, gpu_err RESP_ERR_INVALID_RESOURCE_ID)
                 | Some r \<Rightarrow>
                     map_option (\<lambda>r'. (g\<lparr>g_resources := (g_resources g)(rq32 req 48 \<mapsto> r')\<rparr>, ok))
                       (transfer_2d c m r (rq32 req 24) (rq32 req 28) (rq32 req 32) (rq32 req 36) (rq64 req 40)))
         else if t = CMD_ATTACH_BACKING then
           (if req_len < 32 then Some (g, gpu_err RESP_ERR_UNSPEC)
            else case find_resource g (rq32 req 24) of
                   None \<Rightarrow> Some (g, gpu_err RESP_ERR_INVALID_RESOURCE_ID)
                 | Some r \<Rightarrow>
                     Some (g\<lparr>g_resources := (g_resources g)(rq32 req 24 \<mapsto>
                             r\<lparr>backing := backing r @ attach_entries req req_len (unat (rq32 req 28)) 0\<rparr>)\<rparr>, ok))
         else if t = CMD_DETACH_BACKING then
           (if req_len < 32 then Some (g, gpu_err RESP_ERR_UNSPEC)
            else case find_resource g (rq32 req 24) of
                   None \<Rightarrow> Some (g, ok)
                 | Some r \<Rightarrow> Some (g\<lparr>g_resources := (g_resources g)(rq32 req 24 \<mapsto> r\<lparr>backing := []\<rparr>)\<rparr>, ok))
         else Some (g, gpu_err RESP_ERR_UNSPEC))"

section \<open>Control queue\<close>

text \<open>The walk over one chain, at most 64 descriptors: request bytes, and the last writable buffer.\<close>

record ctl_walk =
  w_req :: "u8 list"
  w_resp :: "(u64 \<times> u32) option"

fun gpu_walk :: "nat \<Rightarrow> ('a) vm_map_scheme \<Rightarrow> hmem \<Rightarrow> u64 \<Rightarrow> u16 \<Rightarrow> ctl_walk \<Rightarrow> ctl_walk" where
  "gpu_walk 0 c m d cur s = s"
| "gpu_walk (Suc n) c m d cur s =
     (case gpa_to_hva c (desc_addr m d cur) of
        None \<Rightarrow> s
      | Some p \<Rightarrow>
          (let s' = (if desc_flags m d cur AND VRING_DESC_F_WRITE \<noteq> 0
                     then s\<lparr>w_resp := Some (p, desc_len m d cur)\<rparr>
                     else s\<lparr>w_req := w_req s @ read_bytes m p (unat (desc_len m d cur))\<rparr>)
           in if \<not> has_next m d cur then s' else gpu_walk n c m d (desc_next m d cur) s'))"

record 'e gpu_run =
  gr_last :: u16
  gr_host :: "'e host"
  gr_gpu :: gpu

text \<open>A request with a body and room for a response header is executed; the response goes to its buffer.\<close>

definition ctl_exec :: "('a) vm_map_scheme \<Rightarrow> hmem \<Rightarrow> ctl_walk \<Rightarrow> gpu \<Rightarrow> (gpu \<times> hmem \<times> u32) option" where
  "ctl_exec c m x g =
     (case w_resp x of
        None \<Rightarrow> Some (g, m, 0)
      | Some (p, cap) \<Rightarrow>
          if w_req x \<noteq> [] \<and> cap \<ge> 24
          then map_option (\<lambda>(g', bs). (g', write_bytes m p bs, of_nat (length bs))) (handle_command c m (w_req x) cap g)
          else Some (g, m, 0))"

definition controlq_step :: "('a) vm_map_scheme \<Rightarrow> u64 \<Rightarrow> u64 \<Rightarrow> u64 \<Rightarrow> 'e gpu_run \<Rightarrow> ('e gpu_run \<times> bool) option" where
  "controlq_step c d a u s =
     (let m = mem (gr_host s);
          head = avail_ring 256 m a (gr_last s);
          x = gpu_walk 64 c m d head \<lparr>w_req = [], w_resp = None\<rparr>;
          r = ctl_exec c m x (gr_gpu s)
      in case r of
           None \<Rightarrow> None
         | Some (g, m', resp_len) \<Rightarrow>
             Some (\<lparr>gr_last = gr_last s + 1, gr_host = (gr_host s)\<lparr>mem := push_used 256 m' u head resp_len\<rparr>,
                    gr_gpu = g\<rparr>, False))"

text \<open>The interrupt is pulsed after the loop even when no request was pending.\<close>

definition process_controlq :: "('a) vm_map_scheme \<Rightarrow> gpu \<Rightarrow> 'e host \<Rightarrow> (gpu \<times> 'e host) option" where
  "process_controlq c g h =
     (let q = fst (g_queues g)
      in if \<not> queue_live q then Some (g, h)
         else case (gpa_to_hva c (desc_gpa q), gpa_to_hva c (avail_gpa q), gpa_to_hva c (used_gpa q)) of
           (Some d, Some a, Some u) \<Rightarrow>
             (case while_brk (\<lambda>r. gr_last r \<noteq> avail_idx (mem (gr_host r)) a) (controlq_step c d a u)
                     \<lparr>gr_last = last_avail q, gr_host = h, gr_gpu = g\<rparr> of
                None \<Rightarrow> None
              | Some r \<Rightarrow>
                  Some ((gr_gpu r)\<lparr>g_queues := (q\<lparr>last_avail := gr_last r\<rparr>, snd (g_queues g)),
                                   g_irq_status := g_irq_status g OR 1\<rparr>,
                        raise_spi kSpiGpu (gr_host r)))
         | _ \<Rightarrow> Some (g, h))"

section \<open>Registers\<close>

abbreviation Reg_ShmLenLo :: u32 where "Reg_ShmLenLo \<equiv> 0x0B0"
abbreviation Reg_ShmLenHi :: u32 where "Reg_ShmLenHi \<equiv> 0x0B4"
abbreviation STATUS_FEATURES_OK :: u32 where "STATUS_FEATURES_OK \<equiv> 8"

text \<open>\<^verbatim>\<open>queues_[queue_sel_]\<close> is read without a check of the selector: \<open>None\<close> when it is not 0 or 1.\<close>

definition gpu_read :: "gpu \<Rightarrow> u32 \<Rightarrow> u32 option" where
  "gpu_read g off =
     (if off = Reg_Magic then Some kMagicValue
      else if off = Reg_Version then Some 2
      else if off = Reg_DeviceId then Some 16
      else if off = Reg_VendorId then Some kVendor
      else if off = Reg_DeviceFeat then
        Some (if g_dev_feat_sel g = 0 then lo32 (g_device_features g)
              else if g_dev_feat_sel g = 1 then hi32 (g_device_features g) else 0)
      else if off = Reg_QueueNumMax then Some 256
      else if off = Reg_QueueReady then map_option (\<lambda>q. if ready q then 1 else 0) (q_sel (g_queues g) (g_queue_sel g))
      else if off = Reg_IrqStatus then Some (g_irq_status g)
      else if off = Reg_Status then Some (g_status g)
      else if off = Reg_ShmLenLo then Some 0xFFFFFFFF
      else if off = Reg_ShmLenHi then Some 0xFFFFFFFF
      else if off = Reg_Config + 8 then Some 1
      else Some 0)"

definition gpu_set_status :: "u32 \<Rightarrow> gpu \<Rightarrow> gpu" where
  "gpu_set_status val g =
     (let st = (if val AND STATUS_FEATURES_OK \<noteq> 0 \<and> g_status g AND STATUS_FEATURES_OK = 0
                    \<and> g_driver_features g AND NOT (g_device_features g) \<noteq> 0
                then val AND NOT STATUS_FEATURES_OK else val);
          g' = g\<lparr>g_status := st\<rparr>
      in if val = 0
         then g'\<lparr>g_queues := (queue_init 256, queue_init 256), g_irq_status := 0, g_scanout := 0,
                 g_resources := (\<lambda>_. None), g_driver_features := 0, g_frames := []\<rparr>
         else g')"

text \<open>The switch of \<^verbatim>\<open>Gpu::write\<close>, under the lock.\<close>

definition gpu_write_locked :: "('a) vm_map_scheme \<Rightarrow> gpu \<times> 'e host \<Rightarrow> u32 \<Rightarrow> u32 \<Rightarrow> (gpu \<times> 'e host) option" where
  "gpu_write_locked c gh off val =
     (let g = fst gh; h = snd gh;
          upd = (\<lambda>f. Some (g\<lparr>g_queues := q_upd (g_queues g) (g_queue_sel g mod 2) f\<rparr>, h))
      in if off = Reg_DeviceFeatSel then Some (g\<lparr>g_dev_feat_sel := val\<rparr>, h)
         else if off = Reg_DriverFeatSel then Some (g\<lparr>g_drv_feat_sel := val\<rparr>, h)
         else if off = Reg_DriverFeat then
           (if g_drv_feat_sel g = 0 then Some (g\<lparr>g_driver_features := set_lo (g_driver_features g) val\<rparr>, h)
            else if g_drv_feat_sel g = 1 then Some (g\<lparr>g_driver_features := set_hi (g_driver_features g) val\<rparr>, h)
            else Some (g, h))
         else if off = Reg_QueueSel then Some (g\<lparr>g_queue_sel := min val 1\<rparr>, h)
         else if off = Reg_QueueNum then upd (\<lambda>q. q\<lparr>num := min val 256\<rparr>)
         else if off = Reg_QueueReady then upd (\<lambda>q. q\<lparr>ready := (val \<noteq> 0)\<rparr>)
         else if off = Reg_QueueNotify then (if val = 0 then process_controlq c g h else Some (g, h))
         else if off = Reg_IrqAck then Some (g\<lparr>g_irq_status := g_irq_status g AND NOT val\<rparr>, h)
         else if off = Reg_Status then Some (gpu_set_status val g, h)
         else if off = Reg_QueueDescLo then upd (\<lambda>q. q\<lparr>desc_gpa := set_lo (desc_gpa q) val\<rparr>)
         else if off = Reg_QueueDescHi then upd (\<lambda>q. q\<lparr>desc_gpa := set_hi (desc_gpa q) val\<rparr>)
         else if off = Reg_QueueAvailLo then upd (\<lambda>q. q\<lparr>avail_gpa := set_lo (avail_gpa q) val\<rparr>)
         else if off = Reg_QueueAvailHi then upd (\<lambda>q. q\<lparr>avail_gpa := set_hi (avail_gpa q) val\<rparr>)
         else if off = Reg_QueueUsedLo then upd (\<lambda>q. q\<lparr>used_gpa := set_lo (used_gpa q) val\<rparr>)
         else if off = Reg_QueueUsedHi then upd (\<lambda>q. q\<lparr>used_gpa := set_hi (used_gpa q) val\<rparr>)
         else Some (g, h))"

text \<open>
  The whole write: the staged frames leave the device with the lock and go to the callback, when there
  is one, in order.
\<close>

definition gpu_write :: "('a) vm_map_scheme \<Rightarrow> gpu \<times> 'e host \<Rightarrow> u32 \<Rightarrow> u32
    \<Rightarrow> ((gpu \<times> 'e host) \<times> pending_frame list) option" where
  "gpu_write c gh off val =
     (case gpu_write_locked c gh off val of
        None \<Rightarrow> None
      | Some (g, h) \<Rightarrow> Some ((g\<lparr>g_frames := []\<rparr>, h), if g_cb g then g_frames g else []))"

section \<open>Reading the backing store\<close>

text \<open>
  Whatever the guest put into the backing entries, a read of \<open>len\<close> bytes writes at most \<open>len\<close> bytes from
  \<open>dst\<close> on, and does nothing when the source range wraps around.
\<close>

lemma overlap_unat:
  fixes b s e l :: u64
  assumes "max b s < min l e"
  shows "unat (max b s - s) = max (unat b) (unat s) - unat s" "unat (max b s - b) = max (unat b) (unat s) - unat b"
    "unat (min l e - max b s) = min (unat l) (unat e) - max (unat b) (unat s)"
    "max (unat b) (unat s) < min (unat l) (unat e)"
proof -
  have mx: "unat (max b s) = max (unat b) (unat s)" by (simp add: max_def word_le_nat_alt)
  have mn: "unat (min l e) = min (unat l) (unat e)" by (simp add: min_def word_le_nat_alt)
  show "unat (max b s - s) = max (unat b) (unat s) - unat s" "unat (max b s - b) = max (unat b) (unat s) - unat b"
    by (simp_all add: unat_sub mx)
  show "unat (min l e - max b s) = min (unat l) (unat e) - max (unat b) (unat s)"
    using assms by (simp add: unat_sub mx mn order_less_imp_le)
  show "max (unat b) (unat s) < min (unat l) (unat e)" using assms by (simp only: word_less_nat_alt mx mn)
qed

lemma backing_go_safe:
  assumes "dst + (unat e - unat s) \<le> length buf"
  shows "\<exists>buf' k. backing_go c m s e dst es b buf cp = Some (buf', k) \<and> length buf' = length buf
      \<and> (\<forall>j < length buf. j < dst \<or> dst + (unat e - unat s) \<le> j \<longrightarrow> buf' ! j = buf ! j)"
  using assms
proof (induction es arbitrary: b buf cp)
  case Nil
  then show ?case by simp
next
  case (Cons x es)
  let ?l = "b + ucast (me_len x)"
  show ?case
  proof (cases "e \<le> b \<or> \<not> max b s < min ?l e")
    case True
    then show ?thesis using Cons.IH [OF Cons.prems, of ?l cp] by (auto simp: Let_def)
  next
    case False
    then have lt: "max b s < min ?l e" by simp
    note ov = overlap_unat [OF lt]
    let ?n = "unat (min ?l e - max b s)" and ?o = "dst + unat (max b s - s)"
    define bs where "bs = (case gpa_to_hva c (me_gpa x + (max b s - b)) of Some p \<Rightarrow> read_bytes m p ?n | None \<Rightarrow> replicate ?n 0)"
    have bs: "length bs = ?n" by (simp add: bs_def split: option.splits)
    have fit: "dst \<le> ?o" "?o + ?n \<le> dst + (unat e - unat s)"
      using ov(4) unfolding ov(1,3) by arith+
    then have len: "length (patch buf ?o bs) = length buf" using Cons.prems bs by (intro length_patch) simp
    have same: "patch buf ?o bs ! j = buf ! j" if "j < length buf" "j < dst \<or> dst + (unat e - unat s) \<le> j" for j
      using that fit Cons.prems bs nth_patch [of ?o bs buf j] by auto
    from Cons.IH [of "patch buf ?o bs" ?l "cp + of_nat ?n"] Cons.prems len obtain buf' k where
      "backing_go c m s e dst es ?l (patch buf ?o bs) (cp + of_nat ?n) = Some (buf', k)" "length buf' = length buf"
      "\<forall>j < length buf. j < dst \<or> dst + (unat e - unat s) \<le> j \<longrightarrow> buf' ! j = patch buf ?o bs ! j" by auto
    moreover have "\<not> length buf < ?o + ?n" using fit Cons.prems by linarith
    ultimately show ?thesis using False same by (auto simp: Let_def bs_def)
  qed
qed

lemma read_backing_safe:
  assumes "dst + unat len \<le> length buf"
  shows "\<exists>buf' k. read_backing c m es s dst len buf = Some (buf', k) \<and> length buf' = length buf
      \<and> (\<forall>j < length buf. j < dst \<or> dst + unat len \<le> j \<longrightarrow> buf' ! j = buf ! j)"
proof -
  have "unat (s + len) - unat s \<le> unat len"
    using unat_add_lem [of s len] by (cases "unat s + unat len < 2 ^ 64") (auto simp: unat_word_ariths)
  with backing_go_safe [of dst "s + len" s buf c m es 0 0] assms show ?thesis
    unfolding read_backing_def by (auto dest: le_trans [rotated])
qed

text \<open>
  The functional behaviour for backing entries that lie in guest RAM: the entries form one linear
  byte sequence, and a read copies the part of the range that exists.
\<close>

definition entry_ok :: "('a) vm_map_scheme \<Rightarrow> mem_entry \<Rightarrow> bool" where
  "entry_ok c e \<longleftrightarrow> unat (ram_gpa c) \<le> unat (me_gpa e)
     \<and> unat (me_gpa e) + unat (me_len e) \<le> unat (ram_gpa c) + unat (ram_size c)"

definition entry_bytes :: "('a) vm_map_scheme \<Rightarrow> hmem \<Rightarrow> mem_entry \<Rightarrow> u8 list" where
  "entry_bytes c m e = read_bytes m (ram_hva c + (me_gpa e - ram_gpa c)) (unat (me_len e))"

definition flat :: "('a) vm_map_scheme \<Rightarrow> hmem \<Rightarrow> mem_entry list \<Rightarrow> u8 list" where
  "flat c m es = concat (map (entry_bytes c m) es)"

lemma length_entry_bytes [simp]: "length (entry_bytes c m e) = unat (me_len e)"
  by (simp add: entry_bytes_def)

lemma entry_part:
  assumes "ram_ok c" and "entry_ok c e" and "unat k + n \<le> unat (me_len e)" and "0 < n"
  shows "(case gpa_to_hva c (me_gpa e + k) of Some p \<Rightarrow> read_bytes m p n | None \<Rightarrow> replicate n 0)
    = take n (drop (unat k) (entry_bytes c m e))"
proof -
  have nw: "unat (me_gpa e + k) = unat (me_gpa e) + unat k"
    using assms by (simp add: entry_ok_def ram_ok_def unat_word_ariths)
  then have "gpa_to_hva c (me_gpa e + k) = Some (ram_hva c + (me_gpa e + k - ram_gpa c))"
    using assms by (simp add: gpa_to_hva_unat entry_ok_def)
  moreover have "read_bytes m (ram_hva c + (me_gpa e + k - ram_gpa c)) n = take n (drop (unat k) (entry_bytes c m e))"
  proof (rule nth_equalityI)
    show "length (read_bytes m (ram_hva c + (me_gpa e + k - ram_gpa c)) n) = length (take n (drop (unat k) (entry_bytes c m e)))"
      using assms by simp
    fix i assume "i < length (read_bytes m (ram_hva c + (me_gpa e + k - ram_gpa c)) n)"
    then have i: "i < n" by simp
    have "ram_hva c + (me_gpa e - ram_gpa c) + of_nat (unat k + i) = ram_hva c + (me_gpa e + k - ram_gpa c) + of_nat i"
      by simp
    then have "m (ram_hva c + (me_gpa e - ram_gpa c) + of_nat (unat k + i))
        = m (ram_hva c + (me_gpa e + k - ram_gpa c) + of_nat i)" by (rule arg_cong)
    with i assms(3) show "read_bytes m (ram_hva c + (me_gpa e + k - ram_gpa c)) n ! i = take n (drop (unat k) (entry_bytes c m e)) ! i"
      by (simp add: entry_bytes_def del: of_nat_add)
  qed
  ultimately show ?thesis by simp
qed

text \<open>
  \<open>filled\<close> describes a buffer into which the bytes \<open>s ..< t\<close> of a sequence have been copied, to \<open>dst\<close>.
\<close>

definition filled :: "u8 list \<Rightarrow> u8 list \<Rightarrow> nat \<Rightarrow> nat \<Rightarrow> nat \<Rightarrow> u8 list \<Rightarrow> bool" where
  "filled buf0 full dst s t buf \<longleftrightarrow> length buf = length buf0
     \<and> (\<forall>j < length buf0. buf ! j = (if dst \<le> j \<and> j < dst + (t - s) then full ! (s + (j - dst)) else buf0 ! j))"

lemma filled_same: "t \<le> s \<Longrightarrow> filled buf0 full dst s t buf \<longleftrightarrow> buf = buf0"
  by (auto simp: filled_def nth_equalityI)

lemma filled_extend:
  assumes "filled buf0 full dst s t buf" and "t' = o' + n" and "o' = max s t" and "dst + (t' - s) \<le> length buf0"
    and "bs = take n (drop o' full)" and "t' \<le> length full"
  shows "filled buf0 full dst s t' (patch buf (dst + (o' - s)) bs)"
proof -
  have bs: "length bs = n" using assms by simp
  have len: "length buf = length buf0" using assms(1) by (simp add: filled_def)
  have fit: "dst + (o' - s) + length bs \<le> length buf" using assms len bs by arith
  have "patch buf (dst + (o' - s)) bs ! j = (if dst \<le> j \<and> j < dst + (t' - s) then full ! (s + (j - dst)) else buf0 ! j)"
    if j: "j < length buf0" for j
  proof (cases "dst + (o' - s) \<le> j \<and> j < dst + (o' - s) + n")
    case True
    have "o' + (j - (dst + (o' - s))) = s + (j - dst)" using True assms(3) by arith
    moreover have "bs ! (j - (dst + (o' - s))) = full ! (o' + (j - (dst + (o' - s))))"
    proof -
      have "j - (dst + (o' - s)) < n" "o' \<le> length full" using True assms(2,6) by linarith+
      then show ?thesis unfolding assms(5) by simp
    qed
    ultimately have "bs ! (j - (dst + (o' - s))) = full ! (s + (j - dst))" by metis
    moreover have "j < dst + (t' - s)" "dst \<le> j" using True assms(2,3) by arith+
    ultimately show ?thesis using True j nth_patch [OF fit] len bs by simp
  next
    case False
    have "(dst \<le> j \<and> j < dst + (t' - s)) = (dst \<le> j \<and> j < dst + (t - s))"
      using False assms(2,3) by arith
    moreover have "patch buf (dst + (o' - s)) bs ! j = buf ! j"
      using nth_patch [OF fit, of j] j len by (simp only: bs False if_False)
    moreover have "buf ! j = (if dst \<le> j \<and> j < dst + (t - s) then full ! (s + (j - dst)) else buf0 ! j)"
      using assms(1) j by (simp only: filled_def)
    ultimately show ?thesis by (simp only:)
  qed
  then show ?thesis using length_patch [OF fit] len by (simp add: filled_def)
qed

lemma backing_go_flat:
  assumes "ram_ok c" and "\<forall>e \<in> set es. entry_ok c e" and "unat b + length (flat c m es) < 2 ^ 64"
    and "full = pre @ flat c m es" and "length pre = unat b" and "unat s \<le> unat e"
    and "dst + (unat e - unat s) \<le> length buf0"
    and "filled buf0 full dst (unat s) (min (unat b) (unat e)) buf"
  shows "\<exists>buf' k. backing_go c m s e dst es b buf cp = Some (buf', k)
      \<and> filled buf0 full dst (unat s) (min (length full) (unat e)) buf'"
  using assms(2-)
proof (induction es arbitrary: b buf cp pre)
  case Nil
  then show ?case by (simp add: flat_def)
next
  case (Cons x es)
  let ?l = "b + ucast (me_len x)"
  have bl: "unat ?l = unat b + unat (me_len x)"
    using Cons.prems(2) by (simp add: flat_def unat_word_ariths unat_ucast_up)
  have full': "full = (pre @ entry_bytes c m x) @ flat c m es" "length (pre @ entry_bytes c m x) = unat ?l"
    "unat ?l + length (flat c m es) < 2 ^ 64"
    using Cons.prems(2-4) bl by (simp_all add: flat_def)
  note IH = Cons.IH [OF _ full'(3,1,2) Cons.prems(5,6)]
  have ok: "\<forall>e \<in> set es. entry_ok c e" "entry_ok c x" using Cons.prems(1) by simp_all
  have lf: "unat ?l \<le> length full" using full' by simp
  consider (stop) "e \<le> b" | (skip) "\<not> e \<le> b" "\<not> max b s < min ?l e" | (copy) "\<not> e \<le> b" "max b s < min ?l e" by blast
  then show ?case
  proof cases
    case stop
    then have "min (length full) (unat e) = min (unat b) (unat e)" using lf bl by (simp add: word_le_nat_alt)
    with stop Cons.prems(7) show ?thesis by simp
  next
    case skip
    then have "\<not> max (unat b) (unat s) < min (unat ?l) (unat e)"
      by (simp add: word_less_nat_alt word_le_nat_alt max_def min_def split: if_splits)
    then have "min (unat ?l) (unat e) \<le> unat s \<or> min (unat ?l) (unat e) = min (unat b) (unat e)" using bl by arith
    then have "filled buf0 full dst (unat s) (min (unat ?l) (unat e)) buf"
    proof
      assume "min (unat ?l) (unat e) \<le> unat s"
      moreover from this have "min (unat b) (unat e) \<le> unat s" using bl by arith
      ultimately show ?thesis using Cons.prems(7) by (simp add: filled_same)
    qed (use Cons.prems(7) in simp)
    with IH [OF ok(1), of buf cp] show ?thesis by (simp only: backing_go.simps Let_def skip if_False)
  next
    case copy
    note ov = overlap_unat [OF copy(2)]
    let ?n = "unat (min ?l e - max b s)" and ?o = "dst + unat (max b s - s)"
    define bs where "bs = (case gpa_to_hva c (me_gpa x + (max b s - b)) of Some p \<Rightarrow> read_bytes m p ?n | None \<Rightarrow> replicate ?n 0)"
    have "unat (max b s - b) + ?n \<le> unat (me_len x)" "0 < ?n" using ov(4) bl unfolding ov(2,3) by arith+
    from entry_part [OF assms(1) ok(2) this] have "bs = take ?n (drop (unat (max b s - b)) (entry_bytes c m x))"
      by (simp add: bs_def)
    also have "\<dots> = take ?n (drop (max (unat s) (min (unat b) (unat e))) full)"
    proof -
      have "max (unat s) (min (unat b) (unat e)) = unat b + unat (max b s - b)" using ov(4) unfolding ov(2) by arith
      moreover have "drop (unat b + unat (max b s - b)) full = drop (unat (max b s - b)) (entry_bytes c m x @ flat c m es)"
        using Cons.prems(4) by (simp add: full'(1))
      ultimately show ?thesis
        using \<open>unat (max b s - b) + ?n \<le> unat (me_len x)\<close> by (simp only: drop_append take_append) simp
    qed
    finally have bs: "bs = take ?n (drop (max (unat s) (min (unat b) (unat e))) full)" .
    have "filled buf0 full dst (unat s) (min (unat ?l) (unat e))
        (patch buf (dst + (max (unat s) (min (unat b) (unat e)) - unat s)) bs)"
    proof (rule filled_extend [OF Cons.prems(7) _ refl _ bs])
      show "min (unat ?l) (unat e) = max (unat s) (min (unat b) (unat e)) + ?n" using ov(4) unfolding ov(3) by arith
      show "dst + (min (unat ?l) (unat e) - unat s) \<le> length buf0" using Cons.prems(6) by arith
      show "min (unat ?l) (unat e) \<le> length full" using lf by simp
    qed
    moreover have o: "dst + (max (unat s) (min (unat b) (unat e)) - unat s) = ?o" using ov(4) unfolding ov(1) by arith
    ultimately have fl: "filled buf0 full dst (unat s) (min (unat ?l) (unat e)) (patch buf ?o bs)" by simp
    have "length buf = length buf0" using Cons.prems(7) by (simp add: filled_def)
    then have fit: "\<not> ?o + ?n > length buf" using ov(4) Cons.prems(6) unfolding ov(1,3) by arith
    show ?thesis
      using IH [OF ok(1) fl, of "cp + of_nat ?n"]
      by (simp only: backing_go.simps Let_def copy if_True if_False fit bs_def [symmetric])
  qed
qed

lemma read_backing_flat:
  assumes "ram_ok c" and "\<forall>e \<in> set es. entry_ok c e" and "length (flat c m es) < 2 ^ 64"
    and "unat s + unat len \<le> length (flat c m es)" and "dst + unat len \<le> length buf"
  shows "\<exists>k. read_backing c m es s dst len buf = Some (patch buf dst (take (unat len) (drop (unat s) (flat c m es))), k)"
proof -
  let ?f = "flat c m es"
  have e: "unat (s + len) = unat s + unat len" using assms(3,4) by (simp add: unat_word_ariths)
  from backing_go_flat [OF assms(1,2), of 0 m ?f "[]" s "s + len" dst buf buf 0] assms e obtain buf' k where
    b: "backing_go c m s (s + len) dst es 0 buf 0 = Some (buf', k)"
      "filled buf ?f dst (unat s) (min (length ?f) (unat s + unat len)) buf'"
    by (auto simp: filled_same)
  let ?p = "patch buf dst (take (unat len) (drop (unat s) ?f))"
  have lt: "length (take (unat len) (drop (unat s) ?f)) = unat len" using assms(4) by simp
  have fit: "dst + length (take (unat len) (drop (unat s) ?f)) \<le> length buf" using assms(5) lt by simp
  have "buf' = ?p"
  proof (rule nth_equalityI)
    show "length buf' = length ?p" using b(2) length_patch [OF fit] by (simp add: filled_def)
    fix j assume "j < length buf'"
    then have "j < length buf" using b(2) by (simp add: filled_def)
    with b(2) nth_patch [OF fit] lt assms(4) show "buf' ! j = ?p ! j" by (auto simp: filled_def min_def)
  qed
  with b(1) show ?thesis by (simp add: read_backing_def)
qed

section \<open>Transfers\<close>

text \<open>
  The dimensions for which the pixel arithmetic of the code does not overflow: a row fits into 32 bits
  and the buffer into a vector.
\<close>

definition dims_ok :: "u32 \<Rightarrow> u32 \<Rightarrow> bool" where
  "dims_ok w h \<longleftrightarrow> 4 * unat w < 2 ^ 32 \<and> 4 * unat w * unat h < 2 ^ 63"

lemma unat_times_4: "4 * unat (a :: u32) < 2 ^ 32 \<Longrightarrow> unat (a * 4) = 4 * unat a"
  by (simp add: unat_word_ariths)

lemma dims_stride: "dims_ok w h \<Longrightarrow> unat (w * 4) = 4 * unat w"
  by (simp add: dims_ok_def unat_times_4)

lemma dims_total: "dims_ok w h \<Longrightarrow> unat (buf_bytes w h) = 4 * unat w * unat h"
  by (simp add: dims_ok_def buf_bytes_def unat_word_ariths unat_ucast_up mult.assoc mult.commute)

lemma dims_row:
  fixes row x :: u32
  assumes "dims_ok w h" and "unat row < unat h" and "unat x + n \<le> unat w" and "0 < n"
  shows "unat (ucast row * ucast (w * 4) + ucast x * 4 :: u64) = unat row * (4 * unat w) + 4 * unat x"
    "unat row * (4 * unat w) + 4 * unat x + 4 * n \<le> 4 * unat w * unat h"
proof -
  have "unat row * (4 * unat w) + 4 * unat w \<le> 4 * unat w * unat h"
    using mult_le_mono2 [of "Suc (unat row)" "unat h" "4 * unat w"] assms(2) by (simp add: mult.commute)
  then show le: "unat row * (4 * unat w) + 4 * unat x + 4 * n \<le> 4 * unat w * unat h" using assms(3) by linarith
  then have lt: "unat row * (4 * unat w) + 4 * unat x < 2 ^ 63" using assms(1) unfolding dims_ok_def by linarith
  have "unat (ucast row * ucast (w * 4) :: u64) = unat row * (4 * unat w)"
  proof -
    have f: "unat (ucast row :: u64) = unat row" "unat (ucast (w * 4) :: u64) = 4 * unat w"
      using unat_ucast_up [of "w * 4", where 'b = 64] dims_stride [OF assms(1)] by (simp_all add: unat_ucast_up)
    have "unat row * (4 * unat w) < 2 ^ 63" using lt by (rule order_le_less_trans [OF le_add1])
    then have "unat row * (4 * unat w) < 2 ^ 64" by (rule order_less_trans) simp
    then show ?thesis by (simp only: unat_word_ariths f) simp
  qed
  moreover have "unat (ucast x * 4 :: u64) = 4 * unat x"
    using unat_u32_less [of x] by (simp add: unat_word_ariths unat_ucast_up)
  ultimately show "unat (ucast row * ucast (w * 4) + ucast x * 4 :: u64) = unat row * (4 * unat w) + 4 * unat x"
    using lt by (simp add: unat_add_lem [THEN iffD1])
qed

text \<open>No transfer leaves the pixel buffer, whatever the backing entries are.\<close>

lemma transfer_rows_safe:
  assumes "dims_ok w h" and "unat x + n \<le> unat w" and "0 < n" and "unat rb = 4 * n"
    and "\<forall>row \<in> set rows. unat row < unat h" and "length buf = 4 * unat w * unat h"
  shows "\<exists>buf'. transfer_rows c m es off x y (w * 4) rb rows buf = Some buf' \<and> length buf' = length buf"
  using assms(5,6)
proof (induction rows arbitrary: buf)
  case Nil
  then show ?case by simp
next
  case (Cons row rows)
  note d = dims_row [OF assms(1) _ assms(2,3), of row]
  from read_backing_safe [of "unat row * (4 * unat w) + 4 * unat x" "ucast rb" buf c m es "off + ucast (row - y) * ucast (w * 4)"]
    Cons.prems d assms(4) obtain b k where
    "read_backing c m es (off + ucast (row - y) * ucast (w * 4)) (unat row * (4 * unat w) + 4 * unat x) (ucast rb) buf = Some (b, k)"
    "length b = length buf" by (auto simp: unat_ucast_up)
  with Cons.IH [of b] Cons.prems d show ?case by (auto simp: Let_def)
qed

lemma rows_from_mem: "row \<in> set (rows_from y z) \<Longrightarrow> unat y \<le> unat row \<and> unat row < unat z"
proof -
  assume "row \<in> set (rows_from y z)"
  then obtain i where i: "row = of_nat i" "unat y \<le> i" "i < unat z" by (auto simp: rows_from_def)
  then have "i < 2 ^ 32" using unat_u32_less [of z] by simp
  with i show ?thesis by (simp add: unat_of_nat)
qed

definition res_ok :: "resource \<Rightarrow> bool" where
  "res_ok r \<longleftrightarrow> dims_ok (res_width r) (res_height r) \<and> length (host_buf r) = 4 * unat (res_width r) * unat (res_height r)"

lemma unat_min_u32: "unat (min (a :: u32) b) = min (unat a) (unat b)"
  by (simp add: min_def word_le_nat_alt)

lemma clip_bytes:
  assumes "dims_ok w h" and "x < min xe w"
  shows "unat ((min xe w - x) * 4) = 4 * (unat (min xe w) - unat x)" "unat x + (unat (min xe w) - unat x) \<le> unat w"
    "0 < unat (min xe w) - unat x"
proof -
  have lt: "unat x < unat (min xe w)" "unat (min xe w) \<le> unat w"
    using assms(2) by (auto simp: word_less_nat_alt unat_min_u32)
  have s: "unat (min xe w - x) = unat (min xe w) - unat x"
    by (rule unat_sub) (use assms(2) in \<open>rule order_less_imp_le\<close>)
  have "4 * (unat (min xe w) - unat x) < 2 ^ 32" using assms(1) lt unfolding dims_ok_def by linarith
  then show "unat ((min xe w - x) * 4) = 4 * (unat (min xe w) - unat x)"
    using unat_times_4 [of "min xe w - x"] unfolding s by blast
  show "unat x + (unat (min xe w) - unat x) \<le> unat w" "0 < unat (min xe w) - unat x" using lt by linarith+
qed

lemma transfer_2d_safe:
  assumes "res_ok r"
  shows "\<exists>b. transfer_2d c m r x y w h off = Some (r\<lparr>host_buf := b\<rparr>) \<and> length b = length (host_buf r)"
proof -
  have d: "dims_ok (res_width r) (res_height r)" "length (host_buf r) = 4 * unat (res_width r) * unat (res_height r)"
    using assms by (simp_all add: res_ok_def)
  have t: "\<not> length (host_buf r) < unat (buf_bytes (res_width r) (res_height r))" using d by (simp add: dims_total)
  show ?thesis
  proof (cases "x < min (x + w) (res_width r) \<and> y < min (y + h) (res_height r)")
    case True
    then have "\<forall>row \<in> set (rows_from y (min (y + h) (res_height r))). unat row < unat (res_height r)"
      by (auto dest!: rows_from_mem simp: unat_min_u32)
    from transfer_rows_safe [OF d(1) clip_bytes(2,3,1) [OF d(1) conjunct1 [OF True]] this d(2)]
    obtain b where "transfer_rows c m (backing r) off x y (res_width r * 4) ((min (x + w) (res_width r) - x) * 4)
        (rows_from y (min (y + h) (res_height r))) (host_buf r) = Some b" "length b = length (host_buf r)" by blast
    with True t show ?thesis by (simp only: transfer_2d_def Let_def if_True if_False simp_thms option.map) blast
  next
    case False
    with t show ?thesis by (simp only: transfer_2d_def Let_def if_False simp_thms) blast
  qed
qed

lemma row_index:
  fixes r i S :: nat
  assumes "k < S" and "lo + len \<le> S"
  shows "i * S + lo \<le> r * S + k \<and> r * S + k < i * S + lo + len \<longleftrightarrow> r = i \<and> lo \<le> k \<and> k < lo + len"
proof -
  consider "r < i" | "r = i" | "i < r" by linarith
  then show ?thesis
  proof cases
    case 1
    then have "r * S + S \<le> i * S" using mult_le_mono1 [of "Suc r" i S] by simp
    with 1 assms(1) show ?thesis by auto
  next
    case 3
    then have "i * S + S \<le> r * S" using mult_le_mono1 [of "Suc i" r S] by simp
    with 3 assms(2) show ?thesis by auto
  qed auto
qed

lemma transfer_rows_flat:
  assumes ram: "ram_ok c" "\<forall>e \<in> set es. entry_ok c e" "length (flat c m es) < 2 ^ 64"
    and dims: "dims_ok w h" "unat x + n \<le> unat w" "0 < n" "unat rb = 4 * n"
    and rows: "unat y \<le> i" "j \<le> unat h"
      "\<forall>r. i \<le> r \<and> r < j \<longrightarrow> unat off + (r - unat y) * (4 * unat w) + 4 * n \<le> length (flat c m es)"
    and buf: "length buf = 4 * unat w * unat h"
  shows "\<exists>buf'. transfer_rows c m es off x y (w * 4) rb (map of_nat [i..<j]) buf = Some buf' \<and> length buf' = length buf
      \<and> (\<forall>r < unat h. \<forall>k < 4 * unat w. buf' ! (r * (4 * unat w) + k) =
          (if i \<le> r \<and> r < j \<and> 4 * unat x \<le> k \<and> k < 4 * (unat x + n)
           then flat c m es ! (unat off + (r - unat y) * (4 * unat w) + (k - 4 * unat x))
           else buf ! (r * (4 * unat w) + k)))"
  using rows(1,3) buf
proof (induction "j - i" arbitrary: i buf)
  case 0
  then show ?case by auto
next
  case (Suc d)
  let ?S = "4 * unat w" and ?row = "of_nat i :: u32" and ?f = "flat c m es"
  have ij: "i < j" and d: "d = j - Suc i" using Suc.hyps(2) by linarith+
  have ur: "unat ?row = i" using ij rows(2) unat_u32_less [of h] by (simp add: unat_of_nat)
  have row: "unat ?row < unat h" using ij rows(2) ur by simp
  note dr = dims_row [OF dims(1) row dims(2,3), unfolded ur]
  let ?src = "off + ucast (?row - y) * ucast (w * 4)"
  have bound: "unat off + (i - unat y) * ?S + 4 * n \<le> length ?f" using Suc.prems(2) ij by simp
  have src: "unat ?src = unat off + (i - unat y) * ?S"
  proof -
    have "unat (?row - y) = i - unat y" using Suc.prems(1) ur by (simp add: unat_sub word_le_nat_alt)
    then have "unat (ucast (?row - y) :: u64) = i - unat y" "unat (ucast (w * 4) :: u64) = ?S"
      using unat_ucast_up [of "w * 4", where 'b = 64] unat_ucast_up [of "?row - y", where 'b = 64]
        dims_stride [OF dims(1)] by simp_all
    moreover have lt: "unat off + (i - unat y) * ?S < 2 ^ 64" using bound ram(3) by linarith
    moreover have "(i - unat y) * ?S < 2 ^ 64" using lt by (rule order_le_less_trans [OF le_add2])
    ultimately show ?thesis by (simp add: unat_word_ariths)
  qed
  have rb: "unat (ucast rb :: u64) = 4 * n" using dims(4) by (simp add: unat_ucast_up)
  let ?bs = "take (4 * n) (drop (unat ?src) ?f)" and ?dst = "i * ?S + 4 * unat x"
  define b where "b = patch buf ?dst ?bs"
  have bs: "length ?bs = 4 * n" using bound src by simp
  have fit: "?dst + length ?bs \<le> length buf" using dr(2) Suc.prems(3) bs by simp
  from read_backing_flat [OF ram, of ?src "ucast rb" ?dst buf] bound src rb fit bs obtain k where
    rd: "read_backing c m es ?src ?dst (ucast rb) buf = Some (b, k)" by (auto simp: b_def)
  have lb: "length b = ?S * unat h" using length_patch [OF fit] Suc.prems(3) by (simp add: b_def)
  have nb: "b ! (r * ?S + k) = (if r = i \<and> 4 * unat x \<le> k \<and> k < 4 * (unat x + n)
      then ?f ! (unat ?src + (k - 4 * unat x)) else buf ! (r * ?S + k))"
    if "r < unat h" "k < ?S" for r k
  proof -
    have "r * ?S + k < length buf"
      using mult_le_mono2 [of "Suc r" "unat h" ?S] that Suc.prems(3) by (simp add: mult.commute)
    moreover have "4 * unat x + 4 * n \<le> ?S" using dims(2) by simp
    ultimately show ?thesis
      using nth_patch [OF fit] row_index [OF that(2), of "4 * unat x" "4 * n" i r] bs bound src
      by (auto simp: b_def)
  qed
  from Suc.hyps(1) [OF d, of b] Suc.prems(1,2) lb obtain buf' where
    r: "transfer_rows c m es off x y (w * 4) rb (map of_nat [Suc i..<j]) b = Some buf'" "length buf' = length b"
      "\<forall>r < unat h. \<forall>k < ?S. buf' ! (r * ?S + k) =
          (if Suc i \<le> r \<and> r < j \<and> 4 * unat x \<le> k \<and> k < 4 * (unat x + n)
           then ?f ! (unat off + (r - unat y) * ?S + (k - 4 * unat x)) else b ! (r * ?S + k))" by auto
  have "transfer_rows c m es off x y (w * 4) rb (map of_nat [i..<j]) buf = Some buf'"
    using rd r(1) dr(1) ij by (simp add: upt_conv_Cons Let_def)
  moreover have "buf' ! (r * ?S + k) = (if i \<le> r \<and> r < j \<and> 4 * unat x \<le> k \<and> k < 4 * (unat x + n)
      then ?f ! (unat off + (r - unat y) * ?S + (k - 4 * unat x)) else buf ! (r * ?S + k))"
    if "r < unat h" "k < ?S" for r k
    using r(3) nb [OF that] that ij src by (cases "r = i") auto
  ultimately show ?case using r(2) lb Suc.prems(3) by auto
qed

text \<open>
  C20. \<^verbatim>\<open>TRANSFER_TO_HOST_2D\<close> of a rectangle inside a resource whose backing pages lie in guest RAM and
  reach far enough: the command is acknowledged, every byte of the rectangle's rows is the byte of the
  linear backing store at \<^verbatim>\<open>offset + (row - y) * stride\<close> plus its distance from the left edge, however
  the backing is scattered over pages, and every other byte of the resource, and every other resource,
  is unchanged.
\<close>

theorem gpu_transfer_pixels:
  assumes cmd: "length req = 56" "rq32 req 0 = CMD_TRANSFER_TO_HOST_2D" "find_resource g (rq32 req 48) = Some r"
    and res: "res_ok r" "ram_ok c" "\<forall>e \<in> set (backing r). entry_ok c e" "length (flat c m (backing r)) < 2 ^ 64"
    and rect: "x = unat (rq32 req 24)" "y = unat (rq32 req 28)" "w = unat (rq32 req 32)" "h = unat (rq32 req 36)"
      "x + w \<le> unat (res_width r)" "y + h \<le> unat (res_height r)" "0 < w" "0 < h"
    and off: "off = unat (rq64 req 40)" "S = 4 * unat (res_width r)"
      "off + (h - 1) * S + 4 * w \<le> length (flat c m (backing r))"
  shows "\<exists>b. handle_command c m req cap g = Some (g\<lparr>g_resources := (g_resources g)(rq32 req 48 \<mapsto> r\<lparr>host_buf := b\<rparr>)\<rparr>, ok_nodata req)
      \<and> length b = length (host_buf r)
      \<and> (\<forall>row < unat (res_height r). \<forall>k < S. b ! (row * S + k) =
          (if y \<le> row \<and> row < y + h \<and> 4 * x \<le> k \<and> k < 4 * (x + w)
           then flat c m (backing r) ! (off + (row - y) * S + (k - 4 * x))
           else host_buf r ! (row * S + k)))"
proof -
  let ?W = "res_width r" and ?H = "res_height r" and ?x = "rq32 req 24" and ?y = "rq32 req 28"
  let ?w = "rq32 req 32" and ?h = "rq32 req 36"
  have d: "dims_ok ?W ?H" "length (host_buf r) = 4 * unat ?W * unat ?H" using res(1) by (simp_all add: res_ok_def)
  have sum: "unat (?x + ?w) = x + w" "unat (?y + ?h) = y + h"
    using rect unat_u32_less [of ?W] unat_u32_less [of ?H] by (simp_all add: unat_word_ariths)
  have clip: "min (?x + ?w) ?W = ?x + ?w" "min (?y + ?h) ?H = ?y + ?h"
    using rect sum by (simp_all add: min_def word_le_nat_alt)
  have lt: "?x < ?x + ?w" "?y < ?y + ?h" using rect sum by (simp_all add: word_less_nat_alt)
  have "4 * unat ?w < 2 ^ 32" using rect d(1) unfolding dims_ok_def by linarith
  then have rb: "unat (?w * 4) = 4 * w" using unat_times_4 [of ?w] rect by simp
  have bound: "\<forall>i. unat ?y \<le> i \<and> i < y + h \<longrightarrow>
      unat (rq64 req 40) + (i - unat ?y) * (4 * unat ?W) + 4 * w \<le> length (flat c m (backing r))"
  proof (intro allI impI)
    fix i assume "unat ?y \<le> i \<and> i < y + h"
    then have "(i - unat ?y) * S \<le> (h - 1) * S" using rect(2) by (intro mult_le_mono1) linarith
    then show "unat (rq64 req 40) + (i - unat ?y) * (4 * unat ?W) + 4 * w \<le> length (flat c m (backing r))"
      using off unfolding off(2) by linarith
  qed
  have fx: "unat ?x + w \<le> unat ?W" using rect(1,5) by simp
  from transfer_rows_flat [OF res(2-4) d(1) fx rect(7) rb le_refl rect(6) bound d(2)] obtain b where
    b: "transfer_rows c m (backing r) (rq64 req 40) ?x ?y (?W * 4) (?w * 4) (map of_nat [unat ?y..<y + h]) (host_buf r) = Some b"
      "length b = length (host_buf r)"
      "\<forall>i < unat ?H. \<forall>k < 4 * unat ?W. b ! (i * (4 * unat ?W) + k) =
          (if unat ?y \<le> i \<and> i < y + h \<and> 4 * unat ?x \<le> k \<and> k < 4 * (unat ?x + w)
           then flat c m (backing r) ! (unat (rq64 req 40) + (i - unat ?y) * (4 * unat ?W) + (k - 4 * unat ?x))
           else host_buf r ! (i * (4 * unat ?W) + k))" by blast
  have "transfer_2d c m r ?x ?y ?w ?h (rq64 req 40) = Some (r\<lparr>host_buf := b\<rparr>)"
    using b(1) lt d sum by (simp add: transfer_2d_def clip rows_from_def dims_total Let_def)
  then have "handle_command c m req cap g =
      Some (g\<lparr>g_resources := (g_resources g)(rq32 req 48 \<mapsto> r\<lparr>host_buf := b\<rparr>)\<rparr>, ok_nodata req)"
    using cmd by (simp add: handle_command_def Let_def)
  with b(2,3) rect(1,2) off(1,2) show ?thesis by auto
qed

text \<open>A transfer of one pixel row of two pixels, from two backing pages.\<close>

definition demo_gpu_req :: "u8 list" where
  "demo_gpu_req = ctrl_hdr CMD_TRANSFER_TO_HOST_2D 0 0 @ le_bytes 4 0 @ le_bytes 4 0 @ le_bytes 4 2 @ le_bytes 4 1
     @ le_bytes 8 0 @ le_bytes 4 7 @ replicate 4 0"

definition demo_res :: resource where
  "demo_res = \<lparr>res_id = 7, res_format = 1, res_width = 2, res_height = 1,
     backing = [\<lparr>me_gpa = 0x40005000, me_len = 6\<rparr>, \<lparr>me_gpa = 0x40004000, me_len = 10\<rparr>], host_buf = replicate 8 0\<rparr>"

definition demo_gpu :: gpu where
  "demo_gpu = (gpu_new 2 1 True)\<lparr>g_queues := (demo_queue, queue_init 256), g_scanout := 7, g_resources := [7 \<mapsto> demo_res]\<rparr>"

lemma demo_gpu_req_fields:
  "length demo_gpu_req = 56" "rq32 demo_gpu_req 0 = CMD_TRANSFER_TO_HOST_2D" "rq32 demo_gpu_req 24 = 0"
  "rq32 demo_gpu_req 28 = 0" "rq32 demo_gpu_req 32 = 2" "rq32 demo_gpu_req 36 = 1" "rq64 demo_gpu_req 40 = 0"
  "rq32 demo_gpu_req 48 = 7"
  by (simp_all add: demo_gpu_req_def rq32_def rq64_def ctrl_hdr_def le_bytes_numeral)

theorem gpu_transfer_pixels_witness:
  "\<exists>g' b. handle_command demo_ctx demo_mem demo_gpu_req 24 demo_gpu = Some (g', ok_nodata demo_gpu_req)
     \<and> g_resources g' 7 = Some (demo_res\<lparr>host_buf := b\<rparr>)
     \<and> b ! 6 = flat demo_ctx demo_mem (backing demo_res) ! 6"
proof -
  have r: "find_resource demo_gpu 7 = Some demo_res" by (simp add: find_resource_def demo_gpu_def)
  have f: "length (flat demo_ctx demo_mem (backing demo_res)) = 16" by (simp add: flat_def demo_res_def)
  have ok: "res_ok demo_res" "ram_ok demo_ctx" "\<forall>e \<in> set (backing demo_res). entry_ok demo_ctx e"
    "res_width demo_res = 2" "res_height demo_res = 1"
    by (simp_all add: res_ok_def dims_ok_def demo_res_def ram_ok_def demo_ctx_def entry_ok_def)
  from gpu_transfer_pixels [of demo_gpu_req demo_gpu demo_res demo_ctx demo_mem 0 0 2 1 0 8 24] r f ok
  show ?thesis by (fastforce simp: demo_gpu_req_fields)
qed

section \<open>Commands keep the device in order\<close>

text \<open>Every resource has the pixel buffer its dimensions ask for, and they are in range.\<close>

definition gpu_good :: "gpu \<Rightarrow> bool" where
  "gpu_good g \<longleftrightarrow> (\<forall>i r. g_resources g i = Some r \<longrightarrow> res_ok r)"

text \<open>A request that does not create a resource whose dimensions overflow.\<close>

definition req_fits :: "u8 list \<Rightarrow> bool" where
  "req_fits req \<longleftrightarrow> (rq32 req 0 = CMD_RESOURCE_CREATE_2D \<longrightarrow> dims_ok (rq32 req 32) (rq32 req 36))"

lemma length_ctrl_hdr [simp]: "length (ctrl_hdr t f n) = 24"
  by (simp add: ctrl_hdr_def)

lemma length_replies [simp]: "length (ok_nodata req) = 24" "length (gpu_err t) = 24" "length (fenced_hdr t req) = 24"
  by (simp_all add: ok_nodata_def gpu_err_def fenced_hdr_def)

lemma gpu_good_upd: "gpu_good g \<Longrightarrow> res_ok r \<Longrightarrow> gpu_good (g\<lparr>g_resources := (g_resources g)(i \<mapsto> r)\<rparr>)"
  by (simp add: gpu_good_def)

lemma create_2d_good:
  "gpu_good g \<Longrightarrow> dims_ok (rq32 req 32) (rq32 req 36) \<Longrightarrow> \<exists>g'. create_2d g req = Some g' \<and> gpu_good g'"
proof -
  assume g: "gpu_good g" and d: "dims_ok (rq32 req 32) (rq32 req 36)"
  have "\<not> kVecMax < 4 * unat (rq32 req 32) * unat (rq32 req 36)" using d unfolding dims_ok_def by linarith
  with g d show ?thesis
    by (simp only: create_2d_def Let_def dims_total if_False option.inject ex_simps simp_thms)
      (rule gpu_good_upd, simp_all add: res_ok_def)
qed

lemma transfer_2d_good:
  assumes "gpu_good g" and "find_resource g i = Some r"
  shows "\<exists>r'. transfer_2d c m r x y w h off = Some r' \<and> gpu_good (g\<lparr>g_resources := (g_resources g)(j \<mapsto> r')\<rparr>)"
proof -
  have "res_ok r" using assms by (simp add: gpu_good_def find_resource_def)
  from transfer_2d_safe [OF this, of c m x y w h off] obtain b where
    "transfer_2d c m r x y w h off = Some (r\<lparr>host_buf := b\<rparr>)" "length b = length (host_buf r)" by blast
  with \<open>res_ok r\<close> assms(1) show ?thesis by (auto intro: gpu_good_upd simp: res_ok_def)
qed

text \<open>
  A request that fits is always answered, within the response buffer, and keeps the device in order,
  whatever it contains.
\<close>

lemma handle_command_total:
  assumes "gpu_good g" and "req_fits req" and "24 \<le> cap"
  shows "\<exists>g' bs. handle_command c m req cap g = Some (g', bs) \<and> gpu_good g' \<and> length bs \<le> unat cap
      \<and> g_queues g' = g_queues g \<and> g_queue_sel g' = g_queue_sel g \<and> g_irq_status g' = g_irq_status g"
proof -
  have cap: "24 \<le> unat cap" using assms(3) by (simp add: word_le_nat_alt)
  let ?t = "rq32 req 0"
  consider (create) "?t = CMD_RESOURCE_CREATE_2D" | (transfer) "?t = CMD_TRANSFER_TO_HOST_2D"
    | (info) "?t = CMD_GET_DISPLAY_INFO" | (attach) "?t = CMD_ATTACH_BACKING"
    | (other) "?t \<notin> {CMD_RESOURCE_CREATE_2D, CMD_TRANSFER_TO_HOST_2D, CMD_GET_DISPLAY_INFO, CMD_ATTACH_BACKING}" by auto
  then show ?thesis
  proof cases
    case create
    with create_2d_good [OF assms(1), of req] assms(2) obtain g' where "create_2d g req = Some g'" "gpu_good g'"
      by (auto simp: req_fits_def)
    moreover from this have "g_queues g' = g_queues g" "g_queue_sel g' = g_queue_sel g" "g_irq_status g' = g_irq_status g"
      by (auto simp: create_2d_def Let_def split: if_splits)
    ultimately show ?thesis using create assms(1) cap by (simp add: handle_command_def Let_def)
  next
    case transfer
    show ?thesis
    proof (cases "find_resource g (rq32 req 48)")
      case (Some r)
      from transfer_2d_good [OF assms(1) Some, of c m] transfer assms(1) cap Some show ?thesis
        by (fastforce simp: handle_command_def Let_def)
    qed (use transfer assms(1) cap in \<open>simp add: handle_command_def Let_def\<close>)
  next
    case info
    have "unat (min cap 408) \<le> unat cap" by (simp add: word_le_nat_alt [symmetric])
    with info assms(1) show ?thesis by (simp add: handle_command_def Let_def min.coboundedI2)
  next
    case attach
    have "res_ok (r\<lparr>backing := b\<rparr>)" if "find_resource g i = Some r" for r i b
      using that assms(1) by (simp add: gpu_good_def find_resource_def res_ok_def)
    with attach assms(1) cap show ?thesis
      by (auto simp: handle_command_def Let_def intro!: gpu_good_upd split: option.split)
  next
    case other
    have "res_ok (r\<lparr>backing := b\<rparr>)" if "find_resource g i = Some r" for r i b
      using that assms(1) by (simp add: gpu_good_def find_resource_def res_ok_def)
    moreover have "gpu_good (g\<lparr>g_resources := (g_resources g)(i := None), g_scanout := k\<rparr>)"
      "gpu_good (g\<lparr>g_scanout := k\<rparr>)" "gpu_good (g\<lparr>g_frames := fs\<rparr>)" for i k fs
      using assms(1) by (simp_all add: gpu_good_def)
    ultimately show ?thesis using other assms(1) cap
      by (auto simp: handle_command_def Let_def intro!: gpu_good_upd split: option.split)
  qed
qed

section \<open>The control queue\<close>

text \<open>
  A chain as a driver lays it out: its descriptors lie in the table, its writable buffers in \<open>W\<close>, and
  its readable buffers apart from what the device writes (\<open>R\<close>).
\<close>

fun ctl_chain_ok :: "nat \<Rightarrow> ('a) vm_map_scheme \<Rightarrow> u64 set \<Rightarrow> u64 set \<Rightarrow> hmem \<Rightarrow> u64 \<Rightarrow> u16 \<Rightarrow> bool" where
  "ctl_chain_ok 0 c W R m d cur = True"
| "ctl_chain_ok (Suc n) c W R m d cur \<longleftrightarrow>
     unat cur < 256 \<and>
     (case gpa_to_hva c (desc_addr m d cur) of
        None \<Rightarrow> True
      | Some p \<Rightarrow>
          (if desc_flags m d cur AND VRING_DESC_F_WRITE \<noteq> 0
           then span p (unat (desc_len m d cur)) \<subseteq> W
           else span p (unat (desc_len m d cur)) \<inter> R = {})
          \<and> (has_next m d cur \<longrightarrow> ctl_chain_ok n c W R m d (desc_next m d cur)))"

lemma gpu_walk_agree:
  assumes "ctl_chain_ok n c W R m d cur" and "agree_on (- R) m' m" and "desc_span 256 d \<inter> R = {}"
  shows "gpu_walk n c m' d cur s = gpu_walk n c m d cur s"
  using assms(1)
proof (induction n arbitrary: cur s)
  case 0
  then show ?case by simp
next
  case (Suc n)
  have ag: "agree_on (desc_span 256 d) m' m" using assms(2,3) by (blast intro: agree_on_mono)
  from Suc.prems have "unat cur < 256" by simp
  note da = ring256.desc_agree [OF ag this]
  have rd: "read_bytes m' p (unat (desc_len m d cur)) = read_bytes m p (unat (desc_len m d cur))"
    if "gpa_to_hva c (desc_addr m d cur) = Some p" "\<not> desc_flags m d cur AND VRING_DESC_F_WRITE \<noteq> 0" for p
  proof (rule read_bytes_agree [OF assms(2)])
    show "span p (unat (desc_len m d cur)) \<subseteq> - R" using Suc.prems that by auto
    show "unat (desc_len m d cur) \<le> 2 ^ 64" using unat_u32_less [of "desc_len m d cur"] by simp
  qed
  show ?case
    using Suc.IH [of "desc_next m d cur"] Suc.prems rd by (auto simp: da Let_def split: option.split)
qed

lemma gpu_walk_resp:
  assumes "ctl_chain_ok n c W R m d cur" and "w_resp (gpu_walk n c m d cur s) = Some (p, cap)"
    and "\<And>p cap. w_resp s = Some (p, cap) \<Longrightarrow> span p (unat cap) \<subseteq> W"
  shows "span p (unat cap) \<subseteq> W"
  using assms
proof (induction n arbitrary: cur s)
  case 0
  then show ?case by simp
next
  case (Suc n)
  show ?case
  proof (cases "gpa_to_hva c (desc_addr m d cur)")
    case None
    with Suc.prems show ?thesis by simp
  next
    case (Some q)
    let ?s = "if desc_flags m d cur AND VRING_DESC_F_WRITE \<noteq> 0 then s\<lparr>w_resp := Some (q, desc_len m d cur)\<rparr>
      else s\<lparr>w_req := w_req s @ read_bytes m q (unat (desc_len m d cur))\<rparr>"
    have inv: "span p (unat cap) \<subseteq> W" if "w_resp ?s = Some (p, cap)" for p cap
      using that Suc.prems(1) Suc.prems(3) Some by (auto split: if_splits)
    show ?thesis
    proof (cases "has_next m d cur")
      case True
      then have "w_resp (gpu_walk n c m d (desc_next m d cur) ?s) = Some (p, cap)"
        using Suc.prems(2) Some by (simp add: Let_def del: if_split)
      with Suc.IH [of "desc_next m d cur" ?s] Suc.prems(1) Some True inv show ?thesis by auto
    next
      case False
      then have "w_resp ?s = Some (p, cap)" using Suc.prems(2) Some by (simp add: Let_def del: if_split)
      then show ?thesis by (rule inv)
    qed
  qed
qed

definition ctl_req :: "('a) vm_map_scheme \<Rightarrow> hmem \<Rightarrow> u64 \<Rightarrow> u16 \<Rightarrow> ctl_walk" where
  "ctl_req c m d h = gpu_walk 64 c m d h \<lparr>w_req = [], w_resp = None\<rparr>"

definition gpu_rq_ok :: "('a) vm_map_scheme \<Rightarrow> u64 set \<Rightarrow> hmem \<Rightarrow> u64 \<Rightarrow> u64 \<Rightarrow> u16 \<Rightarrow> bool" where
  "gpu_rq_ok c W m d u h \<longleftrightarrow> ctl_chain_ok 64 c W (W \<union> used_span 256 u) m d h \<and> req_fits (w_req (ctl_req c m d h))"

definition gpu_run_inv :: "('a) vm_map_scheme \<Rightarrow> u64 set \<Rightarrow> u64 \<Rightarrow> u64 \<Rightarrow> u64 \<Rightarrow> 'e host \<Rightarrow> gpu \<Rightarrow> 'e gpu_run \<Rightarrow> bool" where
  "gpu_run_inv c W d a u h0 g0 s \<longleftrightarrow>
     used_span 256 u \<inter> (desc_span 256 d \<union> avail_span 256 a) = {}
     \<and> W \<inter> (desc_span 256 d \<union> avail_span 256 a \<union> used_span 256 u) = {}
     \<and> agree_on (- (W \<union> used_span 256 u)) (mem (gr_host s)) (mem h0)
     \<and> (\<forall>h \<in> set (pending 256 (mem h0) a (gr_last s)). gpu_rq_ok c W (mem h0) d u h)
     \<and> gpu_good (gr_gpu s) \<and> spi_calls (gr_host s) = spi_calls h0
     \<and> g_queue_sel (gr_gpu s) = g_queue_sel g0 \<and> g_irq_status (gr_gpu s) = g_irq_status g0"

text \<open>Serving the request: the device state and the memory before the used element is published.\<close>

lemma ctl_serve:
  assumes ok: "gpu_rq_ok c W m0 d u h" and ag: "agree_on (- (W \<union> used_span 256 u)) m m0"
    and apart: "desc_span 256 d \<inter> (W \<union> used_span 256 u) = {}" and good: "gpu_good g"
    and x: "x = gpu_walk 64 c m d h \<lparr>w_req = [], w_resp = None\<rparr>"
  shows "\<exists>g' m' k. ctl_exec c m x g = Some (g', m', k)
      \<and> gpu_good g' \<and> agree_on (- W) m' m \<and> g_queue_sel g' = g_queue_sel g \<and> g_irq_status g' = g_irq_status g"
proof -
  have eq: "x = ctl_req c m0 d h"
    using gpu_walk_agree [OF _ ag apart, of 64 c W h] ok by (simp add: gpu_rq_ok_def ctl_req_def x)
  show ?thesis
  proof (cases "w_resp x")
    case None
    with good show ?thesis by (simp add: ctl_exec_def)
  next
    case (Some pc)
    obtain p cap where pc: "w_resp x = Some (p, cap)" using Some by (cases pc) simp
    have W: "span p (unat cap) \<subseteq> W"
      using gpu_walk_resp [of 64 c W "W \<union> used_span 256 u" m0 d h "\<lparr>w_req = [], w_resp = None\<rparr>" p cap] ok pc
      by (simp add: gpu_rq_ok_def eq ctl_req_def)
    show ?thesis
    proof (cases "w_req x \<noteq> [] \<and> cap \<ge> 24")
      case True
      have "req_fits (w_req x)" using ok by (simp add: gpu_rq_ok_def eq)
      from handle_command_total [OF good this conjunct2 [OF True], of c m] obtain g' bs where
        g': "handle_command c m (w_req x) cap g = Some (g', bs)" "gpu_good g'" "length bs \<le> unat cap"
          "g_queue_sel g' = g_queue_sel g" "g_irq_status g' = g_irq_status g" by blast
      have "span p (length bs) \<subseteq> W" using span_mono [OF g'(3), of p] W by blast
      then have "agree_on (- W) (write_bytes m p bs) m"
        using g'(3) unat_u32_less [of cap] by (intro write_bytes_agree) auto
      with g' True pc show ?thesis by (simp add: ctl_exec_def)
    next
      case False
      then have "ctl_exec c m x g = Some (g, m, 0)" using pc by (simp only: ctl_exec_def option.case prod.case if_False)
      with good show ?thesis by simp
    qed
  qed
qed

lemma gpu_service:
  assumes inv: "gpu_run_inv c W d a u h0 g0 s" and ne: "gr_last s \<noteq> avail_idx (mem (gr_host s)) a"
  shows "\<exists>t. controlq_step c d a u s = Some (t, False) \<and> gpu_run_inv c W d a u h0 g0 t
      \<and> gr_last t = gr_last s + 1 \<and> served 256 a u (mem (gr_host s)) (gr_last s) (mem (gr_host t))"
proof -
  let ?m = "mem (gr_host s)" and ?n = "mem h0" and ?R = "W \<union> used_span 256 u"
  have U: "used_span 256 u \<inter> (desc_span 256 d \<union> avail_span 256 a) = {}"
    "W \<inter> (desc_span 256 d \<union> avail_span 256 a \<union> used_span 256 u) = {}" and ag: "agree_on (- ?R) ?m ?n"
    and good: "gpu_good (gr_gpu s)" using inv by (auto simp: gpu_run_inv_def)
  have "agree_on (avail_span 256 a) ?m ?n" using ag by (rule agree_on_mono) (use U in blast)
  then have av: "avail_idx ?m a = avail_idx ?n a" "\<And>n. avail_ring 256 ?m a n = avail_ring 256 ?n a n"
    by (rule ring256.avail_agree)+
  have ne0: "gr_last s \<noteq> avail_idx ?n a" using ne unfolding av(1) .
  note pc = pending_Cons [OF ne0, of 256]
  let ?h = "avail_ring 256 ?n a (gr_last s)"
  have ok: "gpu_rq_ok c W ?n d u ?h" using inv pc by (simp add: gpu_run_inv_def)
  have dR: "desc_span 256 d \<inter> ?R = {}" using U by blast
  from ctl_serve [OF ok ag dR good refl] obtain g' m' k where
    r: "ctl_exec c ?m (gpu_walk 64 c ?m d ?h \<lparr>w_req = [], w_resp = None\<rparr>) (gr_gpu s) = Some (g', m', k)"
      "gpu_good g'" "agree_on (- W) m' ?m" "g_queue_sel g' = g_queue_sel (gr_gpu s)"
      "g_irq_status g' = g_irq_status (gr_gpu s)" by blast
  let ?t = "\<lparr>gr_last = gr_last s + 1, gr_host = (gr_host s)\<lparr>mem := push_used 256 m' u ?h k\<rparr>, gr_gpu = g'\<rparr>"
  have step: "controlq_step c d a u s = Some (?t, False)"
    by (simp only: controlq_step_def Let_def av r(1) option.case prod.case)
  have srv: "served 256 a u ?m (gr_last s) (mem (gr_host ?t))"
    using ring256.served_push_used [OF r(3), of a u "gr_last s" k] U by (simp add: av) blast
  have "agree_on (- ?R) (push_used 256 m' u ?h k) m'" by (rule ring256.push_used_agree) blast
  moreover have "agree_on (- ?R) m' ?m" using r(3) by (rule agree_on_mono) blast
  ultimately have "agree_on (- ?R) (push_used 256 m' u ?h k) ?n" using ag by (blast intro: agree_on_trans)
  then have "gpu_run_inv c W d a u h0 g0 ?t"
    using inv r pc by (simp add: gpu_run_inv_def)
  with step srv show ?thesis by auto
qed

interpretation gpuq: virtq_drain 256 a u "\<lambda>s. mem (gr_host s)" gr_last "controlq_step c d a u" "gpu_run_inv c W d a u h0 g0"
  for c :: "('a) vm_map_scheme" and W d a u and h0 :: "'e host" and g0
  by unfold_locales (rule gpu_service)

text \<open>
  C5. The control queue. On a live queue with mapped rings, whose pending chains keep their writable
  buffers apart from the rings and their readable buffers apart from what the device writes, and whose
  requests create no resource of overflowing dimensions, \<^verbatim>\<open>process_controlq\<close> returns whatever else the
  requests contain (unknown commands, truncated requests, arbitrary rectangles and backing pages): every
  request is consumed and published in order, nothing outside the response buffers and the used ring
  is written, every resource keeps a pixel buffer of its size, and the interrupt is pulsed.
\<close>

theorem gpu_controlq_drains:
  assumes live: "queue_live q" "q = fst (g_queues g)"
    and rings: "gpa_to_hva c (desc_gpa q) = Some d" "gpa_to_hva c (avail_gpa q) = Some a"
      "gpa_to_hva c (used_gpa q) = Some u"
    and apart: "used_span 256 u \<inter> (desc_span 256 d \<union> avail_span 256 a) = {}"
      "W \<inter> (desc_span 256 d \<union> avail_span 256 a \<union> used_span 256 u) = {}"
    and wf: "\<forall>r \<in> set (pending 256 (mem h) a (last_avail q)). gpu_rq_ok c W (mem h) d u r"
    and good: "gpu_good g"
  shows "\<exists>g' h'. process_controlq c g h = Some (g', h') \<and> gpu_good g'
      \<and> drained 256 a u (mem h) (last_avail q) (mem h') (last_avail (fst (g_queues g')))
      \<and> agree_on (- (W \<union> used_span 256 u)) (mem h') (mem h)
      \<and> g_irq_status g' = g_irq_status g OR 1 \<and> spi_calls h' = spi_calls h @ [(52, True), (52, False)]"
proof -
  let ?s = "\<lparr>gr_last = last_avail q, gr_host = h, gr_gpu = g\<rparr>"
  have "gpu_run_inv c W d a u h g ?s" using apart wf good by (simp add: gpu_run_inv_def)
  from gpuq.drain_all [OF this] obtain t where
    "while_brk (\<lambda>s. gr_last s \<noteq> avail_idx (mem (gr_host s)) a) (controlq_step c d a u) ?s = Some t"
    "gpu_run_inv c W d a u h g t" "drained 256 a u (mem h) (last_avail q) (mem (gr_host t)) (gr_last t)" by auto
  with live rings show ?thesis
    by (auto simp: process_controlq_def Let_def gpu_run_inv_def gpu_good_def)
qed

lemma gpu_walk_numeral: "gpu_walk (numeral v) c m d cur s =
     (case gpa_to_hva c (desc_addr m d cur) of
        None \<Rightarrow> s
      | Some p \<Rightarrow>
          (let s' = (if desc_flags m d cur AND VRING_DESC_F_WRITE \<noteq> 0
                     then s\<lparr>w_resp := Some (p, desc_len m d cur)\<rparr>
                     else s\<lparr>w_req := w_req s @ read_bytes m p (unat (desc_len m d cur))\<rparr>)
           in if \<not> has_next m d cur then s' else gpu_walk (pred_numeral v) c m d (desc_next m d cur) s'))"
  by (simp only: numeral_eq_Suc gpu_walk.simps)

lemma ctl_chain_ok_numeral: "ctl_chain_ok (numeral v) c W R m d cur \<longleftrightarrow>
     unat cur < 256 \<and>
     (case gpa_to_hva c (desc_addr m d cur) of
        None \<Rightarrow> True
      | Some p \<Rightarrow>
          (if desc_flags m d cur AND VRING_DESC_F_WRITE \<noteq> 0
           then span p (unat (desc_len m d cur)) \<subseteq> W
           else span p (unat (desc_len m d cur)) \<inter> R = {})
          \<and> (has_next m d cur \<longrightarrow> ctl_chain_ok (pred_numeral v) c W R m d (desc_next m d cur)))"
  by (simp only: numeral_eq_Suc ctl_chain_ok.simps)

text \<open>A request of 24 zero bytes, an unknown command, with a response buffer of 24 bytes.\<close>

definition demo_gpu_mem :: hmem where
  "demo_gpu_mem = demo_mem(0x11008 := 24, 0x1101C := 2, 0x11018 := 24)"

definition demo_gpu_host :: "unit host" where
  "demo_gpu_host = \<lparr>mem = demo_gpu_mem, spi_calls = [], sent = [], ext = ()\<rparr>"

lemma demo_gpu_rings:
  "pending 256 demo_gpu_mem 0x12000 0 = [0]" "desc_addr demo_gpu_mem 0x11000 0 = 0x40004000"
  "desc_addr demo_gpu_mem 0x11000 1 = 0x40005000" "desc_len demo_gpu_mem 0x11000 0 = 24"
  "desc_len demo_gpu_mem 0x11000 1 = 24" "has_next demo_gpu_mem 0x11000 0" "\<not> has_next demo_gpu_mem 0x11000 1"
  "desc_next demo_gpu_mem 0x11000 0 = 1" "desc_flags demo_gpu_mem 0x11000 0 AND VRING_DESC_F_WRITE = 0"
  "desc_flags demo_gpu_mem 0x11000 1 AND VRING_DESC_F_WRITE \<noteq> 0"
  by (simp_all add: ring_eval demo_gpu_mem_def demo_mem_def pending_def)

theorem gpu_controlq_drains_witness:
  "\<exists>g' h'. process_controlq demo_ctx demo_gpu demo_gpu_host = Some (g', h') \<and> gpu_good g'
     \<and> drained 256 0x12000 0x13000 demo_gpu_mem 0 (mem h') (last_avail (fst (g_queues g')))
     \<and> spi_calls h' = [(52, True), (52, False)]"
proof -
  let ?W = "span 0x15000 24"
  have q: "queue_live demo_queue" "demo_queue = fst (g_queues demo_gpu)" "mem demo_gpu_host = demo_gpu_mem"
    "last_avail demo_queue = 0" "desc_gpa demo_queue = 0x40001000" "avail_gpa demo_queue = 0x40002000"
    "used_gpa demo_queue = 0x40003000"
    using demo_live by (simp_all add: demo_gpu_def demo_gpu_host_def demo_queue_def)
  have W: "?W \<inter> (desc_span 256 0x11000 \<union> avail_span 256 0x12000 \<union> used_span 256 0x13000) = {}"
  proof -
    have "?W \<subseteq> span 0x14000 0x3000" by (rule span_subsetI) simp_all
    with demo_apart(1) show ?thesis by blast
  qed
  have "span 0x14000 24 \<inter> (?W \<union> used_span 256 0x13000) = {}"
  proof -
    have "span 0x14000 24 \<inter> ?W = {}" "span 0x14000 24 \<subseteq> span 0x14000 0x3000"
      by (rule span_disjointI span_subsetI; simp)+
    with demo_apart(1) show ?thesis by blast
  qed
  then have ch: "ctl_chain_ok 64 demo_ctx ?W (?W \<union> used_span 256 0x13000) demo_gpu_mem 0x11000 0"
    by (simp add: ctl_chain_ok_numeral demo_gpu_rings demo_hva)
  have "w_req (ctl_req demo_ctx demo_gpu_mem 0x11000 0) = read_bytes demo_gpu_mem 0x14000 24"
    by (simp add: ctl_req_def gpu_walk_numeral demo_gpu_rings demo_hva)
  moreover have "rq32 (read_bytes demo_gpu_mem 0x14000 24) 0 = 0"
    by (simp add: rq32_def read_bytes_def upt_conv_Cons demo_gpu_mem_def demo_mem_def)
  ultimately have ok: "gpu_rq_ok demo_ctx ?W demo_gpu_mem 0x11000 0x13000 0"
    using ch by (simp add: gpu_rq_ok_def req_fits_def)
  have good: "gpu_good demo_gpu"
    by (simp add: gpu_good_def demo_gpu_def res_ok_def dims_ok_def demo_res_def)
  from gpu_controlq_drains [OF q(1,2), of demo_ctx "0x11000" "0x12000" "0x13000" ?W demo_gpu_host]
  have "\<exists>g' h'. process_controlq demo_ctx demo_gpu demo_gpu_host = Some (g', h') \<and> gpu_good g'
     \<and> drained 256 0x12000 0x13000 demo_gpu_mem 0 (mem h') (last_avail (fst (g_queues g')))
     \<and> spi_calls h' = spi_calls demo_gpu_host @ [(52, True), (52, False)]"
    using W ok good by (simp add: q(3-) demo_hva demo_gpu_rings demo_apart) blast
  then show ?thesis by (simp add: demo_gpu_host_def)
qed

section \<open>Overflowing dimensions\<close>

text \<open>
  The size of a resource is not checked. A guest that creates a resource of \<open>2 ^ 31\<close> by \<open>2 ^ 31\<close> pixels gets
  an acknowledgement and a resource with an empty pixel buffer, because the 64-bit product wraps to
  0; the next transfer of a single pixel to it, from any mapped backing page, writes behind that
  buffer.
\<close>

theorem gpu_size_overflow:
  assumes "length req = 40" and "rq32 req 0 = CMD_RESOURCE_CREATE_2D" and "rq32 req 32 = 0x80000000" and "rq32 req 36 = 0x80000000"
  shows "\<exists>g' r. handle_command c m req cap g = Some (g', ok_nodata req) \<and> find_resource g' (rq32 req 24) = Some r
      \<and> host_buf r = []
      \<and> (\<forall>e. 4 \<le> me_len e \<longrightarrow> transfer_2d c m (r\<lparr>backing := [e]\<rparr>) 0 0 1 1 0 = None)"
proof -
  let ?r = "\<lparr>res_id = rq32 req 24, res_format = rq32 req 28, res_width = 0x80000000, res_height = 0x80000000,
    backing = [], host_buf = []\<rparr>"
  have z: "buf_bytes 0x80000000 0x80000000 = 0" by (simp add: buf_bytes_def)
  have "handle_command c m req cap g = Some (g\<lparr>g_resources := (g_resources g)(rq32 req 24 \<mapsto> ?r)\<rparr>, ok_nodata req)"
    using assms by (simp add: handle_command_def create_2d_def Let_def z)
  moreover have "transfer_2d c m (?r\<lparr>backing := [e]\<rparr>) 0 0 1 1 0 = None" if e: "4 \<le> me_len e" for e
  proof -
    have "min (ucast (me_len e)) 4 = (4 :: u64)"
      using e by (intro min_absorb2) (simp add: word_le_nat_alt unat_ucast_up)
    moreover have "min 1 0x80000000 = (1 :: u32)" by (simp add: min_def)
    moreover have "(0 :: u64) < ucast (me_len e)" using e by (simp add: word_less_nat_alt word_le_nat_alt unat_ucast_up)
    ultimately show ?thesis
      by (simp add: transfer_2d_def z Let_def rows_from_def read_backing_def)
  qed
  ultimately show ?thesis by (auto simp: find_resource_def)
qed

definition demo_big_req :: "u8 list" where
  "demo_big_req = ctrl_hdr CMD_RESOURCE_CREATE_2D 0 0 @ le_bytes 4 9 @ le_bytes 4 1 @ le_bytes 4 0x80000000 @ le_bytes 4 0x80000000"

theorem gpu_size_overflow_witness:
  "\<exists>g' r. handle_command demo_ctx demo_mem demo_big_req 24 (gpu_new 2 1 True) = Some (g', ok_nodata demo_big_req)
     \<and> find_resource g' 9 = Some r \<and> transfer_2d demo_ctx demo_mem (r\<lparr>backing := [\<lparr>me_gpa = 0x40005000, me_len = 8\<rparr>]\<rparr>) 0 0 1 1 0 = None"
proof -
  have f: "length demo_big_req = 40" "rq32 demo_big_req 0 = CMD_RESOURCE_CREATE_2D" "rq32 demo_big_req 24 = 9"
    "rq32 demo_big_req 32 = 0x80000000" "rq32 demo_big_req 36 = 0x80000000"
    by (simp_all add: demo_big_req_def rq32_def ctrl_hdr_def le_bytes_numeral)
  have e: "4 \<le> me_len \<lparr>me_gpa = 0x40005000, me_len = 8\<rparr>" by simp
  from gpu_size_overflow [OF f(1,2,4,5), of demo_ctx demo_mem 24 "gpu_new 2 1 True"] e show ?thesis unfolding f(3) by blast
qed

section \<open>The device invariant\<close>

definition res_sized :: "u32 \<Rightarrow> resource \<Rightarrow> bool" where
  "res_sized i r \<longleftrightarrow> res_id r = i \<and> length (host_buf r) = unat (buf_bytes (res_width r) (res_height r))"

definition gpu_inv :: "gpu \<Rightarrow> bool" where
  "gpu_inv g \<longleftrightarrow> g_queue_sel g < 2 \<and> (\<forall>i r. g_resources g i = Some r \<longrightarrow> res_sized i r)"

lemma backing_go_length: "backing_go c m s e dst es b buf cp = Some (buf', k) \<Longrightarrow> length buf' = length buf"
  by (induction es arbitrary: b buf cp) (auto simp: Let_def length_patch split: if_splits option.splits)

lemma transfer_rows_length:
  "transfer_rows c m es off x y st rb rows buf = Some buf' \<Longrightarrow> length buf' = length buf"
  by (induction rows arbitrary: buf)
    (auto simp: Let_def read_backing_def dest: backing_go_length split: option.splits)

lemma transfer_2d_sized:
  "transfer_2d c m r x y w h off = Some r' \<Longrightarrow> res_sized i r \<Longrightarrow> res_sized i r'"
  by (auto simp: transfer_2d_def Let_def res_sized_def dest!: transfer_rows_length split: if_splits)

lemma handle_command_inv:
  assumes "handle_command c m req cap g = Some (g', bs)" and "gpu_inv g"
  shows "gpu_inv g'"
proof -
  have res: "\<And>i r. find_resource g i = Some r \<Longrightarrow> res_sized i r" using assms(2) by (simp add: gpu_inv_def find_resource_def)
  have upd: "gpu_inv (g\<lparr>g_resources := (g_resources g)(i \<mapsto> r)\<rparr>)" if "res_sized i r" for i r
    using that assms(2) by (simp add: gpu_inv_def)
  have backing: "res_sized i (r\<lparr>backing := b\<rparr>)" if "res_sized i r" for i r b
    using that by (simp add: res_sized_def)
  have create: "create_2d g req = Some g1 \<Longrightarrow> gpu_inv g1" for g1
    by (auto simp: create_2d_def Let_def res_sized_def intro!: upd split: if_splits)
  have others: "gpu_inv (g\<lparr>g_resources := (g_resources g)(i := None), g_scanout := k\<rparr>)"
    "gpu_inv (g\<lparr>g_resources := (g_resources g)(i := None)\<rparr>)"
    "gpu_inv (g\<lparr>g_scanout := k\<rparr>)" "gpu_inv (g\<lparr>g_frames := fs\<rparr>)" for i k fs
    using assms(2) by (simp_all add: gpu_inv_def)
  show ?thesis
    using assms by (auto simp: handle_command_def Let_def others intro!: upd backing dest: create res transfer_2d_sized
        split: if_splits option.splits)
qed

lemma controlq_step_inv:
  assumes "controlq_step c d a u s = Some (t, k)" and "gpu_inv (gr_gpu s)"
  shows "gpu_inv (gr_gpu t)"
  using assms by (auto simp: controlq_step_def ctl_exec_def Let_def dest: handle_command_inv split: option.splits if_splits prod.splits)

lemma controlq_loop_inv:
  assumes "while_brk (\<lambda>r. gr_last r \<noteq> avail_idx (mem (gr_host r)) a) (controlq_step c d a u) s = Some t"
    and "gpu_inv (gr_gpu s)"
  shows "gpu_inv (gr_gpu t)"
  using assms by (rule while_brk_rule [where P = "\<lambda>s. gpu_inv (gr_gpu s)"]) (auto dest: controlq_step_inv)

lemma process_controlq_inv:
  assumes "process_controlq c g h = Some (g', h')" and "gpu_inv g"
  shows "gpu_inv g'"
proof -
  have "gpu_inv (gr_gpu r\<lparr>g_queues := qs, g_irq_status := k\<rparr>)"
    if "while_brk (\<lambda>r. gr_last r \<noteq> avail_idx (mem (gr_host r)) a) (controlq_step c d a u)
        \<lparr>gr_last = last_avail (fst (g_queues g)), gr_host = h, gr_gpu = g\<rparr> = Some r" for r a d u qs k
    using controlq_loop_inv [OF that] assms(2) by (simp add: gpu_inv_def)
  with assms show ?thesis by (auto simp: process_controlq_def Let_def split: if_splits option.splits)
qed

text \<open>
  C24. The invariant of the GPU: the queue selector addresses one of the two queues, and every resource is
  stored under its own id with a pixel buffer of exactly \<^verbatim>\<open>size_t(width) * height * 4\<close> bytes. A new device
  has it, every register write that returns keeps it, including every sequence of commands a
  notification runs; no frame stays staged after the write, and every register read is defined.
\<close>

theorem gpu_inv_write:
  assumes "gpu_inv g" and "gpu_write c (g, h) off val = Some ((g', h'), fs)"
  shows "gpu_inv g' \<and> g_frames g' = [] \<and> gpu_inv (gpu_new w ht cb) \<and> (\<forall>r. gpu_read g' r \<noteq> None)"
proof -
  have "gpu_inv g1" if "gpu_write_locked c (g, h) off val = Some (g1, h1)" for g1 h1
  proof -
    have "gpu_inv (gpu_set_status val g)" using assms(1) by (simp add: gpu_inv_def gpu_set_status_def Let_def)
    moreover have "min val 1 < (2 :: u32)" by (rule order_le_less_trans [OF min.cobounded2]) simp
    ultimately have fields: "gpu_inv (gpu_set_status val g)" "gpu_inv (g\<lparr>g_queue_sel := min val 1\<rparr>)"
      "gpu_inv (g\<lparr>g_queues := qs\<rparr>)" "gpu_inv (g\<lparr>g_dev_feat_sel := k\<rparr>)" "gpu_inv (g\<lparr>g_drv_feat_sel := k\<rparr>)"
      "gpu_inv (g\<lparr>g_driver_features := f\<rparr>)" "gpu_inv (g\<lparr>g_irq_status := k\<rparr>)" for qs k f
      using assms(1) by (simp_all add: gpu_inv_def)
    show ?thesis
      using that assms(1) by (auto simp: fields gpu_write_locked_def Let_def dest: process_controlq_inv split: if_splits)
  qed
  with assms(2) have "gpu_inv g'" "g_frames g' = []" by (auto simp: gpu_write_def gpu_inv_def split: option.splits prod.splits)
  moreover have "gpu_inv (gpu_new w ht cb)" by (simp add: gpu_inv_def gpu_new_def)
  moreover have "gpu_read g' r \<noteq> None" for r
    using \<open>gpu_inv g'\<close> by (auto simp: gpu_read_def gpu_inv_def q_sel_def u32_less_2)
  ultimately show ?thesis by blast
qed

theorem gpu_inv_write_witness:
  "\<exists>g' h' fs. gpu_write demo_ctx (gpu_new 640 480 True, demo_gpu_host) Reg_QueueSel 7 = Some ((g', h'), fs)
     \<and> gpu_inv g' \<and> gpu_read g' Reg_QueueReady \<noteq> None"
proof -
  obtain g' h' fs where w: "gpu_write demo_ctx (gpu_new 640 480 True, demo_gpu_host) Reg_QueueSel 7 = Some ((g', h'), fs)"
    by (simp add: gpu_write_def gpu_write_locked_def Let_def)
  have "gpu_inv (gpu_new 640 480 True)" by (simp add: gpu_inv_def gpu_new_def)
  from gpu_inv_write [OF this w] w show ?thesis by blast
qed

section \<open>Set-up and feature negotiation\<close>

definition gpu_wr :: "('a) vm_map_scheme \<Rightarrow> gpu \<times> 'e host \<Rightarrow> u32 \<Rightarrow> u32 \<Rightarrow> (gpu \<times> 'e host) option" where
  "gpu_wr c gh off v = map_option fst (gpu_write c gh off v)"

definition gpu_qv :: "gpu \<times> 'e host \<Rightarrow> u32 \<Rightarrow> queue" where
  "gpu_qv s n = (case q_sel (g_queues (fst s)) n of Some q \<Rightarrow> q | None \<Rightarrow> queue_init 256)"

lemma gpu_locked_queue:
  "off \<in> queue_regs \<Longrightarrow> gpu_write_locked c (g, h) off v
     = Some (g\<lparr>g_queues := q_upd (g_queues g) (g_queue_sel g mod 2) (q_write 256 off v)\<rparr>, h)"
  unfolding queue_regs_def
  by (elim insertE emptyE) (simp_all add: gpu_write_locked_def q_write_def [abs_def] Let_def)

lemma gpu_wr_queue:
  assumes "off \<in> queue_regs" and "g_queue_sel g < 2"
  shows "gpu_wr c (g, h) off v = Some (g\<lparr>g_queues := q_upd (g_queues g) (g_queue_sel g) (q_write 256 off v), g_frames := []\<rparr>, h)"
proof -
  have "g_queue_sel g mod 2 = g_queue_sel g" using assms(2) by (auto simp: u32_less_2)
  with gpu_locked_queue [OF assms(1), of c g h v] show ?thesis by (simp add: gpu_wr_def gpu_write_def)
qed

interpretation gpu_regs: virtio_regs "\<lambda>s off. gpu_read (fst s) off" "gpu_wr c" gpu_qv "\<lambda>s. g_queue_sel (fst s)" 2 256 16
    "\<lambda>s. g_queue_sel (fst s) < 2"
  for c :: "('a) vm_map_scheme"
proof unfold_locales
  fix s :: "gpu \<times> 'e host" and n :: u32
  assume "g_queue_sel (fst s) < 2" and n: "n < 2"
  have "min n 1 = n" using n by (auto simp: u32_less_2)
  with n show "\<exists>t. gpu_wr c s Reg_QueueSel n = Some t \<and> g_queue_sel (fst t) < 2 \<and> g_queue_sel (fst t) = n \<and> gpu_qv t = gpu_qv s"
    by (cases s) (auto simp: gpu_wr_def gpu_write_def gpu_write_locked_def Let_def gpu_qv_def fun_eq_iff)
next
  fix s :: "gpu \<times> 'e host" and off v
  assume "g_queue_sel (fst s) < 2" and "off \<in> queue_regs"
  then show "\<exists>t. gpu_wr c s off v = Some t \<and> g_queue_sel (fst t) < 2 \<and> g_queue_sel (fst t) = g_queue_sel (fst s)
      \<and> gpu_qv t = (gpu_qv s)(g_queue_sel (fst s) := q_write 256 off v (gpu_qv s (g_queue_sel (fst s))))"
    by (cases s) (auto simp: gpu_wr_queue gpu_qv_def fun_eq_iff q_sel_def q_upd_def u32_less_2)
qed (auto simp: gpu_read_def gpu_wr_def gpu_write_def gpu_write_locked_def gpu_set_status_def Let_def gpu_qv_def q_sel_def
      u32_less_2)

text \<open>
  Feature negotiation. A driver that resets the device, acknowledges it, writes both halves of its
  feature set and then sets \<^verbatim>\<open>FEATURES_OK\<close> reads that bit back exactly when it accepted only features
  the device offers; otherwise the bit, and only it, is refused.
\<close>

theorem gpu_negotiation:
  assumes "st AND STATUS_FEATURES_OK = 0" and "st \<noteq> 0"
  shows "\<exists>g' h'. run_writes (gpu_wr c) (g, h)
       [(Reg_Status, 0), (Reg_Status, st), (Reg_DriverFeatSel, 0), (Reg_DriverFeat, lo32 f),
        (Reg_DriverFeatSel, 1), (Reg_DriverFeat, hi32 f), (Reg_Status, st OR STATUS_FEATURES_OK)] = Some (g', h')
     \<and> g_driver_features g' = f
     \<and> gpu_read g' Reg_Status = Some (if f AND NOT (g_device_features g) = 0 then st OR STATUS_FEATURES_OK else st)"
proof -
  have "(st OR 8) AND 8 \<noteq> 0" "(st OR 8) AND NOT 8 = st" "st OR 8 \<noteq> 0"
  proof -
    have "(st OR 8) AND 8 = 8" by (simp add: bit.conj_disj_distrib2 assms(1) [simplified])
    then show ne: "(st OR 8) AND 8 \<noteq> 0" by simp
    show "st OR 8 \<noteq> 0"
    proof
      assume "st OR 8 = 0"
      then have "(st OR 8) AND 8 = 0" by (simp only: bit.conj_zero_left)
      with ne show False by contradiction
    qed
    have "st = (st AND 8) OR (st AND NOT 8)"
      by (simp only: bit.conj_disj_distrib [symmetric] bit.disj_cancel_right bit.conj_one_right)
    then have "st AND NOT 8 = st" using assms(1) by simp
    then show "(st OR 8) AND NOT 8 = st" by (simp only: bit.conj_disj_distrib2 bit.conj_cancel_right or.right_neutral)
  qed
  then show ?thesis
    using assms by (simp add: gpu_wr_def gpu_write_def gpu_write_locked_def gpu_set_status_def gpu_read_def Let_def set_hi_set_lo)
qed

theorem gpu_negotiation_witness:
  "\<exists>g' h'. run_writes (gpu_wr demo_ctx) (gpu_new 640 480 True, demo_gpu_host)
       [(Reg_Status, 0), (Reg_Status, 3), (Reg_DriverFeatSel, 0), (Reg_DriverFeat, lo32 0x100000001),
        (Reg_DriverFeatSel, 1), (Reg_DriverFeat, hi32 0x100000001), (Reg_Status, 3 OR STATUS_FEATURES_OK)] = Some (g', h')
     \<and> gpu_read g' Reg_Status = Some 3"
proof -
  have "(3 :: u32) AND STATUS_FEATURES_OK = 0" "(3 :: u32) \<noteq> 0" by simp_all
  moreover have "0x100000001 AND NOT (g_device_features (gpu_new 640 480 True)) \<noteq> 0" by (simp add: gpu_new_def)
  ultimately show ?thesis
    using gpu_negotiation [of 3 demo_ctx "gpu_new 640 480 True" demo_gpu_host "0x100000001"] by (simp only: if_False) blast
qed

end
