(* ===== verification/Machine.thy ===== *)
theory Machine
  imports Virtio_Block Virtio_Console Virtio_Input Virtio_Net Virtio_Gpu
begin

text \<open>
  The virtual machine as one state: \<^verbatim>\<open>VMContext\<close> (\<^verbatim>\<open>src/src/hvf/vm_context.hpp\<close>, \<^verbatim>\<open>vm_context.cpp\<close>) with its
  devices, the virtual CPUs it owns (\<^verbatim>\<open>vcpu.hpp\<close>), and the host. The record extends the RAM window of
  \<open>Vm_Memory\<close>, so the device operations run on it directly.
\<close>

section \<open>Address map\<close>

abbreviation kGpaRamBase :: u64 where "kGpaRamBase \<equiv> 0x40000000"
abbreviation kGpaDtbLoad :: u64 where "kGpaDtbLoad \<equiv> 0x40000000"
abbreviation kGpaKernelLoad :: u64 where "kGpaKernelLoad \<equiv> 0x40400000"
abbreviation kGpaInitrdLoad :: u64 where "kGpaInitrdLoad \<equiv> 0x48000000"
abbreviation kGpaUart0 :: u64 where "kGpaUart0 \<equiv> 0x09000000"
abbreviation kGpaUart0Size :: u64 where "kGpaUart0Size \<equiv> 0x1000"
abbreviation kGpaRtcBase :: u64 where "kGpaRtcBase \<equiv> 0x09010000"
abbreviation kGpaRtcSize :: u64 where "kGpaRtcSize \<equiv> 0x1000"
abbreviation kGpaVirtioStride :: u64 where "kGpaVirtioStride \<equiv> 0x200"
abbreviation kGpaVirtioConsole :: u64 where "kGpaVirtioConsole \<equiv> 0x0A000000"
abbreviation kGpaVirtioBlock :: u64 where "kGpaVirtioBlock \<equiv> 0x0A000200"
abbreviation kGpaVirtioNet :: u64 where "kGpaVirtioNet \<equiv> 0x0A000400"
abbreviation kGpaVirtioGpu :: u64 where "kGpaVirtioGpu \<equiv> 0x0A000600"
abbreviation kGpaVirtioKeyboard :: u64 where "kGpaVirtioKeyboard \<equiv> 0x0A000800"
abbreviation kGpaVirtioTablet :: u64 where "kGpaVirtioTablet \<equiv> 0x0A000A00"
abbreviation kGpaGicDist :: u64 where "kGpaGicDist \<equiv> 0x08000000"
abbreviation kGpaGicDistSize :: u64 where "kGpaGicDistSize \<equiv> 0x10000"
abbreviation kGpaGicRedist :: u64 where "kGpaGicRedist \<equiv> 0x080A0000"
abbreviation kGpaGicRedistStride :: u64 where "kGpaGicRedistStride \<equiv> 0x20000"
abbreviation kVcpuMax :: u64 where "kVcpuMax \<equiv> 8"
abbreviation kPstateEl1h :: u64 where "kPstateEl1h \<equiv> 0x3C5"

section \<open>State\<close>

record pl011_state =
  pl_cr :: u32
  pl_lcr :: u32
  pl_imsc :: u32
  pl_tx_fd :: int

definition pl011_init :: pl011_state where
  "pl011_init = \<lparr>pl_cr = 0x300, pl_lcr = 0, pl_imsc = 0, pl_tx_fd = -1\<rparr>"

text \<open>
  A virtual CPU: the register file Hypervisor.framework keeps for it, by register number (general and
  system registers), the mask of its virtual timer and the mailbox of the CPU_ON handshake.
\<close>

record vcpu =
  vc_regs :: "nat \<Rightarrow> u64"
  vc_sys :: "nat \<Rightarrow> u64"
  vc_vtimer_masked :: bool
  boot_pc :: u64
  boot_x0 :: u64
  boot_pending :: bool

definition vcpu_new :: vcpu where
  "vcpu_new = \<lparr>vc_regs = (\<lambda>_. 0), vc_sys = (\<lambda>_. 0), vc_vtimer_masked = False,
     boot_pc = 0, boot_x0 = 0, boot_pending = False\<rparr>"

record 'e machine = vm_map +
  kernel_entry :: u64
  initrd_gpa :: u64
  initrd_size :: u64
  dtb_gpa :: u64
  vcpu_count :: u32
  running :: bool
  cmdline :: string
  pl011 :: pl011_state
  vcpus :: "vcpu list"
  console_dev :: "console option"
  block_dev :: "block option"
  net_dev :: "net option"
  gpu_dev :: "gpu option"
  keyboard_dev :: "input option"
  tablet_dev :: "input option"
  gpu_out :: "pending_frame list"
  log_out :: "u8 list"
  hst :: "'e host"

text \<open>
  What the operating system and Hypervisor.framework provide: the disk's system calls, the network stack
  behind the net device, the clock, and the numbers of the registers.
\<close>

record 'e vmm_os =
  os_blk :: "'e blk_os"
  os_guest_tx :: "'e \<Rightarrow> frame \<Rightarrow> ('e \<times> frame list) option"
  os_time :: "'e \<Rightarrow> u64"
  reg_x0 :: nat
  reg_pc :: nat
  reg_cpsr :: nat
  sys_sctlr :: nat
  sys_cpacr :: nat
  sys_mpidr :: nat

text \<open>
  The header of Hypervisor.framework: X0 to X30 are consecutive and the other registers are distinct from
  them and from each other.
\<close>

definition regs_distinct :: "'e vmm_os \<Rightarrow> bool" where
  "regs_distinct os \<longleftrightarrow> reg_pc os \<notin> {reg_x0 os ..< reg_x0 os + 31} \<and> reg_cpsr os \<notin> {reg_x0 os ..< reg_x0 os + 31}
     \<and> reg_pc os \<noteq> reg_cpsr os \<and> distinct [sys_sctlr os, sys_cpacr os, sys_mpidr os]"

section \<open>Operations\<close>

definition vmcontext_new :: "u32 \<Rightarrow> u64 \<Rightarrow> 'e host \<Rightarrow> 'e machine" where
  "vmcontext_new n sz h =
     \<lparr>ram_hva = 0, ram_gpa = kGpaRamBase, ram_size = sz, kernel_entry = 0, initrd_gpa = 0, initrd_size = 0,
      dtb_gpa = 0, vcpu_count = n, running = False, cmdline = [], pl011 = pl011_init, vcpus = [],
      console_dev = None, block_dev = None, net_dev = None, gpu_dev = None, keyboard_dev = None, tablet_dev = None,
      gpu_out = [], log_out = [], hst = h\<rparr>"

definition set_ram :: "u64 \<Rightarrow> u64 \<Rightarrow> u64 \<Rightarrow> 'e machine \<Rightarrow> 'e machine" where
  "set_ram hva gpa sz m = m\<lparr>ram_hva := hva, ram_gpa := gpa, ram_size := sz\<rparr>"

definition init_vcpus :: "'e machine \<Rightarrow> 'e machine" where
  "init_vcpus m = m\<lparr>vcpus := vcpus m @ replicate (unat (vcpu_count m)) vcpu_new\<rparr>"

definition create_console :: "int \<Rightarrow> int \<Rightarrow> 'e machine \<Rightarrow> 'e machine" where
  "create_console rx tx m = m\<lparr>console_dev := Some (console_new rx tx)\<rparr>"

definition create_block :: "int \<Rightarrow> u64 option \<Rightarrow> 'e machine \<Rightarrow> 'e machine" where
  "create_block fd st m = m\<lparr>block_dev := Some (block_new fd st)\<rparr>"

definition create_net :: "bool \<Rightarrow> u8 list \<Rightarrow> 'e machine \<Rightarrow> 'e machine" where
  "create_net enabled mac m = (if \<not> enabled then m else m\<lparr>net_dev := Some (net_new mac)\<rparr>)"

definition create_gpu :: "u32 \<Rightarrow> u32 \<Rightarrow> bool \<Rightarrow> 'e machine \<Rightarrow> 'e machine" where
  "create_gpu w h cb m = m\<lparr>gpu_dev := Some (gpu_new w h cb)\<rparr>"

definition create_keyboard :: "'e machine \<Rightarrow> 'e machine" where
  "create_keyboard m = m\<lparr>keyboard_dev := Some (input_new kSpiKeyboard Keyboard 0 0)\<rparr>"

definition create_tablet :: "u32 \<Rightarrow> u32 \<Rightarrow> 'e machine \<Rightarrow> 'e machine" where
  "create_tablet w h m = m\<lparr>tablet_dev := Some (input_new kSpiTablet Tablet w h)\<rparr>"

definition vm_stop :: "'e machine \<Rightarrow> 'e machine" where
  "vm_stop m = m\<lparr>running := False\<rparr>"

section \<open>Registers of a virtual CPU\<close>

definition upd_vcpu :: "nat \<Rightarrow> (vcpu \<Rightarrow> vcpu) \<Rightarrow> 'e machine \<Rightarrow> 'e machine" where
  "upd_vcpu i f m = m\<lparr>vcpus := (vcpus m)[i := f (vcpus m ! i)]\<rparr>"

text \<open>\<^verbatim>\<open>hv_vcpu_get_reg\<close> and \<^verbatim>\<open>hv_vcpu_set_reg\<close> on the handle of CPU \<open>i\<close>.\<close>

definition get_reg :: "nat \<Rightarrow> nat \<Rightarrow> 'e machine \<Rightarrow> u64" where
  "get_reg i r m = vc_regs (vcpus m ! i) r"

definition set_reg :: "nat \<Rightarrow> nat \<Rightarrow> u64 \<Rightarrow> 'e machine \<Rightarrow> 'e machine" where
  "set_reg i r v = upd_vcpu i (\<lambda>c. c\<lparr>vc_regs := (vc_regs c)(r := v)\<rparr>)"

definition xreg_id :: "'e vmm_os \<Rightarrow> u32 \<Rightarrow> nat" where
  "xreg_id os n = reg_x0 os + unat n"

definition get_xreg :: "'e vmm_os \<Rightarrow> nat \<Rightarrow> u32 \<Rightarrow> 'e machine \<Rightarrow> u64" where
  "get_xreg os i n m = (if n = 31 then 0 else get_reg i (xreg_id os n) m)"

definition set_xreg :: "'e vmm_os \<Rightarrow> nat \<Rightarrow> u32 \<Rightarrow> u64 \<Rightarrow> 'e machine \<Rightarrow> 'e machine" where
  "set_xreg os i n v m = (if n = 31 then m else set_reg i (xreg_id os n) v m)"

definition advance_pc :: "'e vmm_os \<Rightarrow> nat \<Rightarrow> 'e machine \<Rightarrow> 'e machine" where
  "advance_pc os i m = set_reg i (reg_pc os) (get_reg i (reg_pc os) m + 4) m"

text \<open>Everything but the virtual CPUs.\<close>

definition same_but_vcpus :: "'e machine \<Rightarrow> 'e machine \<Rightarrow> bool" where
  "same_but_vcpus m m' \<longleftrightarrow> m'\<lparr>vcpus := vcpus m\<rparr> = m"

text \<open>Register numbers \<open>rs\<close> of CPU \<open>i\<close> are all that may differ between the CPUs of two machines.\<close>

definition only_regs :: "nat \<Rightarrow> nat set \<Rightarrow> 'e machine \<Rightarrow> 'e machine \<Rightarrow> bool" where
  "only_regs i rs m m' \<longleftrightarrow> (\<exists>f. vcpus m' = (vcpus m)[i := (vcpus m ! i)\<lparr>vc_regs := f\<rparr>]
     \<and> (\<forall>r. r \<notin> rs \<longrightarrow> f r = vc_regs (vcpus m ! i) r))"

lemma same_but_vcpus_refl [simp]: "same_but_vcpus m m"
  by (simp add: same_but_vcpus_def)

lemma same_but_vcpus_reg [simp]: "same_but_vcpus m (set_reg i r v m') = same_but_vcpus m m'"
  "same_but_vcpus m (advance_pc os i m') = same_but_vcpus m m'"
  by (simp_all add: same_but_vcpus_def set_reg_def upd_vcpu_def advance_pc_def)

lemma only_regs_refl [simp]: "only_regs i rs m m"
  by (auto simp: only_regs_def intro!: exI [of _ "vc_regs (vcpus m ! i)"])

lemma only_regs_set_reg [simp]:
  assumes "r \<in> rs" and "only_regs i rs m m'"
  shows "only_regs i rs m (set_reg i r v m')"
proof -
  from assms obtain f where "vcpus m' = (vcpus m)[i := (vcpus m ! i)\<lparr>vc_regs := f\<rparr>]"
    "\<forall>r. r \<notin> rs \<longrightarrow> f r = vc_regs (vcpus m ! i) r" by (auto simp: only_regs_def)
  with assms(1) show ?thesis
    unfolding only_regs_def
    by (cases "i < length (vcpus m)") (auto simp: set_reg_def upd_vcpu_def list_update_beyond intro!: exI [of _ "f(r := v)"])
qed

lemma only_regs_advance_pc [simp]: "reg_pc os \<in> rs \<Longrightarrow> only_regs i rs m m' \<Longrightarrow> only_regs i rs m (advance_pc os i m')"
  by (simp add: advance_pc_def)

lemma get_set_reg [simp]:
  "i < length (vcpus m) \<Longrightarrow> get_reg i r (set_reg i r' v m) = (if r = r' then v else get_reg i r m)"
  by (simp add: get_reg_def set_reg_def upd_vcpu_def)

lemma length_vcpus_simps [simp]:
  "length (vcpus (upd_vcpu i f m)) = length (vcpus m)"
  "length (vcpus (set_reg i r v m)) = length (vcpus m)"
  "length (vcpus (set_xreg os i n v m)) = length (vcpus m)"
  "length (vcpus (advance_pc os i m)) = length (vcpus m)"
  by (simp_all add: upd_vcpu_def set_reg_def set_xreg_def advance_pc_def)

lemma get_reg_advance_pc [simp]:
  "i < length (vcpus m) \<Longrightarrow>
    get_reg i r (advance_pc os i m) = (if r = reg_pc os then get_reg i r m + 4 else get_reg i r m)"
  by (simp add: advance_pc_def)

lemma xreg_id_inj: "xreg_id os n = xreg_id os n' \<longleftrightarrow> n = n'"
  by (simp add: xreg_id_def word_unat_eq_iff)

section \<open>An example\<close>

text \<open>A machine with two CPUs and a keyboard, and the register numbers of Hypervisor.framework.\<close>

definition demo_vm :: "unit machine" where
  "demo_vm = create_keyboard (init_vcpus (vmcontext_new 2 0x10000000 \<lparr>mem = (\<lambda>_. 0), spi_calls = [], sent = [], ext = ()\<rparr>))"

definition demo_vmm_os :: "unit vmm_os" where
  "demo_vmm_os = \<lparr>os_blk = \<lparr>pread = (\<lambda>_ _ _ _. None), pwrite = (\<lambda>e _ _ _. (e, False)), fsync = (\<lambda>e _. e)\<rparr>,
     os_guest_tx = (\<lambda>e f. Some (e, [])), os_time = (\<lambda>_. 0), reg_x0 = 0, reg_pc = 31, reg_cpsr = 34,
     sys_sctlr = 0xC080, sys_cpacr = 0xC082, sys_mpidr = 0xC005\<rparr>"

lemma demo_vm_simps:
  "length (vcpus demo_vm) = 2" "get_xreg demo_vmm_os 0 n demo_vm = 0" "get_reg 0 k demo_vm = 0"
  "pl011 demo_vm = pl011_init" "regs_distinct demo_vmm_os" "reg_pc demo_vmm_os = 31" "reg_x0 demo_vmm_os = 0"
  by (simp_all add: demo_vm_def create_keyboard_def init_vcpus_def vmcontext_new_def get_xreg_def get_reg_def
      vcpu_new_def xreg_id_def demo_vmm_os_def regs_distinct_def)

end
