(* ===== verification/Psci.thy ===== *)
theory Psci
  imports Machine
begin

text \<open>
  The PSCI calls a guest makes with HVC or SMC (\<^verbatim>\<open>src/src/hvf/fw_psci.cpp\<close>, \<^verbatim>\<open>fw_psci.hpp\<close>).
\<close>

abbreviation kPsciVersion :: u32 where "kPsciVersion \<equiv> 0x84000000"
abbreviation kPsciCpuSuspend :: u32 where "kPsciCpuSuspend \<equiv> 0xC4000001"
abbreviation kPsciCpuOff :: u32 where "kPsciCpuOff \<equiv> 0x84000002"
abbreviation kPsciCpuOn :: u32 where "kPsciCpuOn \<equiv> 0xC4000003"
abbreviation kPsciMigrateInfo :: u32 where "kPsciMigrateInfo \<equiv> 0x84000006"
abbreviation kPsciSystemOff :: u32 where "kPsciSystemOff \<equiv> 0x84000008"
abbreviation kPsciSystemReset :: u32 where "kPsciSystemReset \<equiv> 0x84000009"
abbreviation kPsciFeatures :: u32 where "kPsciFeatures \<equiv> 0x8400000A"

abbreviation kPsciRetSuccess :: u64 where "kPsciRetSuccess \<equiv> 0"
abbreviation kPsciRetNotSupported :: u64 where "kPsciRetNotSupported \<equiv> 0xFFFFFFFFFFFFFFFF"
abbreviation kPsciRetInvalidParams :: u64 where "kPsciRetInvalidParams \<equiv> 0xFFFFFFFFFFFFFFFE"

text \<open>The value of PSCI_FEATURES for the queried function.\<close>

definition psci_features :: "u32 \<Rightarrow> u64" where
  "psci_features queried =
     (if queried = kPsciVersion \<or> queried = kPsciCpuOn \<or> queried = kPsciCpuOff \<or> queried = kPsciCpuSuspend
         \<or> queried = kPsciSystemOff \<or> queried = kPsciSystemReset \<or> queried = kPsciMigrateInfo \<or> queried = kPsciFeatures
      then kPsciRetSuccess else kPsciRetNotSupported)"

text \<open>
  CPU_ON. \<open>None\<close> is the \<^verbatim>\<open>std::out_of_range\<close> of \<^verbatim>\<open>vcpus_.at\<close>, for a context whose CPUs were not created.
\<close>

definition psci_cpu_on :: "'e vmm_os \<Rightarrow> nat \<Rightarrow> 'e machine \<Rightarrow> 'e machine option" where
  "psci_cpu_on os i m =
     (let target = ucast (get_xreg os i 1 m AND 0xFF) :: u32;
          entry = get_xreg os i 2 m;
          ctx_id = get_xreg os i 3 m
      in if target \<ge> vcpu_count m then Some (set_xreg os i 0 kPsciRetInvalidParams m)
         else if unat target \<ge> length (vcpus m) then None
         else Some (set_xreg os i 0 kPsciRetSuccess
                (upd_vcpu (unat target) (\<lambda>c. c\<lparr>boot_pc := entry, boot_x0 := ctx_id, boot_pending := True\<rparr>) m)))"

text \<open>The result says whether the CPU goes on.\<close>

definition psci_dispatch :: "'e vmm_os \<Rightarrow> nat \<Rightarrow> 'e machine \<Rightarrow> ('e machine \<times> bool) option" where
  "psci_dispatch os i m =
     (let fn = ucast (get_xreg os i 0 m) :: u32
      in if fn = kPsciVersion then Some (set_xreg os i 0 0x00010000 m, True)
         else if fn = kPsciCpuOn then map_option (\<lambda>m'. (m', True)) (psci_cpu_on os i m)
         else if fn = kPsciCpuOff then Some (m, False)
         else if fn = kPsciSystemOff \<or> fn = kPsciSystemReset then Some (vm_stop m, False)
         else if fn = kPsciMigrateInfo then Some (set_xreg os i 0 2 m, True)
         else if fn = kPsciCpuSuspend then Some (set_xreg os i 0 kPsciRetSuccess m, True)
         else if fn = kPsciFeatures then Some (set_xreg os i 0 (psci_features (ucast (get_xreg os i 1 m))) m, True)
         else Some (set_xreg os i 0 kPsciRetNotSupported m, True))"

lemmas psci_simps = psci_dispatch_def psci_cpu_on_def Let_def

lemma get_set_xreg [simp]:
  "i < length (vcpus m) \<Longrightarrow> n < 31 \<Longrightarrow> n' < 31 \<Longrightarrow>
    get_xreg os i n (set_xreg os i n' v m) = (if n = n' then v else get_xreg os i n m)"
  by (auto simp: get_xreg_def set_xreg_def xreg_id_inj)

lemma get_xreg_upd_boot [simp]:
  "get_xreg os i n (upd_vcpu t (\<lambda>c. c\<lparr>boot_pc := e, boot_x0 := x, boot_pending := b\<rparr>) m) = get_xreg os i n m"
  by (cases "t < length (vcpus m)") (auto simp: get_xreg_def get_reg_def upd_vcpu_def nth_list_update list_update_beyond)

text \<open>The CPUs have been created.\<close>

definition vcpus_ready :: "'e machine \<Rightarrow> bool" where
  "vcpus_ready m \<longleftrightarrow> length (vcpus m) = unat (vcpu_count m)"

text \<open>
  C32. PSCI_FEATURES tells the truth: it reports a function as supported exactly when calling that function
  does not end with NOT_SUPPORTED.
\<close>

theorem psci_features_exact:
  assumes "vcpus_ready m" and "i < length (vcpus m)" and "ucast (get_xreg os i 0 m) = kPsciFeatures"
  shows "\<exists>m'. psci_dispatch os i m = Some (m', True)
    \<and> get_xreg os i 0 m' = (if \<exists>r. psci_dispatch os i (set_xreg os i 0 (ucast (ucast (get_xreg os i 1 m) :: u32)) m) = Some (r, True)
          \<and> get_xreg os i 0 r = kPsciRetNotSupported
        then kPsciRetNotSupported else kPsciRetSuccess)"
proof -
  define f :: u32 where "f = ucast (get_xreg os i 1 m)"
  let ?m = "set_xreg os i 0 (ucast f) m"
  have f: "ucast (get_xreg os i 0 ?m) = f" using assms(2) by (simp add: ucast_down_ucast_id is_down.rep_eq)
  have len: "i < length (vcpus ?m)" "vcpus_ready ?m"
    using assms(1,2) by (simp_all add: vcpus_ready_def set_xreg_def set_reg_def upd_vcpu_def)
  have on: "get_xreg os i 0 r \<noteq> kPsciRetNotSupported" if "psci_cpu_on os i ?m = Some r" for r
    using that len(1) by (auto simp: psci_cpu_on_def Let_def split: if_splits)
  have "(\<exists>r. psci_dispatch os i ?m = Some (r, True) \<and> get_xreg os i 0 r = kPsciRetNotSupported)
      \<longleftrightarrow> psci_features f = kPsciRetNotSupported"
  proof (cases "psci_features f = kPsciRetNotSupported")
    case True
    then have "psci_dispatch os i ?m = Some (set_xreg os i 0 kPsciRetNotSupported ?m, True)"
      by (simp add: psci_dispatch_def Let_def f psci_features_def split: if_splits)
    with True len(1) show ?thesis by simp
  next
    case False
    then have "f = kPsciVersion \<or> f = kPsciCpuOn \<or> f = kPsciCpuOff \<or> f = kPsciCpuSuspend
         \<or> f = kPsciSystemOff \<or> f = kPsciSystemReset \<or> f = kPsciMigrateInfo \<or> f = kPsciFeatures"
      by (simp add: psci_features_def split: if_splits)
    then have "get_xreg os i 0 r \<noteq> kPsciRetNotSupported" if "psci_dispatch os i ?m = Some (r, True)" for r
      using that len(1) on unfolding psci_dispatch_def Let_def f
      by (elim disjE) (auto simp: psci_features_def f_def [symmetric])
    with False show ?thesis by blast
  qed
  then show ?thesis
    using assms(2,3) by (simp add: psci_simps psci_features_def flip: f_def)
qed

text \<open>The two outcomes of CPU_ON.\<close>

lemma psci_cpu_on_eq:
  assumes "vcpus_ready m" and "ucast (get_xreg os i 0 m) = kPsciCpuOn" and "t = unat (get_xreg os i 1 m AND 0xFF)"
  shows "psci_dispatch os i m = Some
    (if t < length (vcpus m)
     then set_xreg os i 0 kPsciRetSuccess
       (upd_vcpu t (\<lambda>c. c\<lparr>boot_pc := get_xreg os i 2 m, boot_x0 := get_xreg os i 3 m, boot_pending := True\<rparr>) m)
     else set_xreg os i 0 kPsciRetInvalidParams m, True)"
proof -
  let ?a = "get_xreg os i 1 m AND 0xFF"
  have "?a \<le> 0xFF" by (rule word_and_le1)
  then have "unat ?a \<le> 255" by (simp add: word_le_nat_alt)
  then have "unat (ucast ?a :: u32) = t" using assms(3) by (simp add: unsigned_ucast_eq take_bit_nat_eq_self)
  then show ?thesis using assms(1,2) by (simp add: psci_simps vcpus_ready_def word_le_nat_alt)
qed

text \<open>
  CPU_ON hands over the boot parameters: a CPU number in range gets the entry point and the context in its
  mailbox and the caller SUCCESS, every other number INVALID_PARAMETERS; no other CPU and nothing
  else of the machine changes.
\<close>

theorem psci_cpu_on_mailbox:
  assumes "vcpus_ready m" and "i < length (vcpus m)" and "ucast (get_xreg os i 0 m) = kPsciCpuOn"
    and "t = unat (get_xreg os i 1 m AND 0xFF)"
  shows "\<exists>m'. psci_dispatch os i m = Some (m', True) \<and> same_but_vcpus m m' \<and> length (vcpus m') = length (vcpus m)
    \<and> get_xreg os i 0 m' = (if t < length (vcpus m) then kPsciRetSuccess else kPsciRetInvalidParams)
    \<and> (\<forall>j < length (vcpus m). let c' = vcpus m' ! j; c = vcpus m ! j in
         (boot_pc c', boot_x0 c', boot_pending c')
           = (if j = t then (get_xreg os i 2 m, get_xreg os i 3 m, True) else (boot_pc c, boot_x0 c, boot_pending c))
         \<and> (\<forall>r. j \<noteq> i \<or> r \<noteq> reg_x0 os \<longrightarrow> vc_regs c' r = vc_regs c r))"
  using psci_cpu_on_eq [OF assms(1,3,4)] assms(2)
  by (auto simp: same_but_vcpus_def set_xreg_def set_reg_def upd_vcpu_def nth_list_update get_xreg_def get_reg_def xreg_id_def Let_def)

section \<open>Witnesses\<close>

lemma demo_vm_ready: "vcpus_ready demo_vm"
  by (simp add: vcpus_ready_def demo_vm_def create_keyboard_def init_vcpus_def vmcontext_new_def)

theorem psci_features_exact_witness:
  "\<exists>m'. psci_dispatch demo_vmm_os 0 (set_xreg demo_vmm_os 0 1 0x84000008 (set_xreg demo_vmm_os 0 0 0x8400000A demo_vm)) = Some (m', True)
    \<and> get_xreg demo_vmm_os 0 0 m' = kPsciRetSuccess"
proof -
  let ?m = "set_xreg demo_vmm_os 0 1 0x84000008 (set_xreg demo_vmm_os 0 0 0x8400000A demo_vm)"
  have "vcpus_ready ?m" "0 < length (vcpus ?m)" "ucast (get_xreg demo_vmm_os 0 0 ?m) = kPsciFeatures"
    using demo_vm_simps(1) demo_vm_ready by (simp_all add: vcpus_ready_def set_xreg_def set_reg_def upd_vcpu_def get_xreg_def get_reg_def xreg_id_def demo_vmm_os_def)
  moreover have "\<not> (\<exists>r. psci_dispatch demo_vmm_os 0 (set_xreg demo_vmm_os 0 0 (ucast (ucast (get_xreg demo_vmm_os 0 1 ?m) :: u32)) ?m) = Some (r, True))"
    using demo_vm_simps(1) by (simp add: psci_dispatch_def Let_def)
  ultimately show ?thesis using psci_features_exact [of ?m 0 demo_vmm_os] by auto
qed

theorem psci_cpu_on_mailbox_witness:
  "\<exists>m'. psci_dispatch demo_vmm_os 0 (set_xreg demo_vmm_os 0 2 0x40400000 (set_xreg demo_vmm_os 0 1 1 (set_xreg demo_vmm_os 0 0 0xC4000003 demo_vm)))
      = Some (m', True) \<and> get_xreg demo_vmm_os 0 0 m' = kPsciRetSuccess \<and> boot_pc (vcpus m' ! 1) = 0x40400000 \<and> boot_pending (vcpus m' ! 1)"
proof -
  let ?m = "set_xreg demo_vmm_os 0 2 0x40400000 (set_xreg demo_vmm_os 0 1 1 (set_xreg demo_vmm_os 0 0 0xC4000003 demo_vm))"
  have "vcpus_ready ?m" "length (vcpus ?m) = 2"
    using demo_vm_simps(1) demo_vm_ready by (simp_all add: vcpus_ready_def set_xreg_def set_reg_def upd_vcpu_def)
  moreover have "ucast (get_xreg demo_vmm_os 0 0 ?m) = kPsciCpuOn" "get_xreg demo_vmm_os 0 1 ?m = 1" "get_xreg demo_vmm_os 0 2 ?m = 0x40400000"
    using demo_vm_simps(1) by simp_all
  ultimately show ?thesis using psci_cpu_on_mailbox [of ?m 0 demo_vmm_os 1] by (auto simp: Let_def dest!: spec [of _ "1 :: nat"])
qed

end
