(* ===== verification/Exit_Handler.thy ===== *)
theory Exit_Handler
  imports Psci
begin

text \<open>
  What happens when a virtual CPU leaves the guest (\<^verbatim>\<open>src/src/hvf/exit_handler.cpp\<close>): the decoding of the
  syndrome, the emulated UART and clock, and the routing of an access to a device.
\<close>

section \<open>Exits\<close>

datatype exit_reason = HV_EXIT_REASON_CANCELED | HV_EXIT_REASON_EXCEPTION | HV_EXIT_REASON_VTIMER_ACTIVATED
  | HV_EXIT_REASON_OTHER

record vcpu_exit =
  ex_reason :: exit_reason
  ex_syndrome :: u64
  ex_ipa :: u64

abbreviation kEcWfiWfe :: u32 where "kEcWfiWfe \<equiv> 0x01"
abbreviation kEcMsrMrs :: u32 where "kEcMsrMrs \<equiv> 0x18"
abbreviation kEcHvcA64 :: u32 where "kEcHvcA64 \<equiv> 0x16"
abbreviation kEcSmcA64 :: u32 where "kEcSmcA64 \<equiv> 0x17"
abbreviation kEcIabtLower :: u32 where "kEcIabtLower \<equiv> 0x20"
abbreviation kEcDabtLower :: u32 where "kEcDabtLower \<equiv> 0x24"

definition handle_msr_mrs :: "'e vmm_os \<Rightarrow> nat \<Rightarrow> vcpu_exit \<Rightarrow> 'e machine \<Rightarrow> 'e machine" where
  "handle_msr_mrs os i ex m =
     (let iss = ucast (ex_syndrome ex) AND 0x1FFFFFF :: u32;
          is_read = (drop_bit 4 iss AND 1 \<noteq> 0);
          rt = iss AND 0xF
      in advance_pc os i (if is_read \<and> rt < 31 then set_reg i (xreg_id os rt) 0 m else m))"

section \<open>PL011 and PL031\<close>

text \<open>A byte written to the data register goes to the serial pipe, or to the log when there is none.\<close>

definition uart_write :: "u32 \<Rightarrow> u64 \<Rightarrow> 'e machine \<Rightarrow> 'e machine" where
  "uart_write off v m =
     (let p = pl011 m; ch = ucast (v AND 0xFF) :: u8
      in if off = 0x000 then
           (if pl_tx_fd p \<ge> 0 then m\<lparr>hst := fd_write (pl_tx_fd p) [ch] (hst m)\<rparr>
            else m\<lparr>log_out := log_out m @ [ch]\<rparr>)
         else if off = 0x030 then m\<lparr>pl011 := p\<lparr>pl_cr := ucast v\<rparr>\<rparr>
         else if off = 0x02C then m\<lparr>pl011 := p\<lparr>pl_lcr := ucast v\<rparr>\<rparr>
         else if off = 0x038 then m\<lparr>pl011 := p\<lparr>pl_imsc := ucast v\<rparr>\<rparr>
         else m)"

definition uart_read :: "u32 \<Rightarrow> 'e machine \<Rightarrow> u32" where
  "uart_read off m =
     (if off = 0x000 then 0
      else if off = 0x018 then 0x90
      else if off = 0x030 then pl_cr (pl011 m)
      else if off = 0x02C then pl_lcr (pl011 m)
      else if off = 0x038 then pl_imsc (pl011 m)
      else if off = 0x040 then 0
      else if off = 0xFE0 then 0x11
      else if off = 0xFE4 then 0x10
      else if off = 0xFE8 then 0x14
      else if off = 0xFEC then 0x00
      else if off = 0xFF0 then 0x0D
      else if off = 0xFF4 then 0xF0
      else if off = 0xFF8 then 0x05
      else if off = 0xFFC then 0xB1
      else 0)"

definition rtc_read :: "'e vmm_os \<Rightarrow> u32 \<Rightarrow> 'e machine \<Rightarrow> u32" where
  "rtc_read os off m =
     (if off = 0x000 then ucast (os_time os (ext (hst m)))
      else if off = 0xFE0 then 0x31
      else if off = 0xFE4 then 0x10
      else if off = 0xFE8 then 0x04
      else if off = 0xFEC then 0x00
      else if off = 0xFF0 then 0x0D
      else if off = 0xFF4 then 0xF0
      else if off = 0xFF8 then 0x05
      else if off = 0xFFC then 0xB1
      else 0)"

definition gic_read :: "u64 \<Rightarrow> u32" where
  "gic_read ipa =
     (if ipa \<ge> kGpaGicRedist \<and> ipa < kGpaGicRedist + kVcpuMax * kGpaGicRedistStride
      then (if ucast (ipa - kGpaGicRedist) AND (0xFFFF :: u32) = 0xFFE8 then 0x3B else 0)
      else 0)"

section \<open>Memory-mapped accesses\<close>

text \<open>
  \<open>ld\<close> and \<open>st\<close> are the two ends of an access: a load puts the value into the register of the instruction,
  both step over it. \<open>None\<close> when the device's operation does not return or leaves its memory.
\<close>

definition handle_mmio :: "'e vmm_os \<Rightarrow> nat \<Rightarrow> vcpu_exit \<Rightarrow> 'e machine \<Rightarrow> 'e machine option" where
  "handle_mmio os i ex m =
     (let ipa = ex_ipa ex; esr = ex_syndrome ex;
          wnr = (drop_bit 6 esr AND 1 \<noteq> 0);
          srt = ucast (drop_bit 16 esr AND 0x1F) :: u32;
          sas = ucast (drop_bit 22 esr AND 0x3) :: u32;
          len = push_bit (unat sas) 1 :: u32;
          v = get_xreg os i srt m;
          ld = (\<lambda>val m'. advance_pc os i (set_reg i (xreg_id os srt) (ucast (val :: u32)) m'));
          st = advance_pc os i
      in if ipa \<ge> kGpaUart0 \<and> ipa < kGpaUart0 + kGpaUart0Size then
           (let off = ucast (ipa - kGpaUart0) :: u32
            in Some (if wnr then st (uart_write off v m) else ld (uart_read off m) m))
         else if ipa \<ge> kGpaRtcBase \<and> ipa < kGpaRtcBase + kGpaRtcSize then
           (let off = ucast (ipa - kGpaRtcBase) :: u32
            in Some (if \<not> wnr then ld (rtc_read os off m) m else st m))
         else if ipa \<ge> kGpaVirtioConsole \<and> ipa < kGpaVirtioConsole + kGpaVirtioStride then
           (let off = ucast (ipa - kGpaVirtioConsole) :: u32
            in case console_dev m of
                 None \<Rightarrow> Some (if \<not> wnr then ld 0 m else st m)
               | Some d \<Rightarrow>
                   if wnr then map_option (\<lambda>(d', h). st (m\<lparr>console_dev := Some d', hst := h\<rparr>))
                     (console_write m (d, hst m) off (ucast v))
                   else Some (ld (console_read d off) m))
         else if ipa \<ge> kGpaVirtioBlock \<and> ipa < kGpaVirtioBlock + kGpaVirtioStride then
           (let off = ucast (ipa - kGpaVirtioBlock) :: u32
            in case block_dev m of
                 None \<Rightarrow> Some (if \<not> wnr then ld 0 m else st m)
               | Some d \<Rightarrow>
                   if wnr then map_option (\<lambda>(d', h). st (m\<lparr>block_dev := Some d', hst := h\<rparr>))
                     (block_write (os_blk os) m (d, hst m) off (ucast v))
                   else Some (ld (block_read d off) m))
         else if ipa \<ge> kGpaVirtioNet \<and> ipa < kGpaVirtioNet + kGpaVirtioStride then
           (let off = ucast (ipa - kGpaVirtioNet) :: u32
            in case net_dev m of
                 None \<Rightarrow> Some (if \<not> wnr then ld 0 m else st m)
               | Some d \<Rightarrow>
                   if wnr then map_option (\<lambda>(d', h). st (m\<lparr>net_dev := Some d', hst := h\<rparr>))
                     (net_write (os_guest_tx os) m (d, hst m) off (ucast v))
                   else map_option (\<lambda>val. ld val m) (net_read d off len))
         else if ipa \<ge> kGpaVirtioGpu \<and> ipa < kGpaVirtioGpu + kGpaVirtioStride then
           (let off = ucast (ipa - kGpaVirtioGpu) :: u32
            in case gpu_dev m of
                 None \<Rightarrow> Some (if \<not> wnr then ld 0 m else st m)
               | Some d \<Rightarrow>
                   if wnr then map_option (\<lambda>((d', h), fs). st (m\<lparr>gpu_dev := Some d', hst := h, gpu_out := gpu_out m @ fs\<rparr>))
                     (gpu_write m (d, hst m) off (ucast v))
                   else map_option (\<lambda>val. ld val m) (gpu_read d off))
         else if ipa \<ge> kGpaVirtioKeyboard \<and> ipa < kGpaVirtioKeyboard + kGpaVirtioStride then
           (let off = ucast (ipa - kGpaVirtioKeyboard) :: u32
            in case keyboard_dev m of
                 None \<Rightarrow> Some (if \<not> wnr then ld 0 m else st m)
               | Some d \<Rightarrow>
                   if wnr then map_option (\<lambda>(d', h). st (m\<lparr>keyboard_dev := Some d', hst := h\<rparr>))
                     (input_write m (d, hst m) off (ucast v) len)
                   else map_option (\<lambda>val. ld val m) (input_read d off len))
         else if ipa \<ge> kGpaVirtioTablet \<and> ipa < kGpaVirtioTablet + kGpaVirtioStride then
           (let off = ucast (ipa - kGpaVirtioTablet) :: u32
            in case tablet_dev m of
                 None \<Rightarrow> Some (if \<not> wnr then ld 0 m else st m)
               | Some d \<Rightarrow>
                   if wnr then map_option (\<lambda>(d', h). st (m\<lparr>tablet_dev := Some d', hst := h\<rparr>))
                     (input_write m (d, hst m) off (ucast v) len)
                   else map_option (\<lambda>val. ld val m) (input_read d off len))
         else if ipa \<ge> kGpaGicDist \<and> ipa < kGpaGicDist + kGpaGicDistSize
              \<or> ipa \<ge> kGpaGicRedist \<and> ipa < kGpaGicRedist + kVcpuMax * kGpaGicRedistStride then
           Some (if \<not> wnr then ld (gic_read ipa) m else st m)
         else Some (st m))"

section \<open>Dispatch\<close>

definition exit_handle :: "'e vmm_os \<Rightarrow> nat \<Rightarrow> vcpu_exit \<Rightarrow> 'e machine \<Rightarrow> ('e machine \<times> bool) option" where
  "exit_handle os i ex m =
     (case ex_reason ex of
        HV_EXIT_REASON_CANCELED \<Rightarrow> Some (m, True)
      | HV_EXIT_REASON_VTIMER_ACTIVATED \<Rightarrow> Some (upd_vcpu i (\<lambda>c. c\<lparr>vc_vtimer_masked := False\<rparr>) m, True)
      | HV_EXIT_REASON_EXCEPTION \<Rightarrow>
          (let ec = ucast (drop_bit 26 (ex_syndrome ex) AND 0x3F) :: u32
           in if ec = kEcWfiWfe then Some (advance_pc os i m, True)
              else if ec = kEcMsrMrs then Some (handle_msr_mrs os i ex m, True)
              else if ec = kEcHvcA64 \<or> ec = kEcSmcA64 then psci_dispatch os i m
              else if ec = kEcIabtLower \<or> ec = kEcDabtLower then map_option (\<lambda>m'. (m', True)) (handle_mmio os i ex m)
              else Some (advance_pc os i m, True))
      | HV_EXIT_REASON_OTHER \<Rightarrow> Some (m, False))"

section \<open>The address map\<close>

datatype region = R_Uart | R_Rtc | R_Console | R_Block | R_Net | R_Gpu | R_Keyboard | R_Tablet | R_GicDist | R_GicRedist

definition memory_map :: "(region \<times> u64 \<times> u64) list" where
  "memory_map =
     [(R_Uart, kGpaUart0, kGpaUart0Size), (R_Rtc, kGpaRtcBase, kGpaRtcSize),
      (R_Console, kGpaVirtioConsole, kGpaVirtioStride), (R_Block, kGpaVirtioBlock, kGpaVirtioStride),
      (R_Net, kGpaVirtioNet, kGpaVirtioStride), (R_Gpu, kGpaVirtioGpu, kGpaVirtioStride),
      (R_Keyboard, kGpaVirtioKeyboard, kGpaVirtioStride), (R_Tablet, kGpaVirtioTablet, kGpaVirtioStride),
      (R_GicDist, kGpaGicDist, kGpaGicDistSize), (R_GicRedist, kGpaGicRedist, 0x100000)]"

definition in_win :: "u64 \<Rightarrow> u64 \<Rightarrow> u64 \<Rightarrow> bool" where
  "in_win base sz ipa \<longleftrightarrow> ipa \<ge> base \<and> ipa < base + sz"

definition region_of :: "u64 \<Rightarrow> region option" where
  "region_of ipa = map_option fst (find (\<lambda>(r, base, sz). in_win base sz ipa) memory_map)"

text \<open>What an access to a region may change, beside the registers of the CPU that makes it.\<close>

fun confined :: "region option \<Rightarrow> 'e machine \<Rightarrow> 'e machine \<Rightarrow> bool" where
  "confined (Some R_Uart) m m' \<longleftrightarrow> m'\<lparr>pl011 := pl011 m, log_out := log_out m, hst := hst m, vcpus := vcpus m\<rparr> = m"
| "confined (Some R_Console) m m' \<longleftrightarrow> m'\<lparr>console_dev := console_dev m, hst := hst m, vcpus := vcpus m\<rparr> = m"
| "confined (Some R_Block) m m' \<longleftrightarrow> m'\<lparr>block_dev := block_dev m, hst := hst m, vcpus := vcpus m\<rparr> = m"
| "confined (Some R_Net) m m' \<longleftrightarrow> m'\<lparr>net_dev := net_dev m, hst := hst m, vcpus := vcpus m\<rparr> = m"
| "confined (Some R_Gpu) m m' \<longleftrightarrow> m'\<lparr>gpu_dev := gpu_dev m, gpu_out := gpu_out m, hst := hst m, vcpus := vcpus m\<rparr> = m"
| "confined (Some R_Keyboard) m m' \<longleftrightarrow> m'\<lparr>keyboard_dev := keyboard_dev m, hst := hst m, vcpus := vcpus m\<rparr> = m"
| "confined (Some R_Tablet) m m' \<longleftrightarrow> m'\<lparr>tablet_dev := tablet_dev m, hst := hst m, vcpus := vcpus m\<rparr> = m"
| "confined _ m m' \<longleftrightarrow> m'\<lparr>vcpus := vcpus m\<rparr> = m"

text \<open>The fields of a syndrome.\<close>

definition esr_wnr :: "u64 \<Rightarrow> bool" where "esr_wnr esr \<longleftrightarrow> drop_bit 6 esr AND 1 \<noteq> 0"
definition esr_srt :: "u64 \<Rightarrow> u32" where "esr_srt esr = ucast (drop_bit 16 esr AND 0x1F)"

lemma region_of_if:
  "region_of ipa =
     (if in_win kGpaUart0 kGpaUart0Size ipa then Some R_Uart
      else if in_win kGpaRtcBase kGpaRtcSize ipa then Some R_Rtc
      else if in_win kGpaVirtioConsole kGpaVirtioStride ipa then Some R_Console
      else if in_win kGpaVirtioBlock kGpaVirtioStride ipa then Some R_Block
      else if in_win kGpaVirtioNet kGpaVirtioStride ipa then Some R_Net
      else if in_win kGpaVirtioGpu kGpaVirtioStride ipa then Some R_Gpu
      else if in_win kGpaVirtioKeyboard kGpaVirtioStride ipa then Some R_Keyboard
      else if in_win kGpaVirtioTablet kGpaVirtioStride ipa then Some R_Tablet
      else if in_win kGpaGicDist kGpaGicDistSize ipa then Some R_GicDist
      else if in_win kGpaGicRedist 0x100000 ipa then Some R_GicRedist
      else None)"
  by (simp add: region_of_def memory_map_def)

text \<open>The windows do not overlap each other or RAM: the order of the tests does not matter.\<close>

lemma memory_map_disjoint:
  "e \<in> set memory_map \<Longrightarrow> e' \<in> set memory_map \<Longrightarrow> in_win (fst (snd e)) (snd (snd e)) ipa \<Longrightarrow>
    in_win (fst (snd e')) (snd (snd e')) ipa \<Longrightarrow> e = e'"
  "e \<in> set memory_map \<Longrightarrow> in_win (fst (snd e)) (snd (snd e)) ipa \<Longrightarrow> ipa < kGpaRamBase"
  by (auto simp: memory_map_def in_win_def word_le_nat_alt word_less_nat_alt)

lemma esr_srt_less: "esr_srt esr \<le> 31"
proof -
  have "drop_bit 16 esr AND 0x1F \<le> 0x1F" by (rule word_and_le1)
  then show ?thesis
    by (simp add: esr_srt_def word_le_nat_alt unsigned_ucast_eq take_bit_nat_eq_self)
qed

text \<open>
  The shape of every result: the register of a load, then the program counter. \<open>mid\<close> is the machine
  after the device's part of the access.
\<close>

definition mmio_shape :: "'e vmm_os \<Rightarrow> nat \<Rightarrow> u64 \<Rightarrow> region option \<Rightarrow> 'e machine \<Rightarrow> 'e machine \<Rightarrow> bool" where
  "mmio_shape os i esr r m m' \<longleftrightarrow> (\<exists>mid. confined r m mid \<and> vcpus mid = vcpus m
     \<and> (m' = advance_pc os i mid \<or> (\<not> esr_wnr esr \<and> (\<exists>val. m' = advance_pc os i (set_reg i (xreg_id os (esr_srt esr)) val mid)))))"

lemma mmio_shape_st: "confined r m mid \<Longrightarrow> vcpus mid = vcpus m \<Longrightarrow> mmio_shape os i esr r m (advance_pc os i mid)"
  by (auto simp: mmio_shape_def)

lemma mmio_shape_ld:
  "\<not> esr_wnr esr \<Longrightarrow> confined r m m \<Longrightarrow> mmio_shape os i esr r m (advance_pc os i (set_reg i (xreg_id os (esr_srt esr)) val m))"
  by (auto simp: mmio_shape_def)

lemma confined_refl [simp]: "confined r m m"
  by (cases "(r, m, m)" rule: confined.cases) simp_all

lemma handle_mmio_shape:
  assumes "handle_mmio os i ex m = Some m'"
  shows "mmio_shape os i (ex_syndrome ex) (region_of (ex_ipa ex)) m m'"
proof -
  note unf = handle_mmio_def [folded in_win_def, folded esr_srt_def, folded esr_wnr_def] Let_def
  show ?thesis
  proof (cases "esr_wnr (ex_syndrome ex)")
    case True
    then show ?thesis
      using assms unfolding unf region_of_if uart_write_def
      by (auto split: if_splits option.splits intro!: mmio_shape_st)
  next
    case False
    then show ?thesis
      using assms unfolding unf region_of_if
      by (auto split: if_splits option.splits intro!: mmio_shape_ld mmio_shape_st [OF confined_refl])
  qed
qed

text \<open>
  C8. Routing: an access changes only the device whose window it hits (and the host through it), whatever that
  device does; an address outside every window changes no device. The windows are disjoint. Of the CPUs only the one
  that made the access changes, only in the target register of a load and in its program counter, which moves to the
  next instruction.
\<close>

theorem mmio_isolated:
  assumes "handle_mmio os i ex m = Some m'" and "i < length (vcpus m)"
  shows "confined (region_of (ex_ipa ex)) m m'
    \<and> (\<forall>(r, base, sz) \<in> set memory_map. region_of (ex_ipa ex) = Some r \<longleftrightarrow> in_win base sz (ex_ipa ex))
    \<and> only_regs i ({reg_pc os} \<union> (if esr_wnr (ex_syndrome ex) then {} else {xreg_id os (esr_srt (ex_syndrome ex))})) m m'
    \<and> (esr_wnr (ex_syndrome ex) \<or> esr_srt (ex_syndrome ex) \<noteq> 31 \<longrightarrow> regs_distinct os \<longrightarrow>
        get_reg i (reg_pc os) m' = get_reg i (reg_pc os) m + 4)"
proof -
  let ?e = "ex_syndrome ex" and ?r = "region_of (ex_ipa ex)"
  have eqv: "confined r m (advance_pc os i x) = confined r m x" "confined r m (set_reg i n v x) = confined r m x" for r x n v
    by (cases "(r, m, x)" rule: confined.cases; simp add: advance_pc_def set_reg_def upd_vcpu_def)+
  from handle_mmio_shape [OF assms(1)] obtain mid where mid: "confined ?r m mid" "vcpus mid = vcpus m"
    and m': "m' = advance_pc os i mid \<or> (\<not> esr_wnr ?e \<and> (\<exists>val. m' = advance_pc os i (set_reg i (xreg_id os (esr_srt ?e)) val mid)))"
    by (auto simp: mmio_shape_def)
  have "confined ?r m m'" using mid(1) m' by (auto simp: eqv)
  moreover have "\<forall>(r, base, sz) \<in> set memory_map. ?r = Some r \<longleftrightarrow> in_win base sz (ex_ipa ex)"
    unfolding region_of_if by (auto simp: memory_map_def in_win_def word_le_nat_alt word_less_nat_alt)
  moreover have "only_regs i S m mid" for S
    using mid(2) unfolding only_regs_def by (intro exI [of _ "vc_regs (vcpus m ! i)"]) simp
  then have "only_regs i ({reg_pc os} \<union> (if esr_wnr ?e then {} else {xreg_id os (esr_srt ?e)})) m m'"
    using m' by auto
  moreover have "get_reg i (reg_pc os) m' = get_reg i (reg_pc os) m + 4"
    if "esr_wnr ?e \<or> esr_srt ?e \<noteq> 31" "regs_distinct os"
  proof -
    have "get_reg i r mid = get_reg i r m" for r using mid(2) by (simp add: get_reg_def)
    moreover have "esr_srt ?e \<noteq> 31 \<Longrightarrow> xreg_id os (esr_srt ?e) \<noteq> reg_pc os"
      using that(2) esr_srt_less [of ?e] by (auto simp: regs_distinct_def xreg_id_def word_le_nat_alt word_unat_eq_iff)
    ultimately show ?thesis using m' that(1) mid(2) assms(2) by auto
  qed
  ultimately show ?thesis by blast
qed

text \<open>
  A load into the zero register is a jump. Register number 31 of a load is XZR, which is written to register
  number X0 + 31 all the same. In Hypervisor.framework that is the program counter: after reading the UART's
  flag register into XZR the CPU continues at the value read plus 4.
\<close>

theorem load_to_xzr_sets_pc:
  assumes "i < length (vcpus m)" and "reg_pc os = reg_x0 os + 31"
    and "\<not> esr_wnr (ex_syndrome ex)" and "esr_srt (ex_syndrome ex) = 31"
    and "in_win kGpaUart0 kGpaUart0Size (ex_ipa ex)"
  shows "map_option (get_reg i (reg_pc os)) (handle_mmio os i ex m)
    = Some (ucast (uart_read (ucast (ex_ipa ex - kGpaUart0)) m) + 4)"
  using assms
  by (simp add: handle_mmio_def [folded in_win_def, folded esr_srt_def, folded esr_wnr_def] Let_def xreg_id_def)

text \<open>
  The syndrome of a trapped system-register access as the architecture lays it out: bit 0 is the direction
  (1 for MRS), then CRm in bits 4:1, Rt in bits 9:5, CRn, op1, op2 and op0.
\<close>

definition mrs_iss :: "nat \<Rightarrow> nat \<Rightarrow> nat \<Rightarrow> nat \<Rightarrow> nat \<Rightarrow> nat \<Rightarrow> bool \<Rightarrow> nat" where
  "mrs_iss op0 op1 crn crm op2 rt is_mrs =
     op0 * 2 ^ 20 + op2 * 2 ^ 17 + op1 * 2 ^ 14 + crn * 2 ^ 10 + rt * 2 ^ 5 + crm * 2 + of_bool is_mrs"

lemma esr_low_bits:
  assumes "n < 2 ^ 25"
  shows "unat (((ucast (of_nat n :: u64) :: u32) AND 0x1FFFFFF) AND 0xF) = n mod 16"
    and "(drop_bit 4 ((ucast (of_nat n :: u64) :: u32) AND 0x1FFFFFF) AND 1 \<noteq> 0) \<longleftrightarrow> odd (n div 16)"
proof -
  have m: "(0x1FFFFFF :: u32) = mask 25" "(0xF :: u32) = mask 4" by (simp_all add: mask_eq_exp_minus_1)
  have u: "unat ((ucast (of_nat n :: u64) :: u32) AND 0x1FFFFFF) = n"
    using assms unfolding m
    by (simp add: unsigned_take_bit_eq unsigned_ucast_eq unsigned_of_nat take_bit_nat_eq_self flip: take_bit_eq_mask)
  have "unat (w AND 0xF) = unat w mod 16" for w :: u32
    unfolding m(2) take_bit_eq_mask [symmetric] unsigned_take_bit_eq by (simp add: take_bit_nat_def)
  from this [of "(ucast (of_nat n :: u64) :: u32) AND 0x1FFFFFF"] u
  show "unat (((ucast (of_nat n :: u64) :: u32) AND 0x1FFFFFF) AND 0xF) = n mod 16" by (simp only:)
  have "(drop_bit 4 w AND 1 \<noteq> 0) \<longleftrightarrow> odd (unat w div 16)" for w :: u32
  proof -
    have "(drop_bit 4 w AND 1 \<noteq> 0) \<longleftrightarrow> bit w 4" by (simp add: and_one_eq mod_2_eq_odd bit_iff_odd_drop_bit)
    also have "\<dots> \<longleftrightarrow> bit (unat w) 4" by (simp add: bit_unsigned_iff)
    also have "\<dots> \<longleftrightarrow> odd (unat w div 16)" by (simp add: bit_iff_odd)
    finally show ?thesis .
  qed
  from this [of "(ucast (of_nat n :: u64) :: u32) AND 0x1FFFFFF"] u
  show "(drop_bit 4 ((ucast (of_nat n :: u64) :: u32) AND 0x1FFFFFF) AND 1 \<noteq> 0) \<longleftrightarrow> odd (n div 16)" by (simp only:)
qed

lemma split_low5:
  fixes c d x :: nat
  assumes "c < 16" and "d < 2"
  shows "(32 * x + (2 * c + d)) mod 16 = (2 * c + d) mod 16" "odd ((32 * x + (2 * c + d)) div 16) \<longleftrightarrow> 8 \<le> c"
proof -
  have "32 * x + (2 * c + d) = (2 * c + d) + 16 * (2 * x)" by simp
  then show "(32 * x + (2 * c + d)) mod 16 = (2 * c + d) mod 16" by (simp only: mod_mult_self2)
  have "(32 * x + (2 * c + d)) div 16 = 2 * x + (2 * c + d) div 16" by simp
  moreover have "(2 * c + d) div 16 = (if 8 \<le> c then 1 else 0)" using assms by (simp add: div_nat_eqI)
  ultimately show "odd ((32 * x + (2 * c + d)) div 16) \<longleftrightarrow> 8 \<le> c" by simp
qed

text \<open>
  What a trapped system-register access does to the CPU. Rt and the direction are taken from the bits of CRm:
  a register is zeroed exactly when CRm is at least 8, also for a write, and it is not Rt but the one whose
  number is the low four bits of the syndrome. An MRS of a register with a smaller CRm leaves Rt unchanged.
\<close>

theorem msr_mrs_decodes_crm:
  assumes "i < length (vcpus m)" and "regs_distinct os" and "rt < 32" and "crm < 16" and "crn < 16"
    and "op1 < 8" and "op2 < 8" and "op0 < 4"
    and "ex_syndrome ex = of_nat (mrs_iss op0 op1 crn crm op2 rt is_mrs)" and "n < 31"
  shows "get_reg i (reg_x0 os + n) (handle_msr_mrs os i ex m)
    = (if 8 \<le> crm \<and> n = (2 * crm + of_bool is_mrs) mod 16 then 0 else get_reg i (reg_x0 os + n) m)"
proof -
  let ?iss = "mrs_iss op0 op1 crn crm op2 rt is_mrs"
  let ?d = "of_bool is_mrs :: nat"
  let ?x = "op0 * 2 ^ 15 + op2 * 2 ^ 12 + op1 * 2 ^ 9 + crn * 2 ^ 5 + rt"
  have d: "?d < 2" by simp
  have split: "?iss = 32 * ?x + (2 * crm + ?d)" by (simp add: mrs_iss_def)
  have lt: "?iss < 2 ^ 25" unfolding split using assms(3-8) d by simp
  note low = split_low5 [OF assms(4) d, of ?x, folded split]
  have pc: "reg_pc os \<noteq> reg_x0 os + n" using assms(2,10) by (auto simp: regs_distinct_def)
  have rt: "((ucast (of_nat ?iss :: u64) :: u32) AND 0x1FFFFFF) AND 0xF < 31"
  proof -
    have "((ucast (of_nat ?iss :: u64) :: u32) AND 0x1FFFFFF) AND 0xF \<le> 0xF" by (rule word_and_le1)
    then show ?thesis by (simp add: word_le_nat_alt word_less_nat_alt)
  qed
  have id: "xreg_id os (((ucast (of_nat ?iss :: u64) :: u32) AND 0x1FFFFFF) AND 0xF) = reg_x0 os + (2 * crm + ?d) mod 16"
    unfolding xreg_id_def esr_low_bits(1) [OF lt] low(1) ..
  have "handle_msr_mrs os i ex m
      = advance_pc os i (if 8 \<le> crm then set_reg i (reg_x0 os + (2 * crm + ?d) mod 16) 0 m else m)"
    unfolding handle_msr_mrs_def Let_def assms(9) esr_low_bits(2) [OF lt] low(2) id using rt by (simp only: simp_thms)
  then show ?thesis using assms(1) pc by simp
qed

section \<open>Witnesses\<close>

text \<open>A store of X1 to the UART's control register.\<close>

definition demo_store :: vcpu_exit where
  "demo_store = \<lparr>ex_reason = HV_EXIT_REASON_EXCEPTION, ex_syndrome = 0x93810046, ex_ipa = 0x09000030\<rparr>"

lemma demo_store_fields: "esr_wnr (ex_syndrome demo_store)" "esr_srt (ex_syndrome demo_store) = 1" "ex_ipa demo_store = 0x09000030"
  by (simp_all add: demo_store_def esr_wnr_def esr_srt_def)

theorem mmio_isolated_witness:
  "\<exists>m'. handle_mmio demo_vmm_os 0 demo_store demo_vm = Some m' \<and> confined (Some R_Uart) demo_vm m' \<and> get_reg 0 31 m' = 4"
proof -
  have r: "region_of (ex_ipa demo_store) = Some R_Uart" by (simp add: region_of_if in_win_def demo_store_fields)
  obtain m' where m': "handle_mmio demo_vmm_os 0 demo_store demo_vm = Some m'"
    by (simp add: handle_mmio_def demo_store_fields Let_def)
  from mmio_isolated [OF this] show ?thesis using m' r by (simp add: demo_vm_simps demo_store_fields del: confined.simps)
qed

theorem load_to_xzr_sets_pc_witness:
  "map_option (get_reg 0 (reg_pc demo_vmm_os))
     (handle_mmio demo_vmm_os 0 \<lparr>ex_reason = HV_EXIT_REASON_EXCEPTION, ex_syndrome = 0x939F0006, ex_ipa = 0x09000018\<rparr> demo_vm) = Some 0x94"
  using load_to_xzr_sets_pc [of 0 demo_vm demo_vmm_os "\<lparr>ex_reason = HV_EXIT_REASON_EXCEPTION, ex_syndrome = 0x939F0006, ex_ipa = 0x09000018\<rparr>"]
  by (simp add: demo_vm_simps esr_wnr_def esr_srt_def in_win_def uart_read_def)

text \<open>\<^verbatim>\<open>MRS X3, ID_AA64PFR0_EL1\<close>: op0 3, op1 0, CRn 0, CRm 4, op2 0. X3 keeps its value.\<close>

theorem msr_mrs_decodes_crm_witness:
  "get_reg 0 3 (handle_msr_mrs demo_vmm_os 0 \<lparr>ex_reason = HV_EXIT_REASON_EXCEPTION, ex_syndrome = of_nat (mrs_iss 3 0 0 4 0 3 True), ex_ipa = 0\<rparr>
     (set_reg 0 3 7 demo_vm)) = 7"
  using msr_mrs_decodes_crm [of 0 "set_reg 0 3 7 demo_vm" demo_vmm_os 3 4 0 0 0 3
      "\<lparr>ex_reason = HV_EXIT_REASON_EXCEPTION, ex_syndrome = of_nat (mrs_iss 3 0 0 4 0 3 True), ex_ipa = 0\<rparr>" True 3]
  by (simp add: demo_vm_simps)

end
