(* ===== verification/Vcpu.thy ===== *)
theory Vcpu
  imports Exit_Handler
begin

text \<open>
  The threads of a running machine: one per virtual CPU (\<^verbatim>\<open>src/src/hvf/vcpu.cpp\<close>) and the one that called
  \<^verbatim>\<open>run_all\<close> (\<^verbatim>\<open>vm_context.cpp\<close>). Their interleaving is a step relation; a step of a CPU thread is what it does
  between two looks at shared state.
\<close>

section \<open>Boot registers\<close>

definition setup_regs :: "'e vmm_os \<Rightarrow> nat \<Rightarrow> u64 \<Rightarrow> u64 \<Rightarrow> 'e machine \<Rightarrow> 'e machine" where
  "setup_regs os i pc x0 m = upd_vcpu i (\<lambda>c. c\<lparr>
     vc_regs := (vc_regs c)(reg_pc os := pc, reg_x0 os := x0, reg_x0 os + 1 := 0, reg_x0 os + 2 := 0, reg_x0 os + 3 := 0,
       reg_cpsr os := kPstateEl1h),
     vc_sys := (vc_sys c)(sys_sctlr os := 0x00C50078, sys_cpacr os := 0x00300000, sys_mpidr os := 0x80000000 OR of_nat i)\<rparr>) m"

text \<open>A secondary CPU takes the mailbox, clears it and starts.\<close>

definition take_mailbox :: "nat \<Rightarrow> 'e machine \<Rightarrow> 'e machine" where
  "take_mailbox i = upd_vcpu i (\<lambda>c. c\<lparr>boot_pending := False\<rparr>)"

definition boot_secondary :: "'e vmm_os \<Rightarrow> nat \<Rightarrow> 'e machine \<Rightarrow> 'e machine" where
  "boot_secondary os i m = setup_regs os i (boot_pc (vcpus m ! i)) (boot_x0 (vcpus m ! i)) (take_mailbox i m)"

section \<open>Threads\<close>

datatype vthread = Spawned | Spinning | AtLoop | InGuest | Exited

datatype main_phase = MainIdle | MainPolling | MainJoining nat | MainDone

record 'e vmm =
  vm_m :: "'e machine"
  vm_threads :: "vthread list"
  vm_main :: main_phase

text \<open>
  What \<^verbatim>\<open>hv_vcpu_run\<close> may change before it returns: the registers of the CPU and the guest's memory.
\<close>

definition guest_ran :: "nat \<Rightarrow> 'e machine \<Rightarrow> 'e machine \<Rightarrow> bool" where
  "guest_ran i m m' \<longleftrightarrow> (\<exists>f g mem'. m' = upd_vcpu i (\<lambda>c. c\<lparr>vc_regs := f, vc_sys := g\<rparr>) (m\<lparr>hst := hst m\<lparr>mem := mem'\<rparr>\<rparr>))"

definition set_thread :: "nat \<Rightarrow> vthread \<Rightarrow> 'e machine \<Rightarrow> 'e vmm \<Rightarrow> 'e vmm" where
  "set_thread i t m s = s\<lparr>vm_m := m, vm_threads := (vm_threads s)[i := t]\<rparr>"

abbreviation thread_is :: "'e vmm \<Rightarrow> nat \<Rightarrow> vthread \<Rightarrow> bool" where
  "thread_is s i t \<equiv> i < length (vm_threads s) \<and> vm_threads s ! i = t"

text \<open>
  The results of \<^verbatim>\<open>hv_vcpu_create\<close>, \<^verbatim>\<open>hv_vcpu_set_reg\<close> and \<^verbatim>\<open>hv_vcpu_run\<close> are not determined: each has a rule for its
  success and one for its failure. \<open>stop\<close> is \<^verbatim>\<open>VMContext::stop\<close> called from outside.
\<close>

inductive vmm_step :: "'e vmm_os \<Rightarrow> 'e vmm \<Rightarrow> 'e vmm \<Rightarrow> bool" for os where
  run_all: "vm_main s = MainIdle \<Longrightarrow>
     vmm_step os s (s\<lparr>vm_m := (vm_m s)\<lparr>running := True\<rparr>, vm_threads := replicate (length (vcpus (vm_m s))) Spawned, vm_main := MainPolling\<rparr>)"
| create_fail: "thread_is s i Spawned \<Longrightarrow> vmm_step os s (set_thread i Exited (vm_stop (vm_m s)) s)"
| primary: "thread_is s 0 Spawned \<Longrightarrow>
     vmm_step os s (set_thread 0 AtLoop (setup_regs os 0 (kernel_entry (vm_m s)) (dtb_gpa (vm_m s)) (vm_m s)) s)"
| primary_fail: "thread_is s 0 Spawned \<Longrightarrow> vmm_step os s (set_thread 0 Exited (vm_stop (vm_m s)) s)"
| secondary: "thread_is s i Spawned \<Longrightarrow> i \<noteq> 0 \<Longrightarrow> vmm_step os s (set_thread i Spinning (vm_m s) s)"
| boot: "thread_is s i Spinning \<Longrightarrow> boot_pending (vcpus (vm_m s) ! i) \<Longrightarrow>
     vmm_step os s (set_thread i AtLoop (boot_secondary os i (vm_m s)) s)"
| boot_fail: "thread_is s i Spinning \<Longrightarrow> boot_pending (vcpus (vm_m s) ! i) \<Longrightarrow>
     vmm_step os s (set_thread i Exited (vm_stop (take_mailbox i (vm_m s))) s)"
| loop_enter: "thread_is s i AtLoop \<Longrightarrow> running (vm_m s) \<Longrightarrow> vmm_step os s (set_thread i InGuest (vm_m s) s)"
| loop_exit: "thread_is s i AtLoop \<Longrightarrow> \<not> running (vm_m s) \<Longrightarrow> vmm_step os s (set_thread i Exited (vm_m s) s)"
| run_fail: "thread_is s i InGuest \<Longrightarrow> vmm_step os s (set_thread i Exited (vm_m s) s)"
| guest_exit: "thread_is s i InGuest \<Longrightarrow> guest_ran i (vm_m s) m \<Longrightarrow> exit_handle os i ex m = Some (m', cont) \<Longrightarrow>
     vmm_step os s (set_thread i (if cont then AtLoop else Exited) m' s)"
| stop: "running (vm_m s) \<Longrightarrow> vmm_step os s (s\<lparr>vm_m := vm_stop (vm_m s)\<rparr>)"
| main_seen: "vm_main s = MainPolling \<Longrightarrow> \<not> running (vm_m s) \<Longrightarrow> vmm_step os s (s\<lparr>vm_main := MainJoining 0\<rparr>)"
| main_join: "vm_main s = MainJoining k \<Longrightarrow> thread_is s k Exited \<Longrightarrow> vmm_step os s (s\<lparr>vm_main := MainJoining (Suc k)\<rparr>)"
| main_done: "vm_main s = MainJoining k \<Longrightarrow> k = length (vm_threads s) \<Longrightarrow>
     vmm_step os s (s\<lparr>vm_m := vm_stop (vm_m s), vm_main := MainDone\<rparr>)"

lemma set_thread_simps [simp]:
  "vm_m (set_thread i t m s) = m" "vm_threads (set_thread i t m s) = (vm_threads s)[i := t]"
  "vm_main (set_thread i t m s) = vm_main s"
  by (simp_all add: set_thread_def)

section \<open>Switching a CPU on\<close>

definition mailbox :: "nat \<Rightarrow> 'e machine \<Rightarrow> bool \<times> u64 \<times> u64" where
  "mailbox t m = (boot_pending (vcpus m ! t), boot_pc (vcpus m ! t), boot_x0 (vcpus m ! t))"

text \<open>The exit of CPU \<open>i\<close> is the call CPU_ON, by HVC or SMC, for CPU \<open>t\<close> with entry point \<open>pc\<close> and context \<open>x\<close>.\<close>

definition cpu_on_call :: "'e vmm_os \<Rightarrow> nat \<Rightarrow> vcpu_exit \<Rightarrow> 'e machine \<Rightarrow> nat \<Rightarrow> u64 \<Rightarrow> u64 \<Rightarrow> bool" where
  "cpu_on_call os i ex m t pc x \<longleftrightarrow> ex_reason ex = HV_EXIT_REASON_EXCEPTION
     \<and> drop_bit 26 (ex_syndrome ex) AND 0x3F \<in> {0x16, 0x17} \<and> ucast (get_xreg os i 0 m) = kPsciCpuOn
     \<and> t = unat (get_xreg os i 1 m AND 0xFF) \<and> pc = get_xreg os i 2 m \<and> x = get_xreg os i 3 m"

text \<open>
  CPU \<open>t\<close> is about to run for the first time: at \<open>pc\<close>, with \<open>x\<close> in X0 and zero in X1 to X3, at EL1h with interrupts
  masked, its own number in MPIDR, and an empty mailbox.
\<close>

definition starts_at :: "'e vmm_os \<Rightarrow> nat \<Rightarrow> u64 \<Rightarrow> u64 \<Rightarrow> 'e vmm \<Rightarrow> bool" where
  "starts_at os t pc x s \<longleftrightarrow> thread_is s t AtLoop \<and> (let c = vcpus (vm_m s) ! t in
     vc_regs c (reg_pc os) = pc \<and> vc_regs c (reg_x0 os) = x \<and> (\<forall>k \<in> {1..3}. vc_regs c (reg_x0 os + k) = 0)
     \<and> vc_regs c (reg_cpsr os) = 0x3C5 \<and> vc_sys c (sys_mpidr os) = 0x80000000 OR of_nat t \<and> \<not> boot_pending c)"

lemma boot_starts_at:
  assumes "regs_distinct os" and "thread_is s t Spinning" and "t < length (vcpus (vm_m s))"
  shows "starts_at os t (boot_pc (vcpus (vm_m s) ! t)) (boot_x0 (vcpus (vm_m s) ! t)) (set_thread t AtLoop (boot_secondary os t (vm_m s)) s)"
proof -
  have "reg_x0 os + k \<noteq> reg_pc os" "reg_x0 os + k \<noteq> reg_cpsr os" if "k < 31" for k
    using assms(1) that by (auto simp: regs_distinct_def)
  note ne = this [of 0] this [of 1] this [of 2] this [of 3]
  have "{1..3} = {1, 2, 3 :: nat}" by auto
  with ne assms show ?thesis
    by (auto simp: starts_at_def boot_secondary_def setup_regs_def take_mailbox_def upd_vcpu_def regs_distinct_def)
qed

lemma mailbox_upd:
  assumes "\<And>c. boot_pending (f c) = boot_pending c" "\<And>c. boot_pc (f c) = boot_pc c" "\<And>c. boot_x0 (f c) = boot_x0 c"
  shows "mailbox t (upd_vcpu i f m) = mailbox t m"
  using assms by (cases "t = i"; cases "i < length (vcpus m)") (simp_all add: mailbox_def upd_vcpu_def list_update_beyond)

lemma mailbox_simps [simp]:
  "mailbox t (set_reg i r v m) = mailbox t m" "mailbox t (set_xreg os i n v m) = mailbox t m" "mailbox t (advance_pc os i m) = mailbox t m"
  "mailbox t (vm_stop m) = mailbox t m" "mailbox t (setup_regs os i pc x m) = mailbox t m"
  by (simp_all add: set_xreg_def set_reg_def advance_pc_def setup_regs_def mailbox_upd) (simp add: mailbox_def vm_stop_def)

lemma mailbox_vcpus: "vcpus m' = vcpus m \<Longrightarrow> mailbox t m' = mailbox t m"
  by (simp add: mailbox_def)

lemma guest_ran_mailbox: "guest_ran i m m' \<Longrightarrow> mailbox t m' = mailbox t m \<and> length (vcpus m') = length (vcpus m)"
  by (auto simp: guest_ran_def mailbox_upd) (simp add: mailbox_def)

lemma mailbox_boot [simp]:
  "t < length (vcpus m) \<Longrightarrow> mailbox t (upd_vcpu j (\<lambda>c. c\<lparr>boot_pc := e, boot_x0 := x, boot_pending := b\<rparr>) m)
     = (if t = j then (b, e, x) else mailbox t m)"
  by (simp add: mailbox_def upd_vcpu_def)

text \<open>Only CPU_ON fills a mailbox, and no exit takes from one.\<close>

lemma psci_mailbox:
  assumes "psci_dispatch os i m = Some (m', cont)" and "t < length (vcpus m)"
  shows "mailbox t m' = mailbox t m
    \<or> ucast (get_xreg os i 0 m) = kPsciCpuOn \<and> t = unat (get_xreg os i 1 m AND 0xFF) \<and> mailbox t m' = (True, get_xreg os i 2 m, get_xreg os i 3 m)"
proof -
  let ?a = "get_xreg os i 1 m AND 0xFF"
  have "?a \<le> 0xFF" by (rule word_and_le1)
  then have "unat ?a \<le> 255" by (simp add: word_le_nat_alt)
  then have "unat (ucast ?a :: u32) = unat ?a" by (simp add: unsigned_ucast_eq take_bit_nat_eq_self)
  then have "mailbox t r = mailbox t m \<or> t = unat ?a \<and> mailbox t r = (True, get_xreg os i 2 m, get_xreg os i 3 m)"
    if "psci_cpu_on os i m = Some r" for r
    using that assms(2) by (auto simp: psci_cpu_on_def Let_def split: if_splits)
  with assms(1) show ?thesis by (auto simp: psci_dispatch_def Let_def split: if_splits)
qed

lemma psci_length: "psci_dispatch os i m = Some (m', cont) \<Longrightarrow> length (vcpus m') = length (vcpus m)"
  unfolding psci_simps by (auto simp: vm_stop_def split: if_splits)

lemma mmio_mailbox:
  assumes "handle_mmio os i ex m = Some m'"
  shows "mailbox t m' = mailbox t m" "length (vcpus m') = length (vcpus m)"
proof -
  from handle_mmio_shape [OF assms] obtain mid where mid: "vcpus mid = vcpus m"
    and "m' = advance_pc os i mid \<or> (\<exists>r val. m' = advance_pc os i (set_reg i r val mid))"
    unfolding mmio_shape_def by blast
  then show "mailbox t m' = mailbox t m" "length (vcpus m') = length (vcpus m)"
    using mailbox_vcpus [OF mid, of t] by auto
qed

text \<open>What an exit does, by its class.\<close>

lemma exit_by_class:
  assumes "exit_handle os i ex m = Some (m', cont)"
  shows "handle_mmio os i ex m = Some m' \<and> cont
      \<or> psci_dispatch os i m = Some (m', cont) \<and> drop_bit 26 (ex_syndrome ex) AND 0x3F \<in> {0x16, 0x17 :: u64} \<and> ex_reason ex = HV_EXIT_REASON_EXCEPTION
      \<or> m' = m \<or> m' = upd_vcpu i (\<lambda>c. c\<lparr>vc_vtimer_masked := False\<rparr>) m \<or> m' = advance_pc os i m \<or> m' = handle_msr_mrs os i ex m"
proof -
  let ?ec = "drop_bit 26 (ex_syndrome ex) AND 0x3F :: u64"
  have "?ec \<le> 0x3F" by (rule word_and_le1)
  then have "unat ?ec \<le> 0x3F" by (simp add: word_le_nat_alt)
  then have "unat (ucast ?ec :: u32) = unat ?ec" by (simp add: unsigned_ucast_eq take_bit_nat_eq_self)
  then have "(ucast ?ec :: u32) = 0x16 \<longleftrightarrow> ?ec = 0x16" "(ucast ?ec :: u32) = 0x17 \<longleftrightarrow> ?ec = 0x17" by (simp_all add: word_unat_eq_iff)
  with assms show ?thesis
    unfolding exit_handle_def Let_def by (auto split: exit_reason.splits if_split_asm)
qed

lemma msr_mrs_mailbox [simp]: "mailbox t (handle_msr_mrs os i ex m) = mailbox t m"
  "length (vcpus (handle_msr_mrs os i ex m)) = length (vcpus m)"
  by (simp_all add: handle_msr_mrs_def Let_def)

lemma exit_length: "exit_handle os i ex m = Some (m', cont) \<Longrightarrow> length (vcpus m') = length (vcpus m)"
  by (drule exit_by_class, elim disjE conjE) (simp_all add: mmio_mailbox(2) psci_length)

lemma exit_mailbox:
  assumes "exit_handle os i ex m = Some (m', cont)" and "t < length (vcpus m)"
  shows "mailbox t m' = mailbox t m \<or> (\<exists>pc x. cpu_on_call os i ex m t pc x \<and> mailbox t m' = (True, pc, x))"
proof -
  have timer: "mailbox t (upd_vcpu i (\<lambda>c. c\<lparr>vc_vtimer_masked := False\<rparr>) m) = mailbox t m" by (rule mailbox_upd) simp_all
  from exit_by_class [OF assms(1)]
  show ?thesis
  proof (elim disjE conjE)
    assume "psci_dispatch os i m = Some (m', cont)" "drop_bit 26 (ex_syndrome ex) AND 0x3F \<in> {0x16, 0x17 :: u64}"
      "ex_reason ex = HV_EXIT_REASON_EXCEPTION"
    with psci_mailbox [OF _ assms(2)] show ?thesis unfolding cpu_on_call_def by blast
  qed (simp_all add: timer mmio_mailbox(1))
qed

text \<open>CPU_ON itself.\<close>

lemma exit_cpu_on:
  assumes "vcpus_ready m" and "i < length (vcpus m)" and "cpu_on_call os i ex m t pc x" and "t < length (vcpus m)"
  shows "\<exists>m'. exit_handle os i ex m = Some (m', True) \<and> get_xreg os i 0 m' = kPsciRetSuccess \<and> mailbox t m' = (True, pc, x)"
proof -
  from assms(3) have "exit_handle os i ex m = psci_dispatch os i m" by (auto simp: exit_handle_def cpu_on_call_def)
  with psci_cpu_on_eq [OF assms(1), of os i t] assms show ?thesis by (simp add: cpu_on_call_def)
qed

text \<open>The thread of \<open>t\<close> has been switched on: it will start, or has started, or has ended.\<close>

definition switched_on :: "nat \<Rightarrow> 'e vmm \<Rightarrow> bool" where
  "switched_on t s \<longleftrightarrow> vm_main s \<noteq> MainIdle \<and> t < length (vm_threads s) \<and> t < length (vcpus (vm_m s)) \<and> vm_threads s ! t \<noteq> Spawned
     \<and> (vm_threads s ! t = Spinning \<longrightarrow> fst (mailbox t (vm_m s)))"

text \<open>The mailbox of \<open>t\<close> was filled between two states by a CPU_ON of some CPU in the guest.\<close>

definition called_again :: "'e vmm_os \<Rightarrow> nat \<Rightarrow> 'e vmm \<Rightarrow> 'e vmm \<Rightarrow> bool" where
  "called_again os t s s' \<longleftrightarrow> (\<exists>j m ex pc x. thread_is s j InGuest \<and> guest_ran j (vm_m s) m \<and> cpu_on_call os j ex m t pc x
     \<and> mailbox t (vm_m s') = (True, pc, x))"

lemma take_mailbox_other [simp]: "t \<noteq> i \<Longrightarrow> mailbox t (take_mailbox i m) = mailbox t m"
  by (simp add: take_mailbox_def upd_vcpu_def mailbox_def)

lemma boot_length [simp]: "length (vcpus (setup_regs os i pc x m)) = length (vcpus m)" "length (vcpus (take_mailbox i m)) = length (vcpus m)"
  "length (vcpus (boot_secondary os i m)) = length (vcpus m)" "length (vcpus (vm_stop m)) = length (vcpus m)"
  by (simp_all add: boot_secondary_def setup_regs_def take_mailbox_def vm_stop_def)

lemma vm_stop_running [simp]: "\<not> running (vm_stop m)"
  by (simp add: vm_stop_def)

lemma mailbox_boot_secondary [simp]: "t \<noteq> i \<Longrightarrow> mailbox t (boot_secondary os i m) = mailbox t m"
  by (simp add: boot_secondary_def)

text \<open>A step of another thread leaves the mailbox of \<open>t\<close> alone or fills it again.\<close>

lemma switched_on_step:
  assumes "vmm_step os s s'" and "switched_on t s" and "regs_distinct os"
  shows "switched_on t s' \<and> (thread_is s t Spinning \<longrightarrow>
      thread_is s' t Spinning \<and> (mailbox t (vm_m s') = mailbox t (vm_m s) \<or> called_again os t s s')
    \<or> starts_at os t (boot_pc (vcpus (vm_m s) ! t)) (boot_x0 (vcpus (vm_m s) ! t)) s'
    \<or> thread_is s' t Exited \<and> \<not> running (vm_m s'))"
  using assms
proof (induction rule: vmm_step.induct)
  case (boot s i)
  then show ?case using boot_starts_at [of os t s] by (cases "i = t") (auto simp: switched_on_def)
next
  case (boot_fail s i)
  then show ?case by (cases "i = t") (auto simp: switched_on_def)
next
  case (guest_exit s i m ex m' cont)
  have t: "t < length (vcpus m)" "mailbox t m = mailbox t (vm_m s)" "length (vcpus m') = length (vcpus (vm_m s))"
    using guest_exit(2,4) guest_ran_mailbox [OF guest_exit(2), of t] exit_length [OF guest_exit(3)] by (auto simp: switched_on_def)
  let ?s' = "set_thread i (if cont then AtLoop else Exited) m' s"
  have mail: "mailbox t m' = mailbox t (vm_m s) \<or> called_again os t s ?s' \<and> fst (mailbox t m')"
    using exit_mailbox [OF guest_exit(3) t(1)] guest_exit(1,2) unfolding called_again_def t(2) by fastforce
  have "thread_is s t Spinning \<Longrightarrow> i \<noteq> t" using guest_exit(1) by auto
  with mail guest_exit(1,4) t(3) show ?case by (cases "i = t") (auto simp: switched_on_def)
next
  case (run_all s)
  then show ?case by (simp add: switched_on_def)
qed (auto simp: switched_on_def nth_list_update)


section \<open>Threads that have ended\<close>

lemma exited_step:
  "vmm_step os s s' \<Longrightarrow> vm_main s \<noteq> MainIdle \<Longrightarrow> thread_is s k Exited \<Longrightarrow> vm_main s' \<noteq> MainIdle \<and> thread_is s' k Exited"
  by (induction rule: vmm_step.induct) (auto simp: nth_list_update intro!: gr0I)

text \<open>
  CPU_OFF is for ever: the thread of a CPU that has left its loop never runs again, in any continuation, although
  CPU_ON for that CPU answers SUCCESS.
\<close>

theorem cpu_off_is_final:
  assumes "(vmm_step os)\<^sup>*\<^sup>* s s'" and "vm_main s \<noteq> MainIdle" and "thread_is s k Exited"
    and "m = vm_m s'" and "vcpus_ready m" and "i < length (vcpus m)" and "ucast (get_xreg os i 0 m) = kPsciCpuOn"
    and "unat (get_xreg os i 1 m AND 0xFF) = k" and "k < length (vcpus m)"
  shows "thread_is s' k Exited \<and> map_option (\<lambda>(m', cont). (get_xreg os i 0 m', cont)) (psci_dispatch os i m) = Some (kPsciRetSuccess, True)"
proof
  have "vm_main s' \<noteq> MainIdle \<and> thread_is s' k Exited"
    using assms(1-3) by (induction rule: rtranclp_induct) (blast dest: exited_step)+
  then show "thread_is s' k Exited" by blast
  show "map_option (\<lambda>(m', cont). (get_xreg os i 0 m', cont)) (psci_dispatch os i m) = Some (kPsciRetSuccess, True)"
    using psci_cpu_on_eq [OF assms(5,7) refl] assms(6,8,9) by simp
qed

section \<open>Shutting down\<close>

text \<open>CPU \<open>k\<close> waits for a CPU_ON that nobody can make any more.\<close>

definition stranded :: "nat \<Rightarrow> 'e vmm \<Rightarrow> bool" where
  "stranded k s \<longleftrightarrow> thread_is s k Spinning \<and> \<not> boot_pending (vcpus (vm_m s) ! k)
     \<and> (\<forall>j < length (vm_threads s). j \<noteq> k \<longrightarrow> vm_threads s ! j = Exited)
     \<and> vm_main s \<noteq> MainIdle \<and> vm_main s \<noteq> MainDone \<and> (\<forall>j. vm_main s = MainJoining j \<longrightarrow> j \<le> k)"

lemma stranded_thread:
  assumes "stranded k s" and "i < length (vm_threads s)"
  shows "vm_threads s ! i = Exited \<or> vm_threads s ! i = Spinning \<and> \<not> boot_pending (vcpus (vm_m s) ! i)"
  using assms by (cases "i = k") (auto simp: stranded_def)

lemma stranded_step: "vmm_step os s s' \<Longrightarrow> stranded k s \<Longrightarrow> stranded k s'"
proof (induction rule: vmm_step.induct)
  case (main_join s j)
  then have "j \<noteq> k" "j \<le> k" by (auto simp: stranded_def)
  with main_join show ?case by (auto simp: stranded_def)
next
  case (stop s)
  then show ?case by (simp add: stranded_def vm_stop_def)
next
  case (main_seen s)
  then show ?case by (simp add: stranded_def)
next
  case (main_done s j)
  then show ?case by (auto simp: stranded_def)
next
  case (run_all s)
  then show ?case by (simp add: stranded_def)
qed (use stranded_thread in fastforce)+

text \<open>
  A machine with a CPU that was never switched on does not shut down. When every other CPU has stopped, for instance
  after SYSTEM_OFF, a secondary CPU still spins on its mailbox, does not look at \<^verbatim>\<open>running\<close>, and \<^verbatim>\<open>run_all\<close> waits for it
  for ever, whatever happens next.
\<close>

theorem unused_cpu_blocks_shutdown:
  assumes "(vmm_step os)\<^sup>*\<^sup>* s s'" and "stranded k s"
  shows "vm_main s' \<noteq> MainDone \<and> thread_is s' k Spinning"
proof -
  from assms have "stranded k s'" by (induction rule: rtranclp_induct) (auto intro: stranded_step)
  then show ?thesis by (simp add: stranded_def)
qed

text \<open>The machine has been stopped and no CPU is in the guest; \<^verbatim>\<open>run_all\<close> has joined the threads it counts as joined.\<close>

definition winding_down :: "'e vmm \<Rightarrow> bool" where
  "winding_down s \<longleftrightarrow> \<not> running (vm_m s) \<and> InGuest \<notin> set (vm_threads s) \<and> vm_main s \<noteq> MainIdle
     \<and> (\<forall>k. vm_main s = MainJoining k \<longrightarrow> k \<le> length (vm_threads s) \<and> (\<forall>j < k. vm_threads s ! j = Exited))
     \<and> (vm_main s = MainDone \<longrightarrow> set (vm_threads s) \<subseteq> {Exited})"

fun main_left :: "nat \<Rightarrow> main_phase \<Rightarrow> nat" where
  "main_left n MainIdle = 0"
| "main_left n MainPolling = n + 2"
| "main_left n (MainJoining k) = Suc (n - k)"
| "main_left n MainDone = 0"

text \<open>What a thread still has to do, at most, on a stopped machine.\<close>

fun thread_left :: "vthread \<Rightarrow> nat" where
  "thread_left Spawned = 3"
| "thread_left Spinning = 2"
| "thread_left AtLoop = 1"
| "thread_left InGuest = 0"
| "thread_left Exited = 0"

definition steps_left :: "'e vmm \<Rightarrow> nat" where
  "steps_left s = sum_list (map thread_left (vm_threads s)) + main_left (length (vm_threads s)) (vm_main s)"

lemma sum_list_update_less:
  "i < length xs \<Longrightarrow> f y < f (xs ! i) \<Longrightarrow> sum_list (map f (xs[i := y])) < sum_list (map f xs)" for f :: "'a \<Rightarrow> nat"
  by (induction xs arbitrary: i) (auto split: nat.splits)

text \<open>CPU \<open>k\<close> has not been switched on: its thread is before or in the wait and its mailbox is empty.\<close>

definition not_on :: "'e vmm \<Rightarrow> nat \<Rightarrow> bool" where
  "not_on s k \<longleftrightarrow> k < length (vm_threads s) \<and> vm_threads s ! k \<in> {Spawned, Spinning} \<and> \<not> fst (mailbox k (vm_m s))"

text \<open>The step of one thread.\<close>

lemma winding_down_thread:
  assumes "winding_down s" and "thread_is s i t" and "t \<noteq> Exited" and "t' \<noteq> InGuest" and "thread_left t' < thread_left t" and "\<not> running m"
  shows "winding_down (set_thread i t' m s) \<and> steps_left (set_thread i t' m s) < steps_left s"
proof -
  have "InGuest \<notin> set ((vm_threads s)[i := t'])" using assms(1,4) set_update_subset_insert [of "vm_threads s" i t'] by (auto simp: winding_down_def)
  moreover have "vm_main s \<noteq> MainDone" using assms(1-3) nth_mem [of i "vm_threads s"] by (auto simp: winding_down_def)
  moreover have "(\<forall>j < k. (vm_threads s)[i := t'] ! j = Exited)" if "vm_main s = MainJoining k" for k
    using assms(1-3) that by (auto simp: winding_down_def nth_list_update)
  ultimately show ?thesis
    using assms sum_list_update_less [of i "vm_threads s" thread_left t'] by (simp add: winding_down_def steps_left_def)
qed

lemma winding_down_step:
  assumes "vmm_step os s s'" and "winding_down s"
  shows "winding_down s' \<and> steps_left s' < steps_left s"
  using assms
proof (induction rule: vmm_step.induct)
  case (main_join s k)
  then show ?case by (auto simp: winding_down_def steps_left_def less_Suc_eq)
next
  case (main_done s k)
  then show ?case by (auto simp: winding_down_def steps_left_def vm_stop_def in_set_conv_nth)
next
  case (main_seen s)
  then show ?case by (simp add: winding_down_def steps_left_def)
qed ((rule winding_down_thread, assumption, assumption;
      simp add: winding_down_def setup_regs_def boot_secondary_def take_mailbox_def upd_vcpu_def; fail)
  | (fastforce simp: winding_down_def dest: nth_mem))+

text \<open>A CPU that is off afterwards was off before.\<close>

lemma not_on_step:
  assumes "vmm_step os s s'" and "winding_down s" and "not_on s' k"
  shows "not_on s k"
  using assms
proof (induction rule: vmm_step.induct)
  case (boot s i)
  then show ?case by (cases "i = k") (auto simp: not_on_def)
next
  case (boot_fail s i)
  then show ?case by (cases "i = k") (auto simp: not_on_def)
next
  case (guest_exit s i m ex m' cont)
  then show ?case by (auto simp: winding_down_def dest: nth_mem)
next
  case (run_all s)
  then show ?case by (simp add: winding_down_def)
qed (auto simp: not_on_def nth_list_update split: if_splits)

lemma winding_down_progress:
  assumes "winding_down s" and "\<nexists>s'. vmm_step os s s'"
  shows "vm_main s = MainDone \<or> (\<exists>k. vm_main s = MainJoining k \<and> thread_is s k Spinning \<and> not_on s k)"
proof (cases "vm_main s")
  case MainPolling
  with assms show ?thesis by (auto simp: winding_down_def intro: vmm_step.main_seen)
next
  case (MainJoining k)
  have "k \<noteq> length (vm_threads s)" using MainJoining assms(2) vmm_step.main_done by blast
  then have k: "k < length (vm_threads s)" using MainJoining assms(1) by (auto simp: winding_down_def)
  then have "vm_threads s ! k \<noteq> InGuest" using assms(1) nth_mem by (fastforce simp: winding_down_def)
  moreover have "\<not> running (vm_m s)" using assms(1) by (simp add: winding_down_def)
  ultimately have "vm_threads s ! k = Spinning \<and> \<not> boot_pending (vcpus (vm_m s) ! k)"
    using k MainJoining assms(2) vmm_step.main_join vmm_step.loop_exit vmm_step.create_fail vmm_step.boot
    by (cases "vm_threads s ! k") blast+
  with MainJoining k show ?thesis by (simp add: not_on_def mailbox_def)
qed (use assms in \<open>auto simp: winding_down_def\<close>)

text \<open>
  C11. Shutting down. When the machine has been stopped and no CPU is in the guest, there is no infinite run: at most \<open>steps_left\<close>
  steps follow, from any mixture of CPU threads that are starting, waiting for CPU_ON, at their loop or have ended. A run that has no next
  step is one in which \<^verbatim>\<open>run_all\<close> has returned with every CPU thread ended, or one in which \<^verbatim>\<open>run_all\<close> is joining the thread of a CPU that
  spins on an empty mailbox and had not been switched on when the machine was stopped. So \<^verbatim>\<open>run_all\<close> returns when every
  CPU that has not ended or reached its loop had been switched on.
\<close>

theorem shutdown_completes:
  assumes "winding_down s"
  shows "\<forall>n s'. (vmm_step os ^^ n) s s' \<longrightarrow> n \<le> steps_left s
    \<and> ((\<nexists>s''. vmm_step os s' s'') \<longrightarrow>
        vm_main s' = MainDone \<and> set (vm_threads s') \<subseteq> {Exited}
      \<or> (\<exists>k. vm_main s' = MainJoining k \<and> thread_is s' k Spinning \<and> not_on s k))"
proof (intro allI impI)
  fix n s'
  assume "(vmm_step os ^^ n) s s'"
  then have run: "winding_down s' \<and> n + steps_left s' \<le> steps_left s \<and> (\<forall>k. not_on s' k \<longrightarrow> not_on s k)"
  proof (induction n arbitrary: s')
    case 0
    with assms show ?case by simp
  next
    case (Suc n)
    from Suc.prems obtain y where y: "(vmm_step os ^^ n) s y" "vmm_step os y s'" by auto
    with Suc.IH [OF y(1)] winding_down_step [OF y(2)] not_on_step [OF y(2)] show ?case by fastforce
  qed
  then show "n \<le> steps_left s \<and> ((\<nexists>s''. vmm_step os s' s'') \<longrightarrow> vm_main s' = MainDone \<and> set (vm_threads s') \<subseteq> {Exited}
      \<or> (\<exists>k. vm_main s' = MainJoining k \<and> thread_is s' k Spinning \<and> not_on s k))"
    using winding_down_progress [of s' os] by (auto simp: winding_down_def)
qed

section \<open>Witnesses\<close>

lemma demo_on_simps:
  assumes "m = set_xreg demo_vmm_os 0 3 9 (set_xreg demo_vmm_os 0 2 0x40400000 (set_xreg demo_vmm_os 0 1 1 (set_xreg demo_vmm_os 0 0 0xC4000003 demo_vm)))"
  shows "vcpus_ready m" "length (vcpus m) = 2" "ucast (get_xreg demo_vmm_os 0 0 m) = kPsciCpuOn"
    "get_xreg demo_vmm_os 0 1 m = 1" "get_xreg demo_vmm_os 0 2 m = 0x40400000" "get_xreg demo_vmm_os 0 3 m = 9"
  using demo_vm_simps(1) demo_vm_ready unfolding assms
  by (simp_all add: vcpus_ready_def set_xreg_def set_reg_def upd_vcpu_def get_xreg_def get_reg_def xreg_id_def)

lemma guest_ran_refl: "guest_ran i m m"
  unfolding guest_ran_def
  by (intro exI [of _ "vc_regs (vcpus m ! i)"] exI [of _ "vc_sys (vcpus m ! i)"] exI [of _ "mem (hst m)"]) (simp add: upd_vcpu_def)


theorem cpu_off_is_final_witness:
  "map_option (\<lambda>(m', cont). (get_xreg demo_vmm_os 0 0 m', cont)) (psci_dispatch demo_vmm_os 0
      (set_xreg demo_vmm_os 0 3 9 (set_xreg demo_vmm_os 0 2 0x40400000
        (set_xreg demo_vmm_os 0 1 1 (set_xreg demo_vmm_os 0 0 0xC4000003 demo_vm))))) = Some (kPsciRetSuccess, True)"
proof -
  let ?m = "set_xreg demo_vmm_os 0 3 9 (set_xreg demo_vmm_os 0 2 0x40400000
        (set_xreg demo_vmm_os 0 1 1 (set_xreg demo_vmm_os 0 0 0xC4000003 demo_vm)))"
  let ?s = "\<lparr>vm_m = ?m, vm_threads = [InGuest, Exited], vm_main = MainPolling\<rparr>"
  have "0 < length (vcpus ?m)" "1 < length (vcpus ?m)" using demo_on_simps(2) [OF refl] by simp_all
  then show ?thesis
    using cpu_off_is_final [of demo_vmm_os ?s ?s 1 ?m 0] demo_on_simps [OF refl] by (simp del: length_vcpus_simps)
qed

lemma demo_vm_off:
  "exit_handle demo_vmm_os 0 \<lparr>ex_reason = HV_EXIT_REASON_EXCEPTION, ex_syndrome = 0x5A000000, ex_ipa = 0\<rparr>
     (set_reg 0 0 0x84000008 m) = Some (vm_stop (set_reg 0 0 0x84000008 m), False)" if "0 < length (vcpus m)"
  using that by (simp add: exit_handle_def Let_def psci_dispatch_def get_xreg_def xreg_id_def demo_vmm_os_def)

text \<open>Two CPUs; the guest uses one of them and switches the machine off.\<close>

theorem unused_cpu_blocks_shutdown_witness:
  "\<exists>s. (vmm_step demo_vmm_os)\<^sup>*\<^sup>* \<lparr>vm_m = demo_vm, vm_threads = [], vm_main = MainIdle\<rparr> s \<and> \<not> running (vm_m s)
    \<and> (\<forall>s'. (vmm_step demo_vmm_os)\<^sup>*\<^sup>* s s' \<longrightarrow> vm_main s' \<noteq> MainDone)"
proof -
  let ?step = "vmm_step demo_vmm_os"
  define m1 where "m1 = demo_vm\<lparr>running := True\<rparr>"
  define m2 where "m2 = setup_regs demo_vmm_os 0 (kernel_entry m1) (dtb_gpa m1) m1"
  define m3 where "m3 = set_reg 0 0 0x84000008 m2"
  have len: "length (vcpus m2) = 2" by (simp add: m2_def m1_def setup_regs_def upd_vcpu_def demo_vm_simps)
  have "?step \<lparr>vm_m = demo_vm, vm_threads = [], vm_main = MainIdle\<rparr> \<lparr>vm_m = m1, vm_threads = [Spawned, Spawned], vm_main = MainPolling\<rparr>"
    using run_all [of "\<lparr>vm_m = demo_vm, vm_threads = [], vm_main = MainIdle\<rparr>" demo_vmm_os]
    by (simp add: m1_def demo_vm_simps numeral_2_eq_2)
  moreover have "?step \<lparr>vm_m = m1, vm_threads = [Spawned, Spawned], vm_main = MainPolling\<rparr> \<lparr>vm_m = m2, vm_threads = [AtLoop, Spawned], vm_main = MainPolling\<rparr>"
    using primary [of "\<lparr>vm_m = m1, vm_threads = [Spawned, Spawned], vm_main = MainPolling\<rparr>" demo_vmm_os]
    by (simp add: m2_def set_thread_def)
  moreover have "?step \<lparr>vm_m = m2, vm_threads = [AtLoop, Spawned], vm_main = MainPolling\<rparr> \<lparr>vm_m = m2, vm_threads = [AtLoop, Spinning], vm_main = MainPolling\<rparr>"
    using secondary [of 1 "\<lparr>vm_m = m2, vm_threads = [AtLoop, Spawned], vm_main = MainPolling\<rparr>" demo_vmm_os]
    by (simp add: set_thread_def)
  moreover have "?step \<lparr>vm_m = m2, vm_threads = [AtLoop, Spinning], vm_main = MainPolling\<rparr> \<lparr>vm_m = m2, vm_threads = [InGuest, Spinning], vm_main = MainPolling\<rparr>"
    using loop_enter [of 0 "\<lparr>vm_m = m2, vm_threads = [AtLoop, Spinning], vm_main = MainPolling\<rparr>" demo_vmm_os]
    by (simp add: set_thread_def m2_def m1_def setup_regs_def upd_vcpu_def)
  moreover have "?step \<lparr>vm_m = m2, vm_threads = [InGuest, Spinning], vm_main = MainPolling\<rparr> \<lparr>vm_m = vm_stop m3, vm_threads = [Exited, Spinning], vm_main = MainPolling\<rparr>"
  proof -
    have "guest_ran 0 m2 m3"
      unfolding guest_ran_def m3_def set_reg_def
      by (intro exI [of _ "(vc_regs (vcpus m2 ! 0))(0 := 0x84000008)"] exI [of _ "vc_sys (vcpus m2 ! 0)"] exI [of _ "mem (hst m2)"])
        (simp add: upd_vcpu_def)
    then show ?thesis
      using guest_exit [of 0 "\<lparr>vm_m = m2, vm_threads = [InGuest, Spinning], vm_main = MainPolling\<rparr>" m3 demo_vmm_os _ "vm_stop m3" False,
          OF _ _ demo_vm_off [of m2, folded m3_def]] len
      by (simp add: set_thread_def)
  qed
  ultimately have reach: "?step\<^sup>*\<^sup>* \<lparr>vm_m = demo_vm, vm_threads = [], vm_main = MainIdle\<rparr>
      \<lparr>vm_m = vm_stop m3, vm_threads = [Exited, Spinning], vm_main = MainPolling\<rparr>"
    by (meson rtranclp.rtrancl_into_rtrancl rtranclp.rtrancl_refl)
  have "vcpus m3 ! 1 = vcpu_new"
    by (simp add: m3_def m2_def m1_def setup_regs_def set_reg_def upd_vcpu_def demo_vm_def create_keyboard_def init_vcpus_def vmcontext_new_def)
  then have "stranded 1 \<lparr>vm_m = vm_stop m3, vm_threads = [Exited, Spinning], vm_main = MainPolling\<rparr>"
    by (auto simp: stranded_def vm_stop_def vcpu_new_def less_Suc_eq)
  with unused_cpu_blocks_shutdown [of demo_vmm_os "\<lparr>vm_m = vm_stop m3, vm_threads = [Exited, Spinning], vm_main = MainPolling\<rparr>" _ 1]
  show ?thesis by (intro exI [of _ "\<lparr>vm_m = vm_stop m3, vm_threads = [Exited, Spinning], vm_main = MainPolling\<rparr>"] conjI reach)
      (auto simp: vm_stop_def)
qed

text \<open>CPU 0 is at its loop and CPU 1 still starting when the machine has been stopped.\<close>

theorem shutdown_completes_witness:
  "let s = \<lparr>vm_m = demo_vm, vm_threads = [AtLoop, Spawned], vm_main = MainPolling\<rparr> in
    \<forall>n s'. (vmm_step demo_vmm_os ^^ n) s s' \<longrightarrow> n \<le> 8
      \<and> ((\<nexists>s''. vmm_step demo_vmm_os s' s'') \<longrightarrow> vm_main s' \<in> {MainDone, MainJoining 1})"
proof -
  let ?s = "\<lparr>vm_m = demo_vm, vm_threads = [AtLoop, Spawned], vm_main = MainPolling\<rparr>"
  have "winding_down ?s"
    by (simp add: winding_down_def demo_vm_def create_keyboard_def init_vcpus_def vmcontext_new_def)
  moreover have "steps_left ?s = 8" by (simp add: steps_left_def)
  moreover have "not_on ?s k \<Longrightarrow> k = 1" for k by (cases k) (auto simp: not_on_def less_Suc_eq)
  ultimately show ?thesis using shutdown_completes [of ?s demo_vmm_os] unfolding Let_def by fastforce
qed

end
