(* ===== verification/Host_Writes.thy ===== *)
theory Host_Writes
  imports Vcpu
begin

text \<open>
  What a virtual CPU's exits write to the descriptors of the VMM. Only the UART and the console device call \<^verbatim>\<open>::write\<close> on a descriptor
  of theirs; every other operation of a device leaves the calls made so far as they are.
\<close>

section \<open>Writes to a descriptor\<close>

definition bytes_to :: "int \<Rightarrow> (int \<times> u8 list) list \<Rightarrow> u8 list" where
  "bytes_to fd ws = concat (map snd (filter (\<lambda>(f, _). f = fd) ws))"

lemma bytes_to_simps [simp]:
  "bytes_to fd [] = []" "bytes_to fd (a @ b) = bytes_to fd a @ bytes_to fd b" "bytes_to fd [(f, bs)] = (if f = fd then bs else [])"
  by (simp_all add: bytes_to_def)

lemma bytes_to_other: "fd \<notin> fst ` set ws \<Longrightarrow> bytes_to fd ws = []"
  by (induction ws) (auto simp: bytes_to_def)

text \<open>Between \<open>h\<close> and \<open>h'\<close> only descriptors of \<open>S\<close> were written to.\<close>

definition sends_to :: "int set \<Rightarrow> 'e host \<Rightarrow> 'e host \<Rightarrow> bool" where
  "sends_to S h h' \<longleftrightarrow> (\<exists>ws. sent h' = sent h @ ws \<and> fst ` set ws \<subseteq> S)"

lemma sends_to_refl [simp]: "sends_to S h h"
  by (simp add: sends_to_def)

lemma sends_to_mem [simp]: "sends_to S h (h'\<lparr>mem := m\<rparr>) = sends_to S h h'" "sends_to S h (raise_spi n h') = sends_to S h h'"
  by (simp_all add: sends_to_def)

lemma sends_to_same: "sent h' = sent h \<Longrightarrow> sends_to S h h'"
  by (simp add: sends_to_def)

lemma sends_to_trans: "sends_to S h h' \<Longrightarrow> sends_to S h' h'' \<Longrightarrow> sends_to S h h''"
  unfolding sends_to_def by force

section \<open>The queues\<close>

lemma blk_data_sent:
  assumes "blk_data os c fd d type s = Some x"
  shows "sent (d_host x) = sent (d_host s)"
proof -
  have step: "sent (d_host (blk_data_step os c fd d type y)) = sent (d_host y)" for y
    by (simp add: blk_data_step_def Let_def split: option.split)
  have loop: "sent (d_host x) = sent (d_host s)"
    if "while_brk b (\<lambda>s. Some (blk_data_step os c fd d type s, False)) s = Some x" for b
    using that by (rule while_brk_rule [where P = "\<lambda>y. sent (d_host y) = sent (d_host s)"]) (auto simp: step)
  show ?thesis
    using assms by (auto simp: blk_data_def Let_def split: if_splits option.splits dest: loop)
qed

lemma blk_rq_sent: "blk_rq_step os c fd d a u s = Some (t, k) \<Longrightarrow> sent (r_host t) = sent (r_host s)"
  by (auto simp: blk_rq_step_def Let_def split: option.splits if_splits dest!: blk_data_sent)

lemma process_rq_sent:
  assumes "process_rq os c b h = Some (b', h')"
  shows "sent h' = sent h"
proof -
  have loop: "sent (r_host r) = sent h"
    if "while_brk B (blk_rq_step os c (b_fd b) d a u) \<lparr>r_last = l, r_host = h, r_raised = False\<rparr> = Some r" for B d a u l r
    using that by (rule while_brk_rule [where P = "\<lambda>s. sent (r_host s) = sent h"]) (auto dest: blk_rq_sent)
  show ?thesis using assms by (auto simp: process_rq_def Let_def split: if_splits option.splits dest: loop)
qed

lemma flush_events_sent:
  assumes "flush_events_locked c s h = Some (s', h')"
  shows "sent h' = sent h"
proof -
  have step: "flush_step c d a u x = Some (y, k) \<Longrightarrow> sent (ir_host y) = sent (ir_host x)" for d a u x y k
    by (auto simp: flush_step_def Let_def split: option.splits if_splits)
  have loop: "sent (ir_host r) = sent h"
    if "while_brk B (flush_step c d a u) \<lparr>ir_last = l, ir_pending = p, ir_host = h, ir_injected = False\<rparr> = Some r" for B d a u l p r
    using that by (rule while_brk_rule [where P = "\<lambda>s. sent (ir_host s) = sent h"]) (auto dest: step)
  show ?thesis using assms by (auto simp: flush_events_locked_def Let_def split: if_splits option.splits dest: loop)
qed

lemma statusq_sent:
  assumes "process_statusq c s h = Some (s', h')"
  shows "sent h' = sent h"
proof -
  have loop: "sent (sr_host r) = sent h"
    if "while_brk B (statusq_step a u) \<lparr>sr_last = l, sr_host = h, sr_drained = False\<rparr> = Some r" for B a u l r
    using that by (rule while_brk_rule [where P = "\<lambda>s. sent (sr_host s) = sent h"]) (auto simp: statusq_step_def Let_def)
  show ?thesis using assms by (auto simp: process_statusq_def Let_def split: if_splits option.splits dest: loop)
qed

lemma net_tx_sent:
  assumes "net_process_tx gtx c s h = Some (s', h')"
  shows "sent h' = sent h"
proof -
  have step: "net_tx_step gtx c d a u x = Some (y, k) \<Longrightarrow> sent (nr_host y) = sent (nr_host x)" for d a u x y k
    by (auto simp: net_tx_step_def Let_def split: option.splits if_splits)
  have loop: "sent (nr_host r) = sent h"
    if "while_brk B (net_tx_step gtx c d a u) \<lparr>nr_last = l, nr_host = h, nr_net = s, nr_raised = False\<rparr> = Some r" for B d a u l r
    using that by (rule while_brk_rule [where P = "\<lambda>s. sent (nr_host s) = sent h"]) (auto dest: step)
  show ?thesis using assms by (auto simp: net_process_tx_def Let_def split: if_splits option.splits dest: loop)
qed

lemma controlq_sent:
  assumes "process_controlq c g h = Some (g', h')"
  shows "sent h' = sent h"
proof -
  have step: "controlq_step c d a u x = Some (y, k) \<Longrightarrow> sent (gr_host y) = sent (gr_host x)" for d a u x y k
    by (auto simp: controlq_step_def Let_def split: option.splits)
  have loop: "sent (gr_host r) = sent h"
    if "while_brk B (controlq_step c d a u) \<lparr>gr_last = l, gr_host = h, gr_gpu = g\<rparr> = Some r" for B d a u l r
    using that by (rule while_brk_rule [where P = "\<lambda>s. sent (gr_host s) = sent h"]) (auto dest: step)
  show ?thesis using assms by (auto simp: process_controlq_def Let_def split: if_splits option.splits dest: loop)
qed

lemma console_tx_sends:
  assumes "console_process_tx c d h = Some (d', h')"
  shows "sends_to {con_tx_fd d} h h' \<and> con_tx_fd d' = con_tx_fd d"
proof -
  have one: "sends_to {tx} (cc_host s) (cc_host t)" if "con_chain_step c tx dd s = Some (t, k)" for tx dd s t k
    using that by (auto simp: con_chain_step_def Let_def sends_to_def split: if_splits option.splits)
  have chain: "sends_to {tx} (cc_host s) (cc_host x)" if "while_brk B (con_chain_step c tx dd) s = Some x" for B tx dd s x
    using that by (rule while_brk_rule [where P = "\<lambda>y. sends_to {tx} (cc_host s) (cc_host y)"]) (auto intro: sends_to_trans one)
  have step: "con_tx_step c tx dd a u s = Some (t, k) \<Longrightarrow> sends_to {tx} (cr_host s) (cr_host t)" for tx dd a u s t k
    by (auto simp: con_tx_step_def Let_def split: option.splits dest!: chain)
  have loop: "sends_to {tx} h (cr_host r)"
    if "while_brk B (con_tx_step c tx dd a u) \<lparr>cr_last = l, cr_host = h\<rparr> = Some r" for B tx dd a u l r
    using that by (rule while_brk_rule [where P = "\<lambda>s. sends_to {tx} h (cr_host s)"]) (auto intro: sends_to_trans step)
  show ?thesis
    using assms by (auto simp: console_process_tx_def Let_def split: if_splits option.splits dest: loop)
qed

section \<open>The registers\<close>

lemma block_write_sent: "block_write os c (b, h) off v = Some (b', h') \<Longrightarrow> sent h' = sent h"
  unfolding block_write_def Let_def fst_conv snd_conv by (auto split: if_split_asm dest: process_rq_sent)

lemma console_write_sends:
  "console_write c (d, h) off v = Some (d', h') \<Longrightarrow> sends_to {con_tx_fd d} h h' \<and> con_tx_fd d' = con_tx_fd d"
  unfolding console_write_def Let_def fst_conv snd_conv by (auto split: if_split_asm dest: console_tx_sends)

lemma net_write_sent: "net_write gtx c (d, h) off v = Some (d', h') \<Longrightarrow> sent h' = sent h"
  unfolding net_write_def Let_def fst_conv snd_conv by (auto split: if_split_asm dest: net_tx_sent)

lemma gpu_write_sent:
  assumes "gpu_write c (g, h) off v = Some ((g', h'), fs)"
  shows "sent h' = sent h"
proof -
  have "sent h' = sent h" if "gpu_write_locked c (g, h) off v = Some (x, h')" for x
    using that unfolding gpu_write_locked_def Let_def fst_conv snd_conv by (auto split: if_split_asm dest: controlq_sent)
  then show ?thesis using assms by (auto simp: gpu_write_def split: option.splits prod.splits)
qed

lemma input_write_sent: "input_write c (s, h) off v len = Some (s', h') \<Longrightarrow> sent h' = sent h"
  unfolding input_write_def Let_def fst_conv snd_conv by (auto split: if_split_asm dest: flush_events_sent statusq_sent)

section \<open>What the guest says on its serial port\<close>

text \<open>
  The UART has the descriptor \<open>fd\<close> for its output (\<^verbatim>\<open>hvf_backend.cpp\<close> gives it the write end of a pipe), and the console device does not write
  to it.
\<close>

definition serial_on :: "int \<Rightarrow> 'e machine \<Rightarrow> bool" where
  "serial_on fd m \<longleftrightarrow> 0 \<le> fd \<and> pl_tx_fd (pl011 m) = fd \<and> (\<forall>d. console_dev m = Some d \<longrightarrow> con_tx_fd d \<noteq> fd)"

text \<open>
  What the exit of CPU \<open>i\<close> is in terms of the guest's program: a store to the data register of the PL011 says the low byte of the register
  it stores, any other exit says nothing. In the syndrome of an abort, bit 6 is set for a store and bits 20 to 16 are the number of
  the register; number 31 is zero.
\<close>

definition guest_putc :: "'e vmm_os \<Rightarrow> nat \<Rightarrow> vcpu_exit \<Rightarrow> 'e machine \<Rightarrow> u8 list" where
  "guest_putc os i ex m =
     (let n = unat (take_bit 5 (drop_bit 16 (ex_syndrome ex))) in
      if ex_reason ex = HV_EXIT_REASON_EXCEPTION \<and> drop_bit 26 (ex_syndrome ex) AND 0x3F \<in> {0x20, 0x24}
          \<and> bit (ex_syndrome ex) 6 \<and> ex_ipa ex = 0x09000000
      then [if n = 31 then 0 else ucast (vc_regs (vcpus m ! i) (reg_x0 os + n))] else [])"

text \<open>Between \<open>m\<close> and \<open>m'\<close> the bytes \<open>bs\<close> were written to \<open>fd\<close>.\<close>

definition puts :: "int \<Rightarrow> u8 list \<Rightarrow> 'e machine \<Rightarrow> 'e machine \<Rightarrow> bool" where
  "puts fd bs m m' \<longleftrightarrow> serial_on fd m' \<and> (\<exists>ws. sent (hst m') = sent (hst m) @ ws \<and> bytes_to fd ws = bs)"

lemma puts_regs [simp]:
  "puts fd bs m (upd_vcpu i f m') = puts fd bs m m'" "puts fd bs m (set_reg i r v m') = puts fd bs m m'"
  "puts fd bs m (set_xreg os i n v m') = puts fd bs m m'" "puts fd bs m (advance_pc os i m') = puts fd bs m m'"
  "puts fd bs m (vm_stop m') = puts fd bs m m'"
  by (simp_all add: puts_def serial_on_def set_reg_def upd_vcpu_def advance_pc_def vm_stop_def set_xreg_def)

lemma puts_refl [simp]: "puts fd bs m m \<longleftrightarrow> serial_on fd m \<and> bs = []"
  by (auto simp: puts_def)

lemma puts_sends: "serial_on fd m' \<Longrightarrow> sends_to S (hst m) (hst m') \<Longrightarrow> fd \<notin> S \<Longrightarrow> puts fd [] m m'"
  unfolding puts_def sends_to_def using bytes_to_other by blast

lemma puts_devs:
  assumes "serial_on fd m"
  shows "console_dev m = Some d1 \<Longrightarrow> sends_to {con_tx_fd d1} (hst m) h \<and> con_tx_fd d1' = con_tx_fd d1 \<Longrightarrow>
      puts fd [] m (m\<lparr>console_dev := Some d1', hst := h\<rparr>)"
    "sent h = sent (hst m) \<Longrightarrow> puts fd [] m (m\<lparr>block_dev := d2, hst := h\<rparr>)"
    "sent h = sent (hst m) \<Longrightarrow> puts fd [] m (m\<lparr>net_dev := d3, hst := h\<rparr>)"
    "sent h = sent (hst m) \<Longrightarrow> puts fd [] m (m\<lparr>gpu_dev := d4, hst := h, gpu_out := fs\<rparr>)"
    "sent h = sent (hst m) \<Longrightarrow> puts fd [] m (m\<lparr>keyboard_dev := d5, hst := h\<rparr>)"
    "sent h = sent (hst m) \<Longrightarrow> puts fd [] m (m\<lparr>tablet_dev := d6, hst := h\<rparr>)"
proof -
  show "console_dev m = Some d1 \<Longrightarrow> sends_to {con_tx_fd d1} (hst m) h \<and> con_tx_fd d1' = con_tx_fd d1 \<Longrightarrow>
      puts fd [] m (m\<lparr>console_dev := Some d1', hst := h\<rparr>)"
    using assms by (intro puts_sends [where S = "{con_tx_fd d1}"]) (auto simp: serial_on_def)
qed (use assms in \<open>simp_all add: puts_def serial_on_def\<close>)

text \<open>One exit writes to the serial pipe exactly what the guest says with it.\<close>

lemma uart_puts:
  assumes "serial_on fd m"
  shows "puts fd (if off = 0 then [ucast v] else []) m (uart_write off v m)"
proof -
  have "v AND 255 = take_bit 8 v" by (simp add: take_bit_eq_mask mask_eq_exp_minus_1)
  then have "(ucast (v AND 255) :: u8) = ucast v" by (intro bit_word_eqI) (simp add: bit_simps)
  then show ?thesis using assms by (simp add: uart_write_def puts_def serial_on_def Let_def)
qed

lemma esr_fields:
  "esr_wnr esr \<longleftrightarrow> bit esr 6" "unat (esr_srt esr) = unat (take_bit 5 (drop_bit 16 esr))"
  "esr_srt esr = 31 \<longleftrightarrow> unat (take_bit 5 (drop_bit 16 esr)) = 31"
proof -
  show "esr_wnr esr \<longleftrightarrow> bit esr 6" by (simp add: esr_wnr_def and_one_eq mod_2_eq_odd bit_iff_odd_drop_bit)
  have m: "drop_bit 16 esr AND 0x1F = take_bit 5 (drop_bit 16 esr)" by (simp add: take_bit_eq_mask mask_eq_exp_minus_1)
  have "drop_bit 16 esr AND 0x1F \<le> 0x1F" by (rule word_and_le1)
  then have "unat (drop_bit 16 esr AND 0x1F) \<le> 31" by (simp add: word_le_nat_alt)
  then show u: "unat (esr_srt esr) = unat (take_bit 5 (drop_bit 16 esr))"
    by (simp add: esr_srt_def unsigned_ucast_eq take_bit_nat_eq_self m)
  show "esr_srt esr = 31 \<longleftrightarrow> unat (take_bit 5 (drop_bit 16 esr)) = 31" by (simp add: word_unat_eq_iff u)
qed

lemma handle_mmio_puts:
  assumes "handle_mmio os i ex m = Some m'" and "serial_on fd m"
  shows "puts fd (if esr_wnr (ex_syndrome ex) \<and> ex_ipa ex = kGpaUart0 then [ucast (get_xreg os i (esr_srt (ex_syndrome ex)) m)] else []) m m'"
proof -
  note unf = handle_mmio_def [folded in_win_def, folded esr_srt_def, folded esr_wnr_def] Let_def
  have off: "(ucast (ex_ipa ex - kGpaUart0) :: u32) = 0 \<longleftrightarrow> ex_ipa ex = kGpaUart0" if "in_win kGpaUart0 kGpaUart0Size (ex_ipa ex)"
  proof -
    have "unat (ex_ipa ex - kGpaUart0) < 0x1000" using that by (simp add: in_win_def unat_sub_if_size word_le_nat_alt word_less_nat_alt) linarith
    then have "unat (ucast (ex_ipa ex - kGpaUart0) :: u32) = unat (ex_ipa ex - kGpaUart0)"
      by (simp add: unsigned_ucast_eq take_bit_nat_eq_self)
    then show ?thesis by (metis eq_iff_diff_eq_0 unat_eq_zero)
  qed
  have here: "in_win kGpaUart0 kGpaUart0Size kGpaUart0" by (simp add: in_win_def)
  show ?thesis
  proof (cases "in_win kGpaUart0 kGpaUart0Size (ex_ipa ex)")
    case True
    with assms uart_puts [OF assms(2), of "ucast (ex_ipa ex - kGpaUart0)" "get_xreg os i (esr_srt (ex_syndrome ex)) m"] off
    show ?thesis unfolding unf by (auto split: if_split_asm)
  next
    case False
    with here have ne: "ex_ipa ex \<noteq> kGpaUart0" by metis
    show ?thesis
      using assms False ne unfolding unf
      by (auto split: if_split_asm option.splits
          dest: block_write_sent console_write_sends net_write_sent gpu_write_sent input_write_sent intro!: puts_devs [OF assms(2)])
  qed
qed

lemma psci_puts:
  assumes "psci_dispatch os i m = Some (m', cont)" and "serial_on fd m"
  shows "puts fd [] m m'"
proof -
  have "puts fd [] m r" if "psci_cpu_on os i m = Some r" for r
    using that assms(2) by (auto simp: psci_cpu_on_def Let_def split: if_splits)
  with assms show ?thesis by (auto simp: psci_dispatch_def Let_def split: if_splits)
qed

lemma exit_puts:
  assumes "exit_handle os i ex m = Some (m', cont)" and "serial_on fd m"
  shows "puts fd (guest_putc os i ex m) m m'"
proof -
  let ?ec = "drop_bit 26 (ex_syndrome ex) AND 0x3F :: u64"
  have "?ec \<le> 0x3F" by (rule word_and_le1)
  then have "unat ?ec \<le> 0x3F" by (simp add: word_le_nat_alt)
  then have "unat (ucast ?ec :: u32) = unat ?ec" by (simp add: unsigned_ucast_eq take_bit_nat_eq_self)
  then have ec: "(ucast ?ec :: u32) = 0x20 \<longleftrightarrow> ?ec = 0x20" "(ucast ?ec :: u32) = 0x24 \<longleftrightarrow> ?ec = 0x24" by (simp_all add: word_unat_eq_iff)
  show ?thesis
  proof (cases "ex_reason ex = HV_EXIT_REASON_EXCEPTION \<and> ?ec \<in> {0x20, 0x24}")
    case True
    with assms(1) have "handle_mmio os i ex m = Some m'" by (auto simp: exit_handle_def split: option.splits)
    note mmio = handle_mmio_puts [OF this assms(2), unfolded esr_fields(1)]
    have "get_xreg os i (esr_srt (ex_syndrome ex)) m = (let n = unat (take_bit 5 (drop_bit 16 (ex_syndrome ex))) in
        if n = 31 then 0 else vc_regs (vcpus m ! i) (reg_x0 os + n))"
      unfolding get_xreg_def get_reg_def xreg_id_def esr_fields(2,3) Let_def ..
    with mmio True show ?thesis by (auto simp: guest_putc_def Let_def split: if_splits)
  next
    case False
    then have none: "guest_putc os i ex m = []" by (auto simp: guest_putc_def Let_def)
    have "psci_dispatch os i m = Some (m', cont) \<or> m' = m \<or> m' = upd_vcpu i (\<lambda>c. c\<lparr>vc_vtimer_masked := False\<rparr>) m
        \<or> m' = advance_pc os i m \<or> m' = handle_msr_mrs os i ex m"
      using assms(1) False ec unfolding exit_handle_def Let_def by (auto split: exit_reason.splits if_split_asm)
    then show ?thesis unfolding none
      by (elim disjE) (use assms(2) in \<open>simp_all add: psci_puts handle_msr_mrs_def Let_def\<close>)
  qed
qed

lemma guest_ran_serial: "guest_ran i m m' \<Longrightarrow> serial_on fd m' = serial_on fd m \<and> sent (hst m') = sent (hst m)"
  by (auto simp: guest_ran_def serial_on_def upd_vcpu_def)

end
