(* ===== verification/Ipc.thy ===== *)
theory Ipc
  imports Prelude
begin

text \<open>
  The IPC library (\<^verbatim>\<open>src/ipc/src\<close>): the frame format (\<^verbatim>\<open>framing.hpp\<close>), the channel with its send and read
  loop (\<^verbatim>\<open>channel.cpp\<close>), and the two stream transports it runs on, the in-process queue
  (\<^verbatim>\<open>transport_inprocess.cpp\<close>) and the Unix socket (\<^verbatim>\<open>transport_unix.cpp\<close>).

  The interface \<^verbatim>\<open>Transport\<close> is the locale \<open>stream_transport\<close>: what a reader gets is a function of the
  bytes that are still to come. The channel's properties are proved once in it and reach the two
  transports by interpretation. A read of value \<open>None\<close> blocks forever.
\<close>

section \<open>Frames\<close>

abbreviation kMagic :: u32 where "kMagic \<equiv> 0x41524349"
abbreviation kVersion :: u8 where "kVersion \<equiv> 1"
abbreviation kMaxPayloadSize :: u32 where "kMaxPayloadSize \<equiv> 67108864"

record frame_header =
  fh_magic :: u32
  fh_version :: u8
  fh_type :: u8
  fh_reserved :: u16
  fh_payload_len :: u32

definition hdr_bytes :: "frame_header \<Rightarrow> u8 list" where
  "hdr_bytes h = le_bytes 4 (unat (fh_magic h)) @ [fh_version h, fh_type h] @ le_bytes 2 (unat (fh_reserved h))
     @ le_bytes 4 (unat (fh_payload_len h))"

text \<open>\<^verbatim>\<open>FrameHeader hdr\<close> filled by \<^verbatim>\<open>read\<close> of its 12 bytes.\<close>

definition hdr_of :: "u8 list \<Rightarrow> frame_header" where
  "hdr_of bs = \<lparr>fh_magic = of_nat (le_val (take 4 bs)), fh_version = bs ! 4, fh_type = bs ! 5,
     fh_reserved = of_nat (le_val (take 2 (drop 6 bs))), fh_payload_len = of_nat (le_val (take 4 (drop 8 bs)))\<rparr>"

definition send_hdr :: "u8 \<Rightarrow> u8 list \<Rightarrow> frame_header" where
  "send_hdr ty payload = \<lparr>fh_magic = kMagic, fh_version = kVersion, fh_type = ty, fh_reserved = 0,
     fh_payload_len = of_nat (length payload)\<rparr>"

section \<open>Channel\<close>

text \<open>\<^verbatim>\<open>wr\<close> is \<^verbatim>\<open>transport_->write\<close>.\<close>

definition send_raw :: "('t \<Rightarrow> u8 list \<Rightarrow> 't) \<Rightarrow> u8 \<Rightarrow> u8 list \<Rightarrow> 't \<Rightarrow> 't" where
  "send_raw wr ty payload t =
     (let t1 = wr t (hdr_bytes (send_hdr ty payload))
      in if payload \<noteq> [] then wr t1 payload else t1)"

datatype ipc_error = BadFrame | PayloadTooLarge

text \<open>What the read loop reports to the callbacks, in order.\<close>

datatype event = EvMessage u8 "u8 list" | EvError ipc_error | EvDisconnect

record 't read_state =
  rs_t :: 't
  rs_ev :: "event list"

text \<open>
  One round of \<^verbatim>\<open>read_loop\<close>. \<open>rd t n\<close> is \<^verbatim>\<open>transport_->read\<close> into a buffer of \<open>n\<close> bytes: the bytes
  stored, none when it returns 0.
\<close>

definition read_step :: "('t \<Rightarrow> nat \<Rightarrow> ('t \<times> u8 list) option) \<Rightarrow> 't read_state \<Rightarrow> ('t read_state \<times> bool) option" where
  "read_step rd s =
     (case rd (rs_t s) 12 of
        None \<Rightarrow> None
      | Some (t, hb) \<Rightarrow>
          if hb = [] then Some (s\<lparr>rs_t := t\<rparr>, True)
          else
          (let hdr = hdr_of hb
           in if fh_magic hdr \<noteq> kMagic \<or> fh_version hdr \<noteq> kVersion
              then Some (\<lparr>rs_t = t, rs_ev = rs_ev s @ [EvError BadFrame]\<rparr>, True)
              else if fh_payload_len hdr > kMaxPayloadSize
              then Some (\<lparr>rs_t = t, rs_ev = rs_ev s @ [EvError PayloadTooLarge]\<rparr>, True)
              else if fh_payload_len hdr > 0
              then (case rd t (unat (fh_payload_len hdr)) of
                      None \<Rightarrow> None
                    | Some (t', payload) \<Rightarrow>
                        if payload = [] then Some (s\<lparr>rs_t := t'\<rparr>, True)
                        else Some (\<lparr>rs_t = t', rs_ev = rs_ev s @ [EvMessage (fh_type hdr) payload]\<rparr>, False))
              else Some (\<lparr>rs_t = t, rs_ev = rs_ev s @ [EvMessage (fh_type hdr) []]\<rparr>, False)))"

definition read_loop :: "('t \<Rightarrow> nat \<Rightarrow> ('t \<times> u8 list) option) \<Rightarrow> ('t \<Rightarrow> bool) \<Rightarrow> 't \<Rightarrow> ('t \<times> event list) option" where
  "read_loop rd conn t =
     map_option (\<lambda>s. (rs_t s, rs_ev s @ [EvDisconnect]))
       (while_brk (\<lambda>s. conn (rs_t s)) (read_step rd) \<lparr>rs_t = t, rs_ev = []\<rparr>)"

section \<open>In-process transport\<close>

record pipe =
  p_queue :: "u8 list list"
  p_closed :: bool

definition pipe_new :: pipe where "pipe_new = \<lparr>p_queue = [], p_closed = False\<rparr>"

text \<open>
  Pipes are shared between the ends of a channel: they live in a store and a transport holds their
  addresses. A registry entry is the pair of \<^verbatim>\<open>server_to_client\<close> and \<^verbatim>\<open>client_to_server\<close>.
\<close>

record ipc_env =
  ie_pipes :: "nat \<Rightarrow> pipe"
  ie_next :: nat
  ie_registry :: "string \<rightharpoonup> nat \<times> nat"

record inproc =
  ip_rx :: nat
  ip_tx :: nat
  ip_connected :: bool
  ip_current :: "u8 list"
  ip_pos :: nat

definition register_inprocess :: "string \<Rightarrow> ipc_env \<Rightarrow> ipc_env" where
  "register_inprocess channel_id w =
     (let a = ie_next w
      in w\<lparr>ie_pipes := (ie_pipes w)(a := pipe_new, a + 1 := pipe_new), ie_next := a + 2,
           ie_registry := (ie_registry w)(channel_id \<mapsto> (a, a + 1))\<rparr>)"

definition unregister_inprocess :: "string \<Rightarrow> ipc_env \<Rightarrow> ipc_env" where
  "unregister_inprocess channel_id w = w\<lparr>ie_registry := (ie_registry w)(channel_id := None)\<rparr>"

definition is_inprocess :: "string \<Rightarrow> ipc_env \<Rightarrow> bool" where
  "is_inprocess channel_id w = (ie_registry w channel_id \<noteq> None)"

definition inproc_new :: "nat \<Rightarrow> nat \<Rightarrow> inproc" where
  "inproc_new rx tx = \<lparr>ip_rx = rx, ip_tx = tx, ip_connected = True, ip_current = [], ip_pos = 0\<rparr>"

text \<open>\<open>None\<close> is the exception for a channel that is not registered.\<close>

definition inprocess_listen :: "string \<Rightarrow> ipc_env \<Rightarrow> inproc option" where
  "inprocess_listen channel_id w =
     (case ie_registry w channel_id of None \<Rightarrow> None | Some (s2c, c2s) \<Rightarrow> Some (inproc_new c2s s2c))"

definition inprocess_connect :: "string \<Rightarrow> ipc_env \<Rightarrow> inproc option" where
  "inprocess_connect channel_id w =
     (case ie_registry w channel_id of None \<Rightarrow> None | Some (s2c, c2s) \<Rightarrow> Some (inproc_new s2c c2s))"

definition inproc_write :: "inproc \<times> (nat \<Rightarrow> pipe) \<Rightarrow> u8 list \<Rightarrow> inproc \<times> (nat \<Rightarrow> pipe)" where
  "inproc_write s data =
     (let e = fst s; ps = snd s; tx = ps (ip_tx e)
      in if \<not> ip_connected e then (e, ps)
         else if p_closed tx then (e\<lparr>ip_connected := False\<rparr>, ps)
         else (e, ps(ip_tx e := tx\<lparr>p_queue := p_queue tx @ [data]\<rparr>)))"

text \<open>The loop of \<^verbatim>\<open>read\<close>: \<open>acc\<close> are the bytes copied so far. A wait on an empty open queue is \<open>None\<close>.\<close>

function inproc_fill :: "nat \<Rightarrow> u8 list \<Rightarrow> inproc \<Rightarrow> (nat \<Rightarrow> pipe) \<Rightarrow> ((inproc \<times> (nat \<Rightarrow> pipe)) \<times> u8 list) option" where
  "inproc_fill want acc e ps =
     (if length acc \<ge> want then Some ((e, ps), acc)
      else if ip_pos e < length (ip_current e)
      then (let n = min (length (ip_current e) - ip_pos e) (want - length acc)
            in inproc_fill want (acc @ take n (drop (ip_pos e) (ip_current e))) (e\<lparr>ip_pos := ip_pos e + n\<rparr>) ps)
      else case p_queue (ps (ip_rx e)) of
             [] \<Rightarrow> if p_closed (ps (ip_rx e)) then Some ((e\<lparr>ip_connected := False\<rparr>, ps), []) else None
           | msg # q \<Rightarrow> inproc_fill want acc (e\<lparr>ip_current := msg, ip_pos := 0\<rparr>)
                         (ps(ip_rx e := (ps (ip_rx e))\<lparr>p_queue := q\<rparr>)))"
  by pat_completeness auto
termination
  by (relation "measures [\<lambda>(w, acc, e, ps). length (p_queue (ps (ip_rx e))), \<lambda>(w, acc, e, ps). w - length acc]") auto

declare inproc_fill.simps [simp del]

definition inproc_read :: "inproc \<times> (nat \<Rightarrow> pipe) \<Rightarrow> nat \<Rightarrow> ((inproc \<times> (nat \<Rightarrow> pipe)) \<times> u8 list) option" where
  "inproc_read s n = inproc_fill n [] (fst s) (snd s)"

definition inproc_connected :: "inproc \<times> (nat \<Rightarrow> pipe) \<Rightarrow> bool" where
  "inproc_connected s = ip_connected (fst s)"

definition inproc_close :: "inproc \<times> (nat \<Rightarrow> pipe) \<Rightarrow> inproc \<times> (nat \<Rightarrow> pipe)" where
  "inproc_close s =
     (let e = fst s; ps = snd s
      in if \<not> ip_connected e then (e, ps)
         else (e\<lparr>ip_connected := False\<rparr>, ps(ip_rx e := (ps (ip_rx e))\<lparr>p_closed := True\<rparr>)))"

section \<open>Unix socket transport\<close>

text \<open>
  The system calls are parameters: \<open>sys_read\<close> and \<open>sys_write\<close> are \<^verbatim>\<open>::read\<close> and \<^verbatim>\<open>::write\<close> on the
  descriptor (no bytes, or 0, for a result that is not positive), \<open>sys_close\<close> is \<^verbatim>\<open>::close\<close>. A call stores
  at most as many bytes as it was asked for.
\<close>

record 'e unix_t =
  ut_connected :: bool
  ut_sys :: 'e

function unix_fill :: "('e \<Rightarrow> nat \<Rightarrow> 'e \<times> u8 list) \<Rightarrow> nat \<Rightarrow> u8 list \<Rightarrow> 'e unix_t \<Rightarrow> 'e unix_t \<times> u8 list" where
  "unix_fill sys_read want acc t =
     (if length acc \<ge> want then (t, acc)
      else (case sys_read (ut_sys t) (want - length acc) of
              (e, bs) \<Rightarrow>
                if bs = [] then (t\<lparr>ut_connected := False, ut_sys := e\<rparr>, [])
                else unix_fill sys_read want (acc @ bs) (t\<lparr>ut_sys := e\<rparr>)))"
  by pat_completeness auto
termination
  by (relation "measure (\<lambda>(r, w, acc, t). w - length acc)") (auto simp: neq_Nil_conv)

declare unix_fill.simps [simp del]

definition unix_read :: "('e \<Rightarrow> nat \<Rightarrow> 'e \<times> u8 list) \<Rightarrow> 'e unix_t \<Rightarrow> nat \<Rightarrow> ('e unix_t \<times> u8 list) option" where
  "unix_read sys_read t n = Some (unix_fill sys_read n [] t)"

function unix_write :: "('e \<Rightarrow> u8 list \<Rightarrow> 'e \<times> nat) \<Rightarrow> 'e unix_t \<Rightarrow> u8 list \<Rightarrow> 'e unix_t" where
  "unix_write sys_write t data =
     (if data = [] then t
      else (case sys_write (ut_sys t) data of
              (e, n) \<Rightarrow>
                if n = 0 then t\<lparr>ut_connected := False, ut_sys := e\<rparr>
                else unix_write sys_write (t\<lparr>ut_sys := e\<rparr>) (drop n data)))"
  by pat_completeness auto
termination
  by (relation "measure (\<lambda>(w, t, data). length data)") auto

declare unix_write.simps [simp del]

definition unix_close :: "('e \<Rightarrow> 'e) \<Rightarrow> 'e unix_t \<Rightarrow> 'e unix_t" where
  "unix_close sys_close t =
     (if ut_connected t then t\<lparr>ut_connected := False, ut_sys := sys_close (ut_sys t)\<rparr> else t)"

definition unix_socket_path :: "string \<Rightarrow> string" where
  "unix_socket_path channel_id = ''/tmp/arc-ipc-'' @ channel_id"

section \<open>Frames: encoding and decoding\<close>

text \<open>What one \<^verbatim>\<open>send_raw\<close> puts on the stream.\<close>

definition frame_bytes :: "u8 \<Rightarrow> u8 list \<Rightarrow> u8 list" where
  "frame_bytes ty payload = hdr_bytes (send_hdr ty payload) @ payload"

lemma length_hdr_bytes [simp]: "length (hdr_bytes h) = 12"
  by (simp add: hdr_bytes_def)

lemma hdr_roundtrip [simp]: "hdr_of (hdr_bytes h) = h"
proof -
  have "unat (fh_magic h) < 4294967296" "unat (fh_payload_len h) < 4294967296" "unat (fh_reserved h) < 65536"
    by (rule unat_u32_less unat_u16_less)+
  then show ?thesis
    by (simp add: hdr_of_def hdr_bytes_def nth_append le_val_le_bytes)
qed

text \<open>Payloads the receiver accepts.\<close>

definition fits :: "u8 list \<Rightarrow> bool" where
  "fits payload \<longleftrightarrow> length payload \<le> 67108864"

lemma send_hdr_fields [simp]:
  "fh_magic (send_hdr ty p) = kMagic" "fh_version (send_hdr ty p) = kVersion" "fh_type (send_hdr ty p) = ty"
  "fh_payload_len (send_hdr ty p) = of_nat (length p)"
  by (simp_all add: send_hdr_def)

lemma fits_len:
  assumes "fits p"
  shows "unat (of_nat (length p) :: u32) = length p"
    and "\<not> kMaxPayloadSize < (of_nat (length p) :: u32)"
    and "(0 < (of_nat (length p) :: u32)) = (p \<noteq> [])"
proof -
  show len: "unat (of_nat (length p) :: u32) = length p"
    using assms by (simp add: fits_def unat_of_nat)
  show "\<not> kMaxPayloadSize < (of_nat (length p) :: u32)" "(0 < (of_nat (length p) :: u32)) = (p \<noteq> [])"
    using assms by (simp_all add: word_less_nat_alt len fits_def)
qed

section \<open>The transport interface\<close>

text \<open>
  \<open>pend t\<close> are the bytes that are still to be read, \<open>fin t\<close> says that no more will come. A read of \<open>n\<close>
  bytes is all or nothing: the next \<open>n\<close> bytes while there are as many, else, at the end of the stream,
  0 and the connection is gone.
\<close>

locale stream_transport =
  fixes rd :: "'t \<Rightarrow> nat \<Rightarrow> ('t \<times> u8 list) option"
    and conn :: "'t \<Rightarrow> bool"
    and pend :: "'t \<Rightarrow> u8 list"
    and fin :: "'t \<Rightarrow> bool"
  assumes rd_full: "conn t \<Longrightarrow> 0 < n \<Longrightarrow> n \<le> length (pend t) \<Longrightarrow>
      \<exists>t'. rd t n = Some (t', take n (pend t)) \<and> pend t' = drop n (pend t) \<and> conn t' \<and> fin t' = fin t"
    and rd_short: "conn t \<Longrightarrow> length (pend t) < n \<Longrightarrow> fin t \<Longrightarrow> \<exists>t'. rd t n = Some (t', []) \<and> \<not> conn t'"
begin

lemma read_step_header:
  assumes "conn (rs_t s)" and "12 \<le> length (pend (rs_t s))"
  obtains t where "rd (rs_t s) 12 = Some (t, take 12 (pend (rs_t s)))" "pend t = drop 12 (pend (rs_t s))"
    "conn t" "fin t = fin (rs_t s)"
  using rd_full [OF assms(1) _ assms(2)] by auto

lemma read_step_frame:
  assumes conn: "conn (rs_t s)" and pend: "pend (rs_t s) = frame_bytes ty p @ rest" and fits: "fits p"
  shows "\<exists>t. read_step rd s = Some (\<lparr>rs_t = t, rs_ev = rs_ev s @ [EvMessage ty p]\<rparr>, False)
    \<and> pend t = rest \<and> conn t \<and> fin t = fin (rs_t s)"
proof -
  have "12 \<le> length (pend (rs_t s))" by (simp add: pend frame_bytes_def)
  from read_step_header [OF conn this] obtain t
    where t: "rd (rs_t s) 12 = Some (t, hdr_bytes (send_hdr ty p))" "pend t = p @ rest" "conn t" "fin t = fin (rs_t s)"
    by (auto simp: pend frame_bytes_def)
  have ne: "hdr_bytes (send_hdr ty p) \<noteq> []" using length_hdr_bytes [of "send_hdr ty p"] by fastforce
  show ?thesis
  proof (cases "p = []")
    case True
    then show ?thesis using t ne by (simp add: read_step_def Let_def)
  next
    case False
    with rd_full [of t "length p"] t obtain t' where "rd t (length p) = Some (t', p)"
      "pend t' = rest" "conn t'" "fin t' = fin (rs_t s)" by auto
    then show ?thesis using t ne False fits_len [OF fits] by (simp add: read_step_def Let_def)
  qed
qed

lemma read_step_eof:
  assumes "conn (rs_t s)" and "length (pend (rs_t s)) < 12" and "fin (rs_t s)"
  shows "\<exists>t. read_step rd s = Some (s\<lparr>rs_t := t\<rparr>, True)"
  using rd_short [OF assms] by (auto simp: read_step_def)

lemma read_step_reject:
  assumes conn: "conn (rs_t s)" and pend: "pend (rs_t s) = hdr_bytes h @ rest"
  shows "fh_magic h \<noteq> kMagic \<or> fh_version h \<noteq> kVersion \<Longrightarrow>
      \<exists>t. read_step rd s = Some (\<lparr>rs_t = t, rs_ev = rs_ev s @ [EvError BadFrame]\<rparr>, True)"
    and "fh_magic h = kMagic \<Longrightarrow> fh_version h = kVersion \<Longrightarrow> kMaxPayloadSize < fh_payload_len h \<Longrightarrow>
      \<exists>t. read_step rd s = Some (\<lparr>rs_t = t, rs_ev = rs_ev s @ [EvError PayloadTooLarge]\<rparr>, True)"
proof -
  have "12 \<le> length (pend (rs_t s))" by (simp add: pend)
  from read_step_header [OF conn this] obtain t
    where t: "rd (rs_t s) 12 = Some (t, hdr_bytes h)"
    by (auto simp: pend)
  have ne: "hdr_bytes h \<noteq> []" using length_hdr_bytes [of h] by fastforce
  show "fh_magic h \<noteq> kMagic \<or> fh_version h \<noteq> kVersion \<Longrightarrow>
      \<exists>t. read_step rd s = Some (\<lparr>rs_t = t, rs_ev = rs_ev s @ [EvError BadFrame]\<rparr>, True)"
    using t ne by (simp add: read_step_def Let_def)
  show "fh_magic h = kMagic \<Longrightarrow> fh_version h = kVersion \<Longrightarrow> kMaxPayloadSize < fh_payload_len h \<Longrightarrow>
      \<exists>t. read_step rd s = Some (\<lparr>rs_t = t, rs_ev = rs_ev s @ [EvError PayloadTooLarge]\<rparr>, True)"
    using t ne by (simp add: read_step_def Let_def)
qed

text \<open>Frames at the front of the stream are consumed one per round, whatever follows them.\<close>

lemma read_frames:
  assumes "conn t" and "pend t = concat (map (\<lambda>(ty, p). frame_bytes ty p) ms) @ rest" and "\<forall>(ty, p) \<in> set ms. fits p"
  shows "\<exists>t'. while_brk (\<lambda>s. conn (rs_t s)) (read_step rd) \<lparr>rs_t = t, rs_ev = ev\<rparr>
      = while_brk (\<lambda>s. conn (rs_t s)) (read_step rd) \<lparr>rs_t = t', rs_ev = ev @ map (\<lambda>(ty, p). EvMessage ty p) ms\<rparr>
    \<and> pend t' = rest \<and> conn t' \<and> fin t' = fin t"
  using assms
proof (induction ms arbitrary: t ev)
  case Nil
  then show ?case by auto
next
  case (Cons m ms)
  obtain ty p where m: "m = (ty, p)" by (cases m)
  from Cons.prems read_step_frame [of "\<lparr>rs_t = t, rs_ev = ev\<rparr>" ty p] m obtain t1
    where st: "read_step rd \<lparr>rs_t = t, rs_ev = ev\<rparr> = Some (\<lparr>rs_t = t1, rs_ev = ev @ [EvMessage ty p]\<rparr>, False)"
      and t1: "pend t1 = concat (map (\<lambda>(ty, p). frame_bytes ty p) ms) @ rest" "conn t1" "fin t1 = fin t"
    by auto
  from Cons.IH [OF t1(2,1), of "ev @ [EvMessage ty p]"] Cons.prems(3) t1(3) obtain t'
    where t': "while_brk (\<lambda>s. conn (rs_t s)) (read_step rd) \<lparr>rs_t = t1, rs_ev = ev @ [EvMessage ty p]\<rparr>
      = while_brk (\<lambda>s. conn (rs_t s)) (read_step rd)
          \<lparr>rs_t = t', rs_ev = (ev @ [EvMessage ty p]) @ map (\<lambda>(ty, p). EvMessage ty p) ms\<rparr>"
      "pend t' = rest" "conn t'" "fin t' = fin t" by auto
  have "while_brk (\<lambda>s. conn (rs_t s)) (read_step rd) \<lparr>rs_t = t, rs_ev = ev\<rparr>
      = while_brk (\<lambda>s. conn (rs_t s)) (read_step rd) \<lparr>rs_t = t1, rs_ev = ev @ [EvMessage ty p]\<rparr>"
    using Cons.prems(1) st by (intro while_brk_step) simp_all
  with t' m show ?case by auto
qed

text \<open>The whole stream: the messages in order, then what the rest of the stream deserves.\<close>

lemma read_loop_frames:
  assumes "conn t" and "pend t = concat (map (\<lambda>(ty, p). frame_bytes ty p) ms) @ rest" and "\<forall>(ty, p) \<in> set ms. fits p"
  shows "fin t \<Longrightarrow> length rest < 12 \<Longrightarrow>
      map_option snd (read_loop rd conn t) = Some (map (\<lambda>(ty, p). EvMessage ty p) ms @ [EvDisconnect])"
    and "rest = hdr_bytes h @ junk \<Longrightarrow> fh_magic h \<noteq> kMagic \<or> fh_version h \<noteq> kVersion \<Longrightarrow>
      map_option snd (read_loop rd conn t) = Some (map (\<lambda>(ty, p). EvMessage ty p) ms @ [EvError BadFrame, EvDisconnect])"
    and "rest = hdr_bytes h @ junk \<Longrightarrow> fh_magic h = kMagic \<Longrightarrow> fh_version h = kVersion \<Longrightarrow>
      kMaxPayloadSize < fh_payload_len h \<Longrightarrow>
      map_option snd (read_loop rd conn t) = Some (map (\<lambda>(ty, p). EvMessage ty p) ms @ [EvError PayloadTooLarge, EvDisconnect])"
proof -
  let ?W = "while_brk (\<lambda>s. conn (rs_t s)) (read_step rd)"
  obtain t' where w: "?W \<lparr>rs_t = t, rs_ev = []\<rparr> = ?W \<lparr>rs_t = t', rs_ev = map (\<lambda>(ty, p). EvMessage ty p) ms\<rparr>"
    and t': "pend t' = rest" "conn t'" "fin t' = fin t"
    using read_frames [OF assms, of "[]"] by auto
  have brk: "read_step rd \<lparr>rs_t = t', rs_ev = map (\<lambda>(ty, p). EvMessage ty p) ms\<rparr>
        = Some (\<lparr>rs_t = t'', rs_ev = map (\<lambda>(ty, p). EvMessage ty p) ms @ es\<rparr>, True) \<Longrightarrow>
      map_option snd (read_loop rd conn t) = Some (map (\<lambda>(ty, p). EvMessage ty p) ms @ es @ [EvDisconnect])" for t'' es
    using t'(2) by (simp add: read_loop_def w while_brk_break)
  show "fin t \<Longrightarrow> length rest < 12 \<Longrightarrow>
      map_option snd (read_loop rd conn t) = Some (map (\<lambda>(ty, p). EvMessage ty p) ms @ [EvDisconnect])"
    using read_step_eof [of "\<lparr>rs_t = t', rs_ev = map (\<lambda>(ty, p). EvMessage ty p) ms\<rparr>"] t' brk [of _ "[]"] by auto
  show "rest = hdr_bytes h @ junk \<Longrightarrow> fh_magic h \<noteq> kMagic \<or> fh_version h \<noteq> kVersion \<Longrightarrow>
      map_option snd (read_loop rd conn t) = Some (map (\<lambda>(ty, p). EvMessage ty p) ms @ [EvError BadFrame, EvDisconnect])"
    using read_step_reject(1) [of "\<lparr>rs_t = t', rs_ev = map (\<lambda>(ty, p). EvMessage ty p) ms\<rparr>" h junk] t'
      brk [of _ "[EvError BadFrame]"] by auto
  show "rest = hdr_bytes h @ junk \<Longrightarrow> fh_magic h = kMagic \<Longrightarrow> fh_version h = kVersion \<Longrightarrow>
      kMaxPayloadSize < fh_payload_len h \<Longrightarrow>
      map_option snd (read_loop rd conn t) = Some (map (\<lambda>(ty, p). EvMessage ty p) ms @ [EvError PayloadTooLarge, EvDisconnect])"
    using read_step_reject(2) [of "\<lparr>rs_t = t', rs_ev = map (\<lambda>(ty, p). EvMessage ty p) ms\<rparr>" h junk] t'
      brk [of _ "[EvError PayloadTooLarge]"] by auto
qed

end

text \<open>A transport whose reads wait: without the end of the stream a short read never returns.\<close>

locale blocking_transport = stream_transport +
  assumes rd_block: "conn t \<Longrightarrow> length (pend t) < n \<Longrightarrow> \<not> fin t \<Longrightarrow> rd t n = None"
begin

lemma read_step_blocks: "conn (rs_t s) \<Longrightarrow> length (pend (rs_t s)) < 12 \<Longrightarrow> \<not> fin (rs_t s) \<Longrightarrow> read_step rd s = None"
  by (simp add: read_step_def rd_block)

lemma read_loop_blocks:
  assumes "conn t" and "pend t = concat (map (\<lambda>(ty, p). frame_bytes ty p) ms) @ rest" and "\<forall>(ty, p) \<in> set ms. fits p"
    and "length rest < 12" and "\<not> fin t"
  shows "read_loop rd conn t = None"
proof -
  obtain t' where "while_brk (\<lambda>s. conn (rs_t s)) (read_step rd) \<lparr>rs_t = t, rs_ev = []\<rparr>
      = while_brk (\<lambda>s. conn (rs_t s)) (read_step rd) \<lparr>rs_t = t', rs_ev = map (\<lambda>(ty, p). EvMessage ty p) ms\<rparr>"
    and "pend t' = rest" "conn t'" "\<not> fin t'"
    using read_frames [OF assms(1-3), of "[]"] assms(5) by auto
  then show ?thesis using assms(4) by (simp add: read_loop_def while_brk_hang read_step_blocks)
qed

end

section \<open>The in-process transport is such a stream\<close>

definition inproc_pend :: "inproc \<times> (nat \<Rightarrow> pipe) \<Rightarrow> u8 list" where
  "inproc_pend s = drop (ip_pos (fst s)) (ip_current (fst s)) @ concat (p_queue (snd s (ip_rx (fst s))))"

definition inproc_fin :: "inproc \<times> (nat \<Rightarrow> pipe) \<Rightarrow> bool" where
  "inproc_fin s = p_closed (snd s (ip_rx (fst s)))"

text \<open>A read moves only the reader's position and its receive queue.\<close>

definition same_world :: "inproc \<times> (nat \<Rightarrow> pipe) \<Rightarrow> inproc \<times> (nat \<Rightarrow> pipe) \<Rightarrow> bool" where
  "same_world s s' \<longleftrightarrow> ip_rx (fst s') = ip_rx (fst s) \<and> ip_tx (fst s') = ip_tx (fst s)
     \<and> p_closed (snd s' (ip_rx (fst s))) = p_closed (snd s (ip_rx (fst s)))
     \<and> (\<forall>i. i \<noteq> ip_rx (fst s) \<longrightarrow> snd s' i = snd s i)"

lemma same_world_refl [simp]: "same_world s s"
  by (simp add: same_world_def)

lemma same_world_trans: "same_world s t \<Longrightarrow> same_world t u \<Longrightarrow> same_world s u"
  by (simp add: same_world_def)

lemma inproc_fill_full:
  assumes "length acc \<le> want" and "want - length acc \<le> length (inproc_pend (e, ps))"
  shows "\<exists>e' ps'. inproc_fill want acc e ps = Some ((e', ps'), acc @ take (want - length acc) (inproc_pend (e, ps)))
    \<and> inproc_pend (e', ps') = drop (want - length acc) (inproc_pend (e, ps)) \<and> ip_connected e' = ip_connected e
    \<and> same_world (e, ps) (e', ps')"
  using assms
proof (induction want acc e ps rule: inproc_fill.induct)
  case (1 want acc e ps)
  let ?have = "ip_pos e < length (ip_current e)"
  consider (full) "want \<le> length acc" | (copy) "length acc < want" ?have | (more) "length acc < want" "\<not> ?have"
    by linarith
  then show ?case
  proof cases
    case full
    then show ?thesis by (subst inproc_fill.simps) simp
  next
    case copy
    define n where "n = min (length (ip_current e) - ip_pos e) (want - length acc)"
    define rest where "rest = concat (p_queue (ps (ip_rx e)))"
    let ?e = "e\<lparr>ip_pos := ip_pos e + n\<rparr>" and ?acc = "acc @ take n (drop (ip_pos e) (ip_current e))"
    have n: "n \<le> length (drop (ip_pos e) (ip_current e))" "n \<le> want - length acc"
      unfolding n_def by simp_all
    have pend: "inproc_pend (?e, ps) = drop n (inproc_pend (e, ps))"
      using n(1) by (simp add: inproc_pend_def add.commute)
    have tk: "take n (drop (ip_pos e) (ip_current e)) = take n (inproc_pend (e, ps))"
      using n(1) by (simp add: inproc_pend_def)
    have len: "length ?acc = length acc + n" using n(1) by simp
    have "\<exists>e' ps'. inproc_fill want ?acc ?e ps = Some ((e', ps'), ?acc @ take (want - length ?acc) (inproc_pend (?e, ps)))
      \<and> inproc_pend (e', ps') = drop (want - length ?acc) (inproc_pend (?e, ps)) \<and> ip_connected e' = ip_connected ?e
      \<and> same_world (?e, ps) (e', ps')"
    proof (rule 1(1) [OF _ _ n_def])
      show "\<not> want \<le> length acc" "?have" using copy by simp_all
      show "length ?acc \<le> want" unfolding len using n(2) copy by simp
      show "want - length ?acc \<le> length (inproc_pend (?e, ps))" unfolding len pend using 1(4) by simp
    qed
    then obtain e' ps' where r: "inproc_fill want ?acc ?e ps
        = Some ((e', ps'), ?acc @ take (want - length acc - n) (drop n (inproc_pend (e, ps))))"
      "inproc_pend (e', ps') = drop (want - length acc - n) (drop n (inproc_pend (e, ps)))"
      "ip_connected e' = ip_connected e" "same_world (?e, ps) (e', ps')"
      unfolding len pend by auto
    have "inproc_fill want acc e ps = inproc_fill want ?acc ?e ps"
      using copy by (subst inproc_fill.simps) (simp add: Let_def n_def)
    moreover have "?acc @ take (want - length acc - n) (drop n (inproc_pend (e, ps))) = acc @ take (want - length acc) (inproc_pend (e, ps))"
      using n(2) take_add [of n "want - length acc - n" "inproc_pend (e, ps)"] by (simp add: tk del: diff_diff_left)
    moreover have "drop (want - length acc - n) (drop n (inproc_pend (e, ps))) = drop (want - length acc) (inproc_pend (e, ps))"
      using n(2) by (simp del: diff_diff_left)
    moreover have "same_world (e, ps) (e', ps')" using r(4) by (simp add: same_world_def)
    ultimately show ?thesis using r(1-3) by metis
  next
    case more
    let ?q = "p_queue (ps (ip_rx e))"
    have pend: "inproc_pend (e, ps) = concat ?q" using more(2) by (simp add: inproc_pend_def)
    with 1(4) more(1) obtain msg q where q: "?q = msg # q" by (cases ?q) auto
    let ?e = "e\<lparr>ip_current := msg, ip_pos := 0\<rparr>" and ?ps = "ps(ip_rx e := (ps (ip_rx e))\<lparr>p_queue := q\<rparr>)"
    have pend': "inproc_pend (?e, ?ps) = inproc_pend (e, ps)"
      unfolding pend by (simp add: inproc_pend_def q)
    have "\<exists>e' ps'. inproc_fill want acc ?e ?ps = Some ((e', ps'), acc @ take (want - length acc) (inproc_pend (?e, ?ps)))
      \<and> inproc_pend (e', ps') = drop (want - length acc) (inproc_pend (?e, ?ps)) \<and> ip_connected e' = ip_connected ?e
      \<and> same_world (?e, ?ps) (e', ps')"
      using more q 1(3,4) pend' by (intro 1(2)) (simp_all add: fun_upd_def)
    moreover have "inproc_fill want acc e ps = inproc_fill want acc ?e ?ps"
      using more q by (subst inproc_fill.simps) simp
    moreover have "same_world (e, ps) (e', ps')" if "same_world (?e, ?ps) (e', ps')" for e' ps'
      using that by (simp add: same_world_def)
    ultimately show ?thesis unfolding pend' by auto
  qed
qed

lemma inproc_fill_short:
  assumes "length acc \<le> want" and "length (inproc_pend (e, ps)) < want - length acc"
  shows "inproc_fin (e, ps) \<Longrightarrow> \<exists>e' ps'. inproc_fill want acc e ps = Some ((e', ps'), []) \<and> \<not> ip_connected e'"
    and "\<not> inproc_fin (e, ps) \<Longrightarrow> inproc_fill want acc e ps = None"
proof -
  have "(inproc_fin (e, ps) \<longrightarrow> (\<exists>e' ps'. inproc_fill want acc e ps = Some ((e', ps'), []) \<and> \<not> ip_connected e'))
    \<and> (\<not> inproc_fin (e, ps) \<longrightarrow> inproc_fill want acc e ps = None)"
    using assms
  proof (induction want acc e ps rule: inproc_fill.induct)
    case (1 want acc e ps)
    have lt: "length acc < want" using 1(4) by linarith
    show ?case
    proof (cases "ip_pos e < length (ip_current e)")
      case True
      define n where "n = min (length (ip_current e) - ip_pos e) (want - length acc)"
      let ?e = "e\<lparr>ip_pos := ip_pos e + n\<rparr>" and ?acc = "acc @ take n (drop (ip_pos e) (ip_current e))"
      have n: "n = length (ip_current e) - ip_pos e" using 1(4) unfolding n_def by (simp add: inproc_pend_def)
      have "length ?acc \<le> want" "length (inproc_pend (?e, ps)) < want - length ?acc"
        using 1(4) True by (simp_all add: n inproc_pend_def)
      moreover have "inproc_fill want acc e ps = inproc_fill want ?acc ?e ps"
        using True lt by (subst inproc_fill.simps) (simp add: Let_def n_def)
      moreover have "inproc_fin (?e, ps) = inproc_fin (e, ps)" by (simp add: inproc_fin_def)
      ultimately show ?thesis using 1(1) [OF _ True n_def] lt by simp
    next
      case False
      show ?thesis
      proof (cases "p_queue (ps (ip_rx e))")
        case Nil
        then show ?thesis using False lt by (subst (1 2) inproc_fill.simps) (simp add: inproc_fin_def)
      next
        case (Cons msg q)
        let ?e = "e\<lparr>ip_current := msg, ip_pos := 0\<rparr>" and ?ps = "ps(ip_rx e := (ps (ip_rx e))\<lparr>p_queue := q\<rparr>)"
        have "inproc_pend (?e, ?ps) = inproc_pend (e, ps)" "inproc_fin (?e, ?ps) = inproc_fin (e, ps)"
          using False by (simp_all add: inproc_pend_def inproc_fin_def Cons)
        moreover have "inproc_fill want acc e ps = inproc_fill want acc ?e ?ps"
          using False lt Cons by (subst inproc_fill.simps) simp
        ultimately show ?thesis using 1(2) [OF _ False Cons] 1(3,4) lt by (simp add: fun_upd_def)
      qed
    qed
  qed
  then show "inproc_fin (e, ps) \<Longrightarrow> \<exists>e' ps'. inproc_fill want acc e ps = Some ((e', ps'), []) \<and> \<not> ip_connected e'"
    and "\<not> inproc_fin (e, ps) \<Longrightarrow> inproc_fill want acc e ps = None" by auto
qed

interpretation inp: blocking_transport inproc_read inproc_connected inproc_pend inproc_fin
proof unfold_locales
  fix s :: "inproc \<times> (nat \<Rightarrow> pipe)" and n :: nat
  obtain e ps where s: "s = (e, ps)" by (cases s)
  show "\<exists>t'. inproc_read s n = Some (t', take n (inproc_pend s)) \<and> inproc_pend t' = drop n (inproc_pend s)
      \<and> inproc_connected t' \<and> inproc_fin t' = inproc_fin s"
    if "inproc_connected s" "n \<le> length (inproc_pend s)"
    using inproc_fill_full [of "[]" n e ps] that
    by (fastforce simp: s inproc_read_def inproc_connected_def inproc_fin_def same_world_def)
  show "\<exists>t'. inproc_read s n = Some (t', []) \<and> \<not> inproc_connected t'" if "length (inproc_pend s) < n" "inproc_fin s"
    using inproc_fill_short(1) [of "[]" n e ps] that by (fastforce simp: s inproc_read_def inproc_connected_def)
  show "inproc_read s n = None" if "length (inproc_pend s) < n" "\<not> inproc_fin s"
    using inproc_fill_short(2) [of "[]" n e ps] that by (simp add: s inproc_read_def)
qed

lemma inproc_fill_world: "inproc_fill want acc e ps = Some ((e', ps'), bs) \<Longrightarrow> same_world (e, ps) (e', ps')"
proof (induction want acc e ps rule: inproc_fill.induct)
  case (1 want acc e ps)
  show ?case using 1(3) 1(1) 1(2)
    by (subst (asm) inproc_fill.simps)
      (auto simp: Let_def same_world_def fun_upd_def split: if_splits list.splits)
qed

lemma read_step_world:
  assumes "read_step inproc_read s = Some (s', k)"
  shows "same_world (rs_t s) (rs_t s')"
proof -
  have rd: "same_world t t'" if "inproc_read t n = Some (t', bs)" for t t' n bs
    using that inproc_fill_world by (cases t, cases t') (auto simp: inproc_read_def)
  show ?thesis
    using assms
    by (auto simp: read_step_def Let_def dest!: rd split: option.splits if_splits) (blast intro: same_world_trans)+
qed

section \<open>An in-process channel\<close>

text \<open>
  A client and a server on one registered channel. The steps are the client's and the server's
  \<^verbatim>\<open>send\<close>, one round of the server's read loop, and the client closing its end, in any order.
  \<open>ch_sent\<close> records what a connected client sent, \<open>ch_got\<close> what the server's callbacks got.
\<close>

record chan =
  ch_client :: inproc
  ch_server :: inproc
  ch_pipes :: "nat \<Rightarrow> pipe"
  ch_sent :: "(u8 \<times> u8 list) list"
  ch_got :: "event list"

definition chan_start :: "string \<Rightarrow> ipc_env \<Rightarrow> chan option" where
  "chan_start channel_id w =
     (let w' = register_inprocess channel_id w
      in case (inprocess_listen channel_id w', inprocess_connect channel_id w') of
           (Some s, Some c) \<Rightarrow> Some \<lparr>ch_client = c, ch_server = s, ch_pipes = ie_pipes w', ch_sent = [], ch_got = []\<rparr>
         | _ \<Rightarrow> None)"

inductive chan_step :: "chan \<Rightarrow> chan \<Rightarrow> bool" where
  client_send: "fits p \<Longrightarrow> send_raw inproc_write ty p (ch_client c, ch_pipes c) = (e, ps) \<Longrightarrow>
     chan_step c (c\<lparr>ch_client := e, ch_pipes := ps,
       ch_sent := ch_sent c @ (if ip_connected (ch_client c) then [(ty, p)] else [])\<rparr>)"
| server_send: "send_raw inproc_write ty p (ch_server c, ch_pipes c) = (e, ps) \<Longrightarrow>
     chan_step c (c\<lparr>ch_server := e, ch_pipes := ps\<rparr>)"
| server_recv: "ip_connected (ch_server c) \<Longrightarrow>
     read_step inproc_read \<lparr>rs_t = (ch_server c, ch_pipes c), rs_ev = ch_got c\<rparr> = Some (s, k) \<Longrightarrow>
     chan_step c (c\<lparr>ch_server := fst (rs_t s), ch_pipes := snd (rs_t s), ch_got := rs_ev s\<rparr>)"
| client_close: "inproc_close (ch_client c, ch_pipes c) = (e, ps) \<Longrightarrow>
     chan_step c (c\<lparr>ch_client := e, ch_pipes := ps\<rparr>)"

abbreviation stream_of :: "(u8 \<times> u8 list) list \<Rightarrow> u8 list" where
  "stream_of ms \<equiv> concat (map (\<lambda>(ty, p). frame_bytes ty p) ms)"

abbreviation messages :: "(u8 \<times> u8 list) list \<Rightarrow> event list" where
  "messages ms \<equiv> map (\<lambda>(ty, p). EvMessage ty p) ms"

definition chan_inv :: "chan \<Rightarrow> bool" where
  "chan_inv c \<longleftrightarrow> ip_rx (ch_server c) = ip_tx (ch_client c) \<and> ip_rx (ch_client c) = ip_tx (ch_server c)
     \<and> ip_tx (ch_client c) \<noteq> ip_tx (ch_server c)
     \<and> \<not> p_closed (ch_pipes c (ip_tx (ch_client c)))
     \<and> (\<forall>(ty, p) \<in> set (ch_sent c). fits p)
     \<and> (\<exists>n \<le> length (ch_sent c). ch_got c = messages (take n (ch_sent c))
          \<and> inproc_pend (ch_server c, ch_pipes c) = stream_of (drop n (ch_sent c)))"

text \<open>What a send does: to a closed or foreign pipe nothing the reader sees, else the frame is appended.\<close>

lemma send_inproc:
  assumes "send_raw inproc_write ty p (e, ps) = (e', ps')"
  shows "ip_rx e' = ip_rx e" "ip_tx e' = ip_tx e" "ip_current e' = ip_current e" "ip_pos e' = ip_pos e"
    "p_closed (ps' i) = p_closed (ps i)"
    "i \<noteq> ip_tx e \<Longrightarrow> ps' i = ps i"
    "\<not> p_closed (ps (ip_tx e)) \<Longrightarrow> concat (p_queue (ps' (ip_tx e)))
       = concat (p_queue (ps (ip_tx e))) @ (if ip_connected e then frame_bytes ty p else [])"
  using assms by (auto simp: send_raw_def inproc_write_def Let_def frame_bytes_def split: if_splits)

lemma chan_inv_start:
  assumes "chan_start channel_id w = Some c"
  shows "chan_inv c"
  using assms
  by (auto simp: chan_start_def Let_def register_inprocess_def inprocess_listen_def inprocess_connect_def
      inproc_new_def chan_inv_def inproc_pend_def pipe_new_def)

text \<open>The server's next round: the next message that was sent, or a wait.\<close>

lemma chan_inv_round:
  assumes inv: "chan_inv c" and conn: "ip_connected (ch_server c)"
  obtains "messages (ch_sent c) = ch_got c"
      "read_step inproc_read \<lparr>rs_t = (ch_server c, ch_pipes c), rs_ev = ch_got c\<rparr> = None"
  | n e ps where "n < length (ch_sent c)" "ch_got c = messages (take n (ch_sent c))"
      "read_step inproc_read \<lparr>rs_t = (ch_server c, ch_pipes c), rs_ev = ch_got c\<rparr>
        = Some (\<lparr>rs_t = (e, ps), rs_ev = messages (take (Suc n) (ch_sent c))\<rparr>, False)"
      "inproc_pend (e, ps) = stream_of (drop (Suc n) (ch_sent c))" "ip_connected e"
proof -
  let ?s = "\<lparr>rs_t = (ch_server c, ch_pipes c), rs_ev = ch_got c\<rparr>"
  from inv obtain n where n: "n \<le> length (ch_sent c)" "ch_got c = messages (take n (ch_sent c))"
    "inproc_pend (ch_server c, ch_pipes c) = stream_of (drop n (ch_sent c))"
    and fits: "\<forall>(ty, p) \<in> set (ch_sent c). fits p" and opn: "\<not> inproc_fin (ch_server c, ch_pipes c)"
    by (auto simp: chan_inv_def inproc_fin_def)
  have conn': "inproc_connected (rs_t ?s)" using conn by (simp add: inproc_connected_def)
  show thesis
  proof (cases "n = length (ch_sent c)")
    case True
    then have "read_step inproc_read ?s = None"
      using n opn by (intro inp.read_step_blocks [OF conn']) simp_all
    with True n show thesis by (intro that(1)) simp_all
  next
    case False
    with n have lt: "n < length (ch_sent c)" by simp
    obtain ty p where m: "ch_sent c ! n = (ty, p)" by (cases "ch_sent c ! n")
    have d: "drop n (ch_sent c) = (ty, p) # drop (Suc n) (ch_sent c)"
      using lt m Cons_nth_drop_Suc by fastforce
    have "fits p" using fits lt m nth_mem by fastforce
    moreover have pend: "inproc_pend (rs_t ?s) = frame_bytes ty p @ stream_of (drop (Suc n) (ch_sent c))"
      using n d by simp
    ultimately obtain t where t: "read_step inproc_read ?s
        = Some (\<lparr>rs_t = t, rs_ev = ch_got c @ [EvMessage ty p]\<rparr>, False)"
      "inproc_pend t = stream_of (drop (Suc n) (ch_sent c))" "inproc_connected t"
      using inp.read_step_frame [OF conn' pend] by auto
    have "ch_got c @ [EvMessage ty p] = messages (take (Suc n) (ch_sent c))"
      using n m lt by (simp add: take_Suc_conv_app_nth)
    with t lt n show thesis by (intro that(2) [of n "fst t" "snd t"]) (simp_all add: inproc_connected_def)
  qed
qed

lemma chan_inv_step:
  assumes "chan_step c c'" and "chan_inv c"
  shows "chan_inv c'"
  using assms
proof (induction rule: chan_step.induct)
  case (client_send p ty c e ps)
  from client_send(3) obtain n where n: "n \<le> length (ch_sent c)" "ch_got c = messages (take n (ch_sent c))"
    "inproc_pend (ch_server c, ch_pipes c) = stream_of (drop n (ch_sent c))" by (auto simp: chan_inv_def)
  note snd = send_inproc [OF client_send(2)]
  have "concat (p_queue (ps (ip_tx (ch_client c)))) = concat (p_queue (ch_pipes c (ip_tx (ch_client c))))
      @ (if ip_connected (ch_client c) then frame_bytes ty p else [])"
    using client_send(3) by (intro snd(7)) (auto simp: chan_inv_def)
  then have "inproc_pend (ch_server c, ps) = stream_of (drop n (ch_sent c))
      @ (if ip_connected (ch_client c) then frame_bytes ty p else [])"
    using n(3) client_send(3) by (simp add: inproc_pend_def chan_inv_def)
  then show ?case
    using client_send(1,3) n snd by (auto simp: chan_inv_def intro!: exI [of _ n])
next
  case (server_send ty p c e ps)
  note snd = send_inproc [OF server_send(1)]
  have "ps (ip_rx (ch_server c)) = ch_pipes c (ip_rx (ch_server c))"
    using snd(6) server_send(2) by (simp add: chan_inv_def)
  then have "inproc_pend (e, ps) = inproc_pend (ch_server c, ch_pipes c)"
    using snd(1,3,4) by (simp add: inproc_pend_def)
  then show ?case using server_send(2) snd by (simp add: chan_inv_def)
next
  case (server_recv c s k)
  have w: "same_world (ch_server c, ch_pipes c) (rs_t s)"
    using read_step_world [OF server_recv(2)] by simp
  from server_recv(3,1) show ?case
  proof (cases rule: chan_inv_round)
    case 1
    then show ?thesis using server_recv(2) by simp
  next
    case (2 n e ps)
    then have "inproc_pend (fst (rs_t s), snd (rs_t s)) = stream_of (drop (Suc n) (ch_sent c))"
      "rs_ev s = messages (take (Suc n) (ch_sent c))" "Suc n \<le> length (ch_sent c)"
      using server_recv(2) by auto
    then show ?thesis using w server_recv(3) by (auto simp: chan_inv_def same_world_def)
  qed
next
  case (client_close c e ps)
  have "ip_rx e = ip_rx (ch_client c)" "ip_tx e = ip_tx (ch_client c)"
    "ps (ip_rx (ch_server c)) = ch_pipes c (ip_rx (ch_server c))"
    using client_close by (auto simp: inproc_close_def Let_def chan_inv_def split: if_splits)
  moreover from this have "inproc_pend (ch_server c, ps) = inproc_pend (ch_server c, ch_pipes c)"
    by (simp add: inproc_pend_def)
  ultimately show ?case using client_close(2) by (simp add: chan_inv_def)
qed

lemma chan_inv_reach: "chan_step\<^sup>*\<^sup>* c0 c \<Longrightarrow> chan_inv c0 \<Longrightarrow> chan_inv c"
  by (induction rule: rtranclp_induct) (auto intro: chan_inv_step)

text \<open>
  C16. In-process delivery: whatever the order of sends, rounds of the server's read loop and closes,
  the server has got exactly a prefix of the messages the client sent, each once, in order and unchanged,
  with no error; its next round delivers the next one, and it waits exactly when it has got all of them.
\<close>

theorem inproc_fifo:
  assumes start: "chan_start channel_id w = Some c0" and steps: "chan_step\<^sup>*\<^sup>* c0 c" and conn: "ip_connected (ch_server c)"
  shows "\<exists>n \<le> length (ch_sent c). ch_got c = messages (take n (ch_sent c))
    \<and> map_option (\<lambda>(s, brk). (rs_ev s, brk)) (read_step inproc_read \<lparr>rs_t = (ch_server c, ch_pipes c), rs_ev = ch_got c\<rparr>)
      = (if n = length (ch_sent c) then None else Some (messages (take (Suc n) (ch_sent c)), False))"
proof (cases rule: chan_inv_round [OF chan_inv_reach [OF steps chan_inv_start [OF start]] conn])
  case 1
  then show ?thesis by (intro exI [of _ "length (ch_sent c)"]) simp
next
  case (2 n e ps)
  then show ?thesis by (intro exI [of _ n]) simp
qed

text \<open>
  A peer that closes an in-process channel is not noticed: \<^verbatim>\<open>close\<close> closes only the pipe the closing
  end reads, so the other end's read loop, once it has delivered what was sent, waits forever and never
  reports the disconnect.
\<close>

theorem inproc_close_unnoticed:
  assumes start: "chan_start channel_id w = Some c0" and steps: "chan_step\<^sup>*\<^sup>* c0 c" and conn: "ip_connected (ch_server c)"
  shows "read_loop inproc_read inproc_connected (ch_server c, snd (inproc_close (ch_client c, ch_pipes c))) = None"
proof -
  obtain e ps where cl: "inproc_close (ch_client c, ch_pipes c) = (e, ps)" by fastforce
  have "chan_inv (c\<lparr>ch_client := e, ch_pipes := ps\<rparr>)"
    using chan_inv_step [OF client_close [OF cl] chan_inv_reach [OF steps chan_inv_start [OF start]]] .
  then obtain n where "inproc_pend (ch_server c, ps) = stream_of (drop n (ch_sent c)) @ []"
    "\<forall>(ty, p) \<in> set (ch_sent c). fits p" "\<not> inproc_fin (ch_server c, ps)"
    by (auto simp: chan_inv_def inproc_fin_def)
  then have "read_loop inproc_read inproc_connected (ch_server c, ps) = None"
    using conn by (intro inp.read_loop_blocks [where ms = "drop n (ch_sent c)" and rest = "[]"]) (auto simp: inproc_connected_def dest: in_set_dropD)
  then show ?thesis by (simp add: cl)
qed

section \<open>The Unix socket transport is such a stream\<close>

text \<open>
  What is relied on of the operating system, for a stream socket. A read returns at least one and at most
  the requested number of the bytes that are still to come, and nothing only at the end of the stream;
  a write accepts at least one byte and appends the accepted ones.
\<close>

locale os_reads =
  fixes sys_read :: "'e \<Rightarrow> nat \<Rightarrow> 'e \<times> u8 list"
    and incoming :: "'e \<Rightarrow> u8 list"
  assumes sys_read_some: "0 < n \<Longrightarrow> incoming e \<noteq> [] \<Longrightarrow>
      \<exists>k e'. 0 < k \<and> k \<le> n \<and> k \<le> length (incoming e) \<and> sys_read e n = (e', take k (incoming e)) \<and> incoming e' = drop k (incoming e)"
    and sys_read_eof: "incoming e = [] \<Longrightarrow> snd (sys_read e n) = []"
begin

lemma unix_fill_full:
  assumes "length acc \<le> want" and "want - length acc \<le> length (incoming (ut_sys t))"
  shows "\<exists>t'. unix_fill sys_read want acc t = (t', acc @ take (want - length acc) (incoming (ut_sys t)))
    \<and> incoming (ut_sys t') = drop (want - length acc) (incoming (ut_sys t)) \<and> ut_connected t' = ut_connected t"
  using assms
proof (induction "want - length acc" arbitrary: acc t rule: less_induct)
  case less
  let ?b = "incoming (ut_sys t)" and ?m = "want - length acc"
  show ?case
  proof (cases "?m = 0")
    case True
    then show ?thesis by (subst unix_fill.simps) simp
  next
    case False
    with less.prems have "?b \<noteq> []" "0 < ?m" by auto
    from sys_read_some [OF this(2,1)] obtain k e' where k: "0 < k" "k \<le> ?m" "k \<le> length ?b"
      "sys_read (ut_sys t) ?m = (e', take k ?b)" "incoming e' = drop k ?b" by auto
    let ?acc = "acc @ take k ?b" and ?t = "t\<lparr>ut_sys := e'\<rparr>"
    have len: "length ?acc = length acc + k" using k(3) by simp
    have "\<exists>t'. unix_fill sys_read want ?acc ?t = (t', ?acc @ take (want - length ?acc) (incoming (ut_sys ?t)))
      \<and> incoming (ut_sys t') = drop (want - length ?acc) (incoming (ut_sys ?t)) \<and> ut_connected t' = ut_connected ?t"
    proof (rule less.hyps)
      show "want - length ?acc < ?m" "length ?acc \<le> want" unfolding len using k(1,2) by simp_all
      show "want - length ?acc \<le> length (incoming (ut_sys ?t))" unfolding len using k(5) less.prems by simp
    qed
    then obtain t' where t': "unix_fill sys_read want ?acc ?t = (t', ?acc @ take (?m - k) (drop k ?b))"
      "incoming (ut_sys t') = drop (?m - k) (drop k ?b)" "ut_connected t' = ut_connected t"
      unfolding len using k(5) by auto
    moreover have "unix_fill sys_read want acc t = unix_fill sys_read want ?acc ?t"
      using False k by (subst unix_fill.simps) auto
    moreover have "take k ?b @ take (?m - k) (drop k ?b) = take ?m ?b"
      using k(2) take_add [of k "?m - k" ?b] by (simp del: diff_diff_left)
    moreover have "drop (?m - k) (drop k ?b) = drop ?m ?b" using k(2) by (simp del: diff_diff_left)
    ultimately show ?thesis by (metis append_assoc)
  qed
qed

lemma unix_fill_short:
  assumes "length acc \<le> want" and "length (incoming (ut_sys t)) < want - length acc"
  shows "\<exists>t'. unix_fill sys_read want acc t = (t', []) \<and> \<not> ut_connected t'"
  using assms
proof (induction "want - length acc" arbitrary: acc t rule: less_induct)
  case less
  let ?b = "incoming (ut_sys t)" and ?m = "want - length acc"
  show ?case
  proof (cases "?b = []")
    case True
    with sys_read_eof [OF True, of ?m] less.prems show ?thesis
      by (subst unix_fill.simps) (auto split: prod.splits)
  next
    case False
    have "0 < ?m" using less.prems by simp
    from sys_read_some [OF this False] obtain k e' where k: "0 < k" "k \<le> ?m" "k \<le> length ?b"
      "sys_read (ut_sys t) ?m = (e', take k ?b)" "incoming e' = drop k ?b" by auto
    have "\<exists>t'. unix_fill sys_read want (acc @ take k ?b) (t\<lparr>ut_sys := e'\<rparr>) = (t', []) \<and> \<not> ut_connected t'"
      using k less.prems by (intro less.hyps) auto
    moreover have "unix_fill sys_read want acc t = unix_fill sys_read want (acc @ take k ?b) (t\<lparr>ut_sys := e'\<rparr>)"
      using False k less.prems by (subst unix_fill.simps) auto
    ultimately show ?thesis by simp
  qed
qed

end

sublocale os_reads \<subseteq> ux: stream_transport "unix_read sys_read" ut_connected "\<lambda>t. incoming (ut_sys t)" "\<lambda>_. True"
proof unfold_locales
  show "\<exists>t'. unix_read sys_read t n = Some (t', take n (incoming (ut_sys t)))
      \<and> incoming (ut_sys t') = drop n (incoming (ut_sys t)) \<and> ut_connected t' \<and> True = True"
    if "ut_connected t" "n \<le> length (incoming (ut_sys t))" for t :: "'e unix_t" and n
    using unix_fill_full [of "[]" n t] that by (auto simp: unix_read_def)
  show "\<exists>t'. unix_read sys_read t n = Some (t', []) \<and> \<not> ut_connected t'"
    if "length (incoming (ut_sys t)) < n" for t :: "'e unix_t" and n
    using unix_fill_short [of "[]" n t] that by (auto simp: unix_read_def)
qed

context os_reads
begin

lemma unix_stream: "stream_transport (unix_read sys_read) ut_connected (\<lambda>t. incoming (ut_sys t)) (\<lambda>_. True)"
  by unfold_locales

end

locale os_writes =
  fixes sys_write :: "'e \<Rightarrow> u8 list \<Rightarrow> 'e \<times> nat"
    and outgoing :: "'e \<Rightarrow> u8 list"
  assumes sys_write_some: "data \<noteq> [] \<Longrightarrow>
      \<exists>k e'. 0 < k \<and> k \<le> length data \<and> sys_write e data = (e', k) \<and> outgoing e' = outgoing e @ take k data"
begin

lemma unix_write_all:
  "outgoing (ut_sys (unix_write sys_write t data)) = outgoing (ut_sys t) @ data
    \<and> ut_connected (unix_write sys_write t data) = ut_connected t"
proof (induction "length data" arbitrary: data t rule: less_induct)
  case less
  show ?case
  proof (cases "data = []")
    case True
    then show ?thesis by (subst (1 2) unix_write.simps) simp
  next
    case False
    from sys_write_some [OF False, of "ut_sys t"] obtain k e' where k: "0 < k" "k \<le> length data"
      "sys_write (ut_sys t) data = (e', k)" "outgoing e' = outgoing (ut_sys t) @ take k data" by auto
    have "unix_write sys_write t data = unix_write sys_write (t\<lparr>ut_sys := e'\<rparr>) (drop k data)"
      using False k by (subst unix_write.simps) auto
    with less [of "drop k data" "t\<lparr>ut_sys := e'\<rparr>"] k show ?thesis by simp
  qed
qed

lemma send_raw_unix: "outgoing (ut_sys (send_raw (unix_write sys_write) ty p t)) = outgoing (ut_sys t) @ frame_bytes ty p"
  using unix_write_all by (simp add: send_raw_def Let_def frame_bytes_def)

lemma send_all_unix:
  "outgoing (ut_sys (fold (\<lambda>(ty, p). send_raw (unix_write sys_write) ty p) ms t)) = outgoing (ut_sys t) @ stream_of ms"
  by (induction ms arbitrary: t) (auto simp: send_raw_unix)

end

text \<open>
  A kernel socket buffer that hands out at most \<open>m\<close> bytes per call and accepts at most \<open>m\<close>: an instance of the
  two interfaces.
\<close>

definition chunk_read :: "nat \<Rightarrow> u8 list \<Rightarrow> nat \<Rightarrow> u8 list \<times> u8 list" where
  "chunk_read m buf n = (drop (min m n) buf, take (min m n) buf)"

definition chunk_write :: "nat \<Rightarrow> u8 list \<Rightarrow> u8 list \<Rightarrow> u8 list \<times> nat" where
  "chunk_write m buf data = (buf @ take m data, min m (length data))"

interpretation chunk_rd: os_reads "chunk_read (Suc m)" "\<lambda>buf. buf" for m
proof unfold_locales
  fix n :: nat and e :: "u8 list"
  assume "0 < n" "e \<noteq> []"
  then show "\<exists>k e'. 0 < k \<and> k \<le> n \<and> k \<le> length e \<and> chunk_read (Suc m) e n = (e', take k e) \<and> e' = drop k e"
    by (intro exI [of _ "min (min (Suc m) n) (length e)"]) (simp add: chunk_read_def min_def)
qed (simp add: chunk_read_def)

interpretation chunk_wr: os_writes "chunk_write (Suc m)" "\<lambda>buf. buf" for m
proof unfold_locales
  fix data e :: "u8 list"
  assume "data \<noteq> []"
  then show "\<exists>k e'. 0 < k \<and> k \<le> length data \<and> chunk_write (Suc m) e data = (e', k) \<and> e' = e @ take k data"
    by (intro exI [of _ "min (Suc m) (length data)"]) (auto simp: chunk_write_def min_def)
qed

text \<open>
  C15. Socket round trip: the messages that one end sends, each of at most 64 MiB, are reported at the other end
  once, in order and unchanged, followed by the disconnect when the stream ends, also when it ends
  within a header; however the operating system splits reads and writes.
\<close>

theorem unix_roundtrip:
  assumes "os_writes sys_write outgoing" and "os_reads sys_read incoming"
    and "outgoing (ut_sys w) = []" and "ut_connected r"
    and "incoming (ut_sys r) = outgoing (ut_sys (fold (\<lambda>(ty, p). send_raw (unix_write sys_write) ty p) ms w)) @ part"
    and "length part < 12" and "\<forall>(ty, p) \<in> set ms. fits p"
  shows "map_option snd (read_loop (unix_read sys_read) ut_connected r) = Some (messages ms @ [EvDisconnect])"
proof -
  have "incoming (ut_sys r) = stream_of ms @ part"
    using assms os_writes.send_all_unix [OF assms(1)] by simp
  then show ?thesis
    by (rule stream_transport.read_loop_frames(1) [OF os_reads.unix_stream [OF assms(2)] assms(4) _ assms(7) _ assms(6)]) simp
qed

text \<open>
  C36. Rejected frames: after the messages before it, a header with a wrong magic number or version is reported as
  \<^verbatim>\<open>BadFrame\<close> and the loop ends. \<^verbatim>\<open>send_raw\<close> does not check the size: a payload of more than 64 MiB is sent,
  and the receiver answers with \<^verbatim>\<open>PayloadTooLarge\<close> and drops the connection with everything behind it.
\<close>

theorem unix_rejects:
  assumes os: "os_reads sys_read incoming" and conn: "ut_connected r" and ms: "\<forall>(ty, p) \<in> set ms. fits p"
  shows "(incoming (ut_sys r) = stream_of ms @ hdr_bytes h @ junk \<and> (fh_magic h \<noteq> kMagic \<or> fh_version h \<noteq> kVersion) \<longrightarrow>
      map_option snd (read_loop (unix_read sys_read) ut_connected r) = Some (messages ms @ [EvError BadFrame, EvDisconnect]))
    \<and> (incoming (ut_sys r) = stream_of (ms @ (ty, big) # ms') \<and> 67108864 < length big \<and> length big < 2 ^ 32 \<longrightarrow>
      map_option snd (read_loop (unix_read sys_read) ut_connected r) = Some (messages ms @ [EvError PayloadTooLarge, EvDisconnect]))"
proof (intro conjI impI; elim conjE)
  note st = os_reads.unix_stream [OF os]
  show "map_option snd (read_loop (unix_read sys_read) ut_connected r) = Some (messages ms @ [EvError BadFrame, EvDisconnect])"
    if "incoming (ut_sys r) = stream_of ms @ hdr_bytes h @ junk" "fh_magic h \<noteq> kMagic \<or> fh_version h \<noteq> kVersion"
    by (rule stream_transport.read_loop_frames(2) [OF st conn that(1) ms refl that(2)])
  assume pend: "incoming (ut_sys r) = stream_of (ms @ (ty, big) # ms')" and big: "67108864 < length big" "length big < 2 ^ 32"
  have "unat (of_nat (length big) :: u32) = length big" using big by (simp add: unat_of_nat)
  then have "kMaxPayloadSize < fh_payload_len (send_hdr ty big)" using big by (simp add: word_less_nat_alt)
  moreover have "incoming (ut_sys r) = stream_of ms @ hdr_bytes (send_hdr ty big) @ (big @ stream_of ms')"
    by (simp add: pend frame_bytes_def)
  ultimately show "map_option snd (read_loop (unix_read sys_read) ut_connected r) = Some (messages ms @ [EvError PayloadTooLarge, EvDisconnect])"
    using stream_transport.read_loop_frames(3) [OF st conn _ ms refl send_hdr_fields(1,2)] by blast
qed

text \<open>Witnesses.\<close>

theorem inproc_fifo_witness:
  "\<exists>c0 c. chan_start ''a'' \<lparr>ie_pipes = (\<lambda>_. pipe_new), ie_next = 0, ie_registry = Map.empty\<rparr> = Some c0 \<and> chan_step\<^sup>*\<^sup>* c0 c
    \<and> ch_sent c = [(1, [7, 8])]
    \<and> (\<exists>n \<le> length (ch_sent c). ch_got c = messages (take n (ch_sent c))
      \<and> map_option (\<lambda>(s, brk). (rs_ev s, brk)) (read_step inproc_read \<lparr>rs_t = (ch_server c, ch_pipes c), rs_ev = ch_got c\<rparr>)
        = (if n = length (ch_sent c) then None else Some (messages (take (Suc n) (ch_sent c)), False)))"
proof -
  let ?w = "\<lparr>ie_pipes = (\<lambda>_. pipe_new), ie_next = 0, ie_registry = Map.empty\<rparr>"
  let ?ini = "\<lparr>ch_client = inproc_new 0 1, ch_server = inproc_new 1 0, ch_pipes = (\<lambda>_. pipe_new)(0 := pipe_new, 0 + 1 := pipe_new),
    ch_sent = [], ch_got = []\<rparr>"
  let ?s = "send_raw inproc_write 1 [7, 8] (ch_client ?ini, ch_pipes ?ini)"
  let ?c = "?ini\<lparr>ch_client := fst ?s, ch_pipes := snd ?s,
    ch_sent := ch_sent ?ini @ (if ip_connected (ch_client ?ini) then [(1, [7, 8])] else [])\<rparr>"
  have start: "chan_start ''a'' ?w = Some ?ini"
    by (simp add: chan_start_def Let_def register_inprocess_def inprocess_listen_def inprocess_connect_def)
  have "chan_step ?ini ?c"
    by (rule chan_step.client_send [of "[7, 8]" 1 ?ini "fst ?s" "snd ?s"]) (simp_all add: fits_def)
  then have step: "chan_step\<^sup>*\<^sup>* ?ini ?c" by (rule r_into_rtranclp)
  have sent: "ch_sent ?c = [(1, [7, 8])]" and conn: "ip_connected (ch_server ?c)"
    by (simp_all add: inproc_new_def)
  show ?thesis
    using inproc_fifo [OF start step conn] start step sent by blast
qed

theorem inproc_close_unnoticed_witness:
  "\<exists>c. chan_start ''a'' \<lparr>ie_pipes = (\<lambda>_. pipe_new), ie_next = 0, ie_registry = Map.empty\<rparr> = Some c
    \<and> read_loop inproc_read inproc_connected (ch_server c, snd (inproc_close (ch_client c, ch_pipes c))) = None"
proof -
  let ?w = "\<lparr>ie_pipes = (\<lambda>_. pipe_new), ie_next = 0, ie_registry = Map.empty\<rparr>"
  let ?ini = "\<lparr>ch_client = inproc_new 0 1, ch_server = inproc_new 1 0, ch_pipes = (\<lambda>_. pipe_new)(0 := pipe_new, 0 + 1 := pipe_new),
    ch_sent = [], ch_got = []\<rparr>"
  have start: "chan_start ''a'' ?w = Some ?ini"
    by (simp add: chan_start_def Let_def register_inprocess_def inprocess_listen_def inprocess_connect_def)
  have "ip_connected (ch_server ?ini)" by (simp add: inproc_new_def)
  from inproc_close_unnoticed [OF start rtranclp.rtrancl_refl this] start show ?thesis by blast
qed

theorem unix_roundtrip_witness:
  "map_option snd (read_loop (unix_read (chunk_read (Suc 4))) ut_connected
      \<lparr>ut_connected = True, ut_sys = ut_sys (fold (\<lambda>(ty, p). send_raw (unix_write (chunk_write (Suc 2))) ty p) [(1, [7, 8]), (0, [])]
         \<lparr>ut_connected = True, ut_sys = []\<rparr>) @ [0x49]\<rparr>)
    = Some [EvMessage 1 [7, 8], EvMessage 0 [], EvDisconnect]"
  using unix_roundtrip [OF chunk_wr.os_writes_axioms [of 2] chunk_rd.os_reads_axioms [of 4],
      of "\<lparr>ut_connected = True, ut_sys = []\<rparr>"
        "\<lparr>ut_connected = True, ut_sys = ut_sys (fold (\<lambda>(ty, p). send_raw (unix_write (chunk_write (Suc 2))) ty p) [(1, [7, 8]), (0, [])]
         \<lparr>ut_connected = True, ut_sys = []\<rparr>) @ [0x49]\<rparr>" "[(1, [7, 8]), (0, [])]" "[0x49]"]
  by (simp add: fits_def del: fold_simps)

theorem unix_rejects_witness:
  "map_option snd (read_loop (unix_read (chunk_read (Suc 4))) ut_connected
      \<lparr>ut_connected = True, ut_sys = stream_of ([(1, [7])] @ (1, replicate 67108865 0) # [(1, [9])])\<rparr>)
    = Some (messages [(1, [7])] @ [EvError PayloadTooLarge, EvDisconnect])
   \<and> map_option snd (read_loop (unix_read (chunk_read (Suc 4))) ut_connected
      \<lparr>ut_connected = True, ut_sys = stream_of [(1, [7])] @ hdr_bytes (send_hdr 1 []\<lparr>fh_version := 2\<rparr>) @ [1, 2]\<rparr>)
    = Some (messages [(1, [7])] @ [EvError BadFrame, EvDisconnect])"
  using unix_rejects [OF chunk_rd.os_reads_axioms [of 4], of "\<lparr>ut_connected = True,
        ut_sys = stream_of ([(1, [7])] @ (1, replicate 67108865 0) # [(1, [9])])\<rparr>" "[(1, [7])]" _ _ 1 "replicate 67108865 0" "[(1, [9])]"]
    unix_rejects [OF chunk_rd.os_reads_axioms [of 4], of "\<lparr>ut_connected = True,
        ut_sys = stream_of [(1, [7])] @ hdr_bytes (send_hdr 1 []\<lparr>fh_version := 2\<rparr>) @ [1, 2]\<rparr>" "[(1, [7])]"
        "send_hdr 1 []\<lparr>fh_version := 2\<rparr>" "[1, 2]"]
  by (simp add: fits_def)

text \<open>A descriptor is not closed after its stream ended: \<^verbatim>\<open>close\<close> does nothing once a read has failed.\<close>

lemma unix_eof_leaks:
  assumes "unix_fill sys_read want acc t = (t', [])" and "length acc < want"
  shows "unix_close sys_close t' = t'"
proof -
  have "\<not> ut_connected t'"
    using assms
  proof (induction "want - length acc" arbitrary: acc t rule: less_induct)
    case less
    obtain e bs where r: "sys_read (ut_sys t) (want - length acc) = (e, bs)" by fastforce
    consider "bs = []" | "bs \<noteq> []" "length (acc @ bs) < want" | "bs \<noteq> []" "want \<le> length (acc @ bs)" by linarith
    then show ?case
    proof cases
      case 1
      then show ?thesis using less.prems r by (subst (asm) unix_fill.simps) auto
    next
      case 2
      have "unix_fill sys_read want (acc @ bs) (t\<lparr>ut_sys := e\<rparr>) = (t', [])"
        using less.prems r 2 by (subst (asm) unix_fill.simps) auto
      with 2 show ?thesis by (intro less.hyps) (auto simp: neq_Nil_conv)
    next
      case 3
      then show ?thesis
        using less.prems r unix_fill.simps [of sys_read want "acc @ bs"] by (subst (asm) (1) unix_fill.simps) auto
    qed
  qed
  then show ?thesis by (simp add: unix_close_def)
qed

end
