(* ===== verification/Ipc_Sockets.thy ===== *)
theory Ipc_Sockets
  imports Ipc
begin

text \<open>
  How the ends of a channel come to be: the Unix sockets (\<^verbatim>\<open>unix_listen\<close> and \<^verbatim>\<open>unix_connect\<close> in
  \<^verbatim>\<open>src/ipc/src/transport_unix.cpp\<close>) and the named pipes of Windows (\<^verbatim>\<open>transport_win.cpp\<close>), whose transport is
  shown to be the Unix one.
\<close>

section \<open>Sockets\<close>

text \<open>
  The system calls on sockets. A descriptor or result is negative when the call fails; \<open>so_accept\<close> is \<open>None\<close> while no client
  connects. \<open>so_path_max\<close> is \<^verbatim>\<open>sizeof(addr.sun_path)\<close>.
\<close>

record 'e sock_os =
  so_socket :: "'e \<Rightarrow> 'e \<times> int"
  so_unlink :: "'e \<Rightarrow> string \<Rightarrow> 'e"
  so_bind :: "'e \<Rightarrow> int \<Rightarrow> string \<Rightarrow> 'e \<times> int"
  so_listen :: "'e \<Rightarrow> int \<Rightarrow> int \<Rightarrow> 'e \<times> int"
  so_accept :: "'e \<Rightarrow> int \<Rightarrow> ('e \<times> int) option"
  so_connect :: "'e \<Rightarrow> int \<Rightarrow> string \<Rightarrow> 'e \<times> int"
  so_close :: "'e \<Rightarrow> int \<Rightarrow> 'e"
  so_path_max :: nat

datatype ipc_exn = Socket_Failed | Bind_Failed | Listen_Failed | Accept_Failed | Connect_Failed | Not_Registered
  | Create_Pipe_Failed | Connect_Pipe_Failed | Open_Pipe_Failed

text \<open>The string that \<^verbatim>\<open>strncpy\<close> leaves in the zeroed address, and what a call that takes a C string sees of one.\<close>

definition c_chars :: "string \<Rightarrow> string" where
  "c_chars s = takeWhile (\<lambda>c. c \<noteq> CHR 0x00) s"

definition sun_path :: "'e sock_os \<Rightarrow> string \<Rightarrow> string" where
  "sun_path os path = take (so_path_max os - 1) (c_chars path)"

definition unix_listen :: "'e sock_os \<Rightarrow> string \<Rightarrow> 'e \<Rightarrow> ('e \<times> (ipc_exn + int)) option" where
  "unix_listen os channel_id e =
     (let path = unix_socket_path channel_id
      in case so_socket os e of (e1, server_fd) \<Rightarrow>
        if server_fd < 0 then Some (e1, Inl Socket_Failed)
        else
          (case so_bind os (so_unlink os e1 (c_chars path)) server_fd (sun_path os path) of (e2, r) \<Rightarrow>
            if r < 0 then Some (so_close os e2 server_fd, Inl Bind_Failed)
            else
              (case so_listen os e2 server_fd 1 of (e3, r) \<Rightarrow>
                if r < 0 then Some (so_close os e3 server_fd, Inl Listen_Failed)
                else
                  (case so_accept os e3 server_fd of
                     None \<Rightarrow> None
                   | Some (e4, client_fd) \<Rightarrow>
                       (let e5 = so_close os e4 server_fd
                        in if client_fd < 0 then Some (e5, Inl Accept_Failed) else Some (e5, Inr client_fd))))))"

definition unix_connect :: "'e sock_os \<Rightarrow> string \<Rightarrow> 'e \<Rightarrow> 'e \<times> (ipc_exn + int)" where
  "unix_connect os channel_id e =
     (let path = unix_socket_path channel_id
      in case so_socket os e of (e1, fd) \<Rightarrow>
        if fd < 0 then (e1, Inl Socket_Failed)
        else
          (case so_connect os e1 fd (sun_path os path) of (e2, r) \<Rightarrow>
            if r < 0 then (so_close os e2 fd, Inl Connect_Failed) else (e2, Inr fd)))"

subsection \<open>Descriptors\<close>

text \<open>
  What is relied on of the descriptor table \<open>fds\<close>: a call that succeeds opens a fresh descriptor, closing removes it, the others
  change nothing.
\<close>

definition fd_laws :: "'e sock_os \<Rightarrow> ('e \<Rightarrow> int set) \<Rightarrow> bool" where
  "fd_laws os fds \<longleftrightarrow>
     (\<forall>e e' fd. so_socket os e = (e', fd) \<longrightarrow> fds e' = fds e \<union> (if fd < 0 then {} else {fd}) \<and> fd \<notin> fds e)
     \<and> (\<forall>e e' s fd. so_accept os e s = Some (e', fd) \<longrightarrow> fds e' = fds e \<union> (if fd < 0 then {} else {fd}) \<and> fd \<notin> fds e)
     \<and> (\<forall>e fd. fds (so_close os e fd) = fds e - {fd})
     \<and> (\<forall>e p. fds (so_unlink os e p) = fds e) \<and> (\<forall>e s p. fds (fst (so_bind os e s p)) = fds e)
     \<and> (\<forall>e s n. fds (fst (so_listen os e s n)) = fds e) \<and> (\<forall>e s p. fds (fst (so_connect os e s p)) = fds e)"

text \<open>
  C37. Opening a channel leaks no descriptor on any path: whichever call fails, exactly the descriptors that were open before are
  open after it, and after success exactly one more, the one the transport owns.
\<close>

theorem sockets_leak_nothing:
  assumes "fd_laws os fds"
  shows "(case unix_listen os channel_id e of
      None \<Rightarrow> True
    | Some (e', r) \<Rightarrow> (case r of Inl _ \<Rightarrow> fds e' = fds e | Inr fd \<Rightarrow> fd \<notin> fds e \<and> 0 \<le> fd \<and> fds e' = insert fd (fds e)))
    \<and> (case unix_connect os channel_id e of
      (e', r) \<Rightarrow> (case r of Inl _ \<Rightarrow> fds e' = fds e | Inr fd \<Rightarrow> fd \<notin> fds e \<and> 0 \<le> fd \<and> fds e' = insert fd (fds e)))"
proof
  obtain e1 fd where s: "so_socket os e = (e1, fd)" by fastforce
  have sock: "fds e1 = fds e \<union> (if fd < 0 then {} else {fd})" "fd \<notin> fds e" using assms s by (auto simp: fd_laws_def)
  let ?p = "unix_socket_path channel_id"
  obtain e2 r where b: "so_bind os (so_unlink os e1 (c_chars ?p)) fd (sun_path os ?p) = (e2, r)" by fastforce
  then have e2: "fds e2 = fds e1" using assms unfolding fd_laws_def by (metis fst_conv)
  obtain e3 r' where l: "so_listen os e2 fd 1 = (e3, r')" by fastforce
  then have e3: "fds e3 = fds e1" using assms e2 unfolding fd_laws_def by (metis fst_conv)
  have close: "fds (so_close os x fd) = fds e" if "fds x = fds e1" "0 \<le> fd" for x
    using assms sock that by (auto simp: fd_laws_def)
  show "case unix_listen os channel_id e of None \<Rightarrow> True
    | Some (e', r) \<Rightarrow> (case r of Inl _ \<Rightarrow> fds e' = fds e | Inr fd \<Rightarrow> fd \<notin> fds e \<and> 0 \<le> fd \<and> fds e' = insert fd (fds e))"
  proof (cases "so_accept os e3 fd")
    case None
    then show ?thesis using sock close e2 e3 by (simp add: unix_listen_def s b l Let_def)
  next
    case (Some a)
    obtain e4 cfd where a: "a = (e4, cfd)" by fastforce
    have "fds e4 = fds e3 \<union> (if cfd < 0 then {} else {cfd}) \<and> cfd \<notin> fds e3" using assms Some a by (simp add: fd_laws_def)
    moreover have "fds (so_close os e4 fd) = fds e4 - {fd}" using assms by (simp add: fd_laws_def)
    ultimately show ?thesis using sock close e2 e3 Some a by (auto simp: unix_listen_def s b l Let_def)
  qed
  obtain e2' r'' where c: "so_connect os e1 fd (sun_path os ?p) = (e2', r'')" by fastforce
  then have "fds e2' = fds e1" using assms unfolding fd_laws_def by (metis fst_conv)
  then show "case unix_connect os channel_id e of
      (e', r) \<Rightarrow> (case r of Inl _ \<Rightarrow> fds e' = fds e | Inr fd \<Rightarrow> fd \<notin> fds e \<and> 0 \<le> fd \<and> fds e' = insert fd (fds e))"
    using sock close by (simp add: unix_connect_def s c Let_def)
qed

subsection \<open>Names\<close>

text \<open>
  What is relied on of the file system, whose entries are \<open>names\<close>: \<^verbatim>\<open>bind\<close> makes the entry of its address and fails when it
  exists, \<^verbatim>\<open>unlink\<close> removes one, the other calls change none.
\<close>

definition name_laws :: "'e sock_os \<Rightarrow> ('e \<Rightarrow> string set) \<Rightarrow> bool" where
  "name_laws os names \<longleftrightarrow>
     (\<forall>e p. names (so_unlink os e p) = names e - {p})
     \<and> (\<forall>e s a e' r. so_bind os e s a = (e', r) \<longrightarrow> (a \<in> names e \<longrightarrow> r < 0) \<and> names e' = (if r < 0 then names e else insert a (names e)))
     \<and> (\<forall>e. names (fst (so_socket os e)) = names e) \<and> (\<forall>e s n. names (fst (so_listen os e s n)) = names e)
     \<and> (\<forall>e s e' fd. so_accept os e s = Some (e', fd) \<longrightarrow> names e' = names e) \<and> (\<forall>e fd. names (so_close os e fd) = names e)"

lemma listen_names:
  assumes laws: "name_laws os names" and ok: "unix_listen os channel_id e = Some (e', Inr fd)"
  shows "sun_path os (unix_socket_path channel_id) \<in> names e'"
proof -
  let ?p = "unix_socket_path channel_id"
  obtain e1 sfd where s: "so_socket os e = (e1, sfd)" by fastforce
  obtain e2 r where b: "so_bind os (so_unlink os e1 (c_chars ?p)) sfd (sun_path os ?p) = (e2, r)" by fastforce
  obtain e3 r' where l: "so_listen os e2 sfd 1 = (e3, r')" by fastforce
  have r: "\<not> r < 0" and acc: "\<exists>e4. so_accept os e3 sfd = Some (e4, fd) \<and> e' = so_close os e4 sfd"
    using ok by (auto simp: unix_listen_def s b l Let_def split: if_splits option.splits)
  from r b laws have "sun_path os ?p \<in> names e2" unfolding name_laws_def by (metis insertI1)
  moreover have "names e3 = names e2" using laws l unfolding name_laws_def by (metis fst_conv)
  moreover have "names e' = names e3" using acc laws unfolding name_laws_def by metis
  ultimately show ?thesis by simp
qed

text \<open>
  A channel with a short name can be served again and again: the address of its socket is its path, which is
  free when \<^verbatim>\<open>bind\<close> is called, whatever an earlier run left behind. A channel whose path does not fit the address can be served once: \<^verbatim>\<open>unlink\<close> gets the path,
  \<^verbatim>\<open>bind\<close> the truncated one, so the socket of the first run is never removed and every later listen fails.
\<close>

theorem long_names_listen_once:
  assumes laws: "name_laws os names" and first: "unix_listen os channel_id e = Some (e1, Inr fd)"
    and later: "sun_path os (unix_socket_path channel_id) \<in> names e1 \<longrightarrow> sun_path os (unix_socket_path channel_id) \<in> names e2"
      "0 \<le> snd (so_socket os e2)"
  shows "if length (c_chars (unix_socket_path channel_id)) < so_path_max os
    then sun_path os (unix_socket_path channel_id) \<notin> names (so_unlink os (fst (so_socket os e2)) (c_chars (unix_socket_path channel_id)))
    else \<exists>e3. unix_listen os channel_id e2 = Some (e3, Inl Bind_Failed) \<and> sun_path os (unix_socket_path channel_id) \<in> names e3"
proof -
  let ?p = "unix_socket_path channel_id"
  obtain e' sfd where s: "so_socket os e2 = (e', sfd)" by fastforce
  have e': "names e' = names e2" using laws s unfolding name_laws_def by (metis fst_conv)
  let ?u = "so_unlink os e' (c_chars ?p)"
  have u: "names ?u = names e2 - {c_chars ?p}" using laws e' by (simp add: name_laws_def)
  show ?thesis
  proof (cases "length (c_chars ?p) < so_path_max os")
    case True
    then have "sun_path os ?p = c_chars ?p" by (simp add: sun_path_def)
    then show ?thesis using True u s by simp
  next
    case False
    have "?p \<noteq> []" "hd ?p \<noteq> CHR 0x00" by (simp_all add: unix_socket_path_def)
    then have "c_chars ?p \<noteq> []" by (cases ?p) (auto simp: c_chars_def)
    with False have "length (sun_path os ?p) < length (c_chars ?p)" by (cases "so_path_max os") (auto simp: sun_path_def)
    then have ne: "sun_path os ?p \<noteq> c_chars ?p" by auto
    have in_u: "sun_path os ?p \<in> names ?u" using listen_names [OF laws first] later(1) u ne by auto
    obtain e3 r where b: "so_bind os ?u sfd (sun_path os ?p) = (e3, r)" by fastforce
    from b in_u laws have "r < 0" "names e3 = names ?u" unfolding name_laws_def by (metis, metis)
    moreover have "names (so_close os e3 sfd) = names e3" using laws by (simp add: name_laws_def)
    ultimately show ?thesis using False later(2) s b in_u by (auto simp: unix_listen_def Let_def)
  qed
qed

section \<open>Named pipes of Windows\<close>

text \<open>
  \<open>write_file\<close> and \<open>read_file\<close> are \<^verbatim>\<open>WriteFile\<close> and \<^verbatim>\<open>ReadFile\<close>: the result, and the bytes written or read. Sizes and the
  running total are \<^verbatim>\<open>DWORD\<close>s. The transport has the fields of the Unix one.
\<close>

definition win_pipe_name :: "string \<Rightarrow> string" where
  "win_pipe_name channel_id =
     [CHR 0x5C, CHR 0x5C, CHR ''.'', CHR 0x5C] @ ''pipe'' @ [CHR 0x5C] @ ''arc-ipc-'' @ channel_id"

partial_function (option) win_write_go :: "('e \<Rightarrow> u8 list \<Rightarrow> 'e \<times> bool \<times> u32) \<Rightarrow> u8 list \<Rightarrow> u32 \<Rightarrow> 'e unix_t \<Rightarrow> 'e unix_t option" where
  "win_write_go write_file data tot t =
     (let sz = of_nat (length data) :: u32
      in if tot < sz
         then (case write_file (ut_sys t) (take (unat (sz - tot)) (drop (unat tot) data)) of (e, ok, written) \<Rightarrow>
                 if \<not> ok \<or> written = 0 then Some (t\<lparr>ut_connected := False, ut_sys := e\<rparr>)
                 else win_write_go write_file data (tot + written) (t\<lparr>ut_sys := e\<rparr>))
         else Some t)"

definition win_write :: "('e \<Rightarrow> u8 list \<Rightarrow> 'e \<times> bool \<times> u32) \<Rightarrow> 'e unix_t \<Rightarrow> u8 list \<Rightarrow> 'e unix_t option" where
  "win_write write_file t data = win_write_go write_file data 0 t"

partial_function (option) win_read_go ::
  "('e \<Rightarrow> u32 \<Rightarrow> 'e \<times> bool \<times> u8 list) \<Rightarrow> nat \<Rightarrow> u32 \<Rightarrow> u8 list \<Rightarrow> 'e unix_t \<Rightarrow> ('e unix_t \<times> u8 list) option" where
  "win_read_go read_file n tot acc t =
     (let sz = of_nat n :: u32
      in if tot < sz
         then (case read_file (ut_sys t) (sz - tot) of (e, ok, bs) \<Rightarrow>
                 if \<not> ok \<or> bs = [] then Some (t\<lparr>ut_connected := False, ut_sys := e\<rparr>, [])
                 else win_read_go read_file n (tot + of_nat (length bs)) (acc @ bs) (t\<lparr>ut_sys := e\<rparr>))
         else Some (t, acc))"

definition win_read :: "('e \<Rightarrow> u32 \<Rightarrow> 'e \<times> bool \<times> u8 list) \<Rightarrow> 'e unix_t \<Rightarrow> nat \<Rightarrow> ('e unix_t \<times> u8 list) option" where
  "win_read read_file t n = win_read_go read_file n 0 [] t"

definition win_close :: "('e \<Rightarrow> 'e) \<Rightarrow> ('e \<Rightarrow> 'e) \<Rightarrow> ('e \<Rightarrow> 'e) \<Rightarrow> 'e unix_t \<Rightarrow> 'e unix_t" where
  "win_close flush_file disconnect close_handle t =
     (if ut_connected t then t\<lparr>ut_connected := False, ut_sys := close_handle (disconnect (flush_file (ut_sys t)))\<rparr> else t)"

text \<open>
  Creation. \<open>po_create\<close> and \<open>po_open\<close> are \<open>None\<close> for \<^verbatim>\<open>INVALID_HANDLE_VALUE\<close>; \<open>po_connect\<close> gives the result of
  \<^verbatim>\<open>ConnectNamedPipe\<close> and whether the last error is \<^verbatim>\<open>ERROR_PIPE_CONNECTED\<close>, or \<open>None\<close> while it waits.
\<close>

record 'e pipe_os =
  po_create :: "'e \<Rightarrow> string \<Rightarrow> 'e \<times> int option"
  po_connect :: "'e \<Rightarrow> int \<Rightarrow> ('e \<times> bool \<times> bool) option"
  po_wait :: "'e \<Rightarrow> string \<Rightarrow> 'e option"
  po_open :: "'e \<Rightarrow> string \<Rightarrow> 'e \<times> int option"
  po_close :: "'e \<Rightarrow> int \<Rightarrow> 'e"

definition win_listen :: "'e pipe_os \<Rightarrow> string \<Rightarrow> 'e \<Rightarrow> ('e \<times> (ipc_exn + int)) option" where
  "win_listen os channel_id e =
     (case po_create os e (c_chars (win_pipe_name channel_id)) of
        (e1, None) \<Rightarrow> Some (e1, Inl Create_Pipe_Failed)
      | (e1, Some p) \<Rightarrow>
          (case po_connect os e1 p of
             None \<Rightarrow> None
           | Some (e2, ok, connected) \<Rightarrow>
               if \<not> ok \<and> \<not> connected then Some (po_close os e2 p, Inl Connect_Pipe_Failed) else Some (e2, Inr p)))"

definition win_connect :: "'e pipe_os \<Rightarrow> string \<Rightarrow> 'e \<Rightarrow> ('e \<times> (ipc_exn + int)) option" where
  "win_connect os channel_id e =
     (case po_wait os e (c_chars (win_pipe_name channel_id)) of
        None \<Rightarrow> None
      | Some e1 \<Rightarrow>
          (case po_open os e1 (c_chars (win_pipe_name channel_id)) of
             (e2, None) \<Rightarrow> Some (e2, Inl Open_Pipe_Failed)
           | (e2, Some p) \<Rightarrow> Some (e2, Inr p)))"

subsection \<open>The same transport\<close>

text \<open>The calls of Windows in the shape of those of Unix, and what is relied on: a call moves at most what it is asked for.\<close>

definition as_write :: "('e \<Rightarrow> u8 list \<Rightarrow> 'e \<times> bool \<times> u32) \<Rightarrow> 'e \<Rightarrow> u8 list \<Rightarrow> 'e \<times> nat" where
  "as_write write_file e bs = (case write_file e bs of (e', ok, n) \<Rightarrow> (e', if ok then unat n else 0))"

definition as_read :: "('e \<Rightarrow> u32 \<Rightarrow> 'e \<times> bool \<times> u8 list) \<Rightarrow> 'e \<Rightarrow> nat \<Rightarrow> 'e \<times> u8 list" where
  "as_read read_file e n = (case read_file e (of_nat n) of (e', ok, bs) \<Rightarrow> (e', if ok then bs else []))"

definition moves_at_most :: "('e \<Rightarrow> u8 list \<Rightarrow> 'e \<times> bool \<times> u32) \<Rightarrow> ('e \<Rightarrow> u32 \<Rightarrow> 'e \<times> bool \<times> u8 list) \<Rightarrow> bool" where
  "moves_at_most write_file read_file \<longleftrightarrow> (\<forall>e bs. unat (snd (snd (write_file e bs))) \<le> length bs)
     \<and> (\<forall>e n. length (snd (snd (read_file e n))) \<le> unat n)"

lemma dword: "unat (of_nat n :: u32) = n mod 2 ^ 32"
  by (simp add: unat_of_nat)

lemma win_write_go_eq:
  assumes laws: "moves_at_most write_file read_file" and "unat tot \<le> length data mod 2 ^ 32"
  shows "win_write_go write_file data tot t =
    Some (unix_write (as_write write_file) t (drop (unat tot) (take (length data mod 2 ^ 32) data)))"
  using assms(2)
proof (induction "length data mod 2 ^ 32 - unat tot" arbitrary: tot t rule: less_induct)
  case less
  let ?sz = "length data mod 2 ^ 32" and ?u = "unat tot"
  let ?rest = "drop ?u (take ?sz data)"
  have len: "length ?rest = ?sz - ?u" by simp
  have lt: "tot < of_nat (length data) \<longleftrightarrow> ?u < ?sz" by (simp add: word_less_nat_alt dword)
  show ?case
  proof (cases "?u < ?sz")
    case False
    then have "?rest = []" using less.prems by simp
    with lt False show ?thesis by (subst win_write_go.simps, subst unix_write.simps) (simp add: Let_def)
  next
    case True
    then have "unat (of_nat (length data) - tot :: u32) = ?sz - ?u"
      using lt by (simp add: unat_sub word_le_nat_alt dword)
    then have buf: "take (unat (of_nat (length data) - tot :: u32)) (drop ?u data) = ?rest" by (simp add: drop_take)
    obtain e ok n where w: "write_file (ut_sys t) ?rest = (e, ok, n)" by (metis prod.collapse)
    have n: "unat n \<le> ?sz - ?u" using laws w len by (metis moves_at_most_def snd_conv)
    have aw: "as_write write_file (ut_sys t) ?rest = (e, if ok then unat n else 0)" unfolding as_write_def w by simp
    have ne: "?rest \<noteq> []" using True len by (metis length_0_conv zero_less_diff less_irrefl)
    show ?thesis
    proof (cases "\<not> ok \<or> n = 0")
      case stop: True
      then show ?thesis
        using True lt buf w aw ne by (subst win_write_go.simps, subst unix_write.simps) (auto simp: Let_def)
    next
      case False
      then have n0: "0 < unat n" by (simp add: unat_gt_0)
      have sum: "unat (tot + n) = ?u + unat n"
        using n True by (subst unat_plus_if') (auto simp: not_less intro: le_less_trans [of _ ?sz])
      have "win_write_go write_file data (tot + n) (t\<lparr>ut_sys := e\<rparr>)
          = Some (unix_write (as_write write_file) (t\<lparr>ut_sys := e\<rparr>) (drop (unat (tot + n)) (take ?sz data)))"
        using n n0 True by (intro less.hyps) (simp_all add: sum)
      moreover have "drop (unat (tot + n)) (take ?sz data) = drop (unat n) ?rest" unfolding sum by (simp add: add.commute)
      ultimately show ?thesis
        using False True lt buf w aw ne n0 by (subst win_write_go.simps, subst unix_write.simps) (auto simp: Let_def)
    qed
  qed
qed

lemma win_read_go_eq:
  assumes laws: "moves_at_most write_file read_file" and "length acc = unat tot" "unat tot \<le> n mod 2 ^ 32"
  shows "win_read_go read_file n tot acc t = Some (unix_fill (as_read read_file) (n mod 2 ^ 32) acc t)"
  using assms(2,3)
proof (induction "n mod 2 ^ 32 - unat tot" arbitrary: tot acc t rule: less_induct)
  case less
  define sz where "sz = n mod 2 ^ 32"
  have lt: "tot < of_nat n \<longleftrightarrow> unat tot < sz" unfolding sz_def word_less_nat_alt dword ..
  show ?case
  proof (cases "unat tot < sz")
    case False
    with lt less.prems show ?thesis
      unfolding sz_def [symmetric] by (subst win_read_go.simps, subst unix_fill.simps) (simp add: Let_def)
  next
    case True
    have "tot \<le> of_nat n" using True lt by simp
    then have ask: "unat (of_nat n - tot :: u32) = sz - unat tot" unfolding sz_def using dword [of n] by (simp add: unat_sub)
    then have ask': "(of_nat (sz - unat tot) :: u32) = of_nat n - tot" by (metis of_nat_unat ucast_id)
    obtain e ok bs where r: "read_file (ut_sys t) (of_nat n - tot) = (e, ok, bs)" by (metis prod.collapse)
    have bs: "length bs \<le> sz - unat tot" using laws r ask by (metis moves_at_most_def snd_conv)
    have ar: "as_read read_file (ut_sys t) (sz - unat tot) = (e, if ok then bs else [])"
      unfolding as_read_def ask' r by simp
    show ?thesis
    proof (cases "\<not> ok \<or> bs = []")
      case stop: True
      then show ?thesis unfolding sz_def [symmetric]
        using True lt r ar less.prems(1) by (subst win_read_go.simps, subst unix_fill.simps) (auto simp: Let_def)
    next
      case False
      have sz32: "sz < 2 ^ 32" by (simp add: sz_def)
      have len: "unat (of_nat (length bs) :: u32) = length bs" using bs sz32 by (simp add: unat_of_nat)
      have sum: "unat (tot + of_nat (length bs)) = unat tot + length bs"
        using bs True sz32 len by (subst unat_plus_if') (auto simp: not_less)
      have "win_read_go read_file n (tot + of_nat (length bs)) (acc @ bs) (t\<lparr>ut_sys := e\<rparr>)
          = Some (unix_fill (as_read read_file) (n mod 2 ^ 32) (acc @ bs) (t\<lparr>ut_sys := e\<rparr>))"
        using bs False True less.prems unfolding sz_def
        by (intro less.hyps) (auto simp: sum [unfolded sz_def] neq_Nil_conv)
      then show ?thesis unfolding sz_def [symmetric]
        using False True lt r ar less.prems(1) by (subst win_read_go.simps, subst unix_fill.simps) (auto simp: Let_def)
    qed
  qed
qed

text \<open>The read loop asks for a header or an accepted payload, never for more.\<close>

lemma read_step_cong:
  assumes "\<And>t n. n \<le> 67108864 \<Longrightarrow> rd t n = rd' t n"
  shows "read_step rd s = read_step rd' s"
proof -
  have hd: "rd (rs_t s) 12 = rd' (rs_t s) 12" by (rule assms) simp
  show ?thesis
  proof (cases "rd' (rs_t s) 12")
    case None
    then show ?thesis by (simp add: read_step_def hd)
  next
    case (Some r)
    obtain t hb where r: "r = (t, hb)" by fastforce
    show ?thesis
    proof (cases "kMaxPayloadSize < fh_payload_len (hdr_of hb)")
      case True
      then show ?thesis by (simp add: read_step_def hd Some r Let_def)
    next
      case False
      then have "rd t (unat (fh_payload_len (hdr_of hb))) = rd' t (unat (fh_payload_len (hdr_of hb)))"
        by (intro assms) (simp add: word_less_nat_alt)
      with False show ?thesis by (simp add: read_step_def hd Some r Let_def)
    qed
  qed
qed

text \<open>
  C33. The transport of Windows is the Unix one. A write of fewer than 4 GiB makes the same calls with the same effect; a longer
  one, whose size is cut to a \<^verbatim>\<open>DWORD\<close>, writes only its first \<open>length data mod 2\<^sup>3\<^sup>2\<close> bytes. Both always return. A channel's
  read loop over either gets the same messages.
\<close>

theorem win_transport_is_unix:
  assumes "moves_at_most write_file read_file"
  shows "win_write write_file t data = Some (unix_write (as_write write_file) t (take (length data mod 2 ^ 32) data))
    \<and> read_loop (win_read read_file) ut_connected t = read_loop (unix_read (as_read read_file)) ut_connected t"
proof
  show "win_write write_file t data = Some (unix_write (as_write write_file) t (take (length data mod 2 ^ 32) data))"
    using win_write_go_eq [OF assms, of 0 data t] by (simp add: win_write_def)
  have "win_read read_file t' n = unix_read (as_read read_file) t' n" if "n \<le> 67108864" for t' n
    using win_read_go_eq [OF assms, of "[]" 0 n t'] that by (simp add: win_read_def unix_read_def)
  from read_step_cong [OF this]
  have "read_step (win_read read_file) = read_step (unix_read (as_read read_file))" by (rule ext)
  then show "read_loop (win_read read_file) ut_connected t = read_loop (unix_read (as_read read_file)) ut_connected t"
    by (simp add: read_loop_def)
qed

section \<open>Witnesses\<close>

text \<open>
  A host with a counter for descriptors, a descriptor table and a file system, and a pipe of Windows that moves up to five bytes
  per call.
\<close>

definition demo_sock_os :: "(nat \<times> int set \<times> string set) sock_os" where
  "demo_sock_os = \<lparr>so_socket = (\<lambda>(n, f, s). ((n + 1, insert (int n) f, s), int n)), so_unlink = (\<lambda>(n, f, s) p. (n, f, s - {p})),
     so_bind = (\<lambda>(n, f, s) fd a. if a \<in> s then ((n, f, s), -1) else ((n, f, insert a s), 0)),
     so_listen = (\<lambda>e fd k. (e, 0)), so_accept = (\<lambda>(n, f, s) fd. Some ((n + 1, insert (int n) f, s), int n)),
     so_connect = (\<lambda>(n, f, s) fd a. ((n, f, s), if a \<in> s then 0 else -1)), so_close = (\<lambda>(n, f, s) fd. (n, f - {fd}, s)),
     so_path_max = 20\<rparr>"

lemma demo_sock_laws:
  "fd_laws demo_sock_os (\<lambda>(n, f, s). f \<inter> {..<int n})" "name_laws demo_sock_os (\<lambda>(n, f, s). s)"
  by (auto simp: fd_laws_def name_laws_def demo_sock_os_def split: if_splits)

theorem sockets_leak_nothing_witness:
  "unix_listen demo_sock_os ''a'' (3, {}, {}) = Some ((5, {4}, {''/tmp/arc-ipc-a''}), Inr 4)
    \<and> snd (unix_connect demo_sock_os ''b'' (3, {}, {})) = Inl Connect_Failed
    \<and> (case fst (unix_connect demo_sock_os ''b'' (3, {}, {})) of (n, f, s) \<Rightarrow> f \<inter> {..<int n} = {})"
proof -
  have "unix_listen demo_sock_os ''a'' (3, {}, {}) = Some ((5, {4}, {''/tmp/arc-ipc-a''}), Inr 4)"
    "snd (unix_connect demo_sock_os ''b'' (3, {}, {})) = Inl Connect_Failed"
    by (auto simp: unix_listen_def unix_connect_def demo_sock_os_def unix_socket_path_def sun_path_def c_chars_def Let_def)
  with sockets_leak_nothing [OF demo_sock_laws(1), where channel_id = "''b''" and e = "(3, {}, {})"] show ?thesis
    by (cases "unix_connect demo_sock_os ''b'' (3, {}, {})") (auto split: prod.splits)
qed

theorem long_names_listen_once_witness:
  "\<exists>e1 fd e3. unix_listen demo_sock_os ''serial-0'' (3, {}, {}) = Some (e1, Inr fd)
    \<and> unix_listen demo_sock_os ''serial-0'' e1 = Some (e3, Inl Bind_Failed)"
proof -
  obtain e1 fd where e1: "unix_listen demo_sock_os ''serial-0'' (3, {}, {}) = Some (e1, Inr fd)"
    by (simp add: unix_listen_def demo_sock_os_def unix_socket_path_def sun_path_def c_chars_def Let_def)
  have "0 \<le> snd (so_socket demo_sock_os e1)" by (simp add: demo_sock_os_def split: prod.splits)
  moreover have "\<not> length (c_chars (unix_socket_path ''serial-0'')) < so_path_max demo_sock_os"
    by (simp add: demo_sock_os_def unix_socket_path_def c_chars_def)
  ultimately show ?thesis
    using e1 long_names_listen_once [OF demo_sock_laws(2) e1, of e1] by auto
qed

definition demo_write_file :: "u8 list \<Rightarrow> u8 list \<Rightarrow> u8 list \<times> bool \<times> u32" where
  "demo_write_file e bs = (e @ take 5 bs, True, of_nat (min 5 (length bs)))"

definition demo_read_file :: "u8 list \<Rightarrow> u32 \<Rightarrow> u8 list \<times> bool \<times> u8 list" where
  "demo_read_file e n = (drop (min 5 (unat n)) e, True, take (min 5 (unat n)) e)"

theorem win_transport_is_unix_witness:
  "\<exists>t. win_write demo_write_file \<lparr>ut_connected = True, ut_sys = []\<rparr> [1, 2, 3, 4, 5, 6, 7] = Some t \<and> ut_sys t = [1, 2, 3, 4, 5, 6, 7]"
proof -
  have small: "unat (of_nat (min 5 k) :: u32) = min 5 k" for k by (simp add: unat_of_nat min_def)
  then have "moves_at_most demo_write_file demo_read_file"
    by (auto simp: moves_at_most_def demo_write_file_def demo_read_file_def min_def)
  moreover have "as_write demo_write_file = chunk_write (Suc 4)"
    by (intro ext) (simp add: as_write_def demo_write_file_def chunk_write_def small)
  ultimately show ?thesis
    using win_transport_is_unix [of demo_write_file demo_read_file "\<lparr>ut_connected = True, ut_sys = []\<rparr>" "[1, 2, 3, 4, 5, 6, 7]"]
      chunk_wr.unix_write_all [of 4 "\<lparr>ut_connected = True, ut_sys = []\<rparr>" "[1, 2, 3, 4, 5, 6, 7]"]
    by simp
qed

end
