(* ===== verification/Ipc_Api.thy ===== *)
theory Ipc_Api
  imports Ipc_Sockets
begin

text \<open>
  The two ends of a channel as their users see them: \<^verbatim>\<open>ipc::Server\<close> (\<^verbatim>\<open>src/ipc/src/server.cpp\<close>) and \<^verbatim>\<open>ipc::Client\<close>
  (\<^verbatim>\<open>client.cpp\<close>). They differ in how they get their transport and in the error they report when that fails. An end
  has three threads: the one that acquires the transport, the read loop, and the callers of \<^verbatim>\<open>send\<close>; their
  interleaving is a step relation.
\<close>

section \<open>State\<close>

datatype error_code = ConnectionRefused | ConnectionLost | BadFrame_Error | PayloadTooLarge_Error | SendFailed | ListenFailed

datatype api_event = OnConnect | OnMessage u8 "u8 list" | OnError error_code | OnDisconnect

datatype role = Server | Client

text \<open>\<open>Up t\<close> is \<^verbatim>\<open>impl_->channel\<close> with its transport; before, it is null.\<close>

datatype 't link = Idle | Acquiring | Refused | Up 't

record 't endpoint =
  ep_link :: "'t link"
  ep_reading :: bool
  ep_greeted :: bool
  ep_log :: "api_event list"
  ep_asked :: "(u8 \<times> u8 list) list"
  ep_lost :: nat

definition endpoint_new :: "'t endpoint" where
  "endpoint_new = \<lparr>ep_link = Idle, ep_reading = False, ep_greeted = False, ep_log = [], ep_asked = [], ep_lost = 0\<rparr>"

section \<open>Acquiring the transport\<close>

text \<open>
  An in-process channel when its name is registered, else a socket. The registry is looked up twice; \<open>None\<close> is a wait without
  end.
\<close>

datatype acquired = In_Process inproc | Socket int

definition server_acquire :: "'e sock_os \<Rightarrow> string \<Rightarrow> ipc_env \<times> 'e \<Rightarrow> ('e \<times> (ipc_exn + acquired)) option" where
  "server_acquire os channel_id w =
     (if is_inprocess channel_id (fst w)
      then Some (snd w, case inprocess_listen channel_id (fst w) of None \<Rightarrow> Inl Not_Registered | Some t \<Rightarrow> Inr (In_Process t))
      else map_option (\<lambda>(e, r). (e, case r of Inl x \<Rightarrow> Inl x | Inr fd \<Rightarrow> Inr (Socket fd))) (unix_listen os channel_id (snd w)))"

definition client_acquire :: "'e sock_os \<Rightarrow> string \<Rightarrow> ipc_env \<times> 'e \<Rightarrow> 'e \<times> (ipc_exn + acquired)" where
  "client_acquire os channel_id w =
     (if is_inprocess channel_id (fst w)
      then (snd w, case inprocess_connect channel_id (fst w) of None \<Rightarrow> Inl Not_Registered | Some t \<Rightarrow> Inr (In_Process t))
      else (case unix_connect os channel_id (snd w) of (e, r) \<Rightarrow> (e, case r of Inl x \<Rightarrow> Inl x | Inr fd \<Rightarrow> Inr (Socket fd))))"

section \<open>Steps\<close>

definition refusal :: "role \<Rightarrow> error_code" where
  "refusal r = (case r of Server \<Rightarrow> ListenFailed | Client \<Rightarrow> ConnectionRefused)"

text \<open>The channel's callbacks forward to those of the end.\<close>

fun api_of :: "event \<Rightarrow> api_event" where
  "api_of (EvMessage ty p) = OnMessage ty p"
| "api_of (EvError BadFrame) = OnError BadFrame_Error"
| "api_of (EvError PayloadTooLarge) = OnError PayloadTooLarge_Error"
| "api_of EvDisconnect = OnDisconnect"

text \<open>\<^verbatim>\<open>send\<close>: without a channel the message is dropped.\<close>

definition ep_send :: "('t \<Rightarrow> u8 list \<Rightarrow> 't) \<Rightarrow> u8 \<Rightarrow> u8 list \<Rightarrow> 't endpoint \<Rightarrow> 't endpoint" where
  "ep_send wr ty data s =
     (case ep_link s of
        Up t \<Rightarrow> s\<lparr>ep_link := Up (send_raw wr ty data t), ep_asked := ep_asked s @ [(ty, data)]\<rparr>
      | _ \<Rightarrow> s\<lparr>ep_asked := ep_asked s @ [(ty, data)], ep_lost := ep_lost s + 1\<rparr>)"

text \<open>
  \<open>start\<close> is \<^verbatim>\<open>listen\<close> or \<^verbatim>\<open>connect\<close>; \<open>acquired\<close> and \<open>refused\<close> are the ways its thread can go on. The reader starts before \<^verbatim>\<open>on_connect\<close> is
  called. \<open>world\<close> is what the other end and the system do to the stream this end reads; \<open>out\<close> are the bytes it has written.
\<close>

inductive ep_step :: "role \<Rightarrow> ('t \<Rightarrow> nat \<Rightarrow> ('t \<times> u8 list) option) \<Rightarrow> ('t \<Rightarrow> u8 list \<Rightarrow> 't) \<Rightarrow> ('t \<Rightarrow> bool) \<Rightarrow> ('t \<Rightarrow> u8 list)
    \<Rightarrow> 't endpoint \<Rightarrow> 't endpoint \<Rightarrow> bool" for r rd wr conn out where
  start: "ep_link s = Idle \<Longrightarrow> ep_step r rd wr conn out s (s\<lparr>ep_link := Acquiring\<rparr>)"
| refused: "ep_link s = Acquiring \<Longrightarrow> ep_step r rd wr conn out s (s\<lparr>ep_link := Refused, ep_log := ep_log s @ [OnError (refusal r)]\<rparr>)"
| acquired: "ep_link s = Acquiring \<Longrightarrow> conn t \<Longrightarrow> out t = [] \<Longrightarrow> ep_step r rd wr conn out s (s\<lparr>ep_link := Up t, ep_reading := True\<rparr>)"
| greet: "ep_link s = Up t \<Longrightarrow> \<not> ep_greeted s \<Longrightarrow> ep_step r rd wr conn out s (s\<lparr>ep_greeted := True, ep_log := ep_log s @ [OnConnect]\<rparr>)"
| round: "ep_link s = Up t \<Longrightarrow> ep_reading s \<Longrightarrow> conn t \<Longrightarrow> read_step rd \<lparr>rs_t = t, rs_ev = []\<rparr> = Some (\<lparr>rs_t = t', rs_ev = ev\<rparr>, False) \<Longrightarrow>
    ep_step r rd wr conn out s (s\<lparr>ep_link := Up t', ep_log := ep_log s @ map api_of ev\<rparr>)"
| last_round: "ep_link s = Up t \<Longrightarrow> ep_reading s \<Longrightarrow> conn t \<Longrightarrow> read_step rd \<lparr>rs_t = t, rs_ev = []\<rparr> = Some (\<lparr>rs_t = t', rs_ev = ev\<rparr>, True) \<Longrightarrow>
    ep_step r rd wr conn out s (s\<lparr>ep_link := Up t', ep_reading := False, ep_log := ep_log s @ map api_of (ev @ [EvDisconnect])\<rparr>)"
| loop_end: "ep_link s = Up t \<Longrightarrow> ep_reading s \<Longrightarrow> \<not> conn t \<Longrightarrow>
    ep_step r rd wr conn out s (s\<lparr>ep_reading := False, ep_log := ep_log s @ [OnDisconnect]\<rparr>)"
| send: "ep_step r rd wr conn out s (ep_send wr ty data s)"
| world: "ep_link s = Up t \<Longrightarrow> out t' = out t \<Longrightarrow> ep_step r rd wr conn out s (s\<lparr>ep_link := Up t'\<rparr>)"

inductive_cases ep_stepE: "ep_step r rd wr conn out s s'"

section \<open>What the user is told\<close>

lemma read_step_events:
  assumes "read_step rd \<lparr>rs_t = t, rs_ev = []\<rparr> = Some (\<lparr>rs_t = t', rs_ev = ev\<rparr>, brk)"
  shows "if brk then ev \<in> {[], [EvError BadFrame], [EvError PayloadTooLarge]} else \<exists>ty p. ev = [EvMessage ty p]"
  using assms by (auto simp: read_step_def Let_def split: option.splits if_splits)

definition told :: "(u8 \<times> u8 list) list \<Rightarrow> api_event list" where
  "told ms = map (\<lambda>(ty, p). OnMessage ty p) ms"

definition loop_ends :: "api_event list set" where
  "loop_ends = {[OnDisconnect], [OnError BadFrame_Error, OnDisconnect], [OnError PayloadTooLarge_Error, OnDisconnect]}"

definition without_connect :: "api_event list \<Rightarrow> api_event list" where
  "without_connect l = filter (\<lambda>e. e \<noteq> OnConnect) l"

lemma without_connect_simps [simp]:
  "without_connect [] = []" "without_connect (l @ l') = without_connect l @ without_connect l'"
  "without_connect (told ms) = told ms" "es \<in> loop_ends \<Longrightarrow> without_connect es = es" "without_connect [OnConnect] = []"
  by (auto simp: without_connect_def told_def loop_ends_def intro!: filter_True)

definition log_inv :: "role \<Rightarrow> 't endpoint \<Rightarrow> bool" where
  "log_inv r s \<longleftrightarrow> count_list (ep_log s) OnConnect = of_bool (ep_greeted s)
     \<and> (case ep_link s of
          Up t \<Rightarrow> (\<exists>ms. without_connect (ep_log s) = told ms \<and> ep_reading s)
            \<or> (\<exists>ms es. without_connect (ep_log s) = told ms @ es \<and> es \<in> loop_ends \<and> \<not> ep_reading s)
        | Refused \<Rightarrow> ep_log s = [OnError (refusal r)] \<and> \<not> ep_reading s \<and> \<not> ep_greeted s
        | _ \<Rightarrow> ep_log s = [] \<and> \<not> ep_reading s \<and> \<not> ep_greeted s)"

lemma count_no_connect: "count_list (map api_of ev) OnConnect = 0"
proof -
  have "api_of e \<noteq> OnConnect" for e by (cases e rule: api_of.cases) simp_all
  then show ?thesis by (induction ev) auto
qed

lemma log_inv_step: "ep_step r rd wr conn out s s' \<Longrightarrow> log_inv r s \<Longrightarrow> log_inv r s'"
proof (induction rule: ep_step.induct)
  case (round s t t' ev)
  then obtain ms ty p where "without_connect (ep_log s) = told ms" "ev = [EvMessage ty p]"
    using read_step_events [OF round(4)] by (auto simp: log_inv_def)
  moreover have "told ms @ [OnMessage ty p] = told (ms @ [(ty, p)])" for ms ty p by (simp add: told_def)
  moreover have "without_connect [OnMessage ty p] = [OnMessage ty p]" by (simp add: without_connect_def)
  ultimately show ?case using round by (auto simp: log_inv_def)
next
  case (last_round s t t' ev)
  then obtain ms where ms: "without_connect (ep_log s) = told ms" by (auto simp: log_inv_def)
  define es where "es = map api_of (ev @ [EvDisconnect])"
  have "es \<in> loop_ends" using read_step_events [OF last_round(4)] by (auto simp: loop_ends_def es_def)
  moreover from this have "without_connect (ep_log s @ es) = told ms @ es" using ms by simp
  moreover have "count_list es OnConnect = 0" unfolding es_def by (rule count_no_connect)
  ultimately show ?case
    using last_round unfolding es_def [symmetric] by (auto simp: log_inv_def simp del: without_connect_simps)
next
  case (loop_end s t)
  then obtain ms where "without_connect (ep_log s) = told ms" by (auto simp: log_inv_def)
  moreover have "[OnDisconnect] \<in> loop_ends" by (simp add: loop_ends_def)
  ultimately show ?case using loop_end by (auto simp: log_inv_def)
next
  case (acquired s t)
  then show ?case by (auto simp: log_inv_def told_def)
qed (auto simp: log_inv_def ep_send_def refusal_def split: link.splits role.splits)

lemma log_inv_reach: "(ep_step r rd wr conn out)\<^sup>*\<^sup>* endpoint_new s \<Longrightarrow> log_inv r s"
proof (induction rule: rtranclp_induct)
  case base
  then show ?case by (simp add: log_inv_def endpoint_new_def)
next
  case (step y z)
  then show ?case by (blast intro: log_inv_step)
qed

text \<open>
  C25. What the callbacks of a server or client can see, in every interleaving of its threads: either the one error that says that it
  got no transport, or messages, then at most one framing error, then at most one disconnect with nothing after
  it; \<^verbatim>\<open>on_connect\<close> comes at most once, at any place among these, also after messages and after the disconnect. The errors
  \<^verbatim>\<open>ConnectionLost\<close> and \<^verbatim>\<open>SendFailed\<close> are never reported.
\<close>

theorem endpoint_events:
  assumes "(ep_step r rd wr conn out)\<^sup>*\<^sup>* endpoint_new s"
  shows "count_list (ep_log s) OnConnect \<le> 1 \<and> OnError ConnectionLost \<notin> set (ep_log s) \<and> OnError SendFailed \<notin> set (ep_log s)
    \<and> (ep_log s = [OnError (refusal r)]
      \<or> (\<exists>ms es. filter (\<lambda>e. e \<noteq> OnConnect) (ep_log s) = map (\<lambda>(ty, p). OnMessage ty p) ms @ es
          \<and> es \<in> {[], [OnDisconnect], [OnError BadFrame_Error, OnDisconnect], [OnError PayloadTooLarge_Error, OnDisconnect]}))"
proof -
  note inv = log_inv_reach [OF assms]
  then have "count_list (ep_log s) OnConnect \<le> 1" by (simp add: log_inv_def)
  moreover have shape: "ep_log s = [OnError (refusal r)]
      \<or> (\<exists>ms es. without_connect (ep_log s) = told ms @ es \<and> es \<in> insert [] loop_ends)"
  proof (cases "ep_link s")
    case (Up t)
    with inv consider ms where "without_connect (ep_log s) = told ms @ []"
      | ms es where "without_connect (ep_log s) = told ms @ es" "es \<in> loop_ends" by (auto simp: log_inv_def)
    then show ?thesis by cases blast+
  qed (use inv in \<open>auto simp: log_inv_def intro!: exI [of _ "[]"] simp: told_def\<close>)
  moreover have "OnError x \<notin> set (ep_log s)" if "x = ConnectionLost \<or> x = SendFailed" for x
  proof
    assume "OnError x \<in> set (ep_log s)"
    then have *: "OnError x \<in> set (without_connect (ep_log s))" by (simp add: without_connect_def)
    from shape show False
    proof (elim disjE exE conjE)
      assume "ep_log s = [OnError (refusal r)]"
      with that * show False by (auto simp: refusal_def without_connect_def split: role.splits)
    next
      fix ms es
      assume "without_connect (ep_log s) = told ms @ es" "es \<in> insert [] loop_ends"
      with that * show False by (auto simp: told_def loop_ends_def)
    qed
  qed
  ultimately show ?thesis by (auto simp: told_def loop_ends_def without_connect_def)
qed

section \<open>What the other end gets\<close>

text \<open>What is relied on of a transport: a write appends to the bytes written, a read does not.\<close>

definition out_laws :: "('t \<Rightarrow> nat \<Rightarrow> ('t \<times> u8 list) option) \<Rightarrow> ('t \<Rightarrow> u8 list \<Rightarrow> 't) \<Rightarrow> ('t \<Rightarrow> u8 list) \<Rightarrow> bool" where
  "out_laws rd wr out \<longleftrightarrow> (\<forall>t data. out (wr t data) = out t @ data) \<and> (\<forall>t n t' bs. rd t n = Some (t', bs) \<longrightarrow> out t' = out t)"

lemma read_step_out:
  assumes "out_laws rd wr out" and "read_step rd \<lparr>rs_t = t, rs_ev = []\<rparr> = Some (\<lparr>rs_t = t', rs_ev = ev\<rparr>, brk)"
  shows "out t' = out t"
proof -
  have rd: "rd x n = Some (x', bs) \<Longrightarrow> out x' = out x" for x n x' bs using assms(1) unfolding out_laws_def by metis
  show ?thesis using assms(2) by (auto simp: read_step_def Let_def split: option.splits if_splits dest!: rd)
qed

lemma send_raw_out: "out_laws rd wr out \<Longrightarrow> out (send_raw wr ty p t) = out t @ frame_bytes ty p"
  by (simp add: out_laws_def send_raw_def frame_bytes_def Let_def)

definition sends_inv :: "('t \<Rightarrow> u8 list) \<Rightarrow> 't endpoint \<Rightarrow> bool" where
  "sends_inv out s \<longleftrightarrow> (case ep_link s of
     Up t \<Rightarrow> ep_lost s \<le> length (ep_asked s) \<and> out t = stream_of (drop (ep_lost s) (ep_asked s))
   | _ \<Rightarrow> ep_lost s = length (ep_asked s))"

lemma sends_inv_step:
  "ep_step r rd wr conn out s s' \<Longrightarrow> out_laws rd wr out \<Longrightarrow> sends_inv out s \<Longrightarrow> sends_inv out s'"
  by (induction rule: ep_step.induct)
    (auto simp: sends_inv_def ep_send_def send_raw_out dest: read_step_out split: link.splits)

text \<open>
  What the other end can get of what is sent: once the channel is up, its stream holds exactly the frames of the messages sent since, in order and whole; the messages
  sent before, from \<^verbatim>\<open>listen\<close> or \<^verbatim>\<open>connect\<close> until the other side is there, are lost, and the sender is not told.
\<close>

theorem endpoint_sends:
  assumes "(ep_step r rd wr conn out)\<^sup>*\<^sup>* endpoint_new s" and "out_laws rd wr out"
  shows "case ep_link s of
      Up t \<Rightarrow> out t = concat (map (\<lambda>(ty, p). frame_bytes ty p) (drop (ep_lost s) (ep_asked s)))
    | _ \<Rightarrow> ep_lost s = length (ep_asked s)"
proof -
  have "sends_inv out s"
    using assms(1)
  proof (induction rule: rtranclp_induct)
    case base
    then show ?case by (simp add: sends_inv_def endpoint_new_def)
  next
    case (step y z)
    then show ?case using assms(2) by (blast intro: sends_inv_step)
  qed
  then show ?thesis by (simp add: sends_inv_def split: link.splits)
qed

section \<open>Witnesses\<close>

theorem endpoint_events_witness:
  "\<exists>s. (ep_step Client (unix_read (chunk_read (Suc 0))) (\<lambda>t _. t) ut_connected (\<lambda>_. []))\<^sup>*\<^sup>* endpoint_new s
    \<and> ep_log s = [OnMessage 1 [7], OnConnect] \<and> count_list (ep_log s) OnConnect \<le> 1"
proof -
  let ?step = "ep_step Client (unix_read (chunk_read (Suc 0))) (\<lambda>t _. t) ut_connected (\<lambda>_. [])"
  let ?t = "\<lparr>ut_connected = True, ut_sys = frame_bytes 1 [7]\<rparr>"
  obtain t' where r: "read_step (unix_read (chunk_read (Suc 0))) \<lparr>rs_t = ?t, rs_ev = []\<rparr> = Some (\<lparr>rs_t = t', rs_ev = [EvMessage 1 [7]]\<rparr>, False)"
    using chunk_rd.ux.read_step_frame [of "\<lparr>rs_t = ?t, rs_ev = []\<rparr>" 1 "[7]" "[]" 0] by (auto simp: fits_def)
  let ?s0 = "endpoint_new :: u8 list unix_t endpoint"
  let ?s1 = "?s0\<lparr>ep_link := Acquiring\<rparr>"
  let ?s2 = "?s1\<lparr>ep_link := Up ?t, ep_reading := True\<rparr>"
  let ?s3 = "?s2\<lparr>ep_link := Up t', ep_log := ep_log ?s2 @ map api_of [EvMessage 1 [7]]\<rparr>"
  let ?s4 = "?s3\<lparr>ep_greeted := True, ep_log := ep_log ?s3 @ [OnConnect]\<rparr>"
  have "?step ?s0 ?s1" by (rule start) (simp add: endpoint_new_def)
  moreover have "?step ?s1 ?s2" by (rule acquired) simp_all
  moreover have "?step ?s2 ?s3" by (rule round [where t = ?t]) (simp_all add: r)
  moreover have "?step ?s3 ?s4" by (rule greet [where t = t']) (simp_all add: endpoint_new_def)
  ultimately have reach: "?step\<^sup>*\<^sup>* ?s0 ?s4" by (blast intro: converse_rtranclp_into_rtranclp)
  have "ep_log ?s4 = [OnMessage 1 [7], OnConnect]" by (simp add: endpoint_new_def)
  with reach endpoint_events [OF reach] show ?thesis by blast
qed

theorem endpoint_sends_witness:
  "\<exists>s. (ep_step Server (\<lambda>_ _. None) (\<lambda>t data. t @ data) (\<lambda>_. True) (\<lambda>t. t))\<^sup>*\<^sup>* endpoint_new s
    \<and> ep_asked s = [(1, [1]), (1, [2])] \<and> ep_link s = Up (frame_bytes 1 [2])"
proof -
  let ?wr = "\<lambda>t data. t @ data :: u8 list"
  let ?step = "ep_step Server (\<lambda>_ _. None) ?wr (\<lambda>_. True) (\<lambda>t. t)"
  let ?s0 = "endpoint_new :: u8 list endpoint"
  let ?s1 = "ep_send ?wr 1 [1] ?s0"
  let ?s2 = "?s1\<lparr>ep_link := Acquiring\<rparr>"
  let ?s3 = "?s2\<lparr>ep_link := Up [], ep_reading := True\<rparr>"
  let ?s4 = "ep_send ?wr 1 [2] ?s3"
  have "?step ?s0 ?s1" by (rule send)
  moreover have "?step ?s1 ?s2" by (rule start) (simp add: endpoint_new_def ep_send_def)
  moreover have "?step ?s2 ?s3" by (rule acquired) simp_all
  moreover have "?step ?s3 ?s4" by (rule send)
  ultimately have reach: "?step\<^sup>*\<^sup>* ?s0 ?s4" by (blast intro: converse_rtranclp_into_rtranclp)
  moreover have "out_laws (\<lambda>_ _. None) ?wr (\<lambda>t. t)" by (simp add: out_laws_def)
  moreover have "ep_asked ?s4 = [(1, [1]), (1, [2])]" "ep_lost ?s4 = 1" "\<exists>t. ep_link ?s4 = Up t"
    by (simp_all add: ep_send_def endpoint_new_def)
  ultimately show ?thesis using endpoint_sends [OF reach] by (intro exI [of _ ?s4]) auto
qed

end
