(* ===== verification/Serial.thy ===== *)
theory Serial
  imports Host_Writes Ipc_Api
begin

text \<open>
  The way of the guest's serial output to the terminal: the PL011 writes into a pipe (\<^verbatim>\<open>exit_handler.cpp\<close>), the pump thread of the
  port reads the pipe and sends what it got over the port's channel (\<^verbatim>\<open>hvf_backend.cpp\<close>), the client in \<^verbatim>\<open>cli/main.cpp\<close> prints
  the messages it receives.
\<close>

section \<open>Parts\<close>

text \<open>The client prints the payload of every message.\<close>

definition client_prints :: "event list \<Rightarrow> u8 list" where
  "client_prints evs = concat (map (\<lambda>e. case e of EvMessage ty p \<Rightarrow> p | _ \<Rightarrow> []) evs)"

section \<open>The output path\<close>

text \<open>
  The machine, what its guest has said on the serial port so far (this is not state of the program: it is what its output is compared with), the bytes
  in the pipe, and the server of the port.
\<close>

record ('e, 't) serial =
  se_vm :: "'e machine"
  se_said :: "u8 list"
  se_pipe :: "u8 list"
  se_server :: "'t endpoint"

text \<open>
  \<open>fd\<close> is the write end of the pipe, which the PL011 has. A CPU runs in the guest and leaves it; what its exit writes to \<open>fd\<close> goes into the
  pipe, whose writes are taken to succeed. Any other thread may change the machine, but does not write to descriptors and leaves the
  ports as they are. A round of the pump reads at least one and at most 4096 bytes. The pump is the only sender; the server's other threads run on
  their own.
\<close>

inductive serial_step :: "'e vmm_os \<Rightarrow> int \<Rightarrow> ('t \<Rightarrow> nat \<Rightarrow> ('t \<times> u8 list) option) \<Rightarrow> ('t \<Rightarrow> u8 list \<Rightarrow> 't) \<Rightarrow> ('t \<Rightarrow> bool) \<Rightarrow> ('t \<Rightarrow> u8 list)
    \<Rightarrow> ('e, 't) serial \<Rightarrow> ('e, 't) serial \<Rightarrow> bool" for os fd rd wr conn out where
  guest: "guest_ran i (se_vm s) m \<Longrightarrow> exit_handle os i ex m = Some (m', cont) \<Longrightarrow>
    new = bytes_to fd (drop (length (sent (hst m))) (sent (hst m'))) \<Longrightarrow>
    serial_step os fd rd wr conn out s
      (s\<lparr>se_vm := m', se_said := se_said s @ guest_putc os i ex m, se_pipe := se_pipe s @ new\<rparr>)"
| other: "sent (hst m') = sent (hst (se_vm s)) \<Longrightarrow> pl_tx_fd (pl011 m') = pl_tx_fd (pl011 (se_vm s)) \<Longrightarrow>
    map_option con_tx_fd (console_dev m') = map_option con_tx_fd (console_dev (se_vm s)) \<Longrightarrow>
    serial_step os fd rd wr conn out s (s\<lparr>se_vm := m'\<rparr>)"
| pump: "se_pipe s = chunk @ left \<Longrightarrow> chunk \<noteq> [] \<Longrightarrow> length chunk \<le> 4096 \<Longrightarrow>
    serial_step os fd rd wr conn out s (s\<lparr>se_pipe := left, se_server := ep_send wr 1 chunk (se_server s)\<rparr>)"
| server: "ep_step Server rd wr conn out (se_server s) srv \<Longrightarrow> ep_asked srv = ep_asked (se_server s) \<Longrightarrow>
    serial_step os fd rd wr conn out s (s\<lparr>se_server := srv\<rparr>)"

definition serial_start :: "int \<Rightarrow> ('e, 't) serial \<Rightarrow> bool" where
  "serial_start fd s \<longleftrightarrow> serial_on fd (se_vm s) \<and> se_said s = [] \<and> se_pipe s = [] \<and> se_server s = endpoint_new"

definition serial_inv :: "int \<Rightarrow> ('t \<Rightarrow> u8 list) \<Rightarrow> ('e, 't) serial \<Rightarrow> bool" where
  "serial_inv fd out s \<longleftrightarrow> serial_on fd (se_vm s) \<and> sends_inv out (se_server s)
     \<and> se_said s = concat (map snd (ep_asked (se_server s))) @ se_pipe s
     \<and> (\<forall>(ty, c) \<in> set (ep_asked (se_server s)). length c \<le> 4096)"

lemma ep_asked_send [simp]: "ep_asked (ep_send wr ty data s) = ep_asked s @ [(ty, data)]"
  by (simp add: ep_send_def split: link.splits)

lemma serial_inv_step:
  "serial_step os fd rd wr conn out s s' \<Longrightarrow> out_laws rd wr out \<Longrightarrow> serial_inv fd out s \<Longrightarrow> serial_inv fd out s'"
proof (induction rule: serial_step.induct)
  case (guest i s m ex m' cont new)
  have "serial_on fd m" using guest(1,5) guest_ran_serial by (auto simp: serial_inv_def)
  from exit_puts [OF guest(2) this] guest(3) have "serial_on fd m'" "new = guest_putc os i ex m" by (auto simp: puts_def)
  with guest(5) show ?case by (simp add: serial_inv_def)
next
  case (other m' s)
  then have "serial_on fd m'" by (cases "console_dev m'"; cases "console_dev (se_vm s)") (auto simp: serial_inv_def serial_on_def)
  with other show ?case by (simp add: serial_inv_def)
next
  case (pump s chunk left)
  have "ep_step Server rd wr conn out (se_server s) (ep_send wr 1 chunk (se_server s))" by (rule ep_step.send)
  from sends_inv_step [OF this pump(4)] pump(5) have "sends_inv out (ep_send wr 1 chunk (se_server s))" by (simp add: serial_inv_def)
  then show ?case using pump by (auto simp: serial_inv_def)
next
  case (server s srv)
  then show ?case using sends_inv_step [OF server(1)] by (auto simp: serial_inv_def)
qed

lemma serial_inv_reach:
  assumes "(serial_step os fd rd wr conn out)\<^sup>*\<^sup>* s0 s" and "serial_start fd s0" and "out_laws rd wr out"
  shows "serial_inv fd out s"
  using assms(1)
proof (induction rule: rtranclp_induct)
  case base
  then show ?case using assms(2) by (simp add: serial_inv_def serial_start_def sends_inv_def endpoint_new_def)
next
  case (step y z)
  then show ?case using assms(3) by (blast intro: serial_inv_step)
qed

lemma client_prints_messages: "client_prints (map (\<lambda>(ty, p). EvMessage ty p) ms @ [EvDisconnect]) = concat (map snd ms)"
  by (simp add: client_prints_def) (induction ms, auto)

text \<open>
  C9. Serial output end to end. In every interleaving of the guest's CPUs, the VMM's other threads, the pump and the server's threads, what the guest
  has stored to the data register of its UART is, in order and byte for byte: what was pumped while no client was connected, which is lost; then exactly
  what a client prints that reads the server's stream to its end, whatever the chunks the bytes travelled in; then what is still in the
  pipe. The UART has the write end of the pipe and the console device another descriptor.
\<close>

theorem serial_output_path:
  assumes steps: "(serial_step os fd rd wr conn out)\<^sup>*\<^sup>* s0 s" and start: "serial_start fd s0" and laws: "out_laws rd wr out"
    and client: "os_reads sys_read incoming" "ut_connected r"
    and up: "ep_link (se_server s) = Up t" "incoming (ut_sys r) = out t"
  shows "\<exists>lost printed. se_said s = lost @ printed @ se_pipe s
    \<and> lost = concat (map snd (take (ep_lost (se_server s)) (ep_asked (se_server s))))
    \<and> map_option (client_prints \<circ> snd) (read_loop (unix_read sys_read) ut_connected r) = Some printed"
proof -
  note inv = serial_inv_reach [OF steps start laws]
  let ?asked = "ep_asked (se_server s)" and ?k = "ep_lost (se_server s)"
  have out: "out t = stream_of (drop ?k ?asked)" using inv up(1) by (simp add: serial_inv_def sends_inv_def)
  have fits: "\<forall>(ty, p) \<in> set (drop ?k ?asked). fits p"
  proof
    fix x assume x: "x \<in> set (drop ?k ?asked)"
    obtain ty p where p: "x = (ty, p)" by fastforce
    from x p inv have "length p \<le> 4096" unfolding serial_inv_def by (auto dest: in_set_dropD)
    then show "case x of (ty, p) \<Rightarrow> fits p" using p by (simp add: fits_def)
  qed
  have "map_option snd (read_loop (unix_read sys_read) ut_connected r)
      = Some (map (\<lambda>(ty, p). EvMessage ty p) (drop ?k ?asked) @ [EvDisconnect])"
    using client up(2) out fits
    by (intro stream_transport.read_loop_frames(1) [OF os_reads.unix_stream [OF client(1)], where rest = "[]"]) simp_all
  then have "map_option (client_prints \<circ> snd) (read_loop (unix_read sys_read) ut_connected r) = Some (concat (map snd (drop ?k ?asked)))"
    using client_prints_messages [of "drop ?k ?asked"] by (cases "read_loop (unix_read sys_read) ut_connected r") auto
  moreover have "concat (map snd ?asked) = concat (map snd (take ?k ?asked)) @ concat (map snd (drop ?k ?asked))"
    by (metis append_take_drop_id concat_append map_append)
  ultimately show ?thesis using inv by (simp add: serial_inv_def)
qed

section \<open>Witness\<close>

definition demo_serial_vm :: "unit machine" where
  "demo_serial_vm = set_reg 0 1 0x41 (demo_vm\<lparr>pl011 := pl011_init\<lparr>pl_tx_fd := 5\<rparr>\<rparr>)"

definition demo_putc :: vcpu_exit where
  "demo_putc = \<lparr>ex_reason = HV_EXIT_REASON_EXCEPTION, ex_syndrome = 0x93810046, ex_ipa = 0x09000000\<rparr>"

lemma demo_putc_output:
  "\<exists>m'. exit_handle demo_vmm_os 0 demo_putc demo_serial_vm = Some (m', True) \<and> sent (hst m') = sent (hst demo_serial_vm) @ [(5, [0x41])]"
  "guest_putc demo_vmm_os 0 demo_putc demo_serial_vm = [0x41]"
proof -
  have esr: "esr_wnr (ex_syndrome demo_putc)" "esr_srt (ex_syndrome demo_putc) = 1" "ex_ipa demo_putc = 0x09000000"
    by (simp_all add: demo_putc_def esr_wnr_def esr_srt_def)
  have x1: "get_xreg demo_vmm_os 0 1 demo_serial_vm = 0x41"
    using demo_vm_simps(1) by (simp add: demo_serial_vm_def get_xreg_def get_reg_def set_reg_def upd_vcpu_def xreg_id_def demo_vmm_os_def)
  have tx: "pl_tx_fd (pl011 demo_serial_vm) = 5" by (simp add: demo_serial_vm_def set_reg_def upd_vcpu_def)
  have "handle_mmio demo_vmm_os 0 demo_putc demo_serial_vm = Some (advance_pc demo_vmm_os 0 (uart_write 0 0x41 demo_serial_vm))"
    by (simp add: handle_mmio_def [folded in_win_def, folded esr_srt_def, folded esr_wnr_def] esr in_win_def x1)
  then have "exit_handle demo_vmm_os 0 demo_putc demo_serial_vm = Some (advance_pc demo_vmm_os 0 (uart_write 0 0x41 demo_serial_vm), True)"
    by (simp add: exit_handle_def demo_putc_def)
  then show "\<exists>m'. exit_handle demo_vmm_os 0 demo_putc demo_serial_vm = Some (m', True) \<and> sent (hst m') = sent (hst demo_serial_vm) @ [(5, [0x41])]"
    by (simp add: advance_pc_def set_reg_def upd_vcpu_def uart_write_def tx)
  have "vc_regs (vcpus demo_serial_vm ! 0) 1 = 0x41"
    using demo_vm_simps(1) by (simp add: demo_serial_vm_def set_reg_def upd_vcpu_def)
  then show "guest_putc demo_vmm_os 0 demo_putc demo_serial_vm = [0x41]"
    by (simp add: guest_putc_def demo_putc_def demo_vm_simps(7) bit_iff_odd_drop_bit take_bit_eq_mod)
qed

theorem serial_output_path_witness:
  "\<exists>s0 s t. serial_start 5 s0 \<and> se_vm s0 = demo_serial_vm \<and> se_said s = [0x41]
    \<and> (serial_step demo_vmm_os 5 (\<lambda>_ _. None) (\<lambda>t data. t @ data) (\<lambda>_. True) (\<lambda>t. t))\<^sup>*\<^sup>* s0 s \<and> ep_link (se_server s) = Up t
    \<and> map_option (client_prints \<circ> snd) (read_loop (unix_read (chunk_read (Suc 0))) ut_connected \<lparr>ut_connected = True, ut_sys = t\<rparr>) = Some [0x41]"
proof -
  let ?wr = "\<lambda>t data. t @ data :: u8 list"
  let ?step = "serial_step demo_vmm_os 5 (\<lambda>_ _. None) ?wr (\<lambda>_. True) (\<lambda>t. t)"
  obtain m' where m': "exit_handle demo_vmm_os 0 demo_putc demo_serial_vm = Some (m', True)"
    "sent (hst m') = sent (hst demo_serial_vm) @ [(5, [0x41])]" using demo_putc_output(1) by blast
  let ?s0 = "\<lparr>se_vm = demo_serial_vm, se_said = [], se_pipe = [], se_server = endpoint_new\<rparr> :: (unit, u8 list) serial"
  let ?s1 = "?s0\<lparr>se_server := endpoint_new\<lparr>ep_link := Acquiring\<rparr>\<rparr>"
  let ?s2 = "?s0\<lparr>se_server := endpoint_new\<lparr>ep_link := Up [], ep_reading := True\<rparr>\<rparr>"
  let ?s3 = "?s2\<lparr>se_vm := m', se_said := [0x41], se_pipe := [0x41]\<rparr>"
  let ?s4 = "?s3\<lparr>se_pipe := [], se_server := ep_send ?wr 1 [0x41] (se_server ?s3)\<rparr>"
  have "ep_step Server (\<lambda>_ _. None) ?wr (\<lambda>_. True) (\<lambda>t. t) endpoint_new (endpoint_new\<lparr>ep_link := Acquiring\<rparr>)"
    by (rule start) (simp add: endpoint_new_def)
  then have "?step ?s0 ?s1" using server [of _ _ _ _ ?s0] by (simp add: endpoint_new_def)
  moreover have "ep_step Server (\<lambda>_ _. None) ?wr (\<lambda>_. True) (\<lambda>t. t) (endpoint_new\<lparr>ep_link := Acquiring\<rparr>)
      ((endpoint_new\<lparr>ep_link := Acquiring\<rparr>)\<lparr>ep_link := Up [], ep_reading := True\<rparr>)"
    by (rule acquired) simp_all
  then have "?step ?s1 ?s2" using server [of _ _ _ _ ?s1] by (simp add: endpoint_new_def)
  moreover have "?step ?s2 (?s2\<lparr>se_vm := m', se_said := se_said ?s2 @ guest_putc demo_vmm_os 0 demo_putc demo_serial_vm,
      se_pipe := se_pipe ?s2 @ [0x41]\<rparr>)"
    by (rule guest [where i = 0 and ex = demo_putc and cont = True and m = demo_serial_vm]) (simp_all add: m' guest_ran_refl)
  then have "?step ?s2 ?s3" by (simp add: demo_putc_output(2))
  moreover have "?step ?s3 ?s4" by (rule pump) simp_all
  ultimately have steps: "?step\<^sup>*\<^sup>* ?s0 ?s4" by (blast intro: converse_rtranclp_into_rtranclp)
  have "pl_tx_fd (pl011 demo_serial_vm) = 5" "console_dev demo_serial_vm = None"
    by (simp_all add: demo_serial_vm_def set_reg_def upd_vcpu_def demo_vm_def create_keyboard_def init_vcpus_def vmcontext_new_def)
  then have start: "serial_start 5 ?s0" by (simp add: serial_start_def serial_on_def)
  have up: "ep_link (se_server ?s4) = Up (frame_bytes 1 [0x41])"
    by (simp add: ep_send_def send_raw_def frame_bytes_def)
  have "\<exists>lost printed. se_said ?s4 = lost @ printed @ se_pipe ?s4
      \<and> lost = concat (map snd (take (ep_lost (se_server ?s4)) (ep_asked (se_server ?s4))))
      \<and> map_option (client_prints \<circ> snd) (read_loop (unix_read (chunk_read (Suc 0))) ut_connected
          \<lparr>ut_connected = True, ut_sys = frame_bytes 1 [0x41]\<rparr>) = Some printed"
    by (rule serial_output_path [OF steps start _ chunk_rd.os_reads_axioms _ up]) (simp_all add: out_laws_def)
  then have "map_option (client_prints \<circ> snd) (read_loop (unix_read (chunk_read (Suc 0))) ut_connected
      \<lparr>ut_connected = True, ut_sys = frame_bytes 1 [0x41]\<rparr>) = Some [0x41]"
    by (auto simp: ep_send_def endpoint_new_def)
  with steps start up show ?thesis by (intro exI [of _ ?s0] exI [of _ ?s4] exI [of _ "frame_bytes 1 [0x41]"]) simp
qed

end
