(* ===== verification/Fw_Dtb.thy ===== *)
theory Fw_Dtb
  imports Machine
begin

text \<open>
  The flattened device tree the guest boots with (\<^verbatim>\<open>src/src/hvf/fw_dtb.cpp\<close>): the builder of the binary
  format, the calls \<^verbatim>\<open>DTB::generate\<close> makes, and a reference decoder that reads the format back.
\<close>

section \<open>Bytes and text\<close>

definition be_bytes32 :: "u32 \<Rightarrow> u8 list" where
  "be_bytes32 x = [ucast (drop_bit 24 x), ucast (drop_bit 16 x), ucast (drop_bit 8 x), ucast x]"

definition be_bytes64 :: "u64 \<Rightarrow> u8 list" where
  "be_bytes64 x = be_bytes32 (ucast (drop_bit 32 x)) @ be_bytes32 (ucast x)"

definition pad4 :: "u8 list \<Rightarrow> u8 list" where
  "pad4 v = v @ replicate ((4 - length v mod 4) mod 4) 0"

definition str_bytes :: "string \<Rightarrow> u8 list" where
  "str_bytes s = map of_char s"

text \<open>What \<^verbatim>\<open>%u\<close> and \<^verbatim>\<open>%llx\<close> print.\<close>

definition digit :: "nat \<Rightarrow> char" where
  "digit d = char_of (if d < 10 then 48 + d else 87 + d)"

fun num_str :: "nat \<Rightarrow> nat \<Rightarrow> string" where
  "num_str base n = (if n < base \<or> base < 2 then [digit n] else num_str base (n div base) @ [digit (n mod base)])"

declare num_str.simps [simp del]

section \<open>The builder\<close>

record fdt =
  fdt_st :: "u8 list"
  fdt_str :: "u8 list"
  fdt_rsv :: "u8 list"
  fdt_map :: "string \<Rightarrow> u32 option"

definition fdt_new :: fdt where
  "fdt_new = \<lparr>fdt_st = [], fdt_str = [], fdt_rsv = [], fdt_map = Map.empty\<rparr>"

definition str_off :: "string \<Rightarrow> fdt \<Rightarrow> u32 \<times> fdt" where
  "str_off key b =
     (case fdt_map b key of
        Some off \<Rightarrow> (off, b)
      | None \<Rightarrow>
          (let off = of_nat (length (fdt_str b))
           in (off, b\<lparr>fdt_str := fdt_str b @ str_bytes key @ [0], fdt_map := (fdt_map b)(key \<mapsto> off)\<rparr>)))"

definition begin_node :: "string \<Rightarrow> fdt \<Rightarrow> fdt" where
  "begin_node name b = b\<lparr>fdt_st := pad4 (fdt_st b @ be_bytes32 1 @ str_bytes name @ [0])\<rparr>"

definition end_node :: "fdt \<Rightarrow> fdt" where
  "end_node b = b\<lparr>fdt_st := fdt_st b @ be_bytes32 2\<rparr>"

definition fdt_prop :: "string \<Rightarrow> u8 list \<Rightarrow> fdt \<Rightarrow> fdt" where
  "fdt_prop name data b =
     (case str_off name b of
        (off, b') \<Rightarrow> b'\<lparr>fdt_st := pad4 (fdt_st b' @ be_bytes32 3 @ be_bytes32 (of_nat (length data)) @ be_bytes32 off @ data)\<rparr>)"

definition reserve :: "u64 \<Rightarrow> u64 \<Rightarrow> fdt \<Rightarrow> fdt" where
  "reserve addr sz b = b\<lparr>fdt_rsv := fdt_rsv b @ be_bytes64 addr @ be_bytes64 sz\<rparr>"

definition fdt_build :: "fdt \<Rightarrow> u8 list" where
  "fdt_build b =
     (let st = fdt_st b @ be_bytes32 9; rsv = fdt_rsv b @ be_bytes64 0 @ be_bytes64 0; str = fdt_str b;
          off_rsv = 40 :: u32; off_st = off_rsv + of_nat (length rsv); off_str = off_st + of_nat (length st);
          total = off_str + of_nat (length str)
      in be_bytes32 0xd00dfeed @ be_bytes32 total @ be_bytes32 off_st @ be_bytes32 off_str @ be_bytes32 off_rsv
         @ be_bytes32 17 @ be_bytes32 16 @ be_bytes32 0 @ be_bytes32 (of_nat (length str)) @ be_bytes32 (of_nat (length st))
         @ rsv @ st @ str)"

section \<open>The calls of generate\<close>

datatype fdt_call = Begin_Node string | Prop string "u8 list" | End_Node

fun fdt_do :: "fdt_call \<Rightarrow> fdt \<Rightarrow> fdt" where
  "fdt_do (Begin_Node name) = begin_node name"
| "fdt_do (Prop name data) = fdt_prop name data"
| "fdt_do End_Node = end_node"

definition prop_u32 :: "string \<Rightarrow> u32 \<Rightarrow> fdt_call" where
  "prop_u32 name v = Prop name (be_bytes32 v)"

definition prop_str :: "string \<Rightarrow> string \<Rightarrow> fdt_call" where
  "prop_str name s = Prop name (str_bytes s @ [0])"

definition prop_strlist :: "string \<Rightarrow> string list \<Rightarrow> fdt_call" where
  "prop_strlist name ss = Prop name (concat (map (\<lambda>s. str_bytes s @ [0]) ss))"

definition prop_cells :: "string \<Rightarrow> u32 list \<Rightarrow> fdt_call" where
  "prop_cells name cells = Prop name (concat (map be_bytes32 cells))"

definition prop_empty :: "string \<Rightarrow> fdt_call" where
  "prop_empty name = Prop name []"

text \<open>The C string that a \<^verbatim>\<open>std::string\<close> is passed as ends at its first NUL.\<close>

definition c_str :: "string \<Rightarrow> string" where
  "c_str s = takeWhile (\<lambda>c. c \<noteq> CHR 0x00) s"

definition hi_cell :: "u64 \<Rightarrow> u32" where "hi_cell x = ucast (drop_bit 32 x)"
definition lo_cell :: "u64 \<Rightarrow> u32" where "lo_cell x = ucast x"

definition dtb_chosen :: "'e machine \<Rightarrow> fdt_call list" where
  "dtb_chosen m =
     [Begin_Node ''chosen'', prop_str ''bootargs'' (c_str (cmdline m)), prop_str ''stdout-path'' ''/pl011@9000000'']
     @ (if initrd_size m > 0
        then (let start = initrd_gpa m; fin = start + initrd_size m
              in [prop_cells ''linux,initrd-start'' [hi_cell start, lo_cell start],
                  prop_cells ''linux,initrd-end'' [hi_cell fin, lo_cell fin]])
        else [])
     @ [End_Node]"

definition dtb_memory :: "'e machine \<Rightarrow> fdt_call list" where
  "dtb_memory m =
     [Begin_Node (''memory@'' @ num_str 16 (unat (ram_gpa m))), prop_str ''device_type'' ''memory'',
      prop_cells ''reg'' [hi_cell (ram_gpa m), lo_cell (ram_gpa m), hi_cell (ram_size m), lo_cell (ram_size m)], End_Node]"

definition dtb_psci :: "fdt_call list" where
  "dtb_psci =
     [Begin_Node ''psci'', prop_strlist ''compatible'' [''arm,psci-1.0'', ''arm,psci-0.2'', ''arm,psci''],
      prop_str ''method'' ''hvc'', End_Node]"

definition dtb_cpu :: "nat \<Rightarrow> fdt_call list" where
  "dtb_cpu i =
     [Begin_Node (''cpu@'' @ num_str 10 i), prop_strlist ''compatible'' [''arm,cortex-a72'', ''arm,armv8''],
      prop_str ''device_type'' ''cpu'', prop_str ''enable-method'' ''psci'', prop_u32 ''reg'' (of_nat i), End_Node]"

definition dtb_cpus :: "'e machine \<Rightarrow> fdt_call list" where
  "dtb_cpus m =
     [Begin_Node ''cpus'', prop_u32 ''#address-cells'' 1, prop_u32 ''#size-cells'' 0]
     @ concat (map dtb_cpu [0..<unat (vcpu_count m)]) @ [End_Node]"

definition dtb_timer :: "fdt_call list" where
  "dtb_timer =
     [Begin_Node ''timer'', prop_strlist ''compatible'' [''arm,armv8-timer''],
      prop_cells ''interrupts'' [1, 13, 0xf04, 1, 14, 0xf04, 1, 11, 0xf04, 1, 10, 0xf04], prop_empty ''always-on'', End_Node]"

definition dtb_intc :: "fdt_call list" where
  "dtb_intc =
     [Begin_Node ''intc@8000000'', prop_strlist ''compatible'' [''arm,gic-v3''], prop_u32 ''#interrupt-cells'' 3,
      prop_empty ''interrupt-controller'',
      prop_cells ''reg'' [0, lo_cell kGpaGicDist, 0, lo_cell kGpaGicDistSize, 0, lo_cell kGpaGicRedist, 0,
        lo_cell (kVcpuMax * kGpaGicRedistStride)],
      prop_cells ''interrupts'' [1, 9, 0xf04], prop_u32 ''phandle'' 1, prop_u32 ''linux,phandle'' 1, End_Node]"

definition dtb_clk :: "fdt_call list" where
  "dtb_clk =
     [Begin_Node ''apb-clk'', prop_strlist ''compatible'' [''fixed-clock''], prop_u32 ''#clock-cells'' 0,
      prop_u32 ''clock-frequency'' 24000000, prop_str ''clock-output-names'' ''clk24mhz'', prop_u32 ''phandle'' 2,
      prop_u32 ''linux,phandle'' 2, End_Node]"

definition dtb_uart :: "fdt_call list" where
  "dtb_uart =
     [Begin_Node ''pl011@9000000'', prop_strlist ''compatible'' [''arm,pl011'', ''arm,primecell''],
      prop_cells ''reg'' [0, lo_cell kGpaUart0, 0, lo_cell kGpaUart0Size], prop_cells ''interrupts'' [0, 1, 4],
      prop_cells ''clocks'' [2, 2], prop_strlist ''clock-names'' [''uartclk'', ''apb_pclk''], End_Node]"

definition dtb_virtio :: "string \<Rightarrow> u64 \<Rightarrow> u32 \<Rightarrow> fdt_call list" where
  "dtb_virtio name gpa spi =
     [Begin_Node name, prop_strlist ''compatible'' [''virtio,mmio''], prop_cells ''reg'' [0, lo_cell gpa, 0, lo_cell kGpaVirtioStride],
      prop_cells ''interrupts'' [0, spi, 1], prop_empty ''dma-coherent'', End_Node]"

definition dtb_calls :: "'e machine \<Rightarrow> fdt_call list" where
  "dtb_calls m =
     [Begin_Node [], prop_u32 ''#address-cells'' 2, prop_u32 ''#size-cells'' 2, prop_u32 ''interrupt-parent'' 1,
      prop_strlist ''compatible'' [''linux,dummy-virt''], prop_str ''model'' ''virtualization-vm'']
     @ dtb_chosen m @ dtb_memory m @ dtb_psci @ dtb_cpus m @ dtb_timer @ dtb_intc @ dtb_clk @ dtb_uart
     @ dtb_virtio ''virtio_mmio@a000000'' kGpaVirtioConsole kSpiConsole
     @ dtb_virtio ''virtio_mmio@a000200'' kGpaVirtioBlock kSpiBlock
     @ (if net_dev m \<noteq> None then dtb_virtio ''virtio_mmio@a000400'' kGpaVirtioNet kSpiNet else [])
     @ (if gpu_dev m \<noteq> None then dtb_virtio ''virtio_mmio@a000600'' kGpaVirtioGpu kSpiGpu else [])
     @ (if keyboard_dev m \<noteq> None then dtb_virtio ''virtio_mmio@a000800'' kGpaVirtioKeyboard kSpiKeyboard else [])
     @ (if tablet_dev m \<noteq> None then dtb_virtio ''virtio_mmio@a000a00'' kGpaVirtioTablet kSpiTablet else [])
     @ [End_Node]"

definition dtb_blob :: "'e machine \<Rightarrow> u8 list" where
  "dtb_blob m = fdt_build (fold fdt_do (dtb_calls m) (reserve kGpaDtbLoad (kGpaKernelLoad - kGpaDtbLoad) fdt_new))"

definition dtb_generate :: "'e machine \<Rightarrow> 'e machine \<times> bool" where
  "dtb_generate m =
     (case gpa_to_hva m kGpaDtbLoad of
        None \<Rightarrow> (m, False)
      | Some dst \<Rightarrow>
          if length (dtb_blob m) > unat (kGpaKernelLoad - kGpaDtbLoad) then (m, False)
          else (m\<lparr>hst := (hst m)\<lparr>mem := write_bytes (mem (hst m)) dst (dtb_blob m)\<rparr>, dtb_gpa := kGpaDtbLoad\<rparr>, True))"

section \<open>A reference decoder\<close>

definition be_val :: "u8 list \<Rightarrow> nat" where
  "be_val bs = foldl (\<lambda>v b. v * 256 + unat b) 0 bs"

definition c_string :: "u8 list \<Rightarrow> string" where
  "c_string bs = map (\<lambda>b. char_of (unat b)) (takeWhile (\<lambda>b. b \<noteq> 0) bs)"

definition round4 :: "nat \<Rightarrow> nat" where "round4 n = (n + 3) div 4 * 4"

text \<open>The structure block, for a string block \<open>str\<close>. The fuel is the length of the block.\<close>

fun fdt_tokens :: "nat \<Rightarrow> u8 list \<Rightarrow> u8 list \<Rightarrow> fdt_call list option" where
  "fdt_tokens 0 str st = None"
| "fdt_tokens (Suc n) str st =
     (if length st < 4 then None
      else if be_val (take 4 st) = 9 then (if length st = 4 then Some [] else None)
      else if be_val (take 4 st) = 2 then map_option ((#) End_Node) (fdt_tokens n str (drop 4 st))
      else if be_val (take 4 st) = 1 then
        (let name = c_string (drop 4 st)
         in map_option ((#) (Begin_Node name)) (fdt_tokens n str (drop (4 + round4 (Suc (length name))) st)))
      else if be_val (take 4 st) = 3 then
        (let len = be_val (take 4 (drop 4 st)); off = be_val (take 4 (drop 8 st))
         in map_option ((#) (Prop (c_string (drop off str)) (take len (drop 12 st))))
              (fdt_tokens n str (drop (12 + round4 len) st)))
      else None)"

definition be_field :: "u8 list \<Rightarrow> nat \<Rightarrow> nat" where
  "be_field blob i = be_val (take 4 (drop (4 * i) blob))"

definition fdt_decode :: "u8 list \<Rightarrow> fdt_call list option" where
  "fdt_decode blob =
     (if be_field blob 0 \<noteq> 0xd00dfeed \<or> be_field blob 1 \<noteq> length blob \<or> be_field blob 5 \<noteq> 17 then None
      else (let st = take (be_field blob 9) (drop (be_field blob 2) blob);
                str = take (be_field blob 8) (drop (be_field blob 3) blob)
            in fdt_tokens (length st) str st))"

section \<open>Numbers and strings\<close>

lemma length_be_bytes [simp]: "length (be_bytes32 x) = 4" "length (be_bytes64 y) = 8"
  by (simp_all add: be_bytes32_def be_bytes64_def)

lemma base256:
  fixes n :: nat
  assumes "n < 4294967296"
  shows "((n div 16777216 mod 256 * 256 + n div 65536 mod 256) * 256 + n div 256 mod 256) * 256 + n mod 256 = n"
proof -
  have e: "n div 65536 = n div 256 div 256" "n div 16777216 = n div 256 div 256 div 256" by (simp_all flip: div_mult2_eq)
  have "n div 16777216 mod 256 = n div 16777216" using assms by simp
  then show ?thesis by (simp only: e div_mult_mod_eq)
qed

lemma be_val_be_bytes32 [simp]: "be_val (be_bytes32 x) = unat x"
proof -
  have u: "unat (ucast w :: u8) = unat w mod 256" for w :: u32
    by (simp add: unsigned_ucast_eq take_bit_nat_def)
  have d: "unat (drop_bit k x) = unat x div 2 ^ k" for k
    by (simp add: unsigned_drop_bit_eq drop_bit_nat_def take_bit_nat_eq_self unat_u32_less)
  show ?thesis
    unfolding be_val_def be_bytes32_def using base256 [of "unat x"] unat_u32_less [of x] by (simp add: u d)
qed

lemma of_char_u8: "unat (of_char c :: u8) = of_char c"
proof -
  have "(of_char c :: nat) < 256" by simp
  then have "unat (of_nat (of_char c) :: u8) = of_char c" by (simp add: unat_of_nat del: of_nat_of_char)
  then show ?thesis by (simp only: of_nat_of_char)
qed

lemma of_char_zero: "(of_char c :: u8) = 0 \<longleftrightarrow> c = CHR 0x00"
proof -
  have "(of_char c :: u8) = 0 \<longleftrightarrow> (of_char c :: nat) = of_char (CHR 0x00)"
    by (simp add: word_unat_eq_iff of_char_u8)
  then show ?thesis by (simp only: of_char_eq_iff)
qed

text \<open>A string without NUL.\<close>

definition text_ok :: "string \<Rightarrow> bool" where
  "text_ok s \<longleftrightarrow> CHR 0x00 \<notin> set s"

lemma c_string_str_bytes: "text_ok s \<Longrightarrow> c_string (str_bytes s @ 0 # rest) = s"
proof (induction s)
  case (Cons c s)
  then have "c \<noteq> CHR 0x00" "text_ok s" by (auto simp: text_ok_def)
  with Cons show ?case
    by (simp add: c_string_def str_bytes_def of_char_zero of_char_u8)
qed (simp add: c_string_def str_bytes_def)

lemma length_str_bytes [simp]: "length (str_bytes s) = length s"
  by (simp add: str_bytes_def)

lemma digit_ok: "d < 16 \<Longrightarrow> digit d \<noteq> CHR 0x00"
proof -
  assume "d < 16"
  then have "(if d < 10 then 48 + d else 87 + d) \<noteq> 0" "(if d < 10 then 48 + d else 87 + d) < 256" by simp_all
  then have "(of_char (digit d) :: nat) \<noteq> 0"
    unfolding digit_def of_char_of by simp
  then show ?thesis by fastforce
qed

lemma num_str_ok: "2 \<le> base \<Longrightarrow> base \<le> 16 \<Longrightarrow> text_ok (num_str base n)"
proof (induction base n rule: num_str.induct)
  case (1 base n)
  have "n mod base < 16" using 1(2,3) mod_less_divisor [of base n] by linarith
  then show ?case
    using 1 by (subst num_str.simps) (auto simp: text_ok_def dest: digit_ok digit_ok [symmetric])
qed


section \<open>The structure block\<close>

text \<open>The encoding of a call, given the offsets of the names.\<close>

fun fdt_enc :: "(string \<Rightarrow> u32 option) \<Rightarrow> fdt_call \<Rightarrow> u8 list" where
  "fdt_enc off (Begin_Node name) = pad4 (be_bytes32 1 @ str_bytes name @ [0])"
| "fdt_enc off End_Node = be_bytes32 2"
| "fdt_enc off (Prop name data) = pad4 (be_bytes32 3 @ be_bytes32 (of_nat (length data)) @ be_bytes32 (the (off name)) @ data)"

fun call_name :: "fdt_call \<Rightarrow> string set" where
  "call_name (Prop name data) = {name}"
| "call_name _ = {}"

fun call_ok :: "fdt_call \<Rightarrow> bool" where
  "call_ok (Begin_Node name) = text_ok name"
| "call_ok (Prop name data) = text_ok name"
| "call_ok End_Node = True"

lemma pad4_append: "length xs mod 4 = 0 \<Longrightarrow> pad4 (xs @ ys) = xs @ pad4 ys"
  by (simp add: pad4_def mod_add_eq [of "length xs" 4, symmetric])

lemma length_pad4: "length (pad4 xs) = round4 (length xs)"
proof -
  have "n + (4 - n mod 4) mod 4 = (n + 3) div 4 * 4" for n :: nat
  proof -
    obtain q r where n: "n = 4 * q + r" and "r < 4" by (metis mod_less_divisor mult_div_mod_eq zero_less_numeral)
    then have m: "(4 * q + r) mod 4 = r" by (simp add: mult.commute)
    have d: "(4 * q + r + 3) div 4 = q + (r + 3) div 4" using div_mult_self4 [of 4 q "r + 3"] by (simp add: add.assoc)
    have "r = 0 \<or> r = 1 \<or> r = 2 \<or> r = 3" using \<open>r < 4\<close> by linarith
    then show ?thesis unfolding n m d by (elim disjE) simp_all
  qed
  then show ?thesis by (simp add: pad4_def round4_def)
qed

lemma pad4_mod [simp]: "length (pad4 xs) mod 4 = 0"
  by (simp add: length_pad4 round4_def)

lemma mod4_add: "a mod 4 = 0 \<Longrightarrow> b mod 4 = 0 \<Longrightarrow> (a + b) mod 4 = (0 :: nat)"
  by (simp add: mod_add_eq [of a 4, symmetric])

text \<open>The string block: every name that has an offset is found there.\<close>

definition names_at :: "u8 list \<Rightarrow> (string \<Rightarrow> u32 option) \<Rightarrow> bool" where
  "names_at str off \<longleftrightarrow> (\<forall>name k. off name = Some k \<longrightarrow>
     (\<exists>post. drop (unat k) str = str_bytes name @ 0 # post))"

definition fdt_inv :: "fdt_call list \<Rightarrow> fdt \<Rightarrow> bool" where
  "fdt_inv cs b \<longleftrightarrow> length (fdt_st b) mod 4 = 0 \<and> fdt_st b = concat (map (fdt_enc (fdt_map b)) cs)
     \<and> (\<Union>c \<in> set cs. call_name c) \<subseteq> dom (fdt_map b)
     \<and> (length (fdt_str b) < 2 ^ 32 \<longrightarrow> names_at (fdt_str b) (fdt_map b))"

lemma fdt_enc_cong: "(\<And>n. n \<in> call_name c \<Longrightarrow> off n = off' n) \<Longrightarrow> fdt_enc off c = fdt_enc off' c"
  by (cases c) auto

lemma names_at_mono: "names_at str off \<Longrightarrow> names_at (str @ mr) off"
  unfolding names_at_def
proof (intro allI impI)
  fix name k
  assume "\<forall>name k. off name = Some k \<longrightarrow> (\<exists>post. drop (unat k) str = str_bytes name @ 0 # post)" "off name = Some k"
  then obtain post where "drop (unat k) str = str_bytes name @ 0 # post" by blast
  moreover from this have "unat k < length str" by (metis append_is_Nil_conv drop_eq_Nil list.discI not_less)
  ultimately show "\<exists>post. drop (unat k) (str @ mr) = str_bytes name @ 0 # post" by simp
qed

lemma str_off_step:
  assumes "str_off name b = (off, b')"
  shows "fdt_map b' name = Some off" "fdt_st b' = fdt_st b" "\<And>n. n \<in> dom (fdt_map b) \<Longrightarrow> fdt_map b' n = fdt_map b n"
    "length (fdt_str b) \<le> length (fdt_str b')"
    "length (fdt_str b') < 2 ^ 32 \<Longrightarrow> names_at (fdt_str b) (fdt_map b) \<Longrightarrow> names_at (fdt_str b') (fdt_map b')"
proof -
  show "fdt_map b' name = Some off" "fdt_st b' = fdt_st b" "\<And>n. n \<in> dom (fdt_map b) \<Longrightarrow> fdt_map b' n = fdt_map b n"
    "length (fdt_str b) \<le> length (fdt_str b')"
    using assms by (auto simp: str_off_def Let_def split: option.splits if_splits)
  assume len: "length (fdt_str b') < 2 ^ 32" and at: "names_at (fdt_str b) (fdt_map b)"
  show "names_at (fdt_str b') (fdt_map b')"
  proof (cases "fdt_map b name")
    case (Some k)
    then show ?thesis using assms at by (simp add: str_off_def)
  next
    case None
    let ?more = "str_bytes name @ [0]"
    from None assms have b': "fdt_str b' = fdt_str b @ ?more" "fdt_map b' = (fdt_map b)(name \<mapsto> of_nat (length (fdt_str b)))"
      by (auto simp: str_off_def Let_def)
    have "unat (of_nat (length (fdt_str b)) :: u32) = length (fdt_str b)" using len b'(1) by (simp add: unat_of_nat)
    then show ?thesis using names_at_mono [OF at, of ?more] by (auto simp: names_at_def b')
  qed
qed

lemma fdt_inv_step:
  assumes "fdt_inv cs b"
  shows "fdt_inv (cs @ [c]) (fdt_do c b)"
proof -
  from assms have al: "length (fdt_st b) mod 4 = 0" and st: "concat (map (fdt_enc (fdt_map b)) cs) = fdt_st b"
    and nm: "(\<Union>c \<in> set cs. call_name c) \<subseteq> dom (fdt_map b)"
    and at: "length (fdt_str b) < 2 ^ 32 \<Longrightarrow> names_at (fdt_str b) (fdt_map b)"
    unfolding fdt_inv_def by auto
  note app = pad4_append [OF al]
  show ?thesis
  proof (cases c)
    case (Begin_Node name)
    with al nm at show ?thesis by (simp add: fdt_inv_def begin_node_def st app mod4_add)
  next
    case End_Node
    with al nm at show ?thesis
      by (simp add: fdt_inv_def end_node_def st mod4_add)
  next
    case (Prop name data)
    obtain off b' where so: "str_off name b = (off, b')" by fastforce
    note so' = str_off_step [OF so]
    have "map (fdt_enc (fdt_map b')) cs = map (fdt_enc (fdt_map b)) cs"
      using nm so'(3) by (intro map_cong fdt_enc_cong refl) auto
    then have st': "concat (map (fdt_enc (fdt_map b')) cs) = fdt_st b" by (simp only: st)
    have "dom (fdt_map b) \<subseteq> dom (fdt_map b')" using so'(3) by (auto simp: dom_def)
    with nm have nm': "(\<Union>c \<in> set cs. call_name c) \<subseteq> dom (fdt_map b')" by blast
    moreover have "names_at (fdt_str b') (fdt_map b')" if "length (fdt_str b') < 2 ^ 32"
      using that so'(4) at so'(5) by linarith
    ultimately show ?thesis
      using so'(1,2) al unfolding Prop fdt_inv_def by (simp add: fdt_prop_def so st' app mod4_add dom_def)
  qed
qed

lemma fdt_inv_fold: "fdt_inv cs0 b \<Longrightarrow> fdt_inv (cs0 @ cs) (fold fdt_do cs b)"
proof (induction cs arbitrary: cs0 b)
  case (Cons c cs)
  then show ?case using fdt_inv_step [OF Cons.prems, of c] by (metis append_Cons append_Nil append_assoc fold_simps(2))
qed simp

lemma drop_length_append: "drop (length xs) (xs @ ys) = ys"
  by simp

lemma pad4_split: obtains z where "pad4 xs = xs @ z"
  by (auto simp: pad4_def)

lemma round4_shift: "round4 (4 + n) = 4 + round4 n" "round4 (12 + n) = 12 + round4 n"
proof -
  have "(4 * k + n + 3) div 4 = k + (n + 3) div 4" for k
    using div_mult_self4 [of 4 k "n + 3"] by (simp add: add.assoc)
  from this [of 1] this [of 3] show "round4 (4 + n) = 4 + round4 n" "round4 (12 + n) = 12 + round4 n"
    by (simp_all add: round4_def)
qed

text \<open>Reading one encoded call.\<close>

lemma tokens_call:
  assumes "call_ok c" and "names_at str off" and "call_name c \<subseteq> dom off"
    and "\<And>name data. c = Prop name data \<Longrightarrow> length data < 2 ^ 32"
  shows "fdt_tokens (Suc n) str (fdt_enc off c @ rest) = map_option ((#) c) (fdt_tokens n str rest)"
proof (cases c)
  case (Begin_Node name)
  let ?x = "be_bytes32 1 @ str_bytes name @ [0]"
  obtain z where z: "pad4 ?x = ?x @ z" by (rule pad4_split)
  have len: "length (?x @ z) = 4 + round4 (Suc (length name))"
    using length_pad4 [of ?x] round4_shift(1) [of "Suc (length name)"] by (simp add: z)
  then have "drop (4 + round4 (Suc (length name))) (fdt_enc off c @ rest) = rest"
    unfolding Begin_Node fdt_enc.simps z by (simp only: len [symmetric] drop_length_append) 
  moreover have "c_string (drop 4 (fdt_enc off c @ rest)) = name"
    using assms(1) c_string_str_bytes [of name "z @ rest"] by (simp add: Begin_Node z)
  moreover have "take 4 (fdt_enc off c @ rest) = be_bytes32 1" "\<not> length (fdt_enc off c @ rest) < 4"
    by (simp_all add: Begin_Node z)
  ultimately show ?thesis by (simp add: Let_def Begin_Node del: fdt_enc.simps)
next
  case End_Node
  then show ?thesis by simp
next
  case (Prop name data)
  then obtain k where k: "off name = Some k" using assms(3) by auto
  let ?x = "be_bytes32 3 @ be_bytes32 (of_nat (length data)) @ be_bytes32 k @ data"
  obtain z where z: "pad4 ?x = ?x @ z" by (rule pad4_split)
  have enc: "fdt_enc off c = ?x @ z" by (simp add: Prop k z)
  have len: "length (?x @ z) = 12 + round4 (length data)"
    using length_pad4 [of ?x] round4_shift(2) [of "length data"] by (simp add: z add.commute)
  have "length data < 2 ^ 32" using assms(4) Prop by blast
  then have "unat (of_nat (length data) :: u32) = length data" by (simp add: unat_of_nat)
  moreover obtain post where "drop (unat k) str = str_bytes name @ 0 # post"
    using assms(2) k unfolding names_at_def by blast
  then have "c_string (drop (unat k) str) = name" using assms(1) c_string_str_bytes by (simp add: Prop)
  moreover have "drop (12 + round4 (length data)) (fdt_enc off c @ rest) = rest"
    unfolding enc by (simp only: len [symmetric] drop_length_append)
  moreover have "take 4 (fdt_enc off c @ rest) = be_bytes32 3" "take 4 (drop 4 (fdt_enc off c @ rest)) = be_bytes32 (of_nat (length data))"
    "take 4 (drop 8 (fdt_enc off c @ rest)) = be_bytes32 k" "take (length data) (drop 12 (fdt_enc off c @ rest)) = data"
    "\<not> length (fdt_enc off c @ rest) < 4"
    unfolding enc by simp_all
  ultimately show ?thesis by (simp add: Let_def Prop del: fdt_enc.simps)
qed

lemma tokens_calls:
  assumes "\<forall>c \<in> set cs. call_ok c" and "names_at str off" and "(\<Union>c \<in> set cs. call_name c) \<subseteq> dom off"
    and "\<forall>name data. Prop name data \<in> set cs \<longrightarrow> length data < 2 ^ 32" and "length cs < n"
  shows "fdt_tokens n str (concat (map (fdt_enc off) cs) @ be_bytes32 9) = Some cs"
  using assms
proof (induction cs arbitrary: n)
  case Nil
  then show ?case by (cases n) auto
next
  case (Cons c cs)
  then obtain k where k: "n = Suc k" by (cases n) auto
  have "fdt_tokens k str (concat (map (fdt_enc off) cs) @ be_bytes32 9) = Some cs"
    using Cons.prems k by (intro Cons.IH) auto
  then show ?case
    using tokens_call [of c str off k "concat (map (fdt_enc off) cs) @ be_bytes32 9"] Cons.prems by (auto simp: k)
qed

section \<open>The whole blob\<close>

lemma length_fdt_build:
  "length (fdt_build b) = 40 + (length (fdt_rsv b) + 16) + (length (fdt_st b) + 4) + length (fdt_str b)"
  by (simp add: fdt_build_def Let_def)

lemma be_field_eq:
  assumes "length pre = 4 * i"
  shows "be_field (pre @ be_bytes32 x @ rest) i = unat x"
  using assms by (simp add: be_field_def)

lemma fdt_build_fields:
  assumes "length (fdt_build b) < 2 ^ 32"
  shows "be_field (fdt_build b) 0 = 0xd00dfeed" "be_field (fdt_build b) 1 = length (fdt_build b)"
    "be_field (fdt_build b) 2 = 56 + length (fdt_rsv b)" "be_field (fdt_build b) 3 = 60 + length (fdt_rsv b) + length (fdt_st b)"
    "be_field (fdt_build b) 5 = 17" "be_field (fdt_build b) 8 = length (fdt_str b)" "be_field (fdt_build b) 9 = length (fdt_st b) + 4"
proof -
  have len: "length (fdt_rsv b) + length (fdt_st b) + length (fdt_str b) + 60 < 2 ^ 32"
    using assms by (simp add: length_fdt_build)
  have u: "unat (of_nat k :: u32) = k" if "k \<le> length (fdt_rsv b) + length (fdt_st b) + length (fdt_str b) + 60" for k
    using len that by (simp add: unat_of_nat)
  have f: "be_field (be_bytes32 x0 @ be_bytes32 x1 @ be_bytes32 x2 @ be_bytes32 x3 @ be_bytes32 x4 @ be_bytes32 x5 @ be_bytes32 x6
       @ be_bytes32 x7 @ be_bytes32 x8 @ be_bytes32 x9 @ rest) i = unat ([x0, x1, x2, x3, x4, x5, x6, x7, x8, x9] ! i)"
    if "i < 10" for x0 x1 x2 x3 x4 x5 x6 x7 x8 x9 rest i
  proof -
    have "i = 0 \<or> i = 1 \<or> i = 2 \<or> i = 3 \<or> i = 4 \<or> i = 5 \<or> i = 6 \<or> i = 7 \<or> i = 8 \<or> i = 9" using that by presburger
    then show ?thesis by (elim disjE) (simp_all add: be_field_def)
  qed
  have w: "(40 :: u32) + of_nat k = of_nat (40 + k)" "(of_nat k :: u32) + of_nat l = of_nat (k + l)" for k l by simp_all
  show "be_field (fdt_build b) 0 = 0xd00dfeed" "be_field (fdt_build b) 1 = length (fdt_build b)"
    "be_field (fdt_build b) 2 = 56 + length (fdt_rsv b)" "be_field (fdt_build b) 3 = 60 + length (fdt_rsv b) + length (fdt_st b)"
    "be_field (fdt_build b) 5 = 17" "be_field (fdt_build b) 8 = length (fdt_str b)" "be_field (fdt_build b) 9 = length (fdt_st b) + 4"
    unfolding fdt_build_def Let_def w by (simp_all add: f u del: of_nat_add)
qed

text \<open>
  Round trip of the builder: any sequence of calls whose names are proper C strings is read back from the blob, as
  long as the blob's size fits the 32-bit offsets of its header.
\<close>

lemma fdt_roundtrip:
  assumes "\<forall>c \<in> set cs. call_ok c" and "b = fold fdt_do cs (reserve addr sz fdt_new)" and "length (fdt_build b) < 2 ^ 32"
  shows "fdt_decode (fdt_build b) = Some cs"
proof -
  have "fdt_inv [] (reserve addr sz fdt_new)" by (simp add: fdt_inv_def reserve_def fdt_new_def names_at_def)
  from fdt_inv_fold [OF this, of cs] have inv: "fdt_inv cs b" by (simp add: assms(2))
  have len: "length (fdt_str b) < 2 ^ 32" "length (fdt_st b) < 2 ^ 32" using assms(3) by (simp_all add: length_fdt_build)
  let ?st = "fdt_st b @ be_bytes32 9"
  have enc: "fdt_st b = concat (map (fdt_enc (fdt_map b)) cs)" and at: "names_at (fdt_str b) (fdt_map b)"
    and nm: "(\<Union>c \<in> set cs. call_name c) \<subseteq> dom (fdt_map b)"
    using inv len by (auto simp: fdt_inv_def)
  have ge: "4 \<le> length (fdt_enc off c)" for off c by (cases c) (simp_all add: pad4_def)
  have le: "length cs \<le> length (concat (map (fdt_enc off) cs))" for off
  proof (induction cs)
    case (Cons a cs)
    then show ?case using ge [of off a] by simp
  qed simp
  have fuel: "length cs < length ?st" using enc le [of "fdt_map b"] by simp
  have data: "\<forall>name data. Prop name data \<in> set cs \<longrightarrow> length data < 2 ^ 32"
  proof (intro allI impI)
    fix name data
    assume "Prop name data \<in> set cs"
    then obtain xs ys where "cs = xs @ Prop name data # ys" by (meson split_list)
    then have "length data \<le> length (fdt_st b)" unfolding enc by (simp add: pad4_def)
    then show "length data < 2 ^ 32" using len by simp
  qed
  have tok: "fdt_tokens (length ?st) (fdt_str b) ?st = Some cs"
    using tokens_calls [OF assms(1) at nm data fuel] enc by simp
  define hdr where "hdr = take 40 (fdt_build b)"
  have "drop 40 (fdt_build b) = (fdt_rsv b @ be_bytes64 0 @ be_bytes64 0) @ ?st @ fdt_str b"
    by (simp add: fdt_build_def Let_def)
  then have blob: "fdt_build b = hdr @ (fdt_rsv b @ be_bytes64 0 @ be_bytes64 0) @ ?st @ fdt_str b" "length hdr = 40"
    using append_take_drop_id [of 40 "fdt_build b"] by (simp_all add: hdr_def length_fdt_build)
  have "take (length ?st) (drop (56 + length (fdt_rsv b)) (fdt_build b)) = ?st"
    unfolding blob(1) using blob(2) by simp
  moreover have "take (length (fdt_str b)) (drop (60 + length (fdt_rsv b) + length (fdt_st b)) (fdt_build b)) = fdt_str b"
    unfolding blob(1) using blob(2) by simp
  ultimately show ?thesis
    using tok fdt_build_fields [OF assms(3)] by (simp add: fdt_decode_def Let_def)
qed

section \<open>The tree that is generated\<close>

lemma text_ok_append [simp]: "text_ok (s @ t) \<longleftrightarrow> text_ok s \<and> text_ok t"
  by (simp add: text_ok_def)

lemma text_ok_simps [simp]: "text_ok []" "text_ok (c # s) \<longleftrightarrow> c \<noteq> CHR 0x00 \<and> text_ok s"
  by (auto simp: text_ok_def)

lemmas dtb_defs = prop_u32_def prop_str_def prop_strlist_def prop_cells_def prop_empty_def

definition calls_ok :: "fdt_call list \<Rightarrow> bool" where
  "calls_ok cs \<longleftrightarrow> (\<forall>c \<in> set cs. call_ok c)"

lemma calls_ok_append [simp]: "calls_ok (xs @ ys) \<longleftrightarrow> calls_ok xs \<and> calls_ok ys"
  by (auto simp: calls_ok_def)

lemma calls_ok_Nil [simp]: "calls_ok []"
  by (simp add: calls_ok_def)

lemma calls_ok_concat: "(\<And>x. x \<in> set xs \<Longrightarrow> calls_ok (f x)) \<Longrightarrow> calls_ok (concat (map f xs))"
  by (auto simp: calls_ok_def)

lemma calls_ok_parts:
  "calls_ok (dtb_chosen m)" "calls_ok (dtb_memory m)" "calls_ok dtb_psci" "calls_ok (dtb_cpu i)" "calls_ok dtb_timer"
  "calls_ok dtb_intc" "calls_ok dtb_clk" "calls_ok dtb_uart" "text_ok name \<Longrightarrow> calls_ok (dtb_virtio name gpa spi)"
  by (auto simp: calls_ok_def dtb_chosen_def dtb_memory_def dtb_psci_def dtb_cpu_def dtb_timer_def dtb_intc_def
      dtb_clk_def dtb_uart_def dtb_virtio_def dtb_defs Let_def num_str_ok)

lemma calls_ok_dtb: "calls_ok (dtb_calls m)"
proof -
  have "calls_ok (dtb_cpus m)"
    unfolding dtb_cpus_def calls_ok_append
    by (intro conjI calls_ok_concat calls_ok_parts) (simp_all add: calls_ok_def dtb_defs)
  moreover have "calls_ok [Begin_Node [], prop_u32 ''#address-cells'' 2, prop_u32 ''#size-cells'' 2, prop_u32 ''interrupt-parent'' 1,
      prop_strlist ''compatible'' [''linux,dummy-virt''], prop_str ''model'' ''virtualization-vm'']" "calls_ok [End_Node]"
    by (simp_all add: calls_ok_def dtb_defs)
  ultimately show ?thesis
    unfolding dtb_calls_def by (simp add: calls_ok_parts del: append.simps)
qed

text \<open>The depth of nesting after some calls, \<open>None\<close> when a node is closed that was not opened.\<close>

fun fdt_depth :: "nat \<Rightarrow> fdt_call list \<Rightarrow> nat option" where
  "fdt_depth d [] = Some d"
| "fdt_depth d (Begin_Node n # cs) = fdt_depth (Suc d) cs"
| "fdt_depth d (Prop n v # cs) = (if d = 0 then None else fdt_depth d cs)"
| "fdt_depth d (End_Node # cs) = (if d = 0 then None else fdt_depth (d - 1) cs)"

lemma fdt_depth_append: "fdt_depth d (xs @ ys) = Option.bind (fdt_depth d xs) (\<lambda>d. fdt_depth d ys)"
  by (induction d xs rule: fdt_depth.induct) auto

lemma fdt_depth_concat: "(\<And>x. x \<in> set xs \<Longrightarrow> fdt_depth d (f x) = Some d) \<Longrightarrow> fdt_depth d (concat (map f xs)) = Some d"
  by (induction xs) (auto simp: fdt_depth_append)

lemma fdt_depth_parts:
  "fdt_depth d (dtb_chosen m) = Some d" "fdt_depth d (dtb_memory m) = Some d" "fdt_depth d dtb_psci = Some d"
  "fdt_depth d (dtb_cpu i) = Some d" "fdt_depth d dtb_timer = Some d" "fdt_depth d dtb_intc = Some d"
  "fdt_depth d dtb_clk = Some d" "fdt_depth d dtb_uart = Some d" "fdt_depth d (dtb_virtio name gpa spi) = Some d"
  by (simp_all add: dtb_chosen_def dtb_memory_def dtb_psci_def dtb_cpu_def dtb_timer_def dtb_intc_def
      dtb_clk_def dtb_uart_def dtb_virtio_def dtb_defs Let_def)

lemma fdt_depth_dtb: "fdt_depth 0 (dtb_calls m) = Some 0"
proof -
  have "fdt_depth d (dtb_cpus m) = Some d" for d
    unfolding dtb_cpus_def by (simp add: fdt_depth_append fdt_depth_concat fdt_depth_parts dtb_defs)
  then show ?thesis
    unfolding dtb_calls_def by (simp add: fdt_depth_append fdt_depth_parts dtb_defs)
qed

lemma dtb_blob_decode: "length (dtb_blob m) \<le> 4194304 \<Longrightarrow> fdt_decode (dtb_blob m) = Some (dtb_calls m)"
  unfolding dtb_blob_def
  by (rule fdt_roundtrip [OF _ refl]) (use calls_ok_dtb [of m] in \<open>simp_all add: calls_ok_def\<close>)

text \<open>
  C7. The guest finds the device tree it is meant to: when \<^verbatim>\<open>DTB::generate\<close> succeeds, X0 points at a blob that decodes
  to exactly the nodes and properties that were emitted, properly nested, for every command line, memory size,
  initrd and set of devices; nothing else of guest memory changes. It fails only when the blob exceeds the 4 MiB below the
  kernel or RAM does not start at its address.
\<close>

theorem dtb_roundtrip:
  assumes ok: "ram_ok m" "ram_gpa m = kGpaRamBase" "4194304 \<le> unat (ram_size m)"
  shows "(snd (dtb_generate m) \<longleftrightarrow> length (dtb_blob m) \<le> 4194304)
    \<and> (\<forall>m'. dtb_generate m = (m', True) \<longrightarrow>
        gpa_to_hva m' (dtb_gpa m') = Some (ram_hva m)
        \<and> fdt_decode (read_bytes (mem (hst m')) (ram_hva m) (length (dtb_blob m))) = Some (dtb_calls m)
        \<and> fdt_depth 0 (dtb_calls m) = Some 0
        \<and> agree_on (- span (ram_hva m) (length (dtb_blob m))) (mem (hst m')) (mem (hst m))
        \<and> m'\<lparr>hst := hst m, dtb_gpa := dtb_gpa m\<rparr> = m)"
proof -
  have hva: "gpa_to_hva m kGpaDtbLoad = Some (ram_hva m)"
    using gpa_to_hva_unat [OF ok(1), of kGpaDtbLoad] ok(2,3) by simp
  note dtb_blob_decode [of m]
  moreover have "length (dtb_blob m) \<le> 4194304 \<Longrightarrow>
      read_bytes (write_bytes (mem (hst m)) (ram_hva m) (dtb_blob m)) (ram_hva m) (length (dtb_blob m)) = dtb_blob m"
    by (rule read_write_bytes) simp
  moreover have "length (dtb_blob m) \<le> 4194304 \<Longrightarrow>
      agree_on (- span (ram_hva m) (length (dtb_blob m))) (write_bytes (mem (hst m)) (ram_hva m) (dtb_blob m)) (mem (hst m))"
    by (rule write_bytes_agree) auto
  ultimately show ?thesis
    using hva fdt_depth_dtb [of m] by (auto simp: dtb_generate_def gpa_to_hva_def)
qed

section \<open>Witness\<close>

text \<open>An upper bound for the size of a blob, call by call.\<close>

fun call_cost :: "fdt_call \<Rightarrow> nat" where
  "call_cost (Begin_Node name) = 8 + length name"
| "call_cost (Prop name data) = 16 + length data + length name"
| "call_cost End_Node = 4"

lemma round4_le: "round4 n \<le> n + 3"
  unfolding round4_def by (rule div_times_less_eq_dividend)

lemma round4_mod [simp]: "round4 n mod 4 = 0"
  by (simp add: round4_def)

lemma fdt_size_bound: "length (fdt_st (fold fdt_do cs b)) + length (fdt_str (fold fdt_do cs b))
    \<le> length (fdt_st b) + length (fdt_str b) + sum_list (map call_cost cs)"
  if "length (fdt_st b) mod 4 = 0"
  using that
proof (induction cs arbitrary: b)
  case (Cons c cs)
  have "length (fdt_st (fdt_do c b)) mod 4 = 0
      \<and> length (fdt_st (fdt_do c b)) + length (fdt_str (fdt_do c b)) \<le> length (fdt_st b) + length (fdt_str b) + call_cost c"
  proof (cases c)
    case (Begin_Node name)
    then show ?thesis using Cons.prems round4_le [of "Suc (length name)"]
      by (simp add: begin_node_def pad4_append mod4_add length_pad4)
  next
    case End_Node
    then show ?thesis using Cons.prems by (simp add: end_node_def mod4_add)
  next
    case (Prop name data)
    obtain off b' where so: "str_off name b = (off, b')" by fastforce
    then have "fdt_st b' = fdt_st b" "length (fdt_str b') \<le> length (fdt_str b) + length name + 1"
      by (auto simp: str_off_def Let_def split: option.splits)
    then show ?thesis using Prop Cons.prems round4_le [of "length data"]
      by (auto simp: fdt_prop_def so pad4_append mod4_add length_pad4 round4_shift)
  qed
  with Cons.IH [of "fdt_do c b"] show ?case by simp
qed simp

lemma blob_size_bound: "length (dtb_blob m) \<le> 76 + sum_list (map call_cost (dtb_calls m))"
proof -
  let ?b = "reserve kGpaDtbLoad (kGpaKernelLoad - kGpaDtbLoad) fdt_new"
  have "fdt_rsv (fold fdt_do cs b) = fdt_rsv b" for cs b
  proof (induction cs arbitrary: b)
    case (Cons c cs)
    have "fdt_rsv (fdt_do c b) = fdt_rsv b"
      by (cases c) (auto simp: begin_node_def end_node_def fdt_prop_def str_off_def Let_def split: option.splits)
    with Cons show ?case by simp
  qed simp
  moreover have "length (fdt_st ?b) = 0" "length (fdt_str ?b) = 0" "length (fdt_rsv ?b) = 16"
    by (simp_all add: reserve_def fdt_new_def)
  ultimately show ?thesis
    using fdt_size_bound [of ?b "dtb_calls m"] by (simp add: dtb_blob_def length_fdt_build)
qed

lemmas dtb_unfold = dtb_calls_def dtb_chosen_def dtb_memory_def dtb_psci_def dtb_cpus_def dtb_cpu_def dtb_timer_def dtb_intc_def
  dtb_clk_def dtb_uart_def dtb_virtio_def dtb_defs c_str_def num_str.simps upt_rec

text \<open>The example machine with 256 MiB of memory.\<close>

definition demo_vm_ram :: "unit machine" where
  "demo_vm_ram = set_ram 0x100000000 0x40000000 0x10000000 demo_vm"

lemma demo_vm_ram_fields:
  "ram_ok demo_vm_ram" "ram_gpa demo_vm_ram = 0x40000000" "ram_size demo_vm_ram = 0x10000000" "ram_hva demo_vm_ram = 0x100000000"
  "vcpu_count demo_vm_ram = 2" "cmdline demo_vm_ram = []" "initrd_size demo_vm_ram = 0" "net_dev demo_vm_ram = None"
  "gpu_dev demo_vm_ram = None" "keyboard_dev demo_vm_ram = Some (input_new kSpiKeyboard Keyboard 0 0)" "tablet_dev demo_vm_ram = None"
  by (simp_all add: ram_ok_def demo_vm_ram_def set_ram_def demo_vm_def create_keyboard_def init_vcpus_def vmcontext_new_def)

lemma demo_blob_size: "length (dtb_blob demo_vm_ram) \<le> 4194304"
proof -
  have "sum_list (map call_cost (dtb_calls demo_vm_ram)) \<le> 4000"
    by (simp add: dtb_unfold demo_vm_ram_fields)
  with blob_size_bound [of demo_vm_ram] show ?thesis by linarith
qed

theorem dtb_roundtrip_witness:
  "\<exists>m'. dtb_generate demo_vm_ram = (m', True)
    \<and> fdt_decode (read_bytes (mem (hst m')) 0x100000000 (length (dtb_blob demo_vm_ram))) = Some (dtb_calls demo_vm_ram)"
proof -
  have "ram_ok demo_vm_ram" "ram_gpa demo_vm_ram = kGpaRamBase" "4194304 \<le> unat (ram_size demo_vm_ram)"
    by (simp_all add: demo_vm_ram_fields)
  from dtb_roundtrip [OF this] demo_blob_size show ?thesis
    by (cases "dtb_generate demo_vm_ram") (simp add: demo_vm_ram_fields)
qed

end
