(* ===== verification/Cli.thy ===== *)
theory Cli
  imports Fw_Dtb
begin

text \<open>
  The command line program (\<^verbatim>\<open>src/cli/main.cpp\<close>): the argument parser, the port-forward parser and the configuration
  \<^verbatim>\<open>main\<close> builds, with the number parsers of the C++ standard library they use.
\<close>

section \<open>Number parsing\<close>

definition is_space :: "char \<Rightarrow> bool" where
  "is_space c \<longleftrightarrow> (of_char c :: nat) \<in> {9, 10, 11, 12, 13, 32}"

definition is_digit :: "char \<Rightarrow> bool" where
  "is_digit c \<longleftrightarrow> 48 \<le> (of_char c :: nat) \<and> (of_char c :: nat) \<le> 57"

definition num_val :: "string \<Rightarrow> nat" where
  "num_val s = foldl (\<lambda>v c. v * 10 + (of_char c - 48)) 0 s"

text \<open>Leading white space, an optional sign, then digits: the sign, the digits and what follows them.\<close>

definition scan_num :: "string \<Rightarrow> bool \<times> string \<times> string" where
  "scan_num s =
     (let t = dropWhile is_space s;
          neg = (case t of c # u \<Rightarrow> c = CHR ''-'' | [] \<Rightarrow> False);
          u = (case t of c # u \<Rightarrow> if c = CHR ''-'' \<or> c = CHR ''+'' then u else t | [] \<Rightarrow> t)
      in (neg, takeWhile is_digit u, dropWhile is_digit u))"

text \<open>\<^verbatim>\<open>std::stoi\<close> and \<^verbatim>\<open>std::stoull\<close>; \<open>None\<close> is the exception.\<close>

definition stoi :: "string \<Rightarrow> int option" where
  "stoi s =
     (case scan_num s of
        (neg, ds, rest) \<Rightarrow>
          (let v = (if neg then - int (num_val ds) else int (num_val ds))
           in if ds = [] \<or> v < - (2 ^ 31) \<or> v \<ge> 2 ^ 31 then None else Some v))"

definition stoull :: "string \<Rightarrow> (u64 \<times> string) option" where
  "stoull s =
     (case scan_num s of
        (neg, ds, rest) \<Rightarrow>
          if ds = [] \<or> num_val ds \<ge> 2 ^ 64 then None
          else Some (if neg then - of_nat (num_val ds) else of_nat (num_val ds), rest))"

section \<open>Arguments\<close>

definition starts_with :: "string \<Rightarrow> string \<Rightarrow> bool" where
  "starts_with a f \<longleftrightarrow> take (length f) a = f"

fun args_get :: "string list \<Rightarrow> string \<Rightarrow> string \<Rightarrow> string" where
  "args_get [] key fallback = fallback"
| "args_get (a # rest) key fallback =
     (if starts_with a (''--'' @ key @ ''='') then drop (length (''--'' @ key @ ''='')) a
      else if a = ''--'' @ key \<and> rest \<noteq> [] then hd rest
      else args_get rest key fallback)"

definition args_get_all :: "string list \<Rightarrow> string \<Rightarrow> string list" where
  "args_get_all args key =
     map (drop (length (''--'' @ key @ ''=''))) (filter (\<lambda>a. starts_with a (''--'' @ key @ ''='')) args)"

definition args_flag :: "string list \<Rightarrow> string \<Rightarrow> bool" where
  "args_flag args key =
     (let v = args_get args key [] in v = ''true'' \<or> v = ''1'' \<or> v = ''on'' \<or> v = [])"

definition args_present :: "string list \<Rightarrow> string \<Rightarrow> bool" where
  "args_present args key =
     list_ex (\<lambda>a. a = ''--'' @ key \<or> starts_with a (''--'' @ key @ ''='')) args"

text \<open>\<^verbatim>\<open>None\<close> is the warning and \<^verbatim>\<open>std::nullopt\<close>. The casts to \<^verbatim>\<open>uint16_t\<close> drop the upper bits.\<close>

definition parse_forward :: "string \<Rightarrow> (u16 \<times> u16) option" where
  "parse_forward s =
     (if CHR '':'' \<notin> set s then None
      else case (stoi (takeWhile (\<lambda>c. c \<noteq> CHR '':'') s), stoi (tl (dropWhile (\<lambda>c. c \<noteq> CHR '':'') s))) of
             (Some h, Some g) \<Rightarrow> Some (of_int h, of_int g)
           | _ \<Rightarrow> None)"

section \<open>The configuration\<close>

text \<open>The JSON object that \<^verbatim>\<open>main\<close> hands to \<^verbatim>\<open>compute::vm::Create\<close>; \<open>None\<close> is a key that is not there.\<close>

record vm_config =
  cf_engine :: string
  cf_name :: string
  cf_cpu_count :: int
  cf_ram_size :: string
  cf_disk_size :: string
  cf_image :: string
  cf_kernel :: "string option"
  cf_initrd :: "string option"
  cf_cmdline :: "string option"
  cf_display :: "(int \<times> int) option"
  cf_network :: "(u16 \<times> u16) list option"
  cf_serial :: "(int \<times> string) list"

text \<open>The ways \<^verbatim>\<open>main\<close> ends before it creates a machine. \<open>Uncaught\<close> is an exception of \<^verbatim>\<open>std::stoi\<close> outside the \<^verbatim>\<open>try\<close>.\<close>

datatype cli_error = Usage | Image_Required | Bad_Display | Uncaught

definition default_cmdline :: string where
  "default_cmdline = ''console=ttyAMA0,115200 earlycon=pl011,0x9000000 root=/dev/vda1 ro''"

definition display_of :: "string \<Rightarrow> cli_error + (int \<times> int) option" where
  "display_of d =
     (if d = [] then Inr None
      else if CHR ''x'' \<notin> set d then Inl Bad_Display
      else case (stoi (takeWhile (\<lambda>c. c \<noteq> CHR ''x'') d), stoi (tl (dropWhile (\<lambda>c. c \<noteq> CHR ''x'') d))) of
             (Some w, Some h) \<Rightarrow> Inr (Some (w, h))
           | _ \<Rightarrow> Inl Uncaught)"

text \<open>\<open>argv\<close> is the whole argument vector, the program's name first.\<close>

definition cli_config :: "string list \<Rightarrow> cli_error + vm_config" where
  "cli_config argv =
     (if length argv < 2 \<or> argv ! 1 \<noteq> ''run'' then Inl Usage
      else (let args = tl argv; image = args_get args ''image'' []
            in if image = [] then Inl Image_Required
               else (let vm_name = args_get args ''name'' ''vm''
                     in case (stoi (args_get args ''serial'' ''0''), stoi (args_get args ''cpu'' ''1'')) of
                          (Some serial_n, Some cpu) \<Rightarrow>
                            (let kernel = args_get args ''kernel'' []; initrd = args_get args ''initrd'' []
                             in case display_of (args_get args ''display'' []) of
                                  Inl e \<Rightarrow> Inl e
                                | Inr display \<Rightarrow> Inr
                                    \<lparr>cf_engine = args_get args ''engine'' ''vz'', cf_name = vm_name, cf_cpu_count = cpu,
                                     cf_ram_size = args_get args ''ram'' ''2GB'', cf_disk_size = args_get args ''disk'' ''20GB'',
                                     cf_image = image,
                                     cf_kernel = (if kernel \<noteq> [] then Some kernel else None),
                                     cf_initrd = (if kernel \<noteq> [] \<and> initrd \<noteq> [] then Some initrd else None),
                                     cf_cmdline = (if kernel \<noteq> [] then Some (args_get args ''cmdline'' default_cmdline) else None),
                                     cf_display = display,
                                     cf_network = (if args_present args ''network''
                                       then Some (List.map_filter parse_forward (args_get_all args ''forward'')) else None),
                                     cf_serial = map (\<lambda>i. (int i, vm_name @ ''-serial-'' @ num_str 10 i)) [0..<nat serial_n]\<rparr>)
                        | _ \<Rightarrow> Inl Uncaught)))"

section \<open>Numbers print and parse back\<close>

lemma digit_val: "d < 10 \<Longrightarrow> (of_char (digit d) :: nat) = 48 + d"
  by (simp add: digit_def)

lemma digit_is_digit: "d < 10 \<Longrightarrow> is_digit (digit d) \<and> \<not> is_space (digit d) \<and> digit d \<noteq> CHR ''-'' \<and> digit d \<noteq> CHR ''+''"
proof -
  assume "d < 10"
  note v = digit_val [OF this]
  have "(of_char (CHR ''-'') :: nat) = 45" "(of_char (CHR ''+'') :: nat) = 43" by simp_all
  then show ?thesis using v \<open>d < 10\<close> by (auto simp: is_digit_def is_space_def)
qed

lemma num_str_10: "num_val (num_str 10 n) = n \<and> (\<forall>c \<in> set (num_str 10 n). \<exists>d < 10. c = digit d) \<and> num_str 10 n \<noteq> []"
proof (induction n rule: less_induct)
  case (less n)
  show ?case
  proof (cases "n < 10")
    case True
    then show ?thesis by (subst (1 2 3) num_str.simps) (auto simp: num_val_def digit_val)
  next
    case False
    then have "num_str 10 n = num_str 10 (n div 10) @ [digit (n mod 10)]" by (subst num_str.simps) simp
    moreover have "\<exists>d < 10. digit (n mod 10) = digit d" by (intro exI [of _ "n mod 10"]) simp
    ultimately show ?thesis using less.IH [of "n div 10"] False
      by (auto simp: num_val_def digit_val)
  qed
qed

lemma scan_num_str:
  assumes "rest = [] \<or> \<not> is_digit (hd rest)"
  shows "scan_num (num_str 10 n @ rest) = (False, num_str 10 n, rest)"
proof -
  let ?s = "num_str 10 n"
  have all: "\<forall>c \<in> set ?s. is_digit c \<and> \<not> is_space c \<and> c \<noteq> CHR ''-'' \<and> c \<noteq> CHR ''+''"
  proof
    fix c
    assume "c \<in> set ?s"
    then obtain d where "d < 10" "c = digit d" using num_str_10 [of n] by blast
    then show "is_digit c \<and> \<not> is_space c \<and> c \<noteq> CHR ''-'' \<and> c \<noteq> CHR ''+''" using digit_is_digit [of d] by simp
  qed
  obtain c cs where s: "?s = c # cs" using num_str_10 [of n] by (cases ?s) auto
  have "takeWhile is_digit (?s @ rest) = ?s" "dropWhile is_digit (?s @ rest) = rest"
    using all assms by (cases rest; simp add: takeWhile_append dropWhile_append)+
  then show ?thesis using all s by (simp add: scan_num_def Let_def)
qed

lemma stoi_num_str: "n < 2 ^ 31 \<Longrightarrow> stoi (num_str 10 n) = Some (int n)"
  using scan_num_str [of "[]" n] num_str_10 [of n] by (simp add: stoi_def)

lemma stoull_num_str:
  "n < 2 ^ 64 \<Longrightarrow> rest = [] \<or> \<not> is_digit (hd rest) \<Longrightarrow> stoull (num_str 10 n @ rest) = Some (of_nat n, rest)"
  using scan_num_str [of rest n] num_str_10 [of n] by (simp add: stoull_def)

lemma no_sep: "c \<in> set (num_str 10 n) \<Longrightarrow> c \<noteq> CHR '':''"
proof
  assume "c \<in> set (num_str 10 n)" "c = CHR '':''"
  then obtain d where "d < 10" "digit d = CHR '':''" using num_str_10 [of n] by metis
  then show False using digit_val [of d] by simp
qed

text \<open>
  A port forward as it is documented, \<^verbatim>\<open>H:G\<close>, is read back: for numbers in port range exactly the two ports. Larger numbers
  are accepted as well and lose their upper bits.
\<close>

theorem forward_roundtrip:
  assumes "h < 2 ^ 31" and "g < 2 ^ 31"
  shows "map_option (\<lambda>(a, b). (unat a, unat b)) (parse_forward (num_str 10 h @ '':'' @ num_str 10 g)) = Some (h mod 65536, g mod 65536)"
proof -
  let ?s = "num_str 10 h @ '':'' @ num_str 10 g"
  have "takeWhile (\<lambda>c. c \<noteq> CHR '':'') ?s = num_str 10 h" "dropWhile (\<lambda>c. c \<noteq> CHR '':'') ?s = CHR '':'' # num_str 10 g"
    using no_sep [of _ h] by (simp_all add: takeWhile_append dropWhile_append)
  then show ?thesis
    using stoi_num_str [OF assms(1)] stoi_num_str [OF assms(2)]
    by (simp add: parse_forward_def unsigned_of_nat take_bit_nat_def)
qed

theorem forward_roundtrip_witness:
  "map_option (\<lambda>(a, b). (unat a, unat b)) (parse_forward (num_str 10 65616 @ '':'' @ num_str 10 22)) = Some (80, 22)"
  using forward_roundtrip [of 65616 22] by simp

end
