(* ===== verification/Fw_Loader.thy ===== *)
theory Fw_Loader
  imports Machine
begin

text \<open>
  Loading of the kernel image and the initial RAM disk into guest memory (\<^verbatim>\<open>src/src/hvf/fw_loader.cpp\<close>).

  The file system is a parameter: \<open>fs path\<close> is \<open>None\<close> when \<^verbatim>\<open>fopen\<close> fails, else what \<^verbatim>\<open>ftell\<close> reports at the end of
  the file and the bytes \<^verbatim>\<open>fread\<close> delivers when asked for that many.
\<close>

type_synonym files = "string \<Rightarrow> (int \<times> u8 list) option"

definition poke :: "u64 \<Rightarrow> u8 list \<Rightarrow> 'e machine \<Rightarrow> 'e machine" where
  "poke p bs m = m\<lparr>hst := (hst m)\<lparr>mem := write_bytes (mem (hst m)) p bs\<rparr>\<rparr>"

text \<open>\<open>Some sz\<close> is success with \<open>out_size = sz\<close>. What a short read delivered stays in memory.\<close>

definition load_file :: "files \<Rightarrow> string \<Rightarrow> u64 \<Rightarrow> u64 \<Rightarrow> 'e machine \<Rightarrow> 'e machine \<times> u64 option" where
  "load_file fs path dst max_size m =
     (case fs path of
        None \<Rightarrow> (m, None)
      | Some (sz, bs) \<Rightarrow>
          if sz \<le> 0 \<or> of_int sz > max_size then (m, None)
          else if length bs \<noteq> nat sz then (poke dst bs m, None)
          else (poke dst bs m, Some (of_int sz)))"

abbreviation kArm64Magic :: u32 where "kArm64Magic \<equiv> 0x644D5241"

definition load_kernel :: "files \<Rightarrow> string \<Rightarrow> 'e machine \<Rightarrow> 'e machine \<times> bool" where
  "load_kernel fs path m =
     (case gpa_to_hva m kGpaKernelLoad of
        None \<Rightarrow> (m, False)
      | Some dst \<Rightarrow>
          (case load_file fs path dst (ram_size m div 2) m of
             (m1, None) \<Rightarrow> (m1, False)
           | (m1, Some sz) \<Rightarrow>
               if load32 (mem (hst m1)) (dst + 56) \<noteq> kArm64Magic then (m1, False)
               else (m1\<lparr>kernel_entry := kGpaKernelLoad + load64 (mem (hst m1)) (dst + 8)\<rparr>, True)))"

definition load_initrd :: "files \<Rightarrow> string \<Rightarrow> 'e machine \<Rightarrow> 'e machine \<times> bool" where
  "load_initrd fs path m =
     (case gpa_to_hva m kGpaInitrdLoad of
        None \<Rightarrow> (m, False)
      | Some dst \<Rightarrow>
          (case load_file fs path dst (ram_size m div 4) m of
             (m1, None) \<Rightarrow> (m1, False)
           | (m1, Some sz) \<Rightarrow> (m1\<lparr>initrd_gpa := kGpaInitrdLoad, initrd_size := sz\<rparr>, True)))"

section \<open>Facts about the parts\<close>

text \<open>What is relied on: a file of \<open>sz\<close> bytes delivers at most \<open>sz\<close>, and no file has 2^63 bytes or more.\<close>

definition files_ok :: "files \<Rightarrow> bool" where
  "files_ok fs \<longleftrightarrow> (\<forall>path sz bs. fs path = Some (sz, bs) \<longrightarrow> sz < 2 ^ 63 \<and> int (length bs) \<le> max sz 0)"

lemma poke_simps [simp]:
  "mem (hst (poke p bs m)) = write_bytes (mem (hst m)) p bs" "gpa_to_hva (poke p bs m) g = gpa_to_hva m g"
  "ram_size (poke p bs m) = ram_size m" "ram_hva (poke p bs m) = ram_hva m" "ram_gpa (poke p bs m) = ram_gpa m"
  by (simp_all add: poke_def gpa_to_hva_def)

text \<open>The three outcomes of a load: nothing is touched, a part is, or the file is in memory.\<close>

lemma load_file_cases:
  assumes "files_ok fs"
  obtains "load_file fs path dst mx m = (m, None)"
  | bs where "length bs \<le> unat mx" "load_file fs path dst mx m = (poke dst bs m, None)"
  | sz bs where "fs path = Some (sz, bs)" "0 < sz" "int (length bs) = sz" "length bs \<le> unat mx"
      "load_file fs path dst mx m = (poke dst bs m, Some (of_nat (length bs)))"
proof (cases "fs path")
  case None
  then show thesis using that(1) by (simp add: load_file_def)
next
  case (Some r)
  obtain sz bs where r: "r = (sz, bs)" by fastforce
  show thesis
  proof (cases "sz \<le> 0 \<or> (of_int sz :: u64) > mx")
    case True
    then show thesis using that(1) Some r by (auto simp: load_file_def)
  next
    case False
    have sz: "0 < sz" "sz < 2 ^ 63" "int (length bs) \<le> sz"
      using False assms Some r unfolding files_ok_def by force+
    then have "unat (of_int sz :: u64) = nat sz"
      by (simp add: unat_eq_nat_uint uint_word_of_int_eq take_bit_int_eq_self)
    moreover have "unat (of_int sz :: u64) \<le> unat mx" using False by (simp add: not_less word_le_nat_alt)
    ultimately have "length bs \<le> unat mx" using sz by linarith
    moreover have "of_int sz = (of_nat (length bs) :: u64)" if "length bs = nat sz" using that sz by simp
    ultimately show thesis using False sz that(2,3) Some r by (cases "length bs = nat sz") (auto simp: load_file_def)
  qed
qed

lemma load_dst:
  assumes "ram_ok m" and "ram_gpa m = kGpaRamBase" and "unat (g - kGpaRamBase) < unat (ram_size m)" and "kGpaRamBase \<le> g"
  shows "gpa_to_hva m g = Some (ram_hva m + (g - kGpaRamBase))"
proof -
  have "unat (g - kGpaRamBase) = unat g - unat kGpaRamBase" using assms(4) by (simp add: unat_sub)
  then show ?thesis using gpa_to_hva_unat [OF assms(1), of g] assms(2-4) by (auto simp: word_le_nat_alt)
qed

lemma poke_in_ram:
  assumes "ram_ok m" and "off + length bs \<le> unat (ram_size m)"
  shows "agree_on (- ram_span m) (mem (hst (poke (ram_hva m + of_nat off) bs m))) (mem (hst m))"
proof -
  have "span (ram_hva m + of_nat off) (length bs) \<subseteq> ram_span m"
    unfolding ram_span_def using assms unat_u64_less [of "ram_size m"] by (intro span_offset) simp_all
  moreover have "length bs \<le> 2 ^ 64" using assms unat_u64_less [of "ram_size m"] by simp
  ultimately show ?thesis by (simp add: write_bytes_agree disjoint_eq_subset_Compl)
qed

lemma write_slice:
  assumes "k + n \<le> length bs" and "length bs \<le> 2 ^ 64"
  shows "read_bytes (write_bytes mm p bs) (p + of_nat k) n = take n (drop k bs)"
proof -
  have "read_bytes (write_bytes mm p bs) (p + of_nat k) n = take n (drop k (read_bytes (write_bytes mm p bs) p (length bs)))"
    using assms(1) by (intro nth_equalityI) (simp_all add: read_bytes_def add.assoc)
  then show ?thesis by (simp only: read_write_bytes [OF assms(2)])
qed

lemma set_ram_simps [simp]: "ram_hva (set_ram a b c m) = a" "ram_gpa (set_ram a b c m) = b" "ram_size (set_ram a b c m) = c"
  by (simp_all add: set_ram_def)

text \<open>
  Loading puts the file where the guest expects it: a successful \<^verbatim>\<open>load_kernel\<close> leaves the image at its load address, unchanged,
  and the entry point at its \<^verbatim>\<open>text_offset\<close>; a successful \<^verbatim>\<open>load_initrd\<close> leaves the file at its address and
  records address and size. With at least 171 MiB of RAM neither writes outside guest RAM, whether it succeeds or fails.
\<close>

theorem loader_places_files:
  assumes "files_ok fs" and "ram_ok m" and "ram_gpa m = kGpaRamBase" and "171 * 2 ^ 20 \<le> unat (ram_size m)"
  shows "(let (m', ok) = load_kernel fs path m in
        agree_on (- ram_span m) (mem (hst m')) (mem (hst m))
        \<and> (ok \<longrightarrow> (\<exists>bs. fs path = Some (int (length bs), bs)
            \<and> read_bytes (mem (hst m')) (ram_hva m + 0x400000) (length bs) = bs
            \<and> (16 \<le> length bs \<longrightarrow> kernel_entry m' = kGpaKernelLoad + of_nat (le_val (take 8 (drop 8 bs)))))))
    \<and> (let (m', ok) = load_initrd fs path m in
        agree_on (- ram_span m) (mem (hst m')) (mem (hst m))
        \<and> (ok \<longrightarrow> (\<exists>bs. fs path = Some (int (length bs), bs)
            \<and> read_bytes (mem (hst m')) (ram_hva m + 0x8000000) (length bs) = bs
            \<and> initrd_gpa m' = kGpaInitrdLoad \<and> initrd_size m' = of_nat (length bs))))"
proof -
  note sz = assms(4)
  have dst: "gpa_to_hva m kGpaKernelLoad = Some (ram_hva m + of_nat 0x400000)" "gpa_to_hva m kGpaInitrdLoad = Some (ram_hva m + of_nat 0x8000000)"
    using load_dst [OF assms(2,3), of kGpaKernelLoad] load_dst [OF assms(2,3), of kGpaInitrdLoad] sz by simp_all
  have room: "0x400000 + k \<le> unat (ram_size m)" if "k \<le> unat (ram_size m div 2)" for k
    using that sz by (simp add: unat_div)
  have room': "0x8000000 + k \<le> unat (ram_size m)" if "k \<le> unat (ram_size m div 4)" for k
    using that sz by (simp add: unat_div)
  have rback: "read_bytes (write_bytes mm p bs) p (length bs) = bs" if "length bs \<le> unat (ram_size m)" for mm p and bs :: "u8 list"
    using that unat_u64_less [of "ram_size m"] by (intro read_write_bytes) simp
  have entry: "load64 (write_bytes mm p bs) (p + 8) = of_nat (le_val (take 8 (drop 8 bs)))"
    if "length bs \<le> unat (ram_size m)" "16 \<le> length bs" for mm p and bs :: "u8 list"
  proof -
    have "read_bytes (write_bytes mm p bs) (p + of_nat 8) 8 = take 8 (drop 8 bs)"
      using that unat_u64_less [of "ram_size m"] by (intro write_slice) simp_all
    then show ?thesis by (simp add: load64_def)
  qed
  have "let (m', ok) = load_kernel fs path m in
        agree_on (- ram_span m) (mem (hst m')) (mem (hst m))
        \<and> (ok \<longrightarrow> (\<exists>bs. fs path = Some (int (length bs), bs)
            \<and> read_bytes (mem (hst m')) (ram_hva m + 0x400000) (length bs) = bs
            \<and> (16 \<le> length bs \<longrightarrow> kernel_entry m' = kGpaKernelLoad + of_nat (le_val (take 8 (drop 8 bs))))))"
  proof (cases rule: load_file_cases [OF assms(1), of path "ram_hva m + of_nat 0x400000" "ram_size m div 2" m])
    case 1
    then show ?thesis by (simp add: load_kernel_def dst)
  next
    case (2 bs)
    then show ?thesis using poke_in_ram [OF assms(2) room, of bs] by (simp add: load_kernel_def dst)
  next
    case (3 s bs)
    have "length bs \<le> unat (ram_size m)" using room [OF 3(4)] by simp
    then show ?thesis using 3 poke_in_ram [OF assms(2) room, of bs] rback [of bs] entry [of bs "mem (hst m)" "ram_hva m + 0x400000"]
      by (auto simp: load_kernel_def dst)
  qed
  moreover have "let (m', ok) = load_initrd fs path m in
        agree_on (- ram_span m) (mem (hst m')) (mem (hst m))
        \<and> (ok \<longrightarrow> (\<exists>bs. fs path = Some (int (length bs), bs)
            \<and> read_bytes (mem (hst m')) (ram_hva m + 0x8000000) (length bs) = bs
            \<and> initrd_gpa m' = kGpaInitrdLoad \<and> initrd_size m' = of_nat (length bs)))"
  proof (cases rule: load_file_cases [OF assms(1), of path "ram_hva m + of_nat 0x8000000" "ram_size m div 4" m])
    case 1
    then show ?thesis by (simp add: load_initrd_def dst)
  next
    case (2 bs)
    then show ?thesis using poke_in_ram [OF assms(2) room', of bs] by (simp add: load_initrd_def dst)
  next
    case (3 s bs)
    have "length bs \<le> unat (ram_size m)" using room' [OF 3(4)] by simp
    then show ?thesis using 3 poke_in_ram [OF assms(2) room', of bs] rback [of bs]
      by (auto simp: load_initrd_def dst)
  qed
  ultimately show ?thesis by blast
qed

text \<open>
  With less RAM the initrd can leave it. The limit is a quarter of RAM, wherever the load address lies in it: in a machine with
  160 MiB a file of 40 MiB is accepted and its last 8 MiB are written behind the mapping of guest RAM.
\<close>

theorem initrd_overruns_ram:
  assumes "ram_ok m" and "ram_gpa m = kGpaRamBase" and "ram_size m = 160 * 2 ^ 20"
    and "fs path = Some (40 * 2 ^ 20, bs)" and "length bs = 40 * 2 ^ 20"
    and "32 * 2 ^ 20 \<le> i" and "i < 40 * 2 ^ 20"
  shows "(let (m', ok) = load_initrd fs path m; p = ram_hva m + 0x8000000 + of_nat i in
    ok \<and> mem (hst m') p = bs ! i \<and> p \<notin> ram_span m)"
proof -
  let ?p = "ram_hva m + 0x8000000"
  have dst: "gpa_to_hva m kGpaInitrdLoad = Some ?p"
    using load_dst [OF assms(1,2), of kGpaInitrdLoad] assms(3) by simp
  have ld: "load_file fs path ?p (ram_size m div 4) m = (poke ?p bs m, Some (of_nat (40 * 2 ^ 20)))"
    using assms(3,4,5) by (simp add: load_file_def)
  have "read_bytes (write_bytes (mem (hst m)) ?p bs) ?p (length bs) = bs"
    by (rule read_write_bytes) (simp add: assms(5))
  then have "read_bytes (write_bytes (mem (hst m)) ?p bs) ?p (length bs) ! i = bs ! i" by simp
  then have rd: "write_bytes (mem (hst m)) ?p bs (?p + of_nat i) = bs ! i"
    using assms(5,7) by (simp add: read_bytes_def)
  have "?p + of_nat i \<notin> ram_span m"
  proof
    assume "?p + of_nat i \<in> ram_span m"
    then obtain k where k: "k < unat (ram_size m)" "?p + of_nat i = ram_hva m + of_nat k"
      by (auto simp: ram_span_def span_def)
    then have "(of_nat (0x8000000 + i) :: u64) = of_nat k" by (simp add: add.assoc)
    then have "0x8000000 + i = k"
      using assms(3,7) k(1) by (simp add: word_of_nat_eq_iff take_bit_nat_eq_self del: of_nat_add)
    with k(1) assms(3,6) show False by simp
  qed
  with ld rd show ?thesis by (simp add: load_initrd_def dst Let_def)
qed

text \<open>Witnesses: a file of 64 bytes with the magic number, and one of 40 MiB.\<close>

definition demo_image :: "u8 list" where
  "demo_image = replicate 8 0 @ [0, 0, 8] @ replicate 45 0 @ [0x41, 0x52, 0x4D, 0x64] @ replicate 4 0"

lemma le_val_zeros [simp]: "le_val (replicate n 0) = 0"
  by (induction n) simp_all

lemma demo_files:
  "files_ok (\<lambda>_. Some (64, demo_image))" "files_ok (\<lambda>_. Some (40 * 2 ^ 20, replicate (40 * 2 ^ 20) 7))"
  by (simp_all add: files_ok_def demo_image_def)

lemma demo_load_kernel:
  assumes "ram_ok m" "ram_gpa m = kGpaRamBase" "171 * 2 ^ 20 \<le> unat (ram_size m)"
  shows "\<exists>m'. load_kernel (\<lambda>_. Some (64, demo_image)) path m = (m', True)"
proof -
  obtain dst where dst: "gpa_to_hva m kGpaKernelLoad = Some dst" using load_dst [OF assms(1,2), of kGpaKernelLoad] assms(3) by simp
  have "read_bytes (write_bytes mm p demo_image) (p + of_nat 56) 4 = [0x41, 0x52, 0x4D, 0x64]" for mm and p :: u64
    by (subst write_slice) (simp_all add: demo_image_def)
  then have magic: "load32 (write_bytes mm p demo_image) (p + 56) = kArm64Magic" for mm and p :: u64
    by (simp add: load32_def)
  have len: "length demo_image = 64" by (simp add: demo_image_def)
  have "64 \<le> unat (ram_size m div 2)" using assms(3) by (simp add: unat_div)
  then have "\<not> ram_size m div 2 < 64" by (simp add: word_less_nat_alt)
  with dst magic len show ?thesis
    by (simp add: load_kernel_def load_file_def)
qed

theorem loader_places_files_witness:
  "\<exists>m'. load_kernel (\<lambda>_. Some (64, demo_image)) ''vmlinuz'' (set_ram 0x100000000 0x40000000 0x10000000 demo_vm) = (m', True)
    \<and> kernel_entry m' = 0x40480000"
proof -
  let ?m = "set_ram 0x100000000 0x40000000 0x10000000 demo_vm"
  have f: "ram_ok ?m" "ram_gpa ?m = kGpaRamBase" "171 * 2 ^ 20 \<le> unat (ram_size ?m)" by (simp_all add: ram_ok_def)
  then obtain m' where "load_kernel (\<lambda>_. Some (64, demo_image)) ''vmlinuz'' ?m = (m', True)" using demo_load_kernel by blast
  with loader_places_files [OF demo_files(1) f, of "''vmlinuz''"] show ?thesis by (auto simp: demo_image_def)
qed

theorem initrd_overruns_ram_witness:
  "let m = set_ram 0x100000000 0x40000000 (160 * 2 ^ 20) demo_vm;
       (m', ok) = load_initrd (\<lambda>_. Some (40 * 2 ^ 20, replicate (40 * 2 ^ 20) 7)) ''initrd'' m
   in ok \<and> mem (hst m') 0x10A000000 = 7 \<and> 0x10A000000 \<notin> ram_span m"
proof -
  let ?m = "set_ram 0x100000000 0x40000000 (160 * 2 ^ 20) demo_vm"
  have f: "ram_ok ?m" "ram_gpa ?m = kGpaRamBase" "ram_size ?m = 160 * 2 ^ 20" "ram_hva ?m = 0x100000000"
    by (simp_all add: ram_ok_def)
  show ?thesis
    using initrd_overruns_ram [OF f(1-3), of "\<lambda>_. Some (40 * 2 ^ 20, replicate (40 * 2 ^ 20) 7)" "''initrd''"
        "replicate (40 * 2 ^ 20) 7" "32 * 2 ^ 20"]
    by (simp add: Let_def nth_replicate ram_ok_def)
qed

end
