(* ===== verification/Backend.thy ===== *)
theory Backend
  imports Cli Fw_Loader Vcpu
begin

text \<open>
  Creation and destruction of machines by the HVF backend (\<^verbatim>\<open>src/src/hvf/hvf_backend.cpp\<close>).

  A process has at most one virtual machine of Hypervisor.framework: \<^verbatim>\<open>hv_vm_create\<close> succeeds only while there is none.
\<close>

section \<open>Sizes\<close>

text \<open>\<open>None\<close> is the exception of \<^verbatim>\<open>std::stoull\<close>.\<close>

definition parse_size :: "string \<Rightarrow> u64 option" where
  "parse_size s =
     (case stoull s of
        None \<Rightarrow> None
      | Some (val, unit) \<Rightarrow>
          Some (if unit = ''GB'' then val * 1024 * 1024 * 1024
                else if unit = ''MB'' then val * 1024 * 1024
                else val))"

section \<open>State\<close>

text \<open>
  Pipes: the descriptors that are open, and the pairs (read end, write end) made so far. A descriptor stands for one end of one
  pipe: its number is never used again, where the host reuses the numbers of closed ones. The code uses none after closing it.
  \<^verbatim>\<open>pipe\<close> may fail: \<open>pp_fails n\<close> says whether its \<open>n\<close>th call does.
\<close>

record pipes =
  pp_next :: int
  pp_open :: "int set"
  pp_pairs :: "(int \<times> int) list"
  pp_calls :: nat
  pp_fails :: "nat \<Rightarrow> bool"

definition pipe_open :: "pipes \<Rightarrow> (int \<times> int) option \<times> pipes" where
  "pipe_open p =
     (let r = pp_next p; w = r + 1; p1 = p\<lparr>pp_calls := Suc (pp_calls p)\<rparr>
      in if pp_fails p (pp_calls p) then (None, p1)
         else (Some (r, w), p1\<lparr>pp_next := r + 2, pp_open := pp_open p \<union> {r, w}, pp_pairs := (r, w) # pp_pairs p\<rparr>))"

definition fd_close :: "int \<Rightarrow> pipes \<Rightarrow> pipes" where
  "fd_close fd p = p\<lparr>pp_open := pp_open p - {fd}\<rparr>"

record serial_channel =
  host_write_fd :: int
  host_read_fd :: int
  ch_name :: string

record 'e hvf_instance =
  in_ctx :: "'e machine"
  in_serial :: "serial_channel list"

record 'e hvf_backend =
  hv_vms :: "u64 \<Rightarrow> 'e hvf_instance option"
  hv_next_id :: u64
  hv_exists :: bool
  hv_pipes :: pipes

definition hvf_backend_new :: "pipes \<Rightarrow> 'e hvf_backend" where
  "hvf_backend_new p = \<lparr>hv_vms = (\<lambda>_. None), hv_next_id = 1, hv_exists = False, hv_pipes = p\<rparr>"

text \<open>
  The environment of \<^verbatim>\<open>Create\<close>: the address at which RAM is mapped when \<^verbatim>\<open>Memory::init\<close> succeeds, the disk images
  (descriptor and size), the files, the host, the channels to which a client connects, and the channels whose pump has passed its last test
  of the stop request when an exception destroys them, so that it is in \<^verbatim>\<open>read\<close> or about to be.
\<close>

record 'e hvf_env =
  he_ram :: "u64 \<Rightarrow> u64 option"
  he_disk :: "string \<Rightarrow> int \<times> u64 option"
  he_files :: files
  he_host :: "'e host"
  he_client :: "string \<Rightarrow> bool"
  he_reading :: "serial_channel \<Rightarrow> bool"

datatype hvf_error = Bad_Size | Hv_Vm_Create | Memory_Init | Pipe_Failed | Load_Kernel | Load_Initrd | Dtb_Generate | Missing_Kernel

section \<open>Creation\<close>

definition memory_init :: "'e hvf_env \<Rightarrow> 'e machine \<Rightarrow> 'e machine \<times> bool" where
  "memory_init env m =
     (case he_ram env (ram_size m) of
        None \<Rightarrow> (m, False)
      | Some hva \<Rightarrow> (set_ram hva kGpaRamBase (ram_size m) m, True))"

text \<open>
  One serial port: two pipes, of which the ends the machine does not use are closed. Without a channel: a pipe could not be made, which is an
  exception.
\<close>

definition serial_port :: "int \<times> string \<Rightarrow> 'e machine \<times> pipes \<Rightarrow> ('e machine \<times> pipes) \<times> serial_channel option" where
  "serial_port cfg s =
     (case cfg of (port_idx, channel_name) \<Rightarrow>
      (case pipe_open (snd s) of
         (None, p1) \<Rightarrow> ((fst s, p1), None)
       | (Some (to_r, to_w), p1) \<Rightarrow>
      (case pipe_open p1 of
         (None, p2) \<Rightarrow> ((fst s, p2), None)
       | (Some (from_r, from_w), p2) \<Rightarrow>
        (let ch = \<lparr>host_write_fd = to_w, host_read_fd = from_r, ch_name = channel_name\<rparr>
         in if port_idx = 0
            then (((fst s)\<lparr>pl011 := (pl011 (fst s))\<lparr>pl_tx_fd := from_w\<rparr>\<rparr>, fd_close to_r p2), Some ch)
            else ((fst s, fd_close from_w (fd_close to_r p2)), Some ch)))))"

text \<open>The loop over the ports ends early with the exception; the channels made before it are there all the same.\<close>

fun serial_ports :: "(int \<times> string) list \<Rightarrow> 'e machine \<times> pipes \<Rightarrow> ('e machine \<times> pipes) \<times> serial_channel list \<times> bool" where
  "serial_ports [] s = (s, [], True)"
| "serial_ports (c # cs) s =
     (case serial_port c s of
        (s1, None) \<Rightarrow> (s1, [], False)
      | (s1, Some ch) \<Rightarrow> (case serial_ports cs s1 of (s2, chs, ok) \<Rightarrow> (s2, ch # chs, ok)))"

text \<open>A port that was made, and the ports of a loop that ran to its end.\<close>

lemma serial_port_ok:
  assumes "serial_port c (m, p) = ((m', p'), Some ch)"
  obtains r w p1 r' w' p2 where "pipe_open p = (Some (r, w), p1)" "pipe_open p1 = (Some (r', w'), p2)"
    "m' = (if fst c = 0 then m\<lparr>pl011 := (pl011 m)\<lparr>pl_tx_fd := w'\<rparr>\<rparr> else m)"
    "p' = (if fst c = 0 then fd_close r p2 else fd_close w' (fd_close r p2))"
    "ch = \<lparr>host_write_fd = w, host_read_fd = r', ch_name = snd c\<rparr>"
  using assms by (auto simp: serial_port_def Let_def split: prod.splits option.splits if_splits)

lemma serial_ports_Cons:
  assumes "serial_ports (c # cs) s = (s', chs, True)"
  obtains s1 ch chs' where "serial_port c s = (s1, Some ch)" "serial_ports cs s1 = (s', chs', True)" "chs = ch # chs'"
  using assms by (auto split: prod.splits option.splits)

text \<open>The default address of the network device.\<close>

definition default_mac :: "u8 list" where
  "default_mac = [0x52, 0x54, 0x00, 0x12, 0x34, 0x56]"

definition hvf_devices :: "'e hvf_env \<Rightarrow> vm_config \<Rightarrow> 'e machine \<Rightarrow> 'e machine" where
  "hvf_devices env cfg m =
     (let m1 = create_console (-1) (-1) m;
          m2 = (if cf_image cfg \<noteq> [] then (case he_disk env (cf_image cfg) of (fd, st) \<Rightarrow> create_block fd st m1) else m1)
      in case cf_network cfg of None \<Rightarrow> m2 | Some fwds \<Rightarrow> create_net True default_mac m2)"

text \<open>\<^verbatim>\<open>config.value(key, "")\<close>.\<close>

definition cfg_str :: "string option \<Rightarrow> string" where
  "cfg_str v = (case v of None \<Rightarrow> [] | Some s \<Rightarrow> s)"

definition hvf_boot :: "'e hvf_env \<Rightarrow> vm_config \<Rightarrow> 'e machine \<Rightarrow> hvf_error + 'e machine" where
  "hvf_boot env cfg m =
     (let kernel_path = cfg_str (cf_kernel cfg); initrd_path = cfg_str (cf_initrd cfg)
      in if kernel_path = [] then Inl Missing_Kernel
         else (case load_kernel (he_files env) kernel_path (init_vcpus m) of
             (m1, False) \<Rightarrow> Inl Load_Kernel
           | (m1, True) \<Rightarrow>
               (case (if initrd_path = [] then (m1, True) else load_initrd (he_files env) initrd_path m1) of
                  (m2, False) \<Rightarrow> Inl Load_Initrd
                | (m2, True) \<Rightarrow>
                    (case dtb_generate m2 of
                       (m3, False) \<Rightarrow> Inl Dtb_Generate
                     | (m3, True) \<Rightarrow> Inr m3))))"

text \<open>
  The end of a serial channel asks its pump to stop and joins its two threads. The pump ends when it has still to test the request, and it leaves \<^verbatim>\<open>read\<close>
  when no write end of its pipe is open; the thread of the server leaves \<^verbatim>\<open>accept\<close> when a client connects.
\<close>

definition pump_ends :: "'e hvf_env \<Rightarrow> pipes \<Rightarrow> serial_channel \<Rightarrow> bool" where
  "pump_ends env p ch \<longleftrightarrow> \<not> he_reading env ch \<or> (\<exists>x \<in> set (pp_pairs p). fst x = host_read_fd ch \<and> snd x \<notin> pp_open p)"

definition unwinds :: "'e hvf_env \<Rightarrow> pipes \<Rightarrow> serial_channel list \<Rightarrow> bool" where
  "unwinds env p chs \<longleftrightarrow> (\<forall>ch \<in> set chs. pump_ends env p ch \<and> he_client env (ch_name ch))"

text \<open>
  \<^verbatim>\<open>HvfBackend::Create\<close>. An exception leaves what was done before it: the machine object and the channels are destroyed with the
  stack, the machine of Hypervisor.framework and the descriptors are not. \<open>None\<close>: the exception does not get out, since a channel
  is joined for ever.
\<close>

definition hvf_create :: "'e hvf_env \<Rightarrow> vm_config \<Rightarrow> 'e hvf_backend \<Rightarrow> ('e hvf_backend \<times> (hvf_error + u64)) option" where
  "hvf_create env cfg b =
     (case parse_size (cf_ram_size cfg) of
        None \<Rightarrow> Some (b, Inl Bad_Size)
      | Some ram_bytes \<Rightarrow>
          (let m0 = (vmcontext_new (of_int (cf_cpu_count cfg)) ram_bytes (he_host env))\<lparr>cmdline := cfg_str (cf_cmdline cfg)\<rparr>
           in if hv_exists b then Some (b, Inl Hv_Vm_Create)
              else
              (let b1 = b\<lparr>hv_exists := True\<rparr>
               in case memory_init env m0 of
                    (m1, False) \<Rightarrow> Some (b1, Inl Memory_Init)
                  | (m1, True) \<Rightarrow>
                      (case serial_ports (sort_key fst (cf_serial cfg)) (m1, hv_pipes b1) of
                         ((m2, p), chs, ok) \<Rightarrow>
                           (let b2 = b1\<lparr>hv_pipes := p\<rparr>; throw = (\<lambda>e. if unwinds env p chs then Some (b2, Inl e) else None)
                            in if \<not> ok then throw Pipe_Failed
                               else case hvf_boot env cfg (hvf_devices env cfg m2) of
                                 Inl e \<Rightarrow> throw e
                               | Inr m3 \<Rightarrow>
                                   Some (b2\<lparr>hv_vms := (hv_vms b2)(hv_next_id b2 \<mapsto> \<lparr>in_ctx = m3, in_serial = chs\<rparr>),
                                       hv_next_id := hv_next_id b2 + 1\<rparr>, Inr (hv_next_id b2)))))))"

text \<open>
  \<^verbatim>\<open>HvfBackend::Destroy\<close>. \<open>joins\<close> says whether the threads of an instance that has been stopped end: its \<^verbatim>\<open>run_all\<close> (see \<open>Vcpu\<close>)
  and those of its channels; if one does not, neither does this.
\<close>

definition hvf_destroy :: "('e hvf_instance \<Rightarrow> bool) \<Rightarrow> u64 \<Rightarrow> 'e hvf_backend \<Rightarrow> 'e hvf_backend option" where
  "hvf_destroy joins handle b =
     (case hv_vms b handle of
        None \<Rightarrow> Some b
      | Some inst \<Rightarrow>
          (let p = fold (\<lambda>ch p. fd_close (host_write_fd ch) (fd_close (host_read_fd ch) p)) (in_serial inst) (hv_pipes b)
           in if joins (inst\<lparr>in_ctx := vm_stop (in_ctx inst)\<rparr>)
              then Some (b\<lparr>hv_vms := (hv_vms b)(handle := None), hv_exists := False, hv_pipes := p\<rparr>)
              else None))"

text \<open>The stages of a creation that succeeded.\<close>

lemma hvf_create_ok:
  assumes "hvf_create env cfg b = Some (b', Inr h)"
  obtains ram m1 m2 p chs m3 where "parse_size (cf_ram_size cfg) = Some ram"
    "memory_init env ((vmcontext_new (of_int (cf_cpu_count cfg)) ram (he_host env))
       \<lparr>cmdline := cfg_str (cf_cmdline cfg)\<rparr>) = (m1, True)"
    "serial_ports (sort_key fst (cf_serial cfg)) (m1, hv_pipes b) = ((m2, p), chs, True)"
    "hvf_boot env cfg (hvf_devices env cfg m2) = Inr m3" "h = hv_next_id b"
    "hv_vms b' = (hv_vms b)(h \<mapsto> \<lparr>in_ctx = m3, in_serial = chs\<rparr>)" "hv_pipes b' = p"
  using assms
  by (auto simp: hvf_create_def Let_def split: option.splits if_splits prod.splits bool.splits sum.splits)

section \<open>Sizes are read as written\<close>

text \<open>
  A memory size is what was written times its unit, in 64-bit arithmetic that wraps; the units are \<^verbatim>\<open>GB\<close> and \<^verbatim>\<open>MB\<close>, and every
  other suffix, such as \<^verbatim>\<open>G\<close> or \<^verbatim>\<open>gb\<close>, counts bytes.
\<close>

theorem parse_size_units:
  assumes "n < 2 ^ 64" and "unit = [] \<or> \<not> is_digit (hd unit)"
  shows "map_option unat (parse_size (num_str 10 n @ unit))
    = Some ((n * (if unit = ''GB'' then 2 ^ 30 else if unit = ''MB'' then 2 ^ 20 else 1)) mod 2 ^ 64)"
  using stoull_num_str [OF assms] by (simp add: parse_size_def unat_word_ariths unat_of_nat mod_mult_left_eq mult.assoc)

theorem parse_size_units_witness:
  "map_option unat (parse_size (num_str 10 8 @ ''GB'')) = Some 8589934592 \<and> map_option unat (parse_size (num_str 10 8 @ ''G'')) = Some 8"
  using parse_size_units [of 8 "''GB''"] parse_size_units [of 8 "''G''"] by (simp add: is_digit_def)

section \<open>Failure\<close>

text \<open>
  A failed creation is final. When \<^verbatim>\<open>Create\<close> has thrown after \<^verbatim>\<open>hv_vm_create\<close>, for instance because the kernel file cannot
  be read, the machine of Hypervisor.framework is still there and belongs to no handle: every later \<^verbatim>\<open>Create\<close> in the process
  fails, for every configuration and whatever machines are destroyed in between.
\<close>

theorem failed_create_is_final:
  assumes "hvf_create env cfg b = Some (b1, Inl e)" and "e \<noteq> Bad_Size" and "hv_vms b = (\<lambda>_. None)"
  shows "hv_exists b1 \<and> hv_vms b1 = (\<lambda>_. None)
    \<and> (\<forall>joins hs b2. fold (\<lambda>h r. Option.bind r (hvf_destroy joins h)) hs (Some b1) = Some b2 \<longrightarrow>
        (\<forall>env' cfg'. \<exists>e'. hvf_create env' cfg' b2 = Some (b2, Inl e')))"
proof -
  have ex: "hv_exists b1 \<and> hv_vms b1 = (\<lambda>_. None)"
    using assms by (auto simp: hvf_create_def Let_def split: option.splits if_splits prod.splits bool.splits sum.splits)
  have "fold (\<lambda>h r. Option.bind r (hvf_destroy joins h)) hs (Some b1) = Some b1" for joins hs
    by (induction hs) (use ex in \<open>simp_all add: hvf_destroy_def\<close>)
  moreover have "\<exists>e'. hvf_create env' cfg' b1 = Some (b1, Inl e')" for env' cfg'
    using ex by (auto simp: hvf_create_def Let_def split: option.splits)
  ultimately show ?thesis using ex by auto
qed

section \<open>Serial ports\<close>

definition pipes_ok :: "pipes \<Rightarrow> bool" where
  "pipes_ok p \<longleftrightarrow> (\<forall>fd \<in> pp_open p. fd < pp_next p) \<and> (\<forall>(r, w) \<in> set (pp_pairs p). r < pp_next p \<and> w < pp_next p)"

text \<open>The pipe behind \<open>w\<close> has no reader.\<close>

definition no_reader :: "pipes \<Rightarrow> int \<Rightarrow> bool" where
  "no_reader p w \<longleftrightarrow> (\<exists>r. (r, w) \<in> set (pp_pairs p) \<and> r \<notin> pp_open p)"

lemma pipe_open_ok:
  assumes "pipe_open p = (Some (r, w), p')" and "pipes_ok p"
  shows "pipes_ok p'" "(r, w) \<in> set (pp_pairs p')" "no_reader p x \<Longrightarrow> no_reader p' x" "set (pp_pairs p) \<subseteq> set (pp_pairs p')"
proof -
  from assms(1) have p': "r = pp_next p" "w = pp_next p + 1"
    "p' = p\<lparr>pp_calls := Suc (pp_calls p), pp_next := r + 2, pp_open := pp_open p \<union> {r, w}, pp_pairs := (r, w) # pp_pairs p\<rparr>"
    by (auto simp: pipe_open_def Let_def split: if_splits)
  show "pipes_ok p'" "(r, w) \<in> set (pp_pairs p')" "set (pp_pairs p) \<subseteq> set (pp_pairs p')" using assms(2) by (auto simp: p' pipes_ok_def)
  assume "no_reader p x"
  then obtain y where y: "(y, x) \<in> set (pp_pairs p)" "y \<notin> pp_open p" by (auto simp: no_reader_def)
  with assms(2) have "y < pp_next p" by (auto simp: pipes_ok_def)
  with y show "no_reader p' x" by (auto simp: no_reader_def p' intro!: exI [of _ y])
qed

lemma fd_close_ok:
  "pipes_ok p \<Longrightarrow> pipes_ok (fd_close fd p)" "no_reader p x \<Longrightarrow> no_reader (fd_close fd p) x" "pp_pairs (fd_close fd p) = pp_pairs p"
  "(fd, w) \<in> set (pp_pairs p) \<Longrightarrow> no_reader (fd_close fd p) w"
  by (auto simp: fd_close_def pipes_ok_def no_reader_def)

lemma serial_port_pipes:
  assumes "serial_port c (m, p) = ((m', p'), Some ch)" and "pipes_ok p"
  shows "pipes_ok p'" "no_reader p' (host_write_fd ch)" "no_reader p x \<Longrightarrow> no_reader p' x"
proof -
  from assms(1) obtain r w p1 r' w' p2 where o: "pipe_open p = (Some (r, w), p1)" "pipe_open p1 = (Some (r', w'), p2)"
    "p' = (if fst c = 0 then fd_close r p2 else fd_close w' (fd_close r p2))" "host_write_fd ch = w"
    by (rule serial_port_ok) auto
  note p1 = pipe_open_ok [OF o(1) assms(2)]
  note p2 = pipe_open_ok [OF o(2) p1(1)]
  have "(r, w) \<in> set (pp_pairs p2)" using p1(2) p2(4) by blast
  then have nr: "no_reader (fd_close r p2) w" by (rule fd_close_ok(4))
  show "pipes_ok p'" "no_reader p' (host_write_fd ch)" "no_reader p x \<Longrightarrow> no_reader p' x"
    using nr p1(3) p2(1,3) by (auto simp: o(3,4) fd_close_ok)
qed

lemma serial_ports_pipes:
  assumes "serial_ports cs (m, p) = ((m', p'), chs, True)" and "pipes_ok p"
  shows "pipes_ok p' \<and> (\<forall>ch \<in> set chs. no_reader p' (host_write_fd ch)) \<and> (\<forall>w. no_reader p w \<longrightarrow> no_reader p' w) \<and> length chs = length cs"
  using assms
proof (induction cs arbitrary: m p chs)
  case (Cons c cs)
  from Cons.prems(1) obtain s1 ch chs' where c: "serial_port c (m, p) = (s1, Some ch)"
    "serial_ports cs s1 = ((m', p'), chs', True)" "chs = ch # chs'" by (rule serial_ports_Cons)
  obtain m1 p1 where s1: "s1 = (m1, p1)" by fastforce
  note p1 = serial_port_pipes [OF c(1) [unfolded s1] Cons.prems(2)]
  from Cons.IH [OF c(2) [unfolded s1] p1(1)] p1(2,3) c(3) show ?case by auto
qed auto

text \<open>
  Input typed at a serial port never reaches the machine: for every port of a machine that was created, the pipe that the
  messages of its channel are written to has no reader, since \<^verbatim>\<open>Create\<close> closes its read end for port 0 and for all others.
\<close>

theorem serial_input_lost:
  assumes "hvf_create env cfg b = Some (b', Inr h)" and "pipes_ok (hv_pipes b)"
  shows "\<exists>inst. hv_vms b' h = Some inst \<and> length (in_serial inst) = length (cf_serial cfg)
    \<and> (\<forall>ch \<in> set (in_serial inst). no_reader (hv_pipes b') (host_write_fd ch))"
proof -
  show ?thesis
    using assms(1)
  proof (rule hvf_create_ok)
    fix m1 m2 p chs m3
    assume sp: "serial_ports (sort_key fst (cf_serial cfg)) (m1, hv_pipes b) = ((m2, p), chs, True)"
      and "hv_vms b' = (hv_vms b)(h \<mapsto> \<lparr>in_ctx = m3, in_serial = chs\<rparr>)" "hv_pipes b' = p"
    then show ?thesis
      using serial_ports_pipes [OF sp assms(2)] by simp
  qed
qed

section \<open>A failed creation that does not return\<close>

text \<open>The pipe read at \<open>r\<close> has a write end that is open and is never closed.\<close>

definition still_written :: "pipes \<Rightarrow> int \<Rightarrow> bool" where
  "still_written p r \<longleftrightarrow> r < pp_next p \<and> (\<forall>x \<in> set (pp_pairs p). fst x = r \<longrightarrow> snd x \<in> pp_open p)"

lemma serial_port_written:
  assumes "serial_port c (m, p) = ((m', p'), Some ch)" and "pipes_ok p"
  shows "pipes_ok p'" "still_written p r \<Longrightarrow> still_written p' r" "fst c = 0 \<Longrightarrow> still_written p' (host_read_fd ch)" "ch_name ch = snd c"
    "pp_fails p' = pp_fails p"
proof -
  let ?n = "pp_next p"
  from assms(1) have p': "pp_next p' = ?n + 4" "pp_pairs p' = (?n + 2, ?n + 3) # (?n, ?n + 1) # pp_pairs p"
      "pp_open p' = (pp_open p \<union> {?n, ?n + 1, ?n + 2, ?n + 3}) - (if fst c = 0 then {?n} else {?n, ?n + 3})" "host_read_fd ch = ?n + 2"
    and "ch_name ch = snd c" "pp_fails p' = pp_fails p"
    by (auto simp: serial_port_def pipe_open_def fd_close_def Let_def split: prod.splits if_splits option.splits)
  then show "ch_name ch = snd c" "pp_fails p' = pp_fails p" by simp_all
  have old: "x \<in> pp_open p \<Longrightarrow> x < ?n" "x \<in> pp_open p \<Longrightarrow> x \<in> pp_open p'" for x
    using assms(2) by (auto simp: pipes_ok_def p')
  have pairs: "(a, b) \<in> set (pp_pairs p) \<Longrightarrow> a < ?n \<and> b < ?n" for a b using assms(2) by (auto simp: pipes_ok_def)
  show "pipes_ok p'" using old(1) pairs by (force simp: pipes_ok_def p')
  show "still_written p' r" if "still_written p r" using that old(2) by (auto simp: still_written_def p'(1,2))
  show "still_written p' (host_read_fd ch)" if "fst c = 0" using that by (auto simp: still_written_def p' dest: pairs)
qed

text \<open>While no call of \<^verbatim>\<open>pipe\<close> fails, every port is made.\<close>

definition pipes_work :: "pipes \<Rightarrow> bool" where
  "pipes_work p \<longleftrightarrow> (\<forall>n. \<not> pp_fails p n)"

lemma serial_port_works: "pipes_work p \<Longrightarrow> \<exists>m' p' ch. serial_port c (m, p) = ((m', p'), Some ch) \<and> pipes_work p'"
  by (cases c) (simp add: serial_port_def pipe_open_def pipes_work_def fd_close_def Let_def)

lemma serial_ports_work: "pipes_work p \<Longrightarrow> \<exists>m' p' chs. serial_ports cs (m, p) = ((m', p'), chs, True)"
proof (induction cs arbitrary: m p)
  case (Cons c cs)
  from serial_port_works [OF Cons.prems] obtain m1 p1 ch where s1: "serial_port c (m, p) = ((m1, p1), Some ch)" "pipes_work p1" by blast
  from Cons.IH [OF s1(2)] obtain m' p' chs where "serial_ports cs (m1, p1) = ((m', p'), chs, True)" by blast
  with s1(1) show ?case by simp
qed simp

lemma serial_ports_written:
  assumes "serial_ports cs (m, p) = ((m', p'), chs, True)" and "pipes_ok p"
  shows "(still_written p r \<longrightarrow> still_written p' r) \<and> ((0, name) \<in> set cs \<longrightarrow> (\<exists>ch \<in> set chs. ch_name ch = name \<and> still_written p' (host_read_fd ch)))"
  using assms
proof (induction cs arbitrary: m p chs r)
  case (Cons c cs)
  from Cons.prems(1) obtain s1 ch chs' where c: "serial_port c (m, p) = (s1, Some ch)"
    "serial_ports cs s1 = ((m', p'), chs', True)" "chs = ch # chs'" by (rule serial_ports_Cons)
  obtain m1 p1 where s1: "s1 = (m1, p1)" by fastforce
  note p1 = serial_port_written [OF c(1) [unfolded s1] Cons.prems(2)]
  have ih: "still_written p1 x \<longrightarrow> still_written p' x"
    "(0, name) \<in> set cs \<longrightarrow> (\<exists>ch \<in> set chs'. ch_name ch = name \<and> still_written p' (host_read_fd ch))" for x
    using Cons.IH [OF c(2) [unfolded s1] p1(1)] by blast+
  show ?case using ih p1(2-4) c(3) by auto
qed auto

text \<open>
  C38. A \<^verbatim>\<open>Create\<close> that fails after a serial port 0 was made does not return, instead of throwing, once the port's pump waits for output: when the kernel
  is missing or can not be opened, the exception unwinds the channel of the port. If its pump has passed the test of the stop request before
  that request is made, it is joined while it waits for bytes of a pipe whose write end is the UART's and stays open, whether a client is
  connected or not.
\<close>

theorem failed_create_hangs:
  assumes size: "parse_size (cf_ram_size cfg) = Some ram" and first: "\<not> hv_exists b" and ram: "he_ram env ram \<noteq> None"
    and port: "(0, name) \<in> set (cf_serial cfg)" and pipes: "pipes_ok (hv_pipes b)" "pipes_work (hv_pipes b)"
    and reading: "\<And>ch. ch_name ch = name \<Longrightarrow> he_reading env ch"
    and kernel: "cfg_str (cf_kernel cfg) = [] \<or> he_files env (cfg_str (cf_kernel cfg)) = None"
  shows "hvf_create env cfg b = None"
proof -
  let ?m0 = "(vmcontext_new (of_int (cf_cpu_count cfg)) ram (he_host env))\<lparr>cmdline := cfg_str (cf_cmdline cfg)\<rparr>"
  have "ram_size ?m0 = ram" by (simp add: vmcontext_new_def)
  then obtain m1 where m1: "memory_init env ?m0 = (m1, True)" using ram by (auto simp: memory_init_def)
  from serial_ports_work [OF pipes(2)]
  obtain m2 p chs where sp: "serial_ports (sort_key fst (cf_serial cfg)) (m1, hv_pipes b) = ((m2, p), chs, True)" by blast
  have "(0, name) \<in> set (sort_key fst (cf_serial cfg))" using port by simp
  with serial_ports_written [OF sp pipes(1)] obtain ch where "ch \<in> set chs" "ch_name ch = name" "still_written p (host_read_fd ch)" by blast
  then have "\<not> unwinds env p chs" using reading by (auto simp: unwinds_def pump_ends_def still_written_def)
  moreover have "\<exists>e. hvf_boot env cfg m = Inl e" for m
    using kernel by (auto simp: hvf_boot_def load_kernel_def load_file_def Let_def split: prod.splits bool.splits option.splits)
  then obtain e where "hvf_boot env cfg (hvf_devices env cfg m2) = Inl e" by blast
  ultimately show ?thesis using size first m1 sp by (simp add: hvf_create_def Let_def)
qed

section \<open>A created machine is ready to boot\<close>

lemma read_write_apart:
  assumes "j + n \<le> k \<and> k + length bs \<le> 2 ^ 64 \<or> k + length bs \<le> j \<and> j + n \<le> 2 ^ 64"
  shows "read_bytes (write_bytes mm (p + of_nat k) bs) (p + of_nat j) n = read_bytes mm (p + of_nat j) n"
proof (rule nth_equalityI)
  fix i assume "i < length (read_bytes (write_bytes mm (p + of_nat k) bs) (p + of_nat j) n)"
  then have i: "i < n" by simp
  have eq: "(p + of_nat j + of_nat i) - (p + of_nat k) = (of_nat (j + i) - of_nat k :: u64)" by simp
  have "\<not> unat (of_nat (j + i) - of_nat k :: u64) < length bs"
  proof (cases "j + n \<le> k \<and> k + length bs \<le> 2 ^ 64")
    case True
    then have "unat (of_nat (j + i) :: u64) = j + i" using i by (simp add: unat_of_nat del: of_nat_add)
    moreover have "(of_nat k :: u64) = 0 \<and> k = 2 ^ 64 \<or> unat (of_nat k :: u64) = k"
      using True by (cases "k = 2 ^ 64") (simp_all add: unat_of_nat)
    ultimately show ?thesis using True i by (auto simp: unat_sub_if' simp del: of_nat_add)
  next
    case False
    then have "unat (of_nat (j + i) :: u64) = j + i" "unat (of_nat k :: u64) = k"
      using i assms by (auto simp: unat_of_nat simp del: of_nat_add)
    then show ?thesis using False i assms by (auto simp: unat_sub_if' simp del: of_nat_add)
  qed
  then show "read_bytes (write_bytes mm (p + of_nat k) bs) (p + of_nat j) n ! i = read_bytes mm (p + of_nat j) n ! i"
    using i assms by (auto simp: write_bytes_apply eq simp del: of_nat_add)
qed simp

text \<open>What successful stages did to the machine.\<close>

lemma load_kernel_done:
  assumes "load_kernel fs path m = (m', True)" and "files_ok fs" and "gpa_to_hva m kGpaKernelLoad = Some dst"
  obtains bs where "fs path = Some (int (length bs), bs)" "length bs \<le> unat (ram_size m div 2)"
    "m' = (poke dst bs m)\<lparr>kernel_entry := kGpaKernelLoad + load64 (write_bytes (mem (hst m)) dst bs) (dst + 8)\<rparr>"
  using assms(1,3)
  by (cases rule: load_file_cases [OF assms(2), of path dst "ram_size m div 2" m])
    (auto simp: load_kernel_def split: if_splits)

lemma load_initrd_done:
  assumes "load_initrd fs path m = (m', True)" and "files_ok fs" and "gpa_to_hva m kGpaInitrdLoad = Some dst"
  obtains bs where "fs path = Some (int (length bs), bs)" "length bs \<le> unat (ram_size m div 4)"
    "m' = (poke dst bs m)\<lparr>initrd_gpa := kGpaInitrdLoad, initrd_size := of_nat (length bs)\<rparr>"
  using assms(1,3)
  by (cases rule: load_file_cases [OF assms(2), of path dst "ram_size m div 4" m]) (auto simp: load_initrd_def)

lemma dtb_generate_done:
  assumes "dtb_generate m = (m', True)" and "gpa_to_hva m kGpaDtbLoad = Some dst"
  shows "length (dtb_blob m) \<le> 4194304" "m' = (poke dst (dtb_blob m) m)\<lparr>dtb_gpa := kGpaDtbLoad\<rparr>"
  using assms by (auto simp: dtb_generate_def poke_def split: if_splits)

lemma dtb_calls_cong:
  "dtb_calls (m\<lparr>dtb_gpa := g\<rparr>) = dtb_calls m" "dtb_calls (poke p bs m) = dtb_calls m"
  "dtb_blob (m\<lparr>dtb_gpa := g\<rparr>) = dtb_blob m" "dtb_blob (poke p bs m) = dtb_blob m"
  by (simp_all add: dtb_blob_def dtb_calls_def dtb_chosen_def dtb_memory_def dtb_cpus_def poke_def)

text \<open>RAM that \<^verbatim>\<open>Memory::init\<close> maps: it wraps neither in the guest's nor in the host's address space.\<close>

definition ram_maps :: "'e hvf_env \<Rightarrow> u64 \<Rightarrow> u64 \<Rightarrow> bool" where
  "ram_maps env ram hva \<longleftrightarrow> he_ram env ram = Some hva \<and> hva \<noteq> 0 \<and> unat hva + unat ram < 2 ^ 64
     \<and> unat kGpaRamBase + unat ram < 2 ^ 64"

lemma init_vcpus_ready:
  "vcpus m = [] \<Longrightarrow> length (vcpus (init_vcpus m)) = unat (vcpu_count m)"
  by (simp add: init_vcpus_def)

lemma hvf_boot_done:
  assumes boot: "hvf_boot env cfg m = Inr m3" and fs: "files_ok (he_files env)"
    and ok: "ram_ok m" "ram_gpa m = kGpaRamBase" "171 * 2 ^ 20 \<le> unat (ram_size m)" "vcpus m = []"
    and kernel: "cfg_str (cf_kernel cfg) = kpath" "kpath \<noteq> []" "he_files env kpath = Some (ksz, kbs)" "16 \<le> length kbs" "length kbs \<le> 124 * 2 ^ 20"
  shows "vcpus_ready m3 \<and> read_bytes (mem (hst m3)) (ram_hva m + 0x400000) (length kbs) = kbs
      \<and> kernel_entry m3 = kGpaKernelLoad + of_nat (le_val (take 8 (drop 8 kbs)))
      \<and> (\<forall>ipath. cfg_str (cf_initrd cfg) = ipath \<and> ipath \<noteq> [] \<longrightarrow> (\<exists>ibs. he_files env ipath = Some (int (length ibs), ibs)
          \<and> read_bytes (mem (hst m3)) (ram_hva m + 0x8000000) (length ibs) = ibs \<and> initrd_gpa m3 = kGpaInitrdLoad
          \<and> initrd_size m3 = of_nat (length ibs)))
      \<and> gpa_to_hva m3 (dtb_gpa m3) = Some (ram_hva m)
      \<and> fdt_decode (read_bytes (mem (hst m3)) (ram_hva m) (length (dtb_blob m3))) = Some (dtb_calls m3)
      \<and> console_dev m3 = console_dev m \<and> block_dev m3 = block_dev m \<and> net_dev m3 = net_dev m
      \<and> gpu_dev m3 = gpu_dev m \<and> keyboard_dev m3 = keyboard_dev m \<and> tablet_dev m3 = tablet_dev m
      \<and> cmdline m3 = cmdline m \<and> vcpu_count m3 = vcpu_count m \<and> ram_size m3 = ram_size m \<and> pl011 m3 = pl011 m \<and> running m3 = running m
      \<and> (cfg_str (cf_initrd cfg) = [] \<longrightarrow> initrd_size m3 = initrd_size m)"
proof -
  let ?p = "ram_hva m"
  have dst: "gpa_to_hva x kGpaKernelLoad = Some (?p + of_nat 0x400000)" "gpa_to_hva x kGpaInitrdLoad = Some (?p + of_nat 0x8000000)"
    "gpa_to_hva x kGpaDtbLoad = Some (?p + of_nat 0)"
    if "ram_hva x = ram_hva m" "ram_gpa x = ram_gpa m" "ram_size x = ram_size m" for x :: "'a machine"
  proof -
    have "ram_ok x" "ram_gpa x = kGpaRamBase" "171 * 2 ^ 20 \<le> unat (ram_size x)" using that ok by (simp_all add: ram_ok_def)
    then show "gpa_to_hva x kGpaKernelLoad = Some (?p + of_nat 0x400000)" "gpa_to_hva x kGpaInitrdLoad = Some (?p + of_nat 0x8000000)"
      "gpa_to_hva x kGpaDtbLoad = Some (?p + of_nat 0)"
      using load_dst [of x kGpaKernelLoad] load_dst [of x kGpaInitrdLoad] load_dst [of x kGpaDtbLoad] that(1) by simp_all
  qed
  let ?m4 = "init_vcpus m"
  have m4: "ram_hva ?m4 = ?p" "ram_gpa ?m4 = ram_gpa m" "ram_size ?m4 = ram_size m" by (simp_all add: init_vcpus_def)
  let ?ip = "cfg_str (cf_initrd cfg)"
  from boot kernel(1,2) obtain m5 m6 where lk: "load_kernel (he_files env) kpath ?m4 = (m5, True)"
    and li: "(if ?ip = [] then (m5, True) else load_initrd (he_files env) ?ip m5) = (m6, True)"
    and gen: "dtb_generate m6 = (m3, True)"
    by (auto simp: hvf_boot_def Let_def split: prod.splits bool.splits if_splits)
  from load_kernel_done [OF lk fs dst(1) [OF m4]] kernel(3)
  have m5: "m5 = (poke (?p + of_nat 0x400000) kbs ?m4)
      \<lparr>kernel_entry := kGpaKernelLoad + load64 (write_bytes (mem (hst ?m4)) (?p + of_nat 0x400000) kbs) (?p + of_nat 0x400000 + 8)\<rparr>"
    by auto
  have entry: "load64 (write_bytes mm (?p + of_nat 0x400000) kbs) (?p + of_nat 0x400000 + 8) = of_nat (le_val (take 8 (drop 8 kbs)))" for mm
    using write_slice [of 8 8 kbs mm "?p + of_nat 0x400000"] kernel(4,5) by (simp add: load64_def)
  have m5f: "ram_hva m5 = ?p" "ram_gpa m5 = ram_gpa m" "ram_size m5 = ram_size m" by (simp_all add: m5 m4)
  have "\<exists>ibs. m6 = m5 \<and> ?ip = [] \<or> (?ip \<noteq> [] \<and> he_files env ?ip = Some (int (length ibs), ibs)
      \<and> length ibs \<le> unat (ram_size m div 4)
      \<and> m6 = (poke (?p + of_nat 0x8000000) ibs m5)\<lparr>initrd_gpa := kGpaInitrdLoad, initrd_size := of_nat (length ibs)\<rparr>)"
  proof (cases "?ip = []")
    case True
    with li show ?thesis by simp
  next
    case False
    with li have "load_initrd (he_files env) ?ip m5 = (m6, True)" by simp
    from load_initrd_done [OF this fs dst(2) [OF m5f]] False m5f(3) show ?thesis by metis
  qed
  then obtain ibs where m6: "m6 = m5 \<and> ?ip = [] \<or> (?ip \<noteq> [] \<and> he_files env ?ip = Some (int (length ibs), ibs)
      \<and> length ibs \<le> unat (ram_size m div 4)
      \<and> m6 = (poke (?p + of_nat 0x8000000) ibs m5)\<lparr>initrd_gpa := kGpaInitrdLoad, initrd_size := of_nat (length ibs)\<rparr>)"
    by blast
  have m6f: "ram_hva m6 = ?p" "ram_gpa m6 = ram_gpa m" "ram_size m6 = ram_size m" using m6 m5f by auto
  note m3 = dtb_generate_done [OF gen dst(3) [OF m6f]]
  let ?blob = "dtb_blob m6"
  have dec: "fdt_decode ?blob = Some (dtb_calls m3)"
  proof -
    have "fdt_decode ?blob = Some (dtb_calls m6)"
      by (rule dtb_blob_decode [OF m3(1)])
    then show ?thesis unfolding m3(2) by (simp add: dtb_calls_cong)
  qed
  have blob: "read_bytes (mem (hst m3)) ?p (length ?blob) = ?blob"
    unfolding m3(2) using m3(1) by (simp add: read_write_bytes poke_def)
  have keep: "read_bytes (mem (hst m3)) (?p + of_nat j) n = read_bytes (mem (hst m6)) (?p + of_nat j) n"
    if "4194304 \<le> j" "j + n \<le> 2 ^ 64" for j n
    using read_write_apart [of j n 0 ?blob "mem (hst m6)" ?p] that m3 by simp
  have kern: "read_bytes (mem (hst m6)) (?p + of_nat 0x400000) (length kbs) = kbs"
  proof -
    have "read_bytes (mem (hst m5)) (?p + of_nat 0x400000) (length kbs) = kbs"
      unfolding m5 using kernel(5) by (simp add: read_write_bytes)
    moreover have "read_bytes (mem (hst m6)) (?p + of_nat 0x400000) (length kbs) = read_bytes (mem (hst m5)) (?p + of_nat 0x400000) (length kbs)"
    proof (cases "?ip = []")
      case True
      with m6 show ?thesis by simp
    next
      case False
      with m6 have l: "length ibs \<le> unat (ram_size m div 4)"
        and e: "mem (hst m6) = write_bytes (mem (hst m5)) (?p + of_nat 0x8000000) ibs" by auto
      have "0x8000000 + length ibs \<le> 2 ^ 64" using l unat_u64_less [of "ram_size m"] by (simp add: unat_div)
      then show ?thesis unfolding e using kernel(5) by (intro read_write_apart) simp
    qed
    ultimately show ?thesis by simp
  qed
  have ent: "kernel_entry m3 = kGpaKernelLoad + of_nat (le_val (take 8 (drop 8 kbs)))"
  proof -
    have "kernel_entry m3 = kernel_entry m6" by (simp add: m3(2) poke_def)
    also have "\<dots> = kernel_entry m5" using m6 by (auto simp: poke_def)
    finally show ?thesis using entry [of "mem (hst ?m4)"] by (simp add: m5)
  qed
  have ird: "\<exists>ibs. he_files env ipath = Some (int (length ibs), ibs)
          \<and> read_bytes (mem (hst m3)) (?p + of_nat 0x8000000) (length ibs) = ibs \<and> initrd_gpa m3 = kGpaInitrdLoad
          \<and> initrd_size m3 = of_nat (length ibs)" if "?ip = ipath" "ipath \<noteq> []" for ipath
  proof -
    from that m6 have f: "he_files env ipath = Some (int (length ibs), ibs)" and l: "length ibs \<le> unat (ram_size m div 4)"
      and e: "m6 = (poke (?p + of_nat 0x8000000) ibs m5)\<lparr>initrd_gpa := kGpaInitrdLoad, initrd_size := of_nat (length ibs)\<rparr>" by auto
    have l': "0x8000000 + length ibs \<le> 2 ^ 64" using l unat_u64_less [of "ram_size m"] by (simp add: unat_div)
    then have "read_bytes (mem (hst m6)) (?p + of_nat 0x8000000) (length ibs) = ibs" unfolding e by (simp add: read_write_bytes)
    with keep [of "0x8000000" "length ibs"] l' f show ?thesis
      by (intro exI [of _ ibs]) (simp add: m3(2) e poke_def)
  qed
  have "vcpus m3 = vcpus ?m4 \<and> vcpu_count m3 = vcpu_count ?m4 \<and> console_dev m3 = console_dev m \<and> block_dev m3 = block_dev m \<and> net_dev m3 = net_dev m"
    using m6 by (auto simp: m3(2) m5 poke_def init_vcpus_def)
  moreover have "gpu_dev m3 = gpu_dev m \<and> keyboard_dev m3 = keyboard_dev m \<and> tablet_dev m3 = tablet_dev m
      \<and> cmdline m3 = cmdline m \<and> ram_size m3 = ram_size m \<and> pl011 m3 = pl011 m \<and> running m3 = running m"
    using m6 by (auto simp: m3(2) m5 poke_def init_vcpus_def)
  moreover have "initrd_size m3 = initrd_size m" if "?ip = []"
    using m6 that by (auto simp: m3(2) m5 poke_def init_vcpus_def)
  moreover have "dtb_blob m3 = ?blob" unfolding m3(2) by (simp add: dtb_calls_cong)
  moreover have "vcpu_count ?m4 = vcpu_count m" by (simp add: init_vcpus_def)
  moreover have "gpa_to_hva m3 (dtb_gpa m3) = Some ?p" using dst(3) [of m3] m6f by (simp add: m3(2))
  ultimately show ?thesis
    using keep [of "0x400000" "length kbs"] kern ent ird kernel(5) dec blob init_vcpus_ready [OF ok(4)]
    by (auto simp: vcpus_ready_def)
qed

lemma serial_ports_machine:
  assumes "serial_ports cs (m, p) = ((m', p'), chs, ok)"
  shows "\<exists>pl. m' = m\<lparr>pl011 := pl\<rparr>"
  using assms
proof (induction cs arbitrary: m p chs ok)
  case Nil
  then show ?case by (auto intro: exI [of _ "pl011 m"])
next
  case (Cons c cs)
  obtain m1 p1 r where s1: "serial_port c (m, p) = ((m1, p1), r)" by (metis prod.collapse)
  then have m1: "\<exists>pl. m1 = m\<lparr>pl011 := pl\<rparr>"
    by (auto simp: serial_port_def Let_def split: prod.splits if_splits option.splits intro: exI [of _ "pl011 m"])
  show ?case
  proof (cases r)
    case None
    with Cons.prems s1 m1 show ?thesis by simp
  next
    case (Some ch)
    then obtain chs' where "serial_ports cs (m1, p1) = ((m', p'), chs', ok)"
      using Cons.prems s1 by (auto split: prod.splits)
    with Cons.IH m1 show ?thesis by fastforce
  qed
qed

text \<open>The UART writes to a descriptor exactly when there is a port 0: the other end of the pipe that the channel of the port reads.\<close>

lemma serial_ports_uart:
  assumes "serial_ports cs (m, p) = ((m', p'), chs, True)" and "0 \<le> pp_next p"
  shows "if 0 \<in> fst ` set cs then \<exists>ch \<in> set chs. 0 \<le> pl_tx_fd (pl011 m') \<and> (host_read_fd ch, pl_tx_fd (pl011 m')) \<in> set (pp_pairs p')
    else pl011 m' = pl011 m"
proof -
  have "set (pp_pairs p) \<subseteq> set (pp_pairs p') \<and> (if 0 \<in> fst ` set cs then \<exists>ch \<in> set chs. 0 \<le> pl_tx_fd (pl011 m')
      \<and> (host_read_fd ch, pl_tx_fd (pl011 m')) \<in> set (pp_pairs p') else pl011 m' = pl011 m)"
    using assms
  proof (induction cs arbitrary: m p chs)
    case (Cons c cs)
    from Cons.prems(1) obtain s1 ch chs' where c: "serial_port c (m, p) = (s1, Some ch)"
      "serial_ports cs s1 = ((m', p'), chs', True)" "chs = ch # chs'" by (rule serial_ports_Cons)
    obtain m1 p1 where s1: "s1 = (m1, p1)" by fastforce
    have p1: "0 \<le> pp_next p1" "set (pp_pairs p) \<subseteq> set (pp_pairs p1)"
      "if fst c = 0 then 0 \<le> pl_tx_fd (pl011 m1) \<and> (host_read_fd ch, pl_tx_fd (pl011 m1)) \<in> set (pp_pairs p1) else pl011 m1 = pl011 m"
      using c(1) Cons.prems(2) unfolding s1
      by (auto simp: serial_port_def pipe_open_def fd_close_def Let_def split: prod.splits if_splits option.splits)
    show ?case using Cons.IH [OF c(2) [unfolded s1] p1(1)] p1(2,3) c(3) by (auto split: if_splits)
  qed auto
  then show ?thesis by blast
qed

text \<open>
  C1. End to end: a machine that \<^verbatim>\<open>Create\<close> hands out is ready to boot and is the one that was configured. Its handle is the next one; it has the
  CPUs, the memory and the command line of the configuration, and its CPUs exist;
  guest memory holds, at the same time and undamaged by each other, the kernel image at its load address with the entry point in
  it, the initrd at its address when there is one, and a device tree that decodes to the description of this very machine. Of the devices it has the
  console, connected to nothing; the disk, with the image's descriptor and size, exactly when an image is configured; the network device exactly when
  the network is; and neither GPU nor keyboard nor tablet, whatever display is configured. The UART
  writes to the pipe that a serial channel reads exactly when there is a port 0. This takes 171 MiB of RAM and a kernel of at most
  124 MiB.
\<close>

theorem created_machine_boots:
  assumes create: "hvf_create env cfg b = Some (b', Inr h)" and fs: "files_ok (he_files env)"
    and ram: "parse_size (cf_ram_size cfg) = Some ram" "ram_maps env ram hva" "171 * 2 ^ 20 \<le> unat ram" and fds: "0 \<le> pp_next (hv_pipes b)"
    and kernel: "cfg_str (cf_kernel cfg) = kpath" "kpath \<noteq> []" "he_files env kpath = Some (ksz, kbs)" "16 \<le> length kbs" "length kbs \<le> 124 * 2 ^ 20"
  shows "\<exists>inst. hv_vms b' h = Some inst \<and> h = hv_next_id b \<and> (let m = in_ctx inst; mm = mem (hst m) in
      vcpus_ready m \<and> vcpu_count m = of_int (cf_cpu_count cfg) \<and> ram_size m = ram \<and> cmdline m = cfg_str (cf_cmdline cfg) \<and> \<not> running m
      \<and> read_bytes mm (hva + 0x400000) (length kbs) = kbs
      \<and> kernel_entry m = kGpaKernelLoad + of_nat (le_val (take 8 (drop 8 kbs)))
      \<and> (\<forall>ipath. cfg_str (cf_initrd cfg) = ipath \<and> ipath \<noteq> [] \<longrightarrow> (\<exists>ibs. he_files env ipath = Some (int (length ibs), ibs)
          \<and> read_bytes mm (hva + 0x8000000) (length ibs) = ibs \<and> initrd_gpa m = kGpaInitrdLoad \<and> initrd_size m = of_nat (length ibs)))
      \<and> (cfg_str (cf_initrd cfg) = [] \<longrightarrow> initrd_size m = 0)
      \<and> gpa_to_hva m (dtb_gpa m) = Some hva
      \<and> fdt_decode (read_bytes mm hva (length (dtb_blob m))) = Some (dtb_calls m)
      \<and> console_dev m = Some (console_new (-1) (-1))
      \<and> block_dev m = (if cf_image cfg = [] then None else case he_disk env (cf_image cfg) of (fd, sz) \<Rightarrow> Some (block_new fd sz))
      \<and> net_dev m = map_option (\<lambda>forwards. net_new [0x52, 0x54, 0x00, 0x12, 0x34, 0x56]) (cf_network cfg)
      \<and> gpu_dev m = None \<and> keyboard_dev m = None \<and> tablet_dev m = None
      \<and> (if 0 \<in> fst ` set (cf_serial cfg)
         then 0 \<le> pl_tx_fd (pl011 m) \<and> (\<exists>ch \<in> set (in_serial inst). (host_read_fd ch, pl_tx_fd (pl011 m)) \<in> set (pp_pairs (hv_pipes b')))
         else pl_tx_fd (pl011 m) = -1))"
  using create
proof (rule hvf_create_ok)
  fix ram' m1 m2 p chs m3
  let ?m0 = "(vmcontext_new (of_int (cf_cpu_count cfg)) ram' (he_host env))\<lparr>cmdline := cfg_str (cf_cmdline cfg)\<rparr>"
  assume ram': "parse_size (cf_ram_size cfg) = Some ram'" and mi: "memory_init env ?m0 = (m1, True)"
    and sp: "serial_ports (sort_key fst (cf_serial cfg)) (m1, hv_pipes b) = ((m2, p), chs, True)"
    and boot: "hvf_boot env cfg (hvf_devices env cfg m2) = Inr m3" and h: "h = hv_next_id b"
    and vms: "hv_vms b' = (hv_vms b)(h \<mapsto> \<lparr>in_ctx = m3, in_serial = chs\<rparr>)" and p: "hv_pipes b' = p"
  have "ram' = ram" using ram' ram(1) by simp
  from mi have m1: "m1 = set_ram hva kGpaRamBase ram ?m0"
    using ram(2) by (simp add: memory_init_def ram_maps_def vmcontext_new_def \<open>ram' = ram\<close>)
  obtain pl where m2: "m2 = m1\<lparr>pl011 := pl\<rparr>" using serial_ports_machine [OF sp] by blast
  let ?m = "hvf_devices env cfg m2"
  have ram_f: "ram_hva ?m = hva" "ram_gpa ?m = kGpaRamBase" "ram_size ?m = ram" "vcpus ?m = []"
    and dev: "console_dev ?m = Some (console_new (-1) (-1))"
      "block_dev ?m = (if cf_image cfg = [] then None else case he_disk env (cf_image cfg) of (fd, sz) \<Rightarrow> Some (block_new fd sz))"
      "net_dev ?m = map_option (\<lambda>forwards. net_new default_mac) (cf_network cfg)"
      "gpu_dev ?m = None" "keyboard_dev ?m = None" "tablet_dev ?m = None" "initrd_size ?m = 0" "pl011 ?m = pl011 m2"
      "cmdline ?m = cfg_str (cf_cmdline cfg)" "vcpu_count ?m = of_int (cf_cpu_count cfg)" "\<not> running ?m"
    by (auto simp: hvf_devices_def create_console_def create_block_def create_net_def m2 m1 set_ram_def vmcontext_new_def Let_def
        split: option.splits prod.splits)
  have ok: "ram_ok ?m" "171 * 2 ^ 20 \<le> unat (ram_size ?m)"
    using ram(2,3) by (simp_all add: ram_ok_def ram_f ram_maps_def)
  have "pl011 m1 = pl011_init" by (simp add: m1 set_ram_def vmcontext_new_def)
  with serial_ports_uart [OF sp fds]
  have uart: "if 0 \<in> fst ` set (cf_serial cfg) then 0 \<le> pl_tx_fd (pl011 m2) \<and> (\<exists>ch \<in> set chs. (host_read_fd ch, pl_tx_fd (pl011 m2)) \<in> set (pp_pairs p))
      else pl_tx_fd (pl011 m2) = -1" by (auto simp: pl011_init_def split: if_splits)
  note booted = hvf_boot_done [OF boot fs ok(1) ram_f(2) ok(2) ram_f(4) kernel, unfolded ram_f dev]
  show ?thesis
    by (rule exI [of _ "\<lparr>in_ctx = m3, in_serial = chs\<rparr>"]) (use booted h uart in \<open>simp add: vms p Let_def default_mac_def dev\<close>)
qed

section \<open>Witnesses\<close>

text \<open>A host on which every file is the 64-byte image, and a machine with one CPU and one serial port.\<close>

definition demo_env :: "unit hvf_env" where
  "demo_env = \<lparr>he_ram = (\<lambda>_. Some 0x100000000), he_disk = (\<lambda>_. (-1, None)), he_files = (\<lambda>_. Some (64, demo_image)),
     he_host = hst demo_vm, he_client = (\<lambda>_. False), he_reading = (\<lambda>_. True)\<rparr>"

definition demo_config :: vm_config where
  "demo_config = \<lparr>cf_engine = ''hvf'', cf_name = ''demo'', cf_cpu_count = 1, cf_ram_size = ''256MB'', cf_disk_size = [], cf_image = [],
     cf_kernel = Some ''vmlinuz'', cf_initrd = None, cf_cmdline = None, cf_display = None, cf_network = None, cf_serial = [(0, ''tty'')]\<rparr>"

definition demo_pipes :: pipes where
  "demo_pipes = \<lparr>pp_next = 3, pp_open = {}, pp_pairs = [], pp_calls = 0, pp_fails = (\<lambda>_. False)\<rparr>"

lemma demo_config_simps [simp]:
  "cf_engine demo_config = ''hvf''" "cf_cpu_count demo_config = 1" "cf_ram_size demo_config = ''256MB''" "cf_image demo_config = []"
  "cf_kernel demo_config = Some ''vmlinuz''" "cf_initrd demo_config = None" "cf_cmdline demo_config = None"
  "cf_network demo_config = None" "cf_serial demo_config = [(0, ''tty'')]"
  by (simp_all add: demo_config_def)

lemma demo_env_simps [simp]:
  "he_ram demo_env ram = Some 0x100000000" "he_files demo_env = (\<lambda>_. Some (64, demo_image))"
  by (simp_all add: demo_env_def)

lemma demo_ram: "parse_size ''256MB'' = Some 0x10000000"
  using stoull_num_str [of 256 "''MB''"] by (simp add: parse_size_def num_str.simps digit_def is_digit_def char_of_def bit_numeral_rec bit_0)

lemma demo_boot:
  assumes "ram_ok m" "ram_gpa m = kGpaRamBase" "ram_size m = 0x10000000" "vcpu_count m = 1" "cmdline m = []" "initrd_size m = 0"
    "net_dev m = None" "gpu_dev m = None" "keyboard_dev m = None" "tablet_dev m = None"
  shows "\<exists>m'. hvf_boot demo_env demo_config m = Inr m'"
proof -
  let ?m = "init_vcpus m"
  have f: "ram_ok ?m" "ram_gpa ?m = kGpaRamBase" "171 * 2 ^ 20 \<le> unat (ram_size ?m)"
    using assms by (simp_all add: init_vcpus_def ram_ok_def)
  have dst: "gpa_to_hva ?m kGpaKernelLoad = Some (ram_hva m + 0x400000)" "gpa_to_hva ?m kGpaDtbLoad = Some (ram_hva m)"
    using load_dst [OF f(1,2), of kGpaKernelLoad] load_dst [OF f(1,2), of kGpaDtbLoad] f(3) by (simp_all add: init_vcpus_def)
  from demo_load_kernel [OF f] obtain m1 where m1: "load_kernel (he_files demo_env) ''vmlinuz'' ?m = (m1, True)"
    by auto
  have "files_ok (he_files demo_env)" using demo_files(1) by simp
  from load_kernel_done [OF m1 this dst(1)] obtain bs e where e: "m1 = (poke (ram_hva m + 0x400000) bs ?m)\<lparr>kernel_entry := e\<rparr>" by metis
  have "sum_list (map call_cost (dtb_calls m1)) \<le> 4000"
    by (simp add: dtb_unfold e poke_def init_vcpus_def assms)
  with blob_size_bound [of m1] have "length (dtb_blob m1) \<le> 4194304" by linarith
  moreover have "gpa_to_hva (x\<lparr>kernel_entry := e\<rparr>) g = gpa_to_hva x g" for x :: "unit machine" and g by (simp add: gpa_to_hva_def)
  then have "gpa_to_hva m1 kGpaDtbLoad = Some (ram_hva m)" using dst(2) by (simp add: e)
  ultimately have "\<exists>m'. dtb_generate m1 = (m', True)" by (simp add: dtb_generate_def)
  with m1 show ?thesis by (auto simp: hvf_boot_def cfg_str_def)
qed

lemma demo_pipes_ok: "pipes_ok demo_pipes" "pipes_work demo_pipes"
  by (simp_all add: demo_pipes_def pipes_ok_def pipes_work_def)

lemma demo_create:
  assumes "\<not> hv_exists b" and "pipes_work (hv_pipes b)"
  shows "\<exists>b'. hvf_create demo_env demo_config b = Some (b', Inr (hv_next_id b))"
proof -
  let ?ctx = "(vmcontext_new 1 0x10000000 (he_host demo_env))\<lparr>cmdline := []\<rparr>"
  let ?ctx_ram = "set_ram 0x100000000 kGpaRamBase 0x10000000 ?ctx"
  obtain m2 p chs where sp: "serial_ports [(0, ''tty'')] (?ctx_ram, hv_pipes b) = ((m2, p), chs, True)"
    using serial_ports_work [OF assms(2)] by blast
  then obtain pl where m2: "m2 = ?ctx_ram\<lparr>pl011 := pl\<rparr>" using serial_ports_machine by blast
  let ?dev = "hvf_devices demo_env demo_config m2"
  have "\<exists>m'. hvf_boot demo_env demo_config ?dev = Inr m'"
    by (rule demo_boot) (simp_all add: hvf_devices_def create_console_def m2 set_ram_def vmcontext_new_def ram_ok_def)
  then obtain m' where "hvf_boot demo_env demo_config ?dev = Inr m'" ..
  moreover have "memory_init demo_env ?ctx = (?ctx_ram, True)" by (simp add: memory_init_def vmcontext_new_def)
  ultimately show ?thesis
    using assms(1) sp demo_ram by (simp add: hvf_create_def Let_def cfg_str_def del: serial_ports.simps)
qed

theorem failed_create_is_final_witness:
  "\<exists>b1. hvf_create demo_env (demo_config\<lparr>cf_kernel := None, cf_serial := []\<rparr>) (hvf_backend_new demo_pipes) = Some (b1, Inl Missing_Kernel)
    \<and> (\<exists>e'. hvf_create demo_env demo_config b1 = Some (b1, Inl e'))"
proof -
  let ?c = "demo_config\<lparr>cf_kernel := None, cf_serial := []\<rparr>"
  have "\<exists>b1. hvf_create demo_env ?c (hvf_backend_new demo_pipes) = Some (b1, Inl Missing_Kernel)"
    using demo_ram
    by (simp add: hvf_create_def Let_def hvf_backend_new_def memory_init_def hvf_boot_def cfg_str_def unwinds_def split: prod.splits)
  then obtain b1 where b1: "hvf_create demo_env ?c (hvf_backend_new demo_pipes) = Some (b1, Inl Missing_Kernel)" ..
  from failed_create_is_final [OF this] have "\<forall>joins hs b2. fold (\<lambda>h r. Option.bind r (hvf_destroy joins h)) hs (Some b1) = Some b2 \<longrightarrow>
      (\<forall>env' cfg'. \<exists>e'. hvf_create env' cfg' b2 = Some (b2, Inl e'))"
    by (simp add: hvf_backend_new_def)
  from this [rule_format, of "\<lambda>_. True" "[]" b1 demo_env demo_config] b1 show ?thesis by simp
qed

theorem failed_create_hangs_witness:
  "hvf_create demo_env (demo_config\<lparr>cf_kernel := None\<rparr>) (hvf_backend_new demo_pipes) = None"
  by (rule failed_create_hangs [where ram = "0x10000000" and name = "''tty''"])
    (simp_all add: demo_ram cfg_str_def hvf_backend_new_def demo_pipes_ok demo_env_def)

theorem serial_input_lost_witness:
  "\<exists>b' inst. hvf_create demo_env demo_config (hvf_backend_new demo_pipes) = Some (b', Inr 1) \<and> hv_vms b' 1 = Some inst
    \<and> length (in_serial inst) = 1 \<and> (\<forall>ch \<in> set (in_serial inst). no_reader (hv_pipes b') (host_write_fd ch))"
proof -
  obtain b' where b': "hvf_create demo_env demo_config (hvf_backend_new demo_pipes) = Some (b', Inr 1)"
    using demo_create [of "hvf_backend_new demo_pipes"] demo_pipes_ok by (auto simp: hvf_backend_new_def)
  moreover have "pipes_ok (hv_pipes (hvf_backend_new demo_pipes))" by (simp add: hvf_backend_new_def demo_pipes_ok)
  ultimately show ?thesis using serial_input_lost [OF b'] by auto
qed

theorem created_machine_boots_witness:
  "\<exists>b' inst. hvf_create demo_env demo_config (hvf_backend_new demo_pipes) = Some (b', Inr 1) \<and> hv_vms b' 1 = Some inst
    \<and> kernel_entry (in_ctx inst) = 0x40480000 \<and> gpa_to_hva (in_ctx inst) (dtb_gpa (in_ctx inst)) = Some 0x100000000
    \<and> keyboard_dev (in_ctx inst) = None \<and> initrd_size (in_ctx inst) = 0"
proof -
  obtain b' where b': "hvf_create demo_env demo_config (hvf_backend_new demo_pipes) = Some (b', Inr 1)"
    using demo_create [of "hvf_backend_new demo_pipes"] demo_pipes_ok by (auto simp: hvf_backend_new_def)
  have f: "files_ok (he_files demo_env)" "parse_size (cf_ram_size demo_config) = Some 0x10000000" "ram_maps demo_env 0x10000000 0x100000000" "171 * 2 ^ 20 \<le> unat (0x10000000 :: u64)"
    "0 \<le> pp_next (hv_pipes (hvf_backend_new demo_pipes))"
    "cfg_str (cf_kernel demo_config) = ''vmlinuz''" "''vmlinuz'' \<noteq> []" "he_files demo_env ''vmlinuz'' = Some (64, demo_image)" "16 \<le> length demo_image"
    "length demo_image \<le> 124 * 2 ^ 20"
    using demo_files(1) demo_ram by (simp_all add: ram_maps_def demo_image_def cfg_str_def hvf_backend_new_def demo_pipes_def)
  from created_machine_boots [OF b' f] b' show ?thesis
    by (auto simp: Let_def demo_image_def cfg_str_def)
qed

end
