(* ===== verification/Guest_Ram.thy ===== *)
theory Guest_Ram
  imports Backend
begin

text \<open>
  The guest's RAM as an object of the host: \<^verbatim>\<open>Memory::init\<close> (\<^verbatim>\<open>src/src/hvf/memory.cpp\<close>) call by call, with the creation of the
  interrupt controller, and the part of \<^verbatim>\<open>~VMContext\<close> (\<^verbatim>\<open>vm_context.cpp\<close>) that gives it back. \<open>Backend\<close> uses only what
  comes out of it, an address or a failure.
\<close>

section \<open>The calls\<close>

text \<open>
  Calls that return a number fail when it is negative, \<open>None\<close> is \<^verbatim>\<open>MAP_FAILED\<close>, and the calls of Hypervisor.framework return whether the
  result is \<^verbatim>\<open>HV_SUCCESS\<close>.
\<close>

record 'x mem_os =
  mo_shm_unlink :: "'x \<Rightarrow> string \<Rightarrow> 'x"
  mo_shm_open :: "'x \<Rightarrow> string \<Rightarrow> 'x \<times> int"
  mo_ftruncate :: "'x \<Rightarrow> int \<Rightarrow> u64 \<Rightarrow> 'x \<times> int"
  mo_mmap :: "'x \<Rightarrow> int \<Rightarrow> u64 \<Rightarrow> 'x \<times> u64 option"
  mo_munmap :: "'x \<Rightarrow> u64 \<Rightarrow> u64 \<Rightarrow> 'x"
  mo_close :: "'x \<Rightarrow> int \<Rightarrow> 'x"
  mo_vm_map :: "'x \<Rightarrow> u64 \<Rightarrow> u64 \<Rightarrow> u64 \<Rightarrow> 'x \<times> bool"
  mo_vm_unmap :: "'x \<Rightarrow> u64 \<Rightarrow> u64 \<Rightarrow> 'x"
  mo_gic_config :: "'x \<Rightarrow> 'x \<times> nat"
  mo_gic_dist :: "'x \<Rightarrow> nat \<Rightarrow> u64 \<Rightarrow> 'x \<times> bool"
  mo_gic_redist :: "'x \<Rightarrow> nat \<Rightarrow> u64 \<Rightarrow> 'x \<times> bool"
  mo_gic_create :: "'x \<Rightarrow> nat \<Rightarrow> 'x \<times> bool"
  mo_release :: "'x \<Rightarrow> nat \<Rightarrow> 'x"

definition shm_name :: string where
  "shm_name = ''/virtualization-ram''"

definition gic_init :: "'x mem_os \<Rightarrow> 'x \<Rightarrow> 'x \<times> bool" where
  "gic_init os x =
     (case mo_gic_config os x of (x1, cfg) \<Rightarrow>
        (case mo_gic_dist os x1 cfg kGpaGicDist of
           (x2, False) \<Rightarrow> (x2, False)
         | (x2, True) \<Rightarrow>
             (case mo_gic_redist os x2 cfg kGpaGicRedist of
                (x3, False) \<Rightarrow> (x3, False)
              | (x3, True) \<Rightarrow>
                  (case mo_gic_create os x3 cfg of
                     (x4, False) \<Rightarrow> (x4, False)
                   | (x4, True) \<Rightarrow> (mo_release os x4 cfg, True)))))"

text \<open>The machine is paired with its \<^verbatim>\<open>ram_shm_path_\<close>.\<close>

definition ram_init :: "'x mem_os \<Rightarrow> 'e machine \<times> string \<Rightarrow> 'x \<Rightarrow> ('e machine \<times> string) \<times> 'x \<times> bool" where
  "ram_init os ctx x =
     (let sz = ram_size (fst ctx)
      in case mo_shm_open os (mo_shm_unlink os x shm_name) shm_name of (x1, fd) \<Rightarrow>
        if fd < 0 then (ctx, x1, False)
        else
          (case mo_ftruncate os x1 fd sz of (x2, r) \<Rightarrow>
            if r < 0 then (ctx, mo_shm_unlink os (mo_close os x2 fd) shm_name, False)
            else
              (case mo_mmap os x2 fd sz of
                 (x3, None) \<Rightarrow> (ctx, mo_shm_unlink os (mo_close os x3 fd) shm_name, False)
               | (x3, Some hva) \<Rightarrow>
                   (let ctx' = (set_ram hva kGpaRamBase sz (fst ctx), shm_name)
                    in case mo_vm_map os (mo_close os x3 fd) hva kGpaRamBase sz of
                         (x4, False) \<Rightarrow> (ctx', x4, False)
                       | (x4, True) \<Rightarrow> (case gic_init os x4 of (x5, ok) \<Rightarrow> (ctx', x5, ok))))))"

text \<open>The end of \<^verbatim>\<open>~VMContext\<close>, after the devices are gone.\<close>

definition ram_release :: "'x mem_os \<Rightarrow> 'e machine \<times> string \<Rightarrow> 'x \<Rightarrow> 'x" where
  "ram_release os ctx x =
     (let m = fst ctx;
          x1 = (if ram_hva m \<noteq> 0 then mo_munmap os (mo_vm_unmap os x (ram_gpa m) (ram_size m)) (ram_hva m) (ram_size m) else x)
      in if snd ctx \<noteq> [] then mo_shm_unlink os x1 (snd ctx) else x1)"

section \<open>Resources\<close>

text \<open>What a process holds: descriptors, names of shared memory, mappings (address and size), the guest's mappings, live configuration objects.\<close>

record mem_res =
  mr_fds :: "int set"
  mr_names :: "string set"
  mr_maps :: "(u64 \<times> u64) set"
  mr_guest :: "(u64 \<times> u64) set"
  mr_cfgs :: nat

text \<open>What is relied on of the calls: each makes or gives back what its name says, only when it succeeds, and nothing else.\<close>

definition shm_laws :: "'x mem_os \<Rightarrow> ('x \<Rightarrow> mem_res) \<Rightarrow> bool" where
  "shm_laws os res \<longleftrightarrow>
     (\<forall>x p. res (mo_shm_unlink os x p) = (res x)\<lparr>mr_names := mr_names (res x) - {p}\<rparr>)
     \<and> (\<forall>x p x' fd. mo_shm_open os x p = (x', fd) \<longrightarrow> fd < 0 \<longrightarrow> res x' = res x)
     \<and> (\<forall>x p x' fd. mo_shm_open os x p = (x', fd) \<longrightarrow> 0 \<le> fd \<longrightarrow> fd \<notin> mr_fds (res x)
          \<and> res x' = (res x)\<lparr>mr_fds := insert fd (mr_fds (res x)), mr_names := insert p (mr_names (res x))\<rparr>)
     \<and> (\<forall>x fd n x' r. mo_ftruncate os x fd n = (x', r) \<longrightarrow> res x' = res x)
     \<and> (\<forall>x fd n x'. mo_mmap os x fd n = (x', None) \<longrightarrow> res x' = res x)
     \<and> (\<forall>x fd n x' a. mo_mmap os x fd n = (x', Some a) \<longrightarrow>
          a \<noteq> 0 \<and> (a, n) \<notin> mr_maps (res x) \<and> res x' = (res x)\<lparr>mr_maps := insert (a, n) (mr_maps (res x))\<rparr>)
     \<and> (\<forall>x a n. res (mo_munmap os x a n) = (res x)\<lparr>mr_maps := mr_maps (res x) - {(a, n)}\<rparr>)
     \<and> (\<forall>x fd. res (mo_close os x fd) = (res x)\<lparr>mr_fds := mr_fds (res x) - {fd}\<rparr>)"

definition hv_laws :: "'x mem_os \<Rightarrow> ('x \<Rightarrow> mem_res) \<Rightarrow> bool" where
  "hv_laws os res \<longleftrightarrow>
     (\<forall>x a g n x'. mo_vm_map os x a g n = (x', False) \<longrightarrow> res x' = res x)
     \<and> (\<forall>x a g n x'. mo_vm_map os x a g n = (x', True) \<longrightarrow> res x' = (res x)\<lparr>mr_guest := insert (g, n) (mr_guest (res x))\<rparr>)
     \<and> (\<forall>x g n. res (mo_vm_unmap os x g n) = (res x)\<lparr>mr_guest := mr_guest (res x) - {(g, n)}\<rparr>)
     \<and> (\<forall>x x' c. mo_gic_config os x = (x', c) \<longrightarrow> res x' = (res x)\<lparr>mr_cfgs := mr_cfgs (res x) + 1\<rparr>)
     \<and> (\<forall>x c a x' k. mo_gic_dist os x c a = (x', k) \<longrightarrow> res x' = res x)
     \<and> (\<forall>x c a x' k. mo_gic_redist os x c a = (x', k) \<longrightarrow> res x' = res x)
     \<and> (\<forall>x c x' k. mo_gic_create os x c = (x', k) \<longrightarrow> res x' = res x)
     \<and> (\<forall>x c. res (mo_release os x c) = (res x)\<lparr>mr_cfgs := mr_cfgs (res x) - 1\<rparr>)"

lemma shm_lawsD:
  assumes "shm_laws os res"
  shows "res (mo_shm_unlink os x p) = (res x)\<lparr>mr_names := mr_names (res x) - {p}\<rparr>"
    "mo_shm_open os x p = (x', fd) \<Longrightarrow> fd < 0 \<Longrightarrow> res x' = res x"
    "mo_shm_open os x p = (x', fd) \<Longrightarrow> 0 \<le> fd \<Longrightarrow> fd \<notin> mr_fds (res x)
      \<and> res x' = (res x)\<lparr>mr_fds := insert fd (mr_fds (res x)), mr_names := insert p (mr_names (res x))\<rparr>"
    "mo_ftruncate os x fd n = (x', r) \<Longrightarrow> res x' = res x"
    "mo_mmap os x fd n = (x', None) \<Longrightarrow> res x' = res x"
    "mo_mmap os x fd n = (x', Some a) \<Longrightarrow>
      a \<noteq> 0 \<and> (a, n) \<notin> mr_maps (res x) \<and> res x' = (res x)\<lparr>mr_maps := insert (a, n) (mr_maps (res x))\<rparr>"
    "res (mo_munmap os x a n) = (res x)\<lparr>mr_maps := mr_maps (res x) - {(a, n)}\<rparr>"
    "res (mo_close os x fd) = (res x)\<lparr>mr_fds := mr_fds (res x) - {fd}\<rparr>"
proof -
  note l = assms [unfolded shm_laws_def]
  show "res (mo_shm_unlink os x p) = (res x)\<lparr>mr_names := mr_names (res x) - {p}\<rparr>"
    "mo_shm_open os x p = (x', fd) \<Longrightarrow> fd < 0 \<Longrightarrow> res x' = res x"
    "mo_shm_open os x p = (x', fd) \<Longrightarrow> 0 \<le> fd \<Longrightarrow> fd \<notin> mr_fds (res x)
      \<and> res x' = (res x)\<lparr>mr_fds := insert fd (mr_fds (res x)), mr_names := insert p (mr_names (res x))\<rparr>"
    "mo_ftruncate os x fd n = (x', r) \<Longrightarrow> res x' = res x"
    "mo_mmap os x fd n = (x', None) \<Longrightarrow> res x' = res x"
    "mo_mmap os x fd n = (x', Some a) \<Longrightarrow>
      a \<noteq> 0 \<and> (a, n) \<notin> mr_maps (res x) \<and> res x' = (res x)\<lparr>mr_maps := insert (a, n) (mr_maps (res x))\<rparr>"
    "res (mo_munmap os x a n) = (res x)\<lparr>mr_maps := mr_maps (res x) - {(a, n)}\<rparr>"
    "res (mo_close os x fd) = (res x)\<lparr>mr_fds := mr_fds (res x) - {fd}\<rparr>"
    by (fact l [THEN conjunct1, rule_format]
      | fact l [THEN conjunct2, THEN conjunct1, rule_format]
      | fact l [THEN conjunct2, THEN conjunct2, THEN conjunct1, rule_format]
      | fact l [THEN conjunct2, THEN conjunct2, THEN conjunct2, THEN conjunct1, rule_format]
      | fact l [THEN conjunct2, THEN conjunct2, THEN conjunct2, THEN conjunct2, THEN conjunct1, rule_format]
      | fact l [THEN conjunct2, THEN conjunct2, THEN conjunct2, THEN conjunct2, THEN conjunct2, THEN conjunct1, rule_format]
      | fact l [THEN conjunct2, THEN conjunct2, THEN conjunct2, THEN conjunct2, THEN conjunct2, THEN conjunct2, THEN conjunct1, rule_format]
      | fact l [THEN conjunct2, THEN conjunct2, THEN conjunct2, THEN conjunct2, THEN conjunct2, THEN conjunct2, THEN conjunct2, rule_format])+
qed

lemma hv_lawsD:
  assumes "hv_laws os res"
  shows "mo_vm_map os x a g n = (x', False) \<Longrightarrow> res x' = res x"
    "mo_vm_map os x a g n = (x', True) \<Longrightarrow> res x' = (res x)\<lparr>mr_guest := insert (g, n) (mr_guest (res x))\<rparr>"
    "res (mo_vm_unmap os x g n) = (res x)\<lparr>mr_guest := mr_guest (res x) - {(g, n)}\<rparr>"
    "mo_gic_config os x = (x', c) \<Longrightarrow> res x' = (res x)\<lparr>mr_cfgs := mr_cfgs (res x) + 1\<rparr>"
    "mo_gic_dist os x c b = (x', k) \<Longrightarrow> res x' = res x"
    "mo_gic_redist os x c b = (x', k) \<Longrightarrow> res x' = res x"
    "mo_gic_create os x c = (x', k) \<Longrightarrow> res x' = res x"
    "res (mo_release os x c) = (res x)\<lparr>mr_cfgs := mr_cfgs (res x) - 1\<rparr>"
proof -
  note l = assms [unfolded hv_laws_def]
  show "mo_vm_map os x a g n = (x', False) \<Longrightarrow> res x' = res x"
    "mo_vm_map os x a g n = (x', True) \<Longrightarrow> res x' = (res x)\<lparr>mr_guest := insert (g, n) (mr_guest (res x))\<rparr>"
    "res (mo_vm_unmap os x g n) = (res x)\<lparr>mr_guest := mr_guest (res x) - {(g, n)}\<rparr>"
    "mo_gic_config os x = (x', c) \<Longrightarrow> res x' = (res x)\<lparr>mr_cfgs := mr_cfgs (res x) + 1\<rparr>"
    "mo_gic_dist os x c b = (x', k) \<Longrightarrow> res x' = res x"
    "mo_gic_redist os x c b = (x', k) \<Longrightarrow> res x' = res x"
    "mo_gic_create os x c = (x', k) \<Longrightarrow> res x' = res x"
    "res (mo_release os x c) = (res x)\<lparr>mr_cfgs := mr_cfgs (res x) - 1\<rparr>"
    by (fact l [THEN conjunct1, rule_format]
      | fact l [THEN conjunct2, THEN conjunct1, rule_format]
      | fact l [THEN conjunct2, THEN conjunct2, THEN conjunct1, rule_format]
      | fact l [THEN conjunct2, THEN conjunct2, THEN conjunct2, THEN conjunct1, rule_format]
      | fact l [THEN conjunct2, THEN conjunct2, THEN conjunct2, THEN conjunct2, THEN conjunct1, rule_format]
      | fact l [THEN conjunct2, THEN conjunct2, THEN conjunct2, THEN conjunct2, THEN conjunct2, THEN conjunct1, rule_format]
      | fact l [THEN conjunct2, THEN conjunct2, THEN conjunct2, THEN conjunct2, THEN conjunct2, THEN conjunct2, THEN conjunct1, rule_format]
      | fact l [THEN conjunct2, THEN conjunct2, THEN conjunct2, THEN conjunct2, THEN conjunct2, THEN conjunct2, THEN conjunct2, rule_format])+
qed

lemma gic_init_res:
  assumes "hv_laws os res" and "gic_init os x = (x', ok)"
  shows "res x' = (if ok then res x else (res x)\<lparr>mr_cfgs := mr_cfgs (res x) + 1\<rparr>)"
proof -
  obtain x1 c where 1: "mo_gic_config os x = (x1, c)" by fastforce
  obtain x2 k2 where 2: "mo_gic_dist os x1 c kGpaGicDist = (x2, k2)" by fastforce
  obtain x3 k3 where 3: "mo_gic_redist os x2 c kGpaGicRedist = (x3, k3)" by fastforce
  obtain x4 k4 where 4: "mo_gic_create os x3 c = (x4, k4)" by fastforce
  have r: "res x1 = (res x)\<lparr>mr_cfgs := mr_cfgs (res x) + 1\<rparr>" "res x2 = res x1" "res x3 = res x2" "res x4 = res x3"
    by (rule hv_lawsD [OF assms(1)], fact)+
  have "res (mo_release os x4 c) = (res x4)\<lparr>mr_cfgs := mr_cfgs (res x4) - 1\<rparr>" by (rule hv_lawsD [OF assms(1)])
  with r assms(2) show ?thesis by (auto simp: gic_init_def 1 2 3 4 split: if_splits bool.splits)
qed

text \<open>
  C34. RAM is given back on every path. Whatever call of \<^verbatim>\<open>Memory::init\<close> fails, or none: it leaves no descriptor open, and once the machine is
  destroyed its mappings, on the host and for the guest, and the name of the shared memory are gone. Only a
  failure while the interrupt controller is set up leaves something behind, the configuration object. After a success RAM is mapped at the
  address that the machine holds, and \<open>memory_init\<close> of the backend says the same.
\<close>

theorem ram_given_back:
  assumes laws: "shm_laws os res" "hv_laws os res" and new: "ram_hva m = 0" "(kGpaRamBase, ram_size m) \<notin> mr_guest (res x)"
    and init: "ram_init os (m, []) x = ((m', p), x', ok)" and release: "x'' = ram_release os (m', p) x'"
  shows "mr_fds (res x') = mr_fds (res x) \<and> mr_fds (res x'') = mr_fds (res x) \<and> mr_maps (res x'') = mr_maps (res x)
    \<and> mr_guest (res x'') = mr_guest (res x) \<and> mr_names (res x'') = mr_names (res x) - {shm_name}
    \<and> mr_cfgs (res x'') \<le> mr_cfgs (res x) + 1
    \<and> (ok \<longrightarrow> mr_cfgs (res x'') = mr_cfgs (res x) \<and> (ram_hva m', ram_size m) \<in> mr_maps (res x')
        \<and> (kGpaRamBase, ram_size m) \<in> mr_guest (res x') \<and> memory_init (env\<lparr>he_ram := (\<lambda>_. Some (ram_hva m'))\<rparr>) m = (m', True))"
proof -
  note unlink = shm_lawsD(1) [OF laws(1)] and close = shm_lawsD(8) [OF laws(1)] and munmap = shm_lawsD(7) [OF laws(1)]
    and unmap = hv_lawsD(3) [OF laws(2)]
  let ?sz = "ram_size m"
  obtain x1 fd where o: "mo_shm_open os (mo_shm_unlink os x shm_name) shm_name = (x1, fd)" by fastforce
  then have x1: "fd < 0 \<Longrightarrow> res x1 = res (mo_shm_unlink os x shm_name)"
    "0 \<le> fd \<Longrightarrow> fd \<notin> mr_fds (res (mo_shm_unlink os x shm_name)) \<and> res x1 = (res (mo_shm_unlink os x shm_name))
      \<lparr>mr_fds := insert fd (mr_fds (res (mo_shm_unlink os x shm_name))), mr_names := insert shm_name (mr_names (res (mo_shm_unlink os x shm_name)))\<rparr>"
    by (auto dest: shm_lawsD(2,3) [OF laws(1)])
  show ?thesis
  proof (cases "fd < 0")
    case True
    then show ?thesis using init release x1 new(1) by (auto simp: ram_init_def o ram_release_def unlink Let_def)
  next
    case False
    obtain x2 r where t: "mo_ftruncate os x1 fd ?sz = (x2, r)" by fastforce
    then have x2: "res x2 = res x1" by (rule shm_lawsD(4) [OF laws(1)])
    obtain x3 h where mm: "mo_mmap os x2 fd ?sz = (x3, h)" by fastforce
    then have x3: "h = None \<Longrightarrow> res x3 = res x2"
      "\<And>a. h = Some a \<Longrightarrow> a \<noteq> 0 \<and> (a, ?sz) \<notin> mr_maps (res x2) \<and> res x3 = (res x2)\<lparr>mr_maps := insert (a, ?sz) (mr_maps (res x2))\<rparr>"
      by (auto dest: shm_lawsD(5,6) [OF laws(1)])
    show ?thesis
    proof (cases "r < 0 \<or> h = None")
      case True
      then show ?thesis using init release x1 x2 x3 new(1) False
        by (auto simp: ram_init_def o t mm ram_release_def unlink close Let_def split: if_splits)
    next
      case ok: False
      then obtain a where a: "h = Some a" by blast
      obtain x4 k where v: "mo_vm_map os (mo_close os x3 fd) a kGpaRamBase ?sz = (x4, k)" by fastforce
      then have x4: "\<not> k \<Longrightarrow> res x4 = res (mo_close os x3 fd)"
        "k \<Longrightarrow> res x4 = (res (mo_close os x3 fd))\<lparr>mr_guest := insert (kGpaRamBase, ?sz) (mr_guest (res (mo_close os x3 fd)))\<rparr>"
        by (auto dest: hv_lawsD(1,2) [OF laws(2)])
      obtain x5 g where gi: "gic_init os x4 = (x5, g)" by fastforce
      note x5 = gic_init_res [OF laws(2) gi]
      have m': "m' = set_ram a kGpaRamBase ?sz m" "p = shm_name" "x' = (if k then x5 else x4)" "ok \<longleftrightarrow> k \<and> g"
        using init ok a False by (auto simp: ram_init_def o t mm v gi Let_def split: bool.splits)
      have "memory_init (env\<lparr>he_ram := (\<lambda>_. Some (ram_hva m'))\<rparr>) m = (m', True)" by (simp add: memory_init_def m'(1) set_ram_def)
      then show ?thesis
        using x1 x2 x3 x4 x5 a False new m'(3,4) release
        by (auto simp: m'(1,2) set_ram_def ram_release_def unlink close munmap unmap shm_name_def Let_def)
    qed
  qed
qed

section \<open>Witness\<close>

text \<open>A host with one free descriptor and one free address, whose GIC cannot be created when \<open>gic\<close> is false.\<close>

definition demo_mem_os :: "bool \<Rightarrow> mem_res mem_os" where
  "demo_mem_os gic = \<lparr>mo_shm_unlink = (\<lambda>x p. x\<lparr>mr_names := mr_names x - {p}\<rparr>),
     mo_shm_open = (\<lambda>x p. if 7 \<in> mr_fds x then (x, -1)
        else (x\<lparr>mr_fds := insert 7 (mr_fds x), mr_names := insert p (mr_names x)\<rparr>, 7)),
     mo_ftruncate = (\<lambda>x fd n. (x, 0)),
     mo_mmap = (\<lambda>x fd n. if (0x1000, n) \<in> mr_maps x then (x, None)
        else (x\<lparr>mr_maps := insert (0x1000, n) (mr_maps x)\<rparr>, Some 0x1000)),
     mo_munmap = (\<lambda>x a n. x\<lparr>mr_maps := mr_maps x - {(a, n)}\<rparr>), mo_close = (\<lambda>x fd. x\<lparr>mr_fds := mr_fds x - {fd}\<rparr>),
     mo_vm_map = (\<lambda>x a g n. (x\<lparr>mr_guest := insert (g, n) (mr_guest x)\<rparr>, True)),
     mo_vm_unmap = (\<lambda>x g n. x\<lparr>mr_guest := mr_guest x - {(g, n)}\<rparr>),
     mo_gic_config = (\<lambda>x. (x\<lparr>mr_cfgs := mr_cfgs x + 1\<rparr>, 0)), mo_gic_dist = (\<lambda>x c a. (x, True)), mo_gic_redist = (\<lambda>x c a. (x, True)),
     mo_gic_create = (\<lambda>x c. (x, gic)), mo_release = (\<lambda>x c. x\<lparr>mr_cfgs := mr_cfgs x - 1\<rparr>)\<rparr>"

lemma demo_mem_laws: "shm_laws (demo_mem_os gic) (\<lambda>x. x)" "hv_laws (demo_mem_os gic) (\<lambda>x. x)"
  by (auto simp: shm_laws_def hv_laws_def demo_mem_os_def split: if_splits)

theorem ram_given_back_witness:
  "\<exists>m' p x'. ram_init (demo_mem_os True) (vmcontext_new 1 0x10000000 demo_host, []) \<lparr>mr_fds = {}, mr_names = {''a''}, mr_maps = {}, mr_guest = {}, mr_cfgs = 0\<rparr>
      = ((m', p), x', True)
    \<and> ram_release (demo_mem_os True) (m', p) x' = \<lparr>mr_fds = {}, mr_names = {''a''}, mr_maps = {}, mr_guest = {}, mr_cfgs = 0\<rparr>"
proof -
  let ?m = "vmcontext_new 1 0x10000000 demo_host" and ?x = "\<lparr>mr_fds = {}, mr_names = {''a''}, mr_maps = {}, mr_guest = {}, mr_cfgs = 0\<rparr>"
  obtain m' p x' where i: "ram_init (demo_mem_os True) (?m, []) ?x = ((m', p), x', True)"
    by (simp add: ram_init_def gic_init_def demo_mem_os_def vmcontext_new_def Let_def)
  from ram_given_back [OF demo_mem_laws _ _ i refl] show ?thesis
    by (intro exI [of _ m'] exI [of _ p] exI [of _ x'] conjI i mem_res.equality)
      (simp_all add: vmcontext_new_def shm_name_def)
qed

end
