(* ===== verification/Vz.thy ===== *)
theory Vz
  imports Backend
begin

text \<open>
  The backend of Virtualization.framework (\<^verbatim>\<open>src/src/vz/vz_backend.mm\<close>, \<^verbatim>\<open>vz_backend.hpp\<close>): how it turns a configuration into one of
  the framework, connects the serial ports, starts the machine and keeps it. The framework is a parameter. Strings hold no NUL.
\<close>

section \<open>The framework\<close>

datatype vz_boot = Linux_Boot string "string option" "string option" | Efi_Boot string bool

text \<open>\<^verbatim>\<open>VZVirtualMachineConfiguration\<close>. A port has the descriptors the guest reads and writes, and whether it is the console.\<close>

record vz_config =
  vc_cpus :: int
  vc_memory :: u64
  vc_boot :: "vz_boot option"
  vc_disk :: "string option"
  vc_display :: "(int \<times> int) option"
  vc_nat :: bool
  vc_ports :: "int \<Rightarrow> (int \<times> int \<times> bool) option"

text \<open>
  Calls that report an \<^verbatim>\<open>NSError\<close> give \<open>False\<close>. \<open>vo_start\<close> and \<open>vo_stop\<close> are \<open>None\<close> when the completion handler is never called;
  a start gives the machine or an error. \<open>vo_eof\<close> says whether the framework's ends of the pipes are released before the channels
  when an exception unwinds \<^verbatim>\<open>Create\<close>, \<open>vo_reading\<close> of which channels the pump has then passed its last test of the stop request, and
  \<open>vo_client\<close> to which channels a client connects.
\<close>

record 'x vz_host =
  vo_strip_ext :: "string \<Rightarrow> string"
  vo_exists :: "'x \<Rightarrow> string \<Rightarrow> bool"
  vo_nvram_new :: "'x \<Rightarrow> string \<Rightarrow> 'x \<times> bool"
  vo_disk :: "'x \<Rightarrow> string \<Rightarrow> 'x \<times> bool"
  vo_valid :: "vz_config \<Rightarrow> bool"
  vo_start :: "'x \<Rightarrow> vz_config \<Rightarrow> ('x \<times> nat option) option"
  vo_stop :: "'x \<Rightarrow> nat \<Rightarrow> 'x option"
  vo_eof :: bool
  vo_client :: "string \<Rightarrow> bool"
  vo_reading :: "serial_channel \<Rightarrow> bool"

section \<open>State\<close>

record 'x vz_backend =
  vz_vms :: "u64 \<Rightarrow> nat option"
  vz_channels :: "u64 \<Rightarrow> serial_channel list option"
  vz_next_id :: u64
  vz_pipes :: pipes
  vz_world :: 'x

definition vz_backend_new :: "pipes \<Rightarrow> 'x \<Rightarrow> 'x vz_backend" where
  "vz_backend_new p x = \<lparr>vz_vms = (\<lambda>_. None), vz_channels = (\<lambda>_. None), vz_next_id = 1, vz_pipes = p, vz_world = x\<rparr>"

datatype vz_error = Size_Failed | Nvram_Failed | Disk_Failed | Vz_Pipe_Failed | Invalid_Config | Start_Failed

section \<open>Creation\<close>

definition is_ipsw :: "string \<Rightarrow> bool" where
  "is_ipsw path \<longleftrightarrow> 5 \<le> length path \<and> drop (length path - 5) path = ''.ipsw''"

definition vz_bootloader :: "'x vz_host \<Rightarrow> vm_config \<Rightarrow> 'x \<Rightarrow> 'x \<times> (vz_error + vz_boot option)" where
  "vz_bootloader os cfg x =
     (let kernel_path = cfg_str (cf_kernel cfg); initrd_path = cfg_str (cf_initrd cfg); cmdline = cfg_str (cf_cmdline cfg)
      in if kernel_path \<noteq> [] then
           (x, Inr (Some (Linux_Boot kernel_path (if initrd_path \<noteq> [] then Some initrd_path else None)
                            (if cmdline \<noteq> [] then Some cmdline else None))))
         else if is_ipsw (cf_image cfg) then (x, Inr None)
         else
           (let nvram_path = vo_strip_ext os (cf_image cfg) @ ''.nvram''
            in if vo_exists os x nvram_path then (x, Inr (Some (Efi_Boot nvram_path False)))
               else (case vo_nvram_new os x nvram_path of
                       (x1, False) \<Rightarrow> (x1, Inl Nvram_Failed)
                     | (x1, True) \<Rightarrow> (x1, Inr (Some (Efi_Boot nvram_path True))))))"

text \<open>One serial port: the framework gets the read end of one pipe and the write end of the other, the backend keeps the others.\<close>

definition vz_port :: "int \<times> string \<Rightarrow> (int \<Rightarrow> (int \<times> int \<times> bool) option) \<times> pipes
    \<Rightarrow> ((int \<Rightarrow> (int \<times> int \<times> bool) option) \<times> pipes) \<times> serial_channel option" where
  "vz_port cfg s =
     (case cfg of (port_idx, channel_name) \<Rightarrow>
      (case pipe_open (snd s) of
         (None, p1) \<Rightarrow> ((fst s, p1), None)
       | (Some (to_r, to_w), p1) \<Rightarrow>
      (case pipe_open p1 of
         (None, p2) \<Rightarrow> ((fst s, p2), None)
       | (Some (from_r, from_w), p2) \<Rightarrow>
        (((fst s)(port_idx \<mapsto> (to_r, from_w, port_idx = 0)), p2),
         Some \<lparr>host_write_fd = to_w, host_read_fd = from_r, ch_name = channel_name\<rparr>))))"

fun vz_ports :: "(int \<times> string) list \<Rightarrow> (int \<Rightarrow> (int \<times> int \<times> bool) option) \<times> pipes
    \<Rightarrow> ((int \<Rightarrow> (int \<times> int \<times> bool) option) \<times> pipes) \<times> serial_channel list \<times> bool" where
  "vz_ports [] s = (s, [], True)"
| "vz_ports (c # cs) s =
     (case vz_port c s of
        (s1, None) \<Rightarrow> (s1, [], False)
      | (s1, Some ch) \<Rightarrow> (case vz_ports cs s1 of (s2, chs, ok) \<Rightarrow> (s2, ch # chs, ok)))"

lemma vz_ports_Cons:
  assumes "vz_ports (c # cs) s = (s', chs, True)"
  obtains s1 ch chs' where "vz_port c s = (s1, Some ch)" "vz_ports cs s1 = (s', chs', True)" "chs = ch # chs'"
  using assms by (auto split: prod.splits option.splits)

text \<open>
  The configuration for the framework, from the start of \<^verbatim>\<open>Create\<close> up to the validation. With an error come the channels that the exception
  destroys.
\<close>

definition vz_configure :: "'x vz_host \<Rightarrow> vm_config \<Rightarrow> 'x vz_backend
    \<Rightarrow> 'x vz_backend \<times> (vz_error \<times> serial_channel list + vz_config \<times> serial_channel list)" where
  "vz_configure os cfg b =
     (case (parse_size (cf_ram_size cfg), parse_size (cf_disk_size cfg)) of
        (Some ram_bytes, Some disk_bytes) \<Rightarrow>
          (case vz_bootloader os cfg (vz_world b) of
             (x1, Inl e) \<Rightarrow> (b\<lparr>vz_world := x1\<rparr>, Inl (e, []))
           | (x1, Inr boot) \<Rightarrow>
               (case (if cf_image cfg = [] then (x1, True) else vo_disk os x1 (cf_image cfg)) of
                  (x2, False) \<Rightarrow> (b\<lparr>vz_world := x2\<rparr>, Inl (Disk_Failed, []))
                | (x2, True) \<Rightarrow>
                    (case vz_ports (sort_key fst (cf_serial cfg)) ((\<lambda>_. None), vz_pipes b) of
                       ((ports, p), chs, False) \<Rightarrow> (b\<lparr>vz_world := x2, vz_pipes := p\<rparr>, Inl (Vz_Pipe_Failed, chs))
                     | ((ports, p), chs, True) \<Rightarrow>
                         (b\<lparr>vz_world := x2, vz_pipes := p\<rparr>,
                          Inr (\<lparr>vc_cpus = cf_cpu_count cfg, vc_memory = ram_bytes, vc_boot = boot,
                                vc_disk = (if cf_image cfg = [] then None else Some (cf_image cfg)),
                                vc_display = cf_display cfg, vc_nat = True, vc_ports = ports\<rparr>, chs)))))
      | _ \<Rightarrow> (b, Inl (Size_Failed, [])))"

definition vz_unwinds :: "'x vz_host \<Rightarrow> serial_channel list \<Rightarrow> bool" where
  "vz_unwinds os chs \<longleftrightarrow> (\<forall>ch \<in> set chs. (vo_reading os ch \<longrightarrow> vo_eof os) \<and> vo_client os (ch_name ch))"

text \<open>\<^verbatim>\<open>VzBackend::Create\<close>. \<open>None\<close>: it does not return, since the framework does not answer or an exception joins a channel for ever.\<close>

definition vz_create :: "'x vz_host \<Rightarrow> vm_config \<Rightarrow> 'x vz_backend \<Rightarrow> ('x vz_backend \<times> (vz_error + u64)) option" where
  "vz_create os cfg b =
     (case vz_configure os cfg b of
        (b1, Inl (e, chs)) \<Rightarrow> if vz_unwinds os chs then Some (b1, Inl e) else None
      | (b1, Inr (vc, chs)) \<Rightarrow>
          if \<not> vo_valid os vc then (if vz_unwinds os chs then Some (b1, Inl Invalid_Config) else None)
          else
            (case vo_start os (vz_world b1) vc of
               None \<Rightarrow> None
             | Some (x, None) \<Rightarrow> if vz_unwinds os chs then Some (b1\<lparr>vz_world := x\<rparr>, Inl Start_Failed) else None
             | Some (x, Some machine) \<Rightarrow>
                 (let handle = vz_next_id b1
                  in Some (b1\<lparr>vz_world := x, vz_next_id := handle + 1, vz_vms := (vz_vms b1)(handle \<mapsto> machine),
                             vz_channels := (if chs = [] then vz_channels b1 else (vz_channels b1)(handle \<mapsto> chs))\<rparr>,
                           Inr handle))))"

section \<open>Destruction\<close>

text \<open>\<open>joins\<close> says whether the two threads of a channel whose descriptors are closed end.\<close>

definition vz_close_serial :: "(serial_channel \<Rightarrow> bool) \<Rightarrow> u64 \<Rightarrow> 'x vz_backend \<Rightarrow> 'x vz_backend option" where
  "vz_close_serial joins handle b =
     (case vz_channels b handle of
        None \<Rightarrow> Some b
      | Some chs \<Rightarrow>
          if list_all joins chs
          then Some (b\<lparr>vz_channels := (vz_channels b)(handle := None),
                       vz_pipes := fold (\<lambda>ch p. fd_close (host_write_fd ch) (fd_close (host_read_fd ch) p)) chs (vz_pipes b)\<rparr>)
          else None)"

definition vz_destroy :: "'x vz_host \<Rightarrow> (serial_channel \<Rightarrow> bool) \<Rightarrow> u64 \<Rightarrow> 'x vz_backend \<Rightarrow> 'x vz_backend option" where
  "vz_destroy os joins handle b =
     (case vz_close_serial joins handle b of
        None \<Rightarrow> None
      | Some b1 \<Rightarrow>
          (case vz_vms b1 handle of
             None \<Rightarrow> Some b1
           | Some machine \<Rightarrow>
               map_option (\<lambda>x. b1\<lparr>vz_world := x, vz_vms := (vz_vms b1)(handle := None)\<rparr>) (vo_stop os (vz_world b1) machine)))"

section \<open>Serial ports are connected both ways\<close>

lemma pipe_open_grows:
  assumes "pipe_open p = (Some (r, w), p')"
  shows "(r, w) \<in> set (pp_pairs p')" "{r, w} \<subseteq> pp_open p'" "set (pp_pairs p) \<subseteq> set (pp_pairs p')" "pp_open p \<subseteq> pp_open p'"
  using assms by (auto simp: pipe_open_def Let_def split: if_splits)

text \<open>The port \<open>q\<close> of the guest and the channel \<open>ch\<close> of the host hold the two ends of two open pipes.\<close>

definition wired :: "pipes \<Rightarrow> serial_channel \<Rightarrow> int \<times> int \<times> bool \<Rightarrow> bool" where
  "wired p ch q \<longleftrightarrow> (case q of (r, w, _) \<Rightarrow> (r, host_write_fd ch) \<in> set (pp_pairs p) \<and> (host_read_fd ch, w) \<in> set (pp_pairs p)
     \<and> {r, w, host_write_fd ch, host_read_fd ch} \<subseteq> pp_open p)"

lemma wired_mono: "wired p ch q \<Longrightarrow> set (pp_pairs p) \<subseteq> set (pp_pairs p') \<Longrightarrow> pp_open p \<subseteq> pp_open p' \<Longrightarrow> wired p' ch q"
  by (cases q) (auto simp: wired_def)

lemma vz_port_wired:
  assumes "vz_port c (ports, p) = ((ports', p'), Some ch)"
  shows "\<exists>r w. ports' = ports(fst c \<mapsto> (r, w, fst c = 0)) \<and> wired p' ch (r, w, fst c = 0)" "ch_name ch = snd c"
    "set (pp_pairs p) \<subseteq> set (pp_pairs p')" "pp_open p \<subseteq> pp_open p'"
proof -
  from assms obtain r w p1 r' w' p2 where o: "pipe_open p = (Some (r, w), p1)" "pipe_open p1 = (Some (r', w'), p2)"
    and e: "ports' = ports(fst c \<mapsto> (r, w', fst c = 0))" "p' = p2" "host_write_fd ch = w" "host_read_fd ch = r'" "ch_name ch = snd c"
    by (auto simp: vz_port_def split: prod.splits option.splits)
  note g = pipe_open_grows [OF o(1)] pipe_open_grows [OF o(2)]
  show "\<exists>r w. ports' = ports(fst c \<mapsto> (r, w, fst c = 0)) \<and> wired p' ch (r, w, fst c = 0)"
    using g e by (intro exI [of _ r] exI [of _ w']) (auto simp: wired_def)
  show "ch_name ch = snd c" "set (pp_pairs p) \<subseteq> set (pp_pairs p')" "pp_open p \<subseteq> pp_open p'" using g e by auto
qed

lemma vz_ports_wired:
  assumes "vz_ports cs (ports, p) = ((ports', p'), chs, True)" and "distinct (map fst cs)"
  shows "list_all2 (\<lambda>c ch. ch_name ch = snd c \<and> (\<exists>r w. ports' (fst c) = Some (r, w, fst c = 0) \<and> wired p' ch (r, w, fst c = 0))) cs chs
    \<and> dom ports' = dom ports \<union> fst ` set cs \<and> (\<forall>i. i \<notin> fst ` set cs \<longrightarrow> ports' i = ports i)
    \<and> set (pp_pairs p) \<subseteq> set (pp_pairs p') \<and> pp_open p \<subseteq> pp_open p'"
  using assms
proof (induction cs arbitrary: ports p chs)
  case (Cons c cs)
  from Cons.prems(1) obtain st1 ch chs' where c: "vz_port c (ports, p) = (st1, Some ch)"
    "vz_ports cs st1 = ((ports', p'), chs', True)" "chs = ch # chs'" by (rule vz_ports_Cons)
  obtain ports1 p1 where st1: "st1 = (ports1, p1)" by fastforce
  note s1 = c(1) [unfolded st1] and s2 = c(2) [unfolded st1] c(3)
  note v = vz_port_wired [OF s1]
  have ih: "list_all2 (\<lambda>c ch. ch_name ch = snd c \<and> (\<exists>r w. ports' (fst c) = Some (r, w, fst c = 0) \<and> wired p' ch (r, w, fst c = 0))) cs chs'"
    "dom ports' = dom ports1 \<union> fst ` set cs" "\<forall>i. i \<notin> fst ` set cs \<longrightarrow> ports' i = ports1 i"
    "set (pp_pairs p1) \<subseteq> set (pp_pairs p')" "pp_open p1 \<subseteq> pp_open p'"
    using Cons.IH [OF s2(1)] Cons.prems(2) by auto
  obtain r w where rw: "ports1 = ports(fst c \<mapsto> (r, w, fst c = 0))" "wired p1 ch (r, w, fst c = 0)" using v(1) by blast
  have new: "fst c \<notin> fst ` set cs" using Cons.prems(2) by simp
  have "wired p' ch (r, w, fst c = 0)" using wired_mono [OF rw(2) ih(4,5)] .
  moreover have "ports' (fst c) = Some (r, w, fst c = 0)" using ih(3) new rw(1) by simp
  moreover have "dom ports' = dom ports \<union> fst ` set (c # cs)" using ih(2) rw(1) by auto
  moreover have "\<forall>i. i \<notin> fst ` set (c # cs) \<longrightarrow> ports' i = ports i" using ih(3) rw(1) by auto
  ultimately show ?case using ih(1,4,5) v(2,3,4) s2(2) by auto
qed auto

lemma fold_close:
  "pp_open (fold (\<lambda>ch p. fd_close (host_write_fd ch) (fd_close (host_read_fd ch) p)) chs p)
    = pp_open p - host_read_fd ` set chs - host_write_fd ` set chs"
proof (induction chs arbitrary: p)
  case (Cons ch chs)
  have "pp_open (fd_close (host_write_fd ch) (fd_close (host_read_fd ch) p)) = pp_open p - {host_read_fd ch, host_write_fd ch}"
    by (auto simp: fd_close_def)
  then show ?case by (auto simp: Cons)
qed simp

text \<open>The stages of a creation that succeeded.\<close>

lemma vz_create_ok:
  assumes "vz_create os cfg b = Some (b', Inr h)"
  obtains b1 vc chs x' machine where "vz_configure os cfg b = (b1, Inr (vc, chs))" "vo_valid os vc"
    "vo_start os (vz_world b1) vc = Some (x', Some machine)" "h = vz_next_id b1"
    "b' = b1\<lparr>vz_world := x', vz_next_id := vz_next_id b1 + 1, vz_vms := (vz_vms b1)(vz_next_id b1 \<mapsto> machine),
        vz_channels := (if chs = [] then vz_channels b1 else (vz_channels b1)(vz_next_id b1 \<mapsto> chs))\<rparr>"
proof -
  obtain b1 r where c: "vz_configure os cfg b = (b1, r)" by fastforce
  then obtain vc chs where r: "r = Inr (vc, chs)" using assms by (cases r) (auto simp: vz_create_def split: if_splits)
  have v: "vo_valid os vc" using assms by (cases "vo_valid os vc") (simp_all add: vz_create_def c r split: if_splits)
  obtain x' m where st: "vo_start os (vz_world b1) vc = Some (x', m)"
    using assms v by (cases "vo_start os (vz_world b1) vc") (auto simp: vz_create_def c r)
  obtain machine where m: "m = Some machine"
    using assms v by (cases m) (simp_all add: vz_create_def c r st split: if_splits)
  define b2 where "b2 = b1\<lparr>vz_world := x', vz_next_id := vz_next_id b1 + 1, vz_vms := (vz_vms b1)(vz_next_id b1 \<mapsto> machine),
        vz_channels := (if chs = [] then vz_channels b1 else (vz_channels b1)(vz_next_id b1 \<mapsto> chs))\<rparr>"
  have "vz_create os cfg b = Some (b2, Inr (vz_next_id b1))"
    using v by (simp add: vz_create_def c r st m Let_def b2_def)
  then have "b' = b2" "h = vz_next_id b1" using assms by simp_all
  with c r v st m show thesis by (intro that) (simp_all add: b2_def)
qed

lemma vz_configure_ok:
  assumes "vz_configure os cfg b = (b1, Inr (vc, chs))"
  obtains ram x1 boot x2 pts p where "parse_size (cf_ram_size cfg) = Some ram" "vz_bootloader os cfg (vz_world b) = (x1, Inr boot)"
    "vz_ports (sort_key fst (cf_serial cfg)) ((\<lambda>_. None), vz_pipes b) = ((pts, p), chs, True)" "b1 = b\<lparr>vz_world := x2, vz_pipes := p\<rparr>"
    "vc = \<lparr>vc_cpus = cf_cpu_count cfg, vc_memory = ram, vc_boot = boot,
        vc_disk = (if cf_image cfg = [] then None else Some (cf_image cfg)), vc_display = cf_display cfg, vc_nat = True, vc_ports = pts\<rparr>"
proof -
  obtain ram disk where s: "parse_size (cf_ram_size cfg) = Some ram" "parse_size (cf_disk_size cfg) = Some disk"
    using assms by (cases "parse_size (cf_ram_size cfg)"; cases "parse_size (cf_disk_size cfg)") (auto simp: vz_configure_def)
  obtain x1 r where bl: "vz_bootloader os cfg (vz_world b) = (x1, r)" by fastforce
  then obtain boot where r: "r = Inr boot" using assms s by (cases r) (auto simp: vz_configure_def)
  obtain x2 k where d: "(if cf_image cfg = [] then (x1, True) else vo_disk os x1 (cf_image cfg)) = (x2, k)" by fastforce
  have k: "k" using assms s bl r d by (cases k) (simp_all add: vz_configure_def)
  obtain pts p cs ok where vp: "vz_ports (sort_key fst (cf_serial cfg)) ((\<lambda>_. None), vz_pipes b) = ((pts, p), cs, ok)" by (metis prod.collapse)
  have ok: ok using assms s bl r d k vp by (cases ok) (simp_all add: vz_configure_def)
  show thesis using assms s bl r d k vp ok by (intro that [of ram x1 boot pts p x2]) (simp_all add: vz_configure_def)
qed

text \<open>The boot loader that a configuration asks for.\<close>

definition nonempty :: "string option \<Rightarrow> string option" where
  "nonempty v = (if v = Some [] then None else v)"

definition boots_from :: "'x vz_host \<Rightarrow> vm_config \<Rightarrow> vz_boot option \<Rightarrow> bool" where
  "boots_from os cfg boot \<longleftrightarrow>
     (case nonempty (cf_kernel cfg) of
        Some k \<Rightarrow> boot = Some (Linux_Boot k (nonempty (cf_initrd cfg)) (nonempty (cf_cmdline cfg)))
      | None \<Rightarrow> if \<exists>stem. cf_image cfg = stem @ ''.ipsw'' then boot = None
          else \<exists>new. boot = Some (Efi_Boot (vo_strip_ext os (cf_image cfg) @ ''.nvram'') new))"

lemma ends_with:
  assumes "length e = n"
  shows "n \<le> length xs \<and> drop (length xs - n) xs = e \<longleftrightarrow> (\<exists>stem. xs = stem @ e)"
proof
  assume "n \<le> length xs \<and> drop (length xs - n) xs = e"
  then have "xs = take (length xs - n) xs @ e" by (metis append_take_drop_id)
  then show "\<exists>stem. xs = stem @ e" by (rule exI)
qed (use assms in auto)

lemma is_ipsw_suffix: "is_ipsw path \<longleftrightarrow> (\<exists>stem. path = stem @ ''.ipsw'')"
  unfolding is_ipsw_def by (rule ends_with) simp

lemma vz_bootloader_boots:
  assumes "vz_bootloader os cfg x = (x', Inr boot)"
  shows "boots_from os cfg boot"
proof -
  have ne: "nonempty v = (if cfg_str v \<noteq> [] then Some (cfg_str v) else None)" for v
    by (cases v) (auto simp: cfg_str_def nonempty_def)
  show ?thesis
    using assms unfolding boots_from_def ne is_ipsw_suffix [symmetric]
    by (auto simp: vz_bootloader_def Let_def split: if_splits prod.splits bool.splits)
qed

text \<open>
  C23. A machine of Virtualization.framework runs exactly what was configured, beside its network. It was started with the number of CPUs and the
  memory of the configuration; with the disk image or no disk; with a display of the configured size or none; and with the boot loader asked for: the
  configured kernel with its initrd and command line, when these are given; nothing for an image that is a restore file; else EFI with the variable store beside the
  image. It always has a NAT network, also when none is configured, where the README says that networking is off by default. Its serial
  ports are those configured; port and channel hold opposite ends of two pipes with all four ends open, so that bytes get through in both directions, where
  the other backend loses all input; port 0 is the console. \<^verbatim>\<open>Destroy\<close> of the handle brings the backend's tables back to what they were and closes
  the host's ends.
\<close>

theorem vz_machine_lifecycle:
  assumes create: "vz_create os cfg b = Some (b', Inr h)" and ports: "distinct (map fst (cf_serial cfg))"
    and fresh: "vz_vms b (vz_next_id b) = None" "vz_channels b (vz_next_id b) = None"
  shows "\<exists>vc chs x x' machine. vo_start os x vc = Some (x', Some machine) \<and> vz_vms b' h = Some machine \<and> vo_valid os vc
    \<and> vc_cpus vc = cf_cpu_count cfg \<and> parse_size (cf_ram_size cfg) = Some (vc_memory vc)
    \<and> vc_disk vc = (if cf_image cfg = [] then None else Some (cf_image cfg)) \<and> vc_display vc = cf_display cfg
    \<and> boots_from os cfg (vc_boot vc) \<and> vc_nat vc
    \<and> dom (vc_ports vc) = fst ` set (cf_serial cfg)
    \<and> list_all2 (\<lambda>(idx, name) ch. ch_name ch = name \<and> (\<exists>r w. vc_ports vc idx = Some (r, w, idx = 0) \<and> wired (vz_pipes b') ch (r, w, idx = 0)))
        (sort_key fst (cf_serial cfg)) chs
    \<and> vz_channels b' h = (if chs = [] then None else Some chs)
    \<and> (\<forall>joins b''. vz_destroy os joins h b' = Some b'' \<longrightarrow> vz_vms b'' = vz_vms b \<and> vz_channels b'' = vz_channels b
        \<and> (\<forall>ch \<in> set chs. host_read_fd ch \<notin> pp_open (vz_pipes b'') \<and> host_write_fd ch \<notin> pp_open (vz_pipes b'')))"
proof -
  obtain b1 vc chs x' machine where c: "vz_configure os cfg b = (b1, Inr (vc, chs))" and valid: "vo_valid os vc"
    and st: "vo_start os (vz_world b1) vc = Some (x', Some machine)" and h: "h = vz_next_id b1"
    and b': "b' = b1\<lparr>vz_world := x', vz_next_id := vz_next_id b1 + 1, vz_vms := (vz_vms b1)(vz_next_id b1 \<mapsto> machine),
        vz_channels := (if chs = [] then vz_channels b1 else (vz_channels b1)(vz_next_id b1 \<mapsto> chs))\<rparr>"
    by (rule vz_create_ok [OF create]) (rule that)
  obtain ram x1 boot x2 pts p where s: "parse_size (cf_ram_size cfg) = Some ram" "vz_bootloader os cfg (vz_world b) = (x1, Inr boot)"
    "vz_ports (sort_key fst (cf_serial cfg)) ((\<lambda>_. None), vz_pipes b) = ((pts, p), chs, True)" "b1 = b\<lparr>vz_world := x2, vz_pipes := p\<rparr>"
    "vc = \<lparr>vc_cpus = cf_cpu_count cfg, vc_memory = ram, vc_boot = boot,
        vc_disk = (if cf_image cfg = [] then None else Some (cf_image cfg)), vc_display = cf_display cfg, vc_nat = True, vc_ports = pts\<rparr>"
    by (rule vz_configure_ok [OF c]) (rule that)
  have "distinct (map fst (sort_key fst (cf_serial cfg)))" using ports by (metis distinct_map distinct_sort set_sort)
  from vz_ports_wired [OF s(3) this]
  have w: "list_all2 (\<lambda>c ch. ch_name ch = snd c \<and> (\<exists>r w. pts (fst c) = Some (r, w, fst c = 0) \<and> wired p ch (r, w, fst c = 0)))
      (sort_key fst (cf_serial cfg)) chs" "dom pts = fst ` set (cf_serial cfg)" by auto
  have "vz_channels b (vz_next_id b1) = None" using fresh(2) by (simp add: s(4))
  have gone: "vz_vms b'' = vz_vms b \<and> vz_channels b'' = vz_channels b
      \<and> (\<forall>ch \<in> set chs. host_read_fd ch \<notin> pp_open (vz_pipes b'') \<and> host_write_fd ch \<notin> pp_open (vz_pipes b''))"
    if d: "vz_destroy os joins h b' = Some b''" for joins b''
  proof (cases "chs = []")
    case True
    with d fresh show ?thesis
      by (auto simp: vz_destroy_def vz_close_serial_def b' h s(4) split: option.splits)
  next
    case False
    with d fresh show ?thesis
      by (auto simp: vz_destroy_def vz_close_serial_def b' h s(4) fold_close split: option.splits if_splits)
  qed
  have "list_all2 (\<lambda>(idx, name) ch. ch_name ch = name \<and> (\<exists>r w. vc_ports vc idx = Some (r, w, idx = 0) \<and> wired (vz_pipes b') ch (r, w, idx = 0)))
        (sort_key fst (cf_serial cfg)) chs"
    using w(1) by (rule list_all2_mono) (auto simp: s(4,5) b')
  moreover have "vz_vms b' h = Some machine" by (simp add: b' h)
  moreover have "vc_cpus vc = cf_cpu_count cfg" "parse_size (cf_ram_size cfg) = Some (vc_memory vc)"
    "vc_disk vc = (if cf_image cfg = [] then None else Some (cf_image cfg))" "vc_display vc = cf_display cfg" "vc_nat vc" "boots_from os cfg (vc_boot vc)"
    using vz_bootloader_boots [OF s(2)] by (simp_all add: s(1,5))
  moreover have "vz_channels b' h = (if chs = [] then None else Some chs)"
    using \<open>vz_channels b (vz_next_id b1) = None\<close> by (simp add: b' h s(4))
  moreover have "dom (vc_ports vc) = fst ` set (cf_serial cfg)" using w(2) by (simp add: s(5))
  moreover have "\<forall>joins b''. vz_destroy os joins h b' = Some b'' \<longrightarrow> vz_vms b'' = vz_vms b \<and> vz_channels b'' = vz_channels b
      \<and> (\<forall>ch \<in> set chs. host_read_fd ch \<notin> pp_open (vz_pipes b'') \<and> host_write_fd ch \<notin> pp_open (vz_pipes b''))"
    using gone by blast
  ultimately show ?thesis
    using st valid by (intro exI [of _ vc] exI [of _ chs] exI [of _ "vz_world b1"] exI [of _ x'] exI [of _ machine] conjI)
qed

section \<open>Witness\<close>

text \<open>A framework that accepts everything and numbers its machines.\<close>

definition demo_vz :: "nat vz_host" where
  "demo_vz = \<lparr>vo_strip_ext = (\<lambda>s. s), vo_exists = (\<lambda>_ _. False), vo_nvram_new = (\<lambda>x _. (x, True)), vo_disk = (\<lambda>x _. (x, True)),
     vo_valid = (\<lambda>_. True), vo_start = (\<lambda>x _. Some (x + 1, Some x)), vo_stop = (\<lambda>x _. Some x), vo_eof = False, vo_client = (\<lambda>_. False),
     vo_reading = (\<lambda>_. True)\<rparr>"

definition demo_vz_config :: vm_config where
  "demo_vz_config = demo_config\<lparr>cf_engine := ''vz'', cf_disk_size := ''256MB'', cf_serial := [(1, ''b''), (0, ''a'')]\<rparr>"

lemma vz_port_works: "pipes_work p \<Longrightarrow> \<exists>pts' p' ch. vz_port c (pts, p) = ((pts', p'), Some ch) \<and> pipes_work p'"
  by (cases c) (simp add: vz_port_def pipe_open_def pipes_work_def Let_def)

lemma vz_ports_work: "pipes_work p \<Longrightarrow> \<exists>pts' p' chs. vz_ports cs (pts, p) = ((pts', p'), chs, True) \<and> pipes_work p'"
proof (induction cs arbitrary: pts p)
  case (Cons c cs)
  from vz_port_works [OF Cons.prems] obtain pts1 p1 ch where s1: "vz_port c (pts, p) = ((pts1, p1), Some ch)" "pipes_work p1" by blast
  from Cons.IH [OF s1(2)] obtain pts' p' chs where "vz_ports cs (pts1, p1) = ((pts', p'), chs, True)" "pipes_work p'" by blast
  with s1(1) show ?case by simp
qed simp

lemma demo_vz_create:
  assumes "pipes_work (vz_pipes b)"
  shows "\<exists>b'. vz_create demo_vz demo_vz_config b = Some (b', Inr (vz_next_id b)) \<and> pipes_work (vz_pipes b')"
proof -
  obtain pts p chs where vp: "vz_ports [(0, ''a''), (1, ''b'')] (\<lambda>_. None, vz_pipes b) = ((pts, p), chs, True)" "pipes_work p"
    using vz_ports_work [OF assms] by blast
  then have "\<exists>vc chs b1. vz_configure demo_vz demo_vz_config b = (b1, Inr (vc, chs)) \<and> vz_next_id b1 = vz_next_id b \<and> pipes_work (vz_pipes b1)"
    using demo_ram
    by (auto simp: vz_configure_def demo_vz_config_def vz_bootloader_def cfg_str_def Let_def simp del: vz_ports.simps)
  then show ?thesis by (auto simp: vz_create_def demo_vz_def Let_def)
qed

theorem vz_machine_lifecycle_witness:
  "\<exists>b' vc. vz_create demo_vz demo_vz_config (vz_backend_new demo_pipes 0) = Some (b', Inr 1) \<and> dom (vc_ports vc) = {0, 1}
    \<and> vz_vms b' 1 \<noteq> None \<and> vo_valid demo_vz vc \<and> vc_boot vc = Some (Linux_Boot ''vmlinuz'' None None) \<and> vc_disk vc = None"
proof -
  let ?b = "vz_backend_new demo_pipes 0 :: nat vz_backend"
  obtain b' where b': "vz_create demo_vz demo_vz_config ?b = Some (b', Inr 1)"
    using demo_vz_create [of ?b] demo_pipes_ok by (auto simp: vz_backend_new_def)
  have s: "sort_key fst (cf_serial demo_vz_config) = [(0, ''a''), (1, ''b'')]" "fst ` set (cf_serial demo_vz_config) = {0, 1}"
    "distinct (map fst (cf_serial demo_vz_config))"
    by (auto simp: demo_vz_config_def)
  have "vz_vms ?b (vz_next_id ?b) = None" "vz_channels ?b (vz_next_id ?b) = None" by (simp_all add: vz_backend_new_def)
  note life = vz_machine_lifecycle [OF b' s(3) this, unfolded s(2)]
  have boot: "boots_from demo_vz demo_vz_config boot \<Longrightarrow> boot = Some (Linux_Boot ''vmlinuz'' None None)" "cf_image demo_vz_config = []" for boot
    by (simp_all add: boots_from_def demo_vz_config_def nonempty_def)
  have "\<exists>vc machine. dom (vc_ports vc) = {0, 1} \<and> vz_vms b' 1 = Some machine \<and> vo_valid demo_vz vc
      \<and> vc_boot vc = Some (Linux_Boot ''vmlinuz'' None None) \<and> vc_disk vc = None"
    using life boot(2) by (elim exE conjE) (intro exI conjI, assumption+, rule boot(1), assumption, simp)
  with b' show ?thesis by blast
qed

end
