(* ===== verification/Dispatch.thy ===== *)
theory Dispatch
  imports Vz
begin

text \<open>
  The dispatcher of the library (\<^verbatim>\<open>src/src/vm.cpp\<close>) over its two backends, and the interface of a backend
  (\<^verbatim>\<open>backend.hpp\<close>) as far as handles go.
\<close>

section \<open>A backend\<close>

text \<open>
  What \<^verbatim>\<open>Create\<close> and \<^verbatim>\<open>Destroy\<close> of a backend do to the set of live handles: the next number of a counter is added on success, nothing on
  failure, and a handle that is destroyed goes.
\<close>

datatype 'c backend_op = Op_Create 'c | Op_Destroy u64

locale backend =
  fixes create :: "'c \<Rightarrow> 'b \<Rightarrow> ('b \<times> ('x + u64)) option" and destroy :: "u64 \<Rightarrow> 'b \<Rightarrow> 'b option"
    and live :: "'b \<Rightarrow> u64 set" and next_id :: "'b \<Rightarrow> u64"
  assumes create_ok: "create c b = Some (b', Inr h) \<Longrightarrow> h = next_id b \<and> live b' = insert h (live b) \<and> next_id b' = h + 1"
    and create_failed: "create c b = Some (b', Inl e) \<Longrightarrow> live b' = live b \<and> next_id b' = next_id b"
    and destroy_ok: "destroy h b = Some b' \<Longrightarrow> live b' = live b - {h} \<and> next_id b' = next_id b"
begin

definition run :: "'c backend_op \<Rightarrow> 'b \<Rightarrow> 'b option" where
  "run x b = (case x of Op_Create c \<Rightarrow> map_option fst (create c b) | Op_Destroy h \<Rightarrow> destroy h b)"

lemma run_below:
  assumes "run x b = Some b'" and "\<forall>h \<in> live b. unat h < unat (next_id b)" and "unat (next_id b) + 1 < 2 ^ 64"
  shows "(\<forall>h \<in> live b'. unat h < unat (next_id b')) \<and> unat (next_id b') \<le> unat (next_id b) + 1"
proof -
  have inc: "unat (next_id b + 1) = unat (next_id b) + 1" using assms(3) by (simp add: unat_word_ariths)
  show ?thesis
  proof (cases x)
    case (Op_Create c)
    then obtain r where r: "create c b = Some (b', r)" using assms(1) by (auto simp: run_def)
    show ?thesis
    proof (cases r)
      case (Inl e)
      then show ?thesis using create_failed [of c b b' e] r assms(2) by simp
    next
      case (Inr h)
      then show ?thesis using create_ok [of c b b' h] r assms(2) inc by fastforce
    qed
  next
    case (Op_Destroy h)
    then show ?thesis using destroy_ok [of h b b'] assms by (auto simp: run_def)
  qed
qed

lemma runs_below:
  assumes "fold (\<lambda>x r. Option.bind r (run x)) xs (Some b) = Some b'" and "\<forall>h \<in> live b. unat h < unat (next_id b)"
    and "unat (next_id b) + length xs < 2 ^ 64"
  shows "\<forall>h \<in> live b'. unat h < unat (next_id b')"
  using assms
proof (induction xs arbitrary: b)
  case (Cons x xs)
  have none: "fold (\<lambda>x r. Option.bind r (run x)) xs None = None" by (induction xs) auto
  then obtain b1 where b1: "run x b = Some b1" using Cons.prems(1) by (cases "run x b") auto
  from run_below [OF this Cons.prems(2)] Cons.prems(3)
  have "\<forall>h \<in> live b1. unat h < unat (next_id b1)" "unat (next_id b1) + length xs < 2 ^ 64" by auto
  then show ?case using Cons.IH Cons.prems(1) b1 by simp
qed simp

lemma fresh:
  assumes "fold (\<lambda>x r. Option.bind r (run x)) xs (Some b) = Some b'" and "live b = {}" and "unat (next_id b) + length xs < 2 ^ 64"
    and "create c b' = Some (b'', Inr h)"
  shows "h \<notin> live b'"
  using runs_below [OF assms(1) _ assms(3)] assms(2) create_ok [OF assms(4)] by auto

end

lemma hvf_create_failed:
  assumes "hvf_create env cfg b = Some (b', Inl e)"
  shows "hv_vms b' = hv_vms b \<and> hv_next_id b' = hv_next_id b"
  using assms by (auto simp: hvf_create_def Let_def split: option.splits if_splits prod.splits bool.splits sum.splits)

lemma hvf_create_next: "hvf_create env cfg b = Some (b', Inr h) \<Longrightarrow> hv_next_id b' = h + 1"
  by (auto simp: hvf_create_def Let_def split: option.splits if_splits prod.splits bool.splits sum.splits)

interpretation hvf: backend "\<lambda>cfg. hvf_create env cfg" "hvf_destroy joins" "\<lambda>b. dom (hv_vms b)" hv_next_id for env joins
proof
  show "h = hv_next_id b \<and> dom (hv_vms b') = insert h (dom (hv_vms b)) \<and> hv_next_id b' = h + 1"
    if "hvf_create env c b = Some (b', Inr h)" for c b b' h
    by (rule hvf_create_ok [OF that]) (simp add: hvf_create_next [OF that])
  show "dom (hv_vms b') = dom (hv_vms b) \<and> hv_next_id b' = hv_next_id b" if "hvf_create env c b = Some (b', Inl e)" for c b b' e
    using hvf_create_failed [OF that] by simp
  show "dom (hv_vms b') = dom (hv_vms b) - {h} \<and> hv_next_id b' = hv_next_id b" if "hvf_destroy joins h b = Some b'" for h b b'
    using that by (auto simp: hvf_destroy_def Let_def split: option.splits if_splits)
qed

lemma vz_configure_keeps:
  assumes "vz_configure os cfg b = (b1, r)"
  shows "vz_vms b1 = vz_vms b \<and> vz_next_id b1 = vz_next_id b \<and> vz_channels b1 = vz_channels b"
  using assms by (auto simp: vz_configure_def split: option.splits prod.splits sum.splits bool.splits)

interpretation vz: backend "\<lambda>cfg. vz_create os cfg" "vz_destroy os joins" "\<lambda>b. dom (vz_vms b)" vz_next_id for os joins
proof
  show "h = vz_next_id b \<and> dom (vz_vms b') = insert h (dom (vz_vms b)) \<and> vz_next_id b' = h + 1"
    if "vz_create os c b = Some (b', Inr h)" for c b b' h
    by (rule vz_create_ok [OF that]) (auto dest: vz_configure_keeps)
  show "dom (vz_vms b') = dom (vz_vms b) \<and> vz_next_id b' = vz_next_id b" if "vz_create os c b = Some (b', Inl e)" for c b b' e
  proof -
    obtain b1 r where c: "vz_configure os c b = (b1, r)" by fastforce
    have "vz_vms b' = vz_vms b1 \<and> vz_next_id b' = vz_next_id b1"
      using that by (auto simp: vz_create_def c Let_def split: sum.splits option.splits if_splits prod.splits)
    with vz_configure_keeps [OF c] show ?thesis by simp
  qed
  show "dom (vz_vms b') = dom (vz_vms b) - {h} \<and> vz_next_id b' = vz_next_id b" if "vz_destroy os joins h b = Some b'" for h b b'
    using that by (auto simp: vz_destroy_def vz_close_serial_def split: option.splits if_splits)
qed

section \<open>The dispatcher\<close>

datatype engine = Hvf | Vz

text \<open>Each backend numbers its descriptors on its own.\<close>

record ('e, 'x) dispatcher =
  d_backends :: "u64 \<Rightarrow> engine option"
  d_hvf :: "'e hvf_backend"
  d_vz :: "'x vz_backend"

definition dispatcher_new :: "pipes \<Rightarrow> 'x \<Rightarrow> ('e, 'x) dispatcher" where
  "dispatcher_new p x = \<lparr>d_backends = (\<lambda>_. None), d_hvf = hvf_backend_new p, d_vz = vz_backend_new p x\<rparr>"

datatype vm_error = Hvf_Error hvf_error | Vz_Error vz_error | Unknown_Engine

definition vm_create :: "'e hvf_env \<Rightarrow> 'x vz_host \<Rightarrow> vm_config \<Rightarrow> ('e, 'x) dispatcher \<Rightarrow> (('e, 'x) dispatcher \<times> (vm_error + u64)) option" where
  "vm_create env os cfg d =
     (if cf_engine cfg = ''hvf'' then
        (case hvf_create env cfg (d_hvf d) of
           None \<Rightarrow> None
         | Some (b, Inl e) \<Rightarrow> Some (d\<lparr>d_hvf := b\<rparr>, Inl (Hvf_Error e))
         | Some (b, Inr handle) \<Rightarrow> Some (d\<lparr>d_hvf := b, d_backends := (d_backends d)(handle \<mapsto> Hvf)\<rparr>, Inr handle))
      else if cf_engine cfg = ''vz'' then
        (case vz_create os cfg (d_vz d) of
           None \<Rightarrow> None
         | Some (b, Inl e) \<Rightarrow> Some (d\<lparr>d_vz := b\<rparr>, Inl (Vz_Error e))
         | Some (b, Inr handle) \<Rightarrow> Some (d\<lparr>d_vz := b, d_backends := (d_backends d)(handle \<mapsto> Vz)\<rparr>, Inr handle))
      else Some (d, Inl Unknown_Engine))"

text \<open>The entry goes before the backend is asked, so a second \<^verbatim>\<open>Destroy\<close> of the handle does nothing.\<close>

definition vm_destroy :: "'x vz_host \<Rightarrow> ('e hvf_instance \<Rightarrow> bool) \<Rightarrow> (serial_channel \<Rightarrow> bool) \<Rightarrow> u64 \<Rightarrow> ('e, 'x) dispatcher
    \<Rightarrow> ('e, 'x) dispatcher option" where
  "vm_destroy os joins joins_ch vm d =
     (case d_backends d vm of
        None \<Rightarrow> Some d
      | Some e \<Rightarrow>
          (let d' = d\<lparr>d_backends := (d_backends d)(vm := None)\<rparr>
           in case e of
                Hvf \<Rightarrow> map_option (\<lambda>b. d'\<lparr>d_hvf := b\<rparr>) (hvf_destroy joins vm (d_hvf d'))
              | Vz \<Rightarrow> map_option (\<lambda>b. d'\<lparr>d_vz := b\<rparr>) (vz_destroy os joins_ch vm (d_vz d'))))"

text \<open>
  \<^verbatim>\<open>UI\<close>: the machine that is shown in the view \<open>native\<close> says there is. The HVF backend shows none.
\<close>

definition vz_ui :: "u64 \<Rightarrow> bool \<Rightarrow> 'x vz_backend \<Rightarrow> nat option" where
  "vz_ui handle native b = (if native then vz_vms b handle else None)"

definition vm_ui :: "u64 \<Rightarrow> bool \<Rightarrow> ('e, 'x) dispatcher \<Rightarrow> nat option" where
  "vm_ui vm native d =
     (case d_backends d vm of
        None \<Rightarrow> None
      | Some e \<Rightarrow> (case e of Hvf \<Rightarrow> None | Vz \<Rightarrow> vz_ui vm native (d_vz d)))"

lemma vm_ui_created:
  assumes "vm_create env os cfg d = Some (d', Inr h)" and "cf_engine cfg = ''vz''"
  shows "vm_ui h True d' = vz_vms (d_vz d') h \<and> vm_ui h True d' \<noteq> None"
proof -
  from assms obtain b where b: "vz_create os cfg (d_vz d) = Some (b, Inr h)" and d': "d' = d\<lparr>d_vz := b, d_backends := (d_backends d)(h \<mapsto> Vz)\<rparr>"
    by (auto simp: vm_create_def split: option.splits sum.splits)
  from vz.create_ok [OF b] show ?thesis by (auto simp: d' vm_ui_def vz_ui_def)
qed

lemma vm_ui_destroyed: "vm_destroy os joins joins_ch h d = Some d' \<Longrightarrow> vm_ui h native d' = None"
  by (auto simp: vm_destroy_def vm_ui_def Let_def split: option.splits engine.splits)

section \<open>Handles\<close>

text \<open>
  C35. Within one backend a handle is never handed out while a machine has it, whatever was created and destroyed before, for
  fewer than 2^64 - 1 operations in a process.
\<close>

theorem backend_handles_fresh:
  assumes "length xs < 2 ^ 64 - 1"
  shows "(fold (\<lambda>op r. Option.bind r (\<lambda>b. case op of Op_Create c \<Rightarrow> map_option fst (hvf_create env c b) | Op_Destroy h \<Rightarrow> hvf_destroy joins h b))
      xs (Some (hvf_backend_new p)) = Some b \<and> hvf_create env cfg b = Some (b', Inr h) \<longrightarrow> hv_vms b h = None)
    \<and> (fold (\<lambda>op r. Option.bind r (\<lambda>b. case op of Op_Create c \<Rightarrow> map_option fst (vz_create os c b) | Op_Destroy h \<Rightarrow> vz_destroy os joins_ch h b))
      xs (Some (vz_backend_new p w)) = Some v \<and> vz_create os cfg v = Some (v', Inr h') \<longrightarrow> vz_vms v h' = None)"
proof (intro conjI impI; elim conjE)
  show "hv_vms b h = None" if f: "fold (\<lambda>op r. Option.bind r (\<lambda>b. case op of Op_Create c \<Rightarrow> map_option fst (hvf_create env c b)
      | Op_Destroy h \<Rightarrow> hvf_destroy joins h b)) xs (Some (hvf_backend_new p)) = Some b" and c: "hvf_create env cfg b = Some (b', Inr h)"
    using hvf.fresh [unfolded hvf.run_def, OF f _ _ c] assms by (auto simp: hvf_backend_new_def)
  show "vz_vms v h' = None" if f: "fold (\<lambda>op r. Option.bind r (\<lambda>b. case op of Op_Create c \<Rightarrow> map_option fst (vz_create os c b)
      | Op_Destroy h \<Rightarrow> vz_destroy os joins_ch h b)) xs (Some (vz_backend_new p w)) = Some v" and c: "vz_create os cfg v = Some (v', Inr h')"
    using vz.fresh [unfolded vz.run_def, OF f _ _ c] assms by (auto simp: vz_backend_new_def)
qed

text \<open>
  The two backends hand out the same handles. After a machine of each has been created in a fresh process, both have handle 1, the dispatcher
  knows only the one created last, and no sequence of \<^verbatim>\<open>Destroy\<close> calls stops the other.
\<close>

theorem handles_collide:
  assumes "cf_engine cfg = ''vz''" and "cf_engine cfg' = ''hvf''"
    and "vm_create env os cfg (dispatcher_new p w) = Some (d1, Inr h1)" and "vm_create env os cfg' d1 = Some (d2, Inr h2)"
  shows "h1 = 1 \<and> h2 = 1 \<and> d_backends d2 1 = Some Hvf
    \<and> (\<forall>joins joins_ch hs d3. fold (\<lambda>h r. Option.bind r (vm_destroy os joins joins_ch h)) hs (Some d2) = Some d3 \<longrightarrow> vz_vms (d_vz d3) 1 \<noteq> None)"
proof -
  from assms(1,3) obtain v where v: "vz_create os cfg (vz_backend_new p w) = Some (v, Inr h1)"
    and d1: "d_backends d1 = [h1 \<mapsto> Vz]" "d_vz d1 = v" "d_hvf d1 = hvf_backend_new p"
    by (auto simp: vm_create_def dispatcher_new_def split: option.splits sum.splits)
  from vz.create_ok [OF v] have h1: "h1 = 1" "vz_vms v 1 \<noteq> None" by (auto simp: vz_backend_new_def)
  from assms(2,4) obtain b' where b': "hvf_create env cfg' (d_hvf d1) = Some (b', Inr h2)"
    and d2: "d2 = d1\<lparr>d_hvf := b', d_backends := (d_backends d1)(h2 \<mapsto> Hvf)\<rparr>"
    by (auto simp: vm_create_def split: option.splits sum.splits)
  have h2: "h2 = 1" using hvf.create_ok [OF b'] d1(3) by (simp add: hvf_backend_new_def)
  with d1 d2 h1 have d2: "vz_vms (d_vz d2) 1 \<noteq> None" "d_backends d2 = [1 \<mapsto> Hvf]" by simp_all
  have stay: "vz_vms (d_vz d3) 1 \<noteq> None" if "fold (\<lambda>h r. Option.bind r (vm_destroy os joins joins_ch h)) hs (Some d) = Some d3"
    and "vz_vms (d_vz d) 1 \<noteq> None" "\<forall>h. d_backends d h \<noteq> Some Vz" for joins joins_ch hs d d3
    using that
  proof (induction hs arbitrary: d)
    case (Cons h hs)
    have none: "fold (\<lambda>h r. Option.bind r (vm_destroy os joins joins_ch h)) hs None = None" by (induction hs) auto
    then obtain d' where d': "vm_destroy os joins joins_ch h d = Some d'" using Cons.prems(1) by (cases "vm_destroy os joins joins_ch h d") auto
    then have "vz_vms (d_vz d') 1 \<noteq> None" "\<forall>h. d_backends d' h \<noteq> Some Vz"
      using Cons.prems(2,3) by (auto simp: vm_destroy_def Let_def split: option.splits engine.splits if_splits)
    with Cons d' show ?case by simp
  qed simp
  have "vz_vms (d_vz d3) 1 \<noteq> None" if "fold (\<lambda>h r. Option.bind r (vm_destroy os joins joins_ch h)) hs (Some d2) = Some d3" for joins joins_ch hs d3
    using stay [OF that] d2 by simp
  then have "\<forall>joins joins_ch hs d3. fold (\<lambda>h r. Option.bind r (vm_destroy os joins joins_ch h)) hs (Some d2) = Some d3 \<longrightarrow> vz_vms (d_vz d3) 1 \<noteq> None"
    by (intro allI impI)
  with h1(1) d2 h2 show ?thesis by simp
qed

section \<open>Witnesses\<close>

theorem backend_handles_fresh_witness:
  "\<exists>b b' v v'. hvf_create demo_env demo_config (hvf_backend_new demo_pipes) = Some (b, Inr 1)
    \<and> vz_create demo_vz demo_vz_config (vz_backend_new demo_pipes 0) = Some (v, Inr 1)
    \<and> vz_create demo_vz demo_vz_config v = Some (v', Inr 2) \<and> vz_vms v 2 = None"
proof -
  obtain b where b: "hvf_create demo_env demo_config (hvf_backend_new demo_pipes) = Some (b, Inr 1)"
    using demo_create [of "hvf_backend_new demo_pipes"] demo_pipes_ok by (auto simp: hvf_backend_new_def)
  obtain v where v: "vz_create demo_vz demo_vz_config (vz_backend_new demo_pipes 0) = Some (v, Inr 1)" and w: "pipes_work (vz_pipes v)"
    using demo_vz_create [of "vz_backend_new demo_pipes 0"] demo_pipes_ok by (auto simp: vz_backend_new_def)
  have "vz_next_id v = 2" using vz.create_ok [OF v] by simp
  then obtain v' where v': "vz_create demo_vz demo_vz_config v = Some (v', Inr 2)" using demo_vz_create [OF w] by auto
  have "vz_vms v 2 = None"
    using backend_handles_fresh [of "[Op_Create demo_vz_config]", THEN conjunct2, THEN mp, of demo_vz "\<lambda>_. True" demo_pipes 0 v demo_vz_config v' 2] v v' by simp
  with b v v' show ?thesis by blast
qed

theorem handles_collide_witness:
  "\<exists>d1 d2. vm_create demo_env demo_vz demo_vz_config (dispatcher_new demo_pipes 0) = Some (d1, Inr 1)
    \<and> vm_create demo_env demo_vz demo_config d1 = Some (d2, Inr 1)
    \<and> (\<forall>d3. fold (\<lambda>h r. Option.bind r (vm_destroy demo_vz (\<lambda>_. True) (\<lambda>_. True) h)) [1, 1] (Some d2) = Some d3 \<longrightarrow> vz_vms (d_vz d3) 1 \<noteq> None)"
proof -
  have e: "cf_engine demo_vz_config = ''vz''" by (simp add: demo_vz_config_def)
  obtain v where v: "vz_create demo_vz demo_vz_config (vz_backend_new demo_pipes 0) = Some (v, Inr 1)"
    using demo_vz_create [of "vz_backend_new demo_pipes 0"] demo_pipes_ok by (auto simp: vz_backend_new_def)
  obtain d1 :: "(unit, nat) dispatcher" where d1: "vm_create demo_env demo_vz demo_vz_config (dispatcher_new demo_pipes 0) = Some (d1, Inr 1)"
    "d_hvf d1 = hvf_backend_new demo_pipes"
    using v by (simp add: vm_create_def dispatcher_new_def e)
  obtain b' where "hvf_create demo_env demo_config (d_hvf d1) = Some (b', Inr 1)"
    using demo_create [of "d_hvf d1"] demo_pipes_ok by (auto simp: d1(2) hvf_backend_new_def)
  then obtain d2 where d2: "vm_create demo_env demo_vz demo_config d1 = Some (d2, Inr 1)" by (simp add: vm_create_def)
  have "vz_vms (d_vz d3) 1 \<noteq> None"
    if "fold (\<lambda>h r. Option.bind r (vm_destroy demo_vz (\<lambda>_. True) (\<lambda>_. True) h)) [1, 1] (Some d2) = Some d3" for d3
    by (rule handles_collide [OF e _ d1(1) d2, THEN conjunct2, THEN conjunct2, THEN conjunct2, rule_format, OF _ that]) simp
  with d1(1) d2 show ?thesis by blast
qed

end
