(* ===== verification/Program.thy ===== *)
theory Program
  imports Dispatch
begin

text \<open>
  The program \<^verbatim>\<open>vm-cli\<close> as a whole (\<^verbatim>\<open>src/cli/main.cpp\<close>): from its arguments to a machine that runs and clients that print its
  serial output, and what control-C does.
\<close>

section \<open>\<^verbatim>\<open>main\<close>\<close>

text \<open>
  The program ends with a code, ends with an uncaught exception, hangs, or waits for signals, with the machine's handle in
  \<^verbatim>\<open>g_handle\<close> and a client for each of the channels.
\<close>

datatype ('e, 'x) cli_run = Exits int "('e, 'x) dispatcher" | Terminates | Hangs | Waits u64 "string list" "('e, 'x) dispatcher"

definition cli_main :: "'e hvf_env \<Rightarrow> 'x vz_host \<Rightarrow> string list \<Rightarrow> ('e, 'x) dispatcher \<Rightarrow> ('e, 'x) cli_run" where
  "cli_main env os argv d =
     (case cli_config argv of
        Inl Uncaught \<Rightarrow> Terminates
      | Inl _ \<Rightarrow> Exits 1 d
      | Inr config \<Rightarrow>
          (case vm_create env os config d of
             None \<Rightarrow> Hangs
           | Some (d', Inl e) \<Rightarrow> Exits 1 d'
           | Some (d', Inr handle) \<Rightarrow> Waits handle (map snd (cf_serial config)) d'))"

text \<open>\<^verbatim>\<open>on_signal\<close>, for SIGINT and SIGTERM once \<^verbatim>\<open>main\<close> waits.\<close>

definition on_signal :: "'x vz_host \<Rightarrow> ('e hvf_instance \<Rightarrow> bool) \<Rightarrow> (serial_channel \<Rightarrow> bool) \<Rightarrow> u64 \<Rightarrow> ('e, 'x) dispatcher \<Rightarrow> ('e, 'x) cli_run" where
  "on_signal os joins joins_ch handle d =
     (if handle \<noteq> 0 then (case vm_destroy os joins joins_ch handle d of None \<Rightarrow> Hangs | Some d' \<Rightarrow> Exits 0 d') else Exits 0 d)"

section \<open>What it starts it stops\<close>

lemma cli_serial_sorted:
  assumes "cli_config argv = Inr cfg"
  shows "sort_key fst (cf_serial cfg) = cf_serial cfg" "distinct (map fst (cf_serial cfg))"
proof -
  have "\<exists>n. map fst (cf_serial cfg) = map int [0..<n]"
    using assms by (auto simp: cli_config_def Let_def comp_def split: if_splits option.splits sum.splits)
  then obtain n where s: "map fst (cf_serial cfg) = map int [0..<n]" by blast
  have "sorted (map fst (cf_serial cfg))" by (simp add: s sorted_map)
  then show "sort_key fst (cf_serial cfg) = cf_serial cfg" by (rule sort_key_id_if_sorted)
  show "distinct (map fst (cf_serial cfg))" unfolding s by (simp add: distinct_map)
qed

lemma serial_ports_names: "serial_ports cs s = (s', chs, True) \<Longrightarrow> map ch_name chs = map snd cs"
proof (induction cs arbitrary: s chs)
  case (Cons c cs)
  then show ?case
    by (elim serial_ports_Cons) (auto simp: serial_port_def Let_def split: prod.splits if_splits option.splits)
qed simp

lemma vz_ports_names: "vz_ports cs s = (s', chs, True) \<Longrightarrow> map ch_name chs = map snd cs"
proof (induction cs arbitrary: s chs)
  case (Cons c cs)
  then show ?case by (elim vz_ports_Cons) (auto simp: vz_port_def split: prod.splits option.splits)
qed simp

text \<open>The channels a live handle has.\<close>

definition served_channels :: "('e, 'x) dispatcher \<Rightarrow> u64 \<Rightarrow> string list" where
  "served_channels d h =
     (case d_backends d h of
        None \<Rightarrow> []
      | Some Hvf \<Rightarrow> (case hv_vms (d_hvf d) h of None \<Rightarrow> [] | Some inst \<Rightarrow> map ch_name (in_serial inst))
      | Some Vz \<Rightarrow> (case vz_channels (d_vz d) h of None \<Rightarrow> [] | Some chs \<Rightarrow> map ch_name chs))"

definition machine_live :: "('e, 'x) dispatcher \<Rightarrow> u64 \<Rightarrow> bool" where
  "machine_live d h \<longleftrightarrow> hv_vms (d_hvf d) h \<noteq> None \<or> vz_vms (d_vz d) h \<noteq> None"

text \<open>
  C10. The program from start to control-C. When it waits, its machine runs, on the engine that was asked for, and the channels its clients
  connect to are, in order, exactly those the machine's serial ports serve. A signal then destroys the machine and the program exits
  with code 0, provided the machine's threads end; else it hangs.
\<close>

theorem cli_starts_and_stops:
  assumes run: "cli_main env os argv (dispatcher_new p w) = Waits h chans d"
  shows "\<exists>cfg. cli_config argv = Inr cfg \<and> h = 1 \<and> machine_live d h \<and> served_channels d h = chans
    \<and> d_backends d h = Some (if cf_engine cfg = ''hvf'' then Hvf else Vz)
    \<and> (case on_signal os joins joins_ch h d of
         Exits code d' \<Rightarrow> code = 0 \<and> \<not> machine_live d' h \<and> d_backends d' = (\<lambda>_. None)
       | r \<Rightarrow> r = Hangs)"
proof -
  from run obtain cfg where cfg: "cli_config argv = Inr cfg" and create: "vm_create env os cfg (dispatcher_new p w) = Some (d, Inr h)"
    and chans: "chans = map snd (cf_serial cfg)"
    by (auto simp: cli_main_def split: sum.splits option.splits prod.splits cli_error.splits)
  note sorted = cli_serial_sorted [OF cfg]
  from create consider
      (Hvf) b where "cf_engine cfg = ''hvf''" "hvf_create env cfg (hvf_backend_new p) = Some (b, Inr h)"
        "d = (dispatcher_new p w)\<lparr>d_hvf := b, d_backends := [h \<mapsto> Hvf]\<rparr>"
    | (Vz) v where "cf_engine cfg \<noteq> ''hvf''" "vz_create os cfg (vz_backend_new p w) = Some (v, Inr h)"
        "d = (dispatcher_new p w)\<lparr>d_vz := v, d_backends := [h \<mapsto> Vz]\<rparr>"
    by (auto simp: vm_create_def dispatcher_new_def split: if_splits option.splits sum.splits)
  then show ?thesis
  proof cases
    case Hvf
    have h: "h = 1" using hvf.create_ok [OF Hvf(2)] by (simp add: hvf_backend_new_def)
    have "\<exists>inst. hv_vms b h = Some inst \<and> map ch_name (in_serial inst) = chans"
      using Hvf(2)
    proof (rule hvf_create_ok)
      fix m1 m2 q chs m3
      assume sp: "serial_ports (sort_key fst (cf_serial cfg)) (m1, hv_pipes (hvf_backend_new p)) = ((m2, q), chs, True)"
        and vms: "hv_vms b = (hv_vms (hvf_backend_new p))(h \<mapsto> \<lparr>in_ctx = m3, in_serial = chs\<rparr>)"
      show ?thesis using serial_ports_names [OF sp]
        by (simp add: vms sorted(1) chans hvf_backend_new_def)
    qed
    then obtain inst where inst: "hv_vms b h = Some inst" "map ch_name (in_serial inst) = chans" by blast
    have live: "machine_live d h" "served_channels d h = chans" "d_backends d h = Some Hvf"
      by (simp_all add: machine_live_def served_channels_def Hvf(3) inst)
    moreover have "case on_signal os joins joins_ch h d of Exits code d' \<Rightarrow> code = 0 \<and> \<not> machine_live d' h \<and> d_backends d' = (\<lambda>_. None)
       | r \<Rightarrow> r = Hangs"
    proof (cases "hvf_destroy joins h b")
      case None
      then show ?thesis by (simp add: on_signal_def vm_destroy_def Hvf(3) h)
    next
      case (Some b2)
      then have "hv_vms b2 h = None" using hvf.destroy_ok [OF Some] by (auto simp: dom_def)
      with Some show ?thesis
        by (simp add: on_signal_def vm_destroy_def Hvf(3) h machine_live_def dispatcher_new_def vz_backend_new_def)
    qed
    ultimately show ?thesis using cfg h Hvf(1) by auto
  next
    case Vz
    have h: "h = 1" using vz.create_ok [OF Vz(2)] by (simp add: vz_backend_new_def)
    obtain b1 vc chs x' machine where c: "vz_configure os cfg (vz_backend_new p w) = (b1, Inr (vc, chs))" "h = vz_next_id b1"
      "v = b1\<lparr>vz_world := x', vz_next_id := vz_next_id b1 + 1, vz_vms := (vz_vms b1)(vz_next_id b1 \<mapsto> machine),
          vz_channels := (if chs = [] then vz_channels b1 else (vz_channels b1)(vz_next_id b1 \<mapsto> chs))\<rparr>"
      by (rule vz_create_ok [OF Vz(2)]) (rule that)
    note keeps = vz_configure_keeps [OF c(1)]
    have names: "map ch_name chs = chans"
    proof (rule vz_configure_ok [OF c(1)])
      fix pts q
      assume vp: "vz_ports (sort_key fst (cf_serial cfg)) ((\<lambda>_. None), vz_pipes (vz_backend_new p w)) = ((pts, q), chs, True)"
      show "map ch_name chs = chans"
        using vz_ports_names [OF vp] by (simp add: sorted(1) chans)
    qed
    have vms: "vz_vms v = [1 \<mapsto> machine]" "vz_channels v = (if chs = [] then (\<lambda>_. None) else [1 \<mapsto> chs])"
      using keeps c(2,3) h by (auto simp: vz_backend_new_def)
    have live: "machine_live d h" "served_channels d h = chans" "d_backends d h = Some Vz"
      using names by (auto simp: machine_live_def served_channels_def Vz(3) vms h)
    moreover have "case on_signal os joins joins_ch h d of Exits code d' \<Rightarrow> code = 0 \<and> \<not> machine_live d' h \<and> d_backends d' = (\<lambda>_. None)
       | r \<Rightarrow> r = Hangs"
    proof (cases "vz_destroy os joins_ch h v")
      case None
      then show ?thesis by (simp add: on_signal_def vm_destroy_def Vz(3) h)
    next
      case (Some v2)
      then have "vz_vms v2 h = None" using vz.destroy_ok [OF Some] by (auto simp: dom_def)
      with Some show ?thesis
        by (simp add: on_signal_def vm_destroy_def Vz(3) h machine_live_def dispatcher_new_def hvf_backend_new_def)
    qed
    ultimately show ?thesis using cfg h Vz(1) by auto
  qed
qed

section \<open>Witness\<close>

definition demo_argv :: "string list" where
  "demo_argv = [''vm-cli'', ''run'', ''--image=a.img'', ''--serial=2'', ''--ram=256MB'', ''--disk=256MB'']"

lemma demo_cli_config:
  "cli_config demo_argv = Inr \<lparr>cf_engine = ''vz'', cf_name = ''vm'', cf_cpu_count = 1, cf_ram_size = ''256MB'', cf_disk_size = ''256MB'',
     cf_image = ''a.img'', cf_kernel = None, cf_initrd = None, cf_cmdline = None, cf_display = None, cf_network = None,
     cf_serial = [(0, ''vm-serial-0''), (1, ''vm-serial-1'')]\<rparr>"
  by code_simp

theorem cli_starts_and_stops_witness:
  "\<exists>d d'. cli_main demo_env demo_vz demo_argv (dispatcher_new demo_pipes 0) = Waits 1 [''vm-serial-0'', ''vm-serial-1''] d
    \<and> served_channels d 1 = [''vm-serial-0'', ''vm-serial-1'']
    \<and> on_signal demo_vz (\<lambda>_. True) (\<lambda>_. True) 1 d = Exits 0 d' \<and> \<not> machine_live d' 1"
proof -
  let ?cfg = "\<lparr>cf_engine = ''vz'', cf_name = ''vm'', cf_cpu_count = 1, cf_ram_size = ''256MB'', cf_disk_size = ''256MB'',
     cf_image = ''a.img'', cf_kernel = None, cf_initrd = None, cf_cmdline = None, cf_display = None, cf_network = None,
     cf_serial = [(0, ''vm-serial-0''), (1, ''vm-serial-1'')]\<rparr>"
  let ?b = "vz_backend_new demo_pipes 0 :: nat vz_backend"
  have "pipes_work (vz_pipes ?b)" by (simp add: vz_backend_new_def demo_pipes_ok)
  then obtain pts p chs where vp: "vz_ports [(0, ''vm-serial-0''), (1, ''vm-serial-1'')] (\<lambda>_. None, vz_pipes ?b) = ((pts, p), chs, True)"
    using vz_ports_work by blast
  have "\<exists>vc chs b1. vz_configure demo_vz ?cfg ?b = (b1, Inr (vc, chs)) \<and> vz_next_id b1 = 1"
    using demo_ram vp
    by (auto simp: vz_configure_def vz_bootloader_def cfg_str_def demo_vz_def is_ipsw_def vz_backend_new_def Let_def simp del: vz_ports.simps)
  then obtain v where "vz_create demo_vz ?cfg ?b = Some (v, Inr 1)" by (auto simp: vz_create_def demo_vz_def Let_def)
  then obtain d :: "(unit, nat) dispatcher" where d: "vm_create demo_env demo_vz ?cfg (dispatcher_new demo_pipes 0) = Some (d, Inr 1)"
    by (simp add: vm_create_def dispatcher_new_def)
  then have m: "cli_main demo_env demo_vz demo_argv (dispatcher_new demo_pipes 0) = Waits 1 [''vm-serial-0'', ''vm-serial-1''] d"
    by (simp add: cli_main_def demo_cli_config)
  note run = cli_starts_and_stops [OF m, of "\<lambda>_. True" "\<lambda>_. True"]
  have sig: "\<exists>code d'. on_signal demo_vz (\<lambda>_. True) (\<lambda>_. True) 1 d = Exits code d'"
    by (auto simp: on_signal_def vm_destroy_def hvf_destroy_def vz_destroy_def vz_close_serial_def demo_vz_def list_all_iff Let_def
        split: option.splits engine.splits)
  then obtain code d' where e: "on_signal demo_vz (\<lambda>_. True) (\<lambda>_. True) 1 d = Exits code d'" by blast
  with run have "code = 0 \<and> \<not> machine_live d' 1" "served_channels d 1 = [''vm-serial-0'', ''vm-serial-1'']" by auto
  with m e show ?thesis by blast
qed

end
