(* ===== verification/Logger.thy ===== *)
theory Logger
  imports Prelude
begin

text \<open>
  The logger (\<^verbatim>\<open>src/include/logger.hpp\<close>): guest console output goes to standard output line by line, messages
  go to standard error, and both get CR LF line ends. Formatting is done by \<^verbatim>\<open>vsnprintf\<close>: a message is given here
  as the text it produced.
\<close>

abbreviation STDOUT :: int where "STDOUT \<equiv> 1"
abbreviation STDERR :: int where "STDERR \<equiv> 2"
abbreviation LF :: u8 where "LF \<equiv> 10"
abbreviation CR :: u8 where "CR \<equiv> 13"

text \<open>The pending partial line and the calls of \<^verbatim>\<open>::write\<close>, in order.\<close>

record logger =
  lg_pending :: "u8 list"
  lg_out :: "(int \<times> u8 list) list"

definition lg_write :: "int \<Rightarrow> u8 list \<Rightarrow> logger \<Rightarrow> logger" where
  "lg_write fd bs s = s\<lparr>lg_out := lg_out s @ [(fd, bs)]\<rparr>"

function raw_emit :: "int \<Rightarrow> u8 list \<Rightarrow> logger \<Rightarrow> logger" where
  "raw_emit fd p s =
     (if p = [] then s
      else (let line = takeWhile (\<lambda>c. c \<noteq> LF) p
            in if length line = length p then lg_write fd p s
               else raw_emit fd (drop (Suc (length line)) p) (lg_write fd [CR, LF] (lg_write fd line s))))"
  by pat_completeness auto
termination
  by (relation "measure (\<lambda>(fd, p, s). length p)") auto

declare raw_emit.simps [simp del]

definition flush_pending :: "logger \<Rightarrow> logger" where
  "flush_pending s =
     (if lg_pending s = [] then s
      else (lg_write STDOUT [CR, LF] (lg_write STDOUT (lg_pending s) s))\<lparr>lg_pending := []\<rparr>)"

text \<open>\<open>msg\<close> is the formatted text; nothing happens when there is none.\<close>

definition vlog :: "u8 list \<Rightarrow> u8 list \<Rightarrow> logger \<Rightarrow> logger" where
  "vlog prefix msg s = (if msg = [] then s else raw_emit STDERR msg (raw_emit STDERR prefix (flush_pending s)))"

text \<open>\<^verbatim>\<open>Info\<close>, \<^verbatim>\<open>Warn\<close> and \<^verbatim>\<open>Error\<close>.\<close>

datatype severity = Sev_Info | Sev_Warn | Sev_Error

fun severity_prefix :: "severity \<Rightarrow> u8 list" where
  "severity_prefix Sev_Info = map of_char ''[info] ''"
| "severity_prefix Sev_Warn = map of_char ''[warn] ''"
| "severity_prefix Sev_Error = map of_char ''[error] ''"

definition log_at :: "severity \<Rightarrow> u8 list \<Rightarrow> logger \<Rightarrow> logger" where
  "log_at sev msg s = vlog (severity_prefix sev) msg s"

definition log_write_char :: "u8 \<Rightarrow> logger \<Rightarrow> logger" where
  "log_write_char c s =
     (if c = CR then s
      else if c = LF then (lg_write STDOUT [CR, LF] (lg_write STDOUT (lg_pending s) s))\<lparr>lg_pending := []\<rparr>
      else s\<lparr>lg_pending := lg_pending s @ [c]\<rparr>)"

definition log_write :: "u8 list \<Rightarrow> logger \<Rightarrow> logger" where
  "log_write data s = fold log_write_char data s"

text \<open>\<^verbatim>\<open>shutdown\<close>, whose calls of \<^verbatim>\<open>fsync\<close> do not change what was written.\<close>

definition log_shutdown :: "logger \<Rightarrow> logger" where
  "log_shutdown s = flush_pending s"

section \<open>Streams\<close>

definition fd_bytes :: "int \<Rightarrow> logger \<Rightarrow> u8 list" where
  "fd_bytes fd s = concat (map snd (filter (\<lambda>(f, bs). f = fd) (lg_out s)))"

definition crlf :: "u8 list \<Rightarrow> u8 list" where
  "crlf bs = concat (map (\<lambda>c. if c = LF then [CR, LF] else [c]) bs)"

lemma fd_bytes_write [simp]:
  "fd_bytes fd (lg_write fd' bs s) = fd_bytes fd s @ (if fd = fd' then bs else [])" "lg_pending (lg_write fd' bs s) = lg_pending s"
  "fd_bytes fd (s\<lparr>lg_pending := p\<rparr>) = fd_bytes fd s"
  by (simp_all add: fd_bytes_def lg_write_def)

lemma crlf_simps [simp]: "crlf [] = []" "crlf (xs @ ys) = crlf xs @ crlf ys" "crlf (c # cs) = (if c = LF then [CR, LF] else [c]) @ crlf cs"
  by (simp_all add: crlf_def)

lemma crlf_no_lf: "LF \<notin> set xs \<Longrightarrow> crlf xs = xs"
  by (induction xs) auto

lemma raw_emit_bytes: "fd_bytes fd (raw_emit fd' p s) = fd_bytes fd s @ (if fd = fd' then crlf p else [])
    \<and> lg_pending (raw_emit fd' p s) = lg_pending s"
proof (induction fd' p s rule: raw_emit.induct)
  case (1 fd' p s)
  define line where "line = takeWhile (\<lambda>c. c \<noteq> LF) p"
  have lf: "LF \<notin> set line" unfolding line_def using set_takeWhileD by fastforce
  show ?case
  proof (cases "p = [] \<or> length line = length p")
    case True
    moreover have "length line = length p \<Longrightarrow> line = p"
      unfolding line_def by (metis append_Nil2 append_eq_conv_conj takeWhile_dropWhile_id)
    ultimately have "raw_emit fd' p s = (if p = [] then s else lg_write fd' p s)"
      by (subst raw_emit.simps) (auto simp: Let_def simp flip: line_def)
    then show ?thesis
      using lf crlf_no_lf [of p] True \<open>length line = length p \<Longrightarrow> line = p\<close> by auto
  next
    case False
    have split: "p = line @ dropWhile (\<lambda>c. c \<noteq> LF) p" unfolding line_def by simp
    with False have "dropWhile (\<lambda>c. c \<noteq> LF) p \<noteq> []" by force
    moreover from this have "hd (dropWhile (\<lambda>c. c \<noteq> LF) p) = LF" using hd_dropWhile by blast
    ultimately obtain rest where rest: "dropWhile (\<lambda>c. c \<noteq> LF) p = LF # rest"
      by (cases "dropWhile (\<lambda>c. c \<noteq> LF) p") auto
    with split have p: "p = line @ LF # rest" by simp
    then have "drop (Suc (length line)) p = rest" by (simp only: p) simp
    then have "raw_emit fd' p s = raw_emit fd' rest (lg_write fd' [CR, LF] (lg_write fd' line s))"
      using False by (subst raw_emit.simps) (simp add: Let_def flip: line_def)
    moreover have "crlf p = line @ [CR, LF] @ crlf rest" using crlf_no_lf [OF lf] by (subst p) simp
    ultimately show ?thesis using 1 False \<open>drop (Suc (length line)) p = rest\<close> by (simp flip: line_def)
  qed
qed

lemma flush_pending_bytes:
  "fd_bytes fd (flush_pending s) = fd_bytes fd s @ (if fd = STDOUT \<and> lg_pending s \<noteq> [] then lg_pending s @ [CR, LF] else [])"
  "lg_pending (flush_pending s) = []"
  by (auto simp: flush_pending_def)

lemma log_write_stream:
  assumes "LF \<notin> set (lg_pending s)" and "CR \<notin> set (lg_pending s)"
  shows "fd_bytes STDOUT (log_write data s) @ lg_pending (log_write data s)
      = fd_bytes STDOUT s @ lg_pending s @ crlf (filter (\<lambda>c. c \<noteq> CR) data)
    \<and> LF \<notin> set (lg_pending (log_write data s)) \<and> CR \<notin> set (lg_pending (log_write data s))
    \<and> fd_bytes STDERR (log_write data s) = fd_bytes STDERR s"
  using assms unfolding log_write_def
proof (induction data arbitrary: s)
  case (Cons c cs)
  have "LF \<notin> set (lg_pending (log_write_char c s)) \<and> CR \<notin> set (lg_pending (log_write_char c s))"
    using Cons.prems by (auto simp: log_write_char_def)
  then show ?case using Cons.IH [of "log_write_char c s"] by (auto simp: log_write_char_def)
qed simp

text \<open>What is done with the logger: guest output in chunks, messages and the shutdown, in any order.\<close>

datatype log_op = Guest "u8 list" | Message severity "u8 list" | Shutdown

fun log_do :: "log_op \<Rightarrow> logger \<Rightarrow> logger" where
  "log_do (Guest data) = log_write data"
| "log_do (Message sev msg) = log_at sev msg"
| "log_do Shutdown = log_shutdown"

text \<open>What an operation says on standard error.\<close>

fun log_text :: "log_op \<Rightarrow> u8 list" where
  "log_text (Message sev msg) = (if msg = [] then [] else severity_prefix sev @ msg)"
| "log_text _ = []"

text \<open>
  What standard output, with the partial line still pending, should look like after an operation, from what it looked like before: guest
  output is added with CR LF line ends; a message and the shutdown end the line that is being written, if there is one.
\<close>

definition end_line :: "u8 list \<Rightarrow> u8 list" where
  "end_line out = (if out = [] \<or> last out = LF then out else out @ [CR, LF])"

fun log_view :: "log_op \<Rightarrow> u8 list \<Rightarrow> u8 list" where
  "log_view (Guest data) out = out @ crlf (filter (\<lambda>c. c \<noteq> CR) data)"
| "log_view (Message sev msg) out = (if msg = [] then out else end_line out)"
| "log_view Shutdown out = end_line out"

definition at_line_start :: "logger \<Rightarrow> bool" where
  "at_line_start s \<longleftrightarrow> (\<exists>pre. fd_bytes STDOUT s = pre @ [CR, LF]) \<or> fd_bytes STDOUT s = []"

definition log_inv :: "logger \<Rightarrow> bool" where
  "log_inv s \<longleftrightarrow> at_line_start s \<and> LF \<notin> set (lg_pending s) \<and> CR \<notin> set (lg_pending s)"

lemma log_char_inv: "log_inv s \<Longrightarrow> log_inv (log_write_char c s)"
  by (auto simp: log_inv_def at_line_start_def log_write_char_def)

lemma log_do_inv: "log_inv s \<Longrightarrow> log_inv (log_do op s)"
proof (cases op)
  case (Guest data)
  assume "log_inv s"
  then have "log_inv (log_write data s)" unfolding log_write_def by (induction data arbitrary: s) (auto simp: log_char_inv)
  with Guest show ?thesis by simp
next
  case (Message sev m)
  assume "log_inv s"
  with Message show ?thesis
    by (auto simp: log_inv_def at_line_start_def log_at_def vlog_def raw_emit_bytes flush_pending_bytes)
next
  case Shutdown
  assume "log_inv s"
  with Shutdown show ?thesis by (auto simp: log_inv_def at_line_start_def log_shutdown_def flush_pending_bytes)
qed

lemma log_do_stderr: "log_inv s \<Longrightarrow> fd_bytes STDERR (log_do op s) = fd_bytes STDERR s @ crlf (log_text op)"
  using log_write_stream by (cases op) (auto simp: log_inv_def log_at_def vlog_def log_shutdown_def raw_emit_bytes flush_pending_bytes)

text \<open>The line being written is the pending one: what is on standard output ends with a line end.\<close>

lemma at_line_start_last: "at_line_start s \<Longrightarrow> fd_bytes STDOUT s = [] \<or> last (fd_bytes STDOUT s) = LF"
  by (auto simp: at_line_start_def)

lemma flush_pending_view:
  assumes "log_inv s"
  shows "fd_bytes STDOUT (flush_pending s) = end_line (fd_bytes STDOUT s @ lg_pending s)"
proof (cases "lg_pending s = []")
  case True
  with assms at_line_start_last [of s] show ?thesis by (auto simp: flush_pending_bytes(1) end_line_def log_inv_def)
next
  case False
  then have "last (lg_pending s) \<in> set (lg_pending s)" by simp
  with assms have "last (lg_pending s) \<noteq> LF" by (auto simp: log_inv_def)
  with False show ?thesis by (simp add: flush_pending_bytes(1) end_line_def)
qed

lemma log_do_stdout:
  assumes "log_inv s"
  shows "fd_bytes STDOUT (log_do op s) @ lg_pending (log_do op s) = log_view op (fd_bytes STDOUT s @ lg_pending s)"
proof (cases op)
  case (Guest data)
  with assms log_write_stream [of s data] show ?thesis by (simp add: log_inv_def)
next
  case (Message sev msg)
  with flush_pending_view [OF assms] show ?thesis by (simp add: log_at_def vlog_def raw_emit_bytes flush_pending_bytes(2))
next
  case Shutdown
  with flush_pending_view [OF assms] show ?thesis by (simp add: log_shutdown_def flush_pending_bytes(2))
qed

lemma log_all_stdout:
  "log_inv s \<Longrightarrow> fd_bytes STDOUT (fold log_do ops s) @ lg_pending (fold log_do ops s) = fold log_view ops (fd_bytes STDOUT s @ lg_pending s)"
  by (induction ops arbitrary: s) (simp_all add: log_do_inv flip: log_do_stdout)

lemma log_all_stderr: "log_inv s \<Longrightarrow> fd_bytes STDERR (fold log_do ops s) = fd_bytes STDERR s @ crlf (concat (map log_text ops))"
  by (induction ops arbitrary: s) (simp_all add: log_do_inv log_do_stderr)

definition logger_init :: logger where "logger_init = \<lparr>lg_pending = [], lg_out = []\<rparr>"

text \<open>
  C17. What the two streams hold after any sequence of guest output, messages and shutdowns. Standard output, with the partial line that is pending,
  is the guest's output in order, however it was cut up, without carriage returns and with CR LF for every line feed; a
  message or a shutdown ends the line being written, if there is one, and adds nothing else. What has been written ends at the
  start of a line, so a message never splits a guest line, and standard error is exactly the messages in order, each after the prefix
  of its severity, with CR LF line ends. After a message or a shutdown nothing is left pending.
\<close>

theorem logger_streams:
  "let s = fold log_do ops logger_init in
      fd_bytes STDOUT s @ lg_pending s = fold log_view ops []
    \<and> fd_bytes STDERR s = crlf (concat (map log_text ops))
    \<and> at_line_start s
    \<and> lg_pending (log_shutdown s) = [] \<and> (msg \<noteq> [] \<longrightarrow> lg_pending (log_at sev msg s) = [])"
proof -
  have init: "log_inv logger_init" by (simp add: log_inv_def at_line_start_def logger_init_def fd_bytes_def)
  then have "log_inv (fold log_do ops logger_init)"
    using log_do_inv by (induction ops rule: rev_induct) simp_all
  moreover have "fd_bytes fd logger_init = [] \<and> lg_pending logger_init = []" for fd by (simp add: logger_init_def fd_bytes_def)
  ultimately show ?thesis
    using log_all_stderr [OF init, of ops] log_all_stdout [OF init, of ops]
    by (simp add: Let_def log_inv_def log_at_def vlog_def log_shutdown_def raw_emit_bytes flush_pending_bytes)
qed

theorem logger_streams_witness:
  "(let s = fold log_do [Guest [65, 13], Message Sev_Warn [72, 10], Guest [66]] logger_init
     in fd_bytes STDOUT s @ lg_pending s = [65, 13, 10, 66]
      \<and> fd_bytes STDERR s = [91, 119, 97, 114, 110, 93, 32, 72, 13, 10] \<and> lg_pending (log_at Sev_Info [73] s) = [])"
  using logger_streams [of "[Guest [65, 13], Message Sev_Warn [72, 10], Guest [66]]" "[73]" Sev_Info]
  by (simp add: Let_def of_char_def end_line_def)

end
