(* ===== verification/Interrupts.thy ===== *)
theory Interrupts
  imports Vcpu
begin

text \<open>
  The interrupts of the virtio devices across the whole machine: when \<^verbatim>\<open>raise_spi\<close> (\<^verbatim>\<open>src/src/hvf/fw_gic.cpp\<close>) is called, with
  which number, and how that agrees with the interrupt status register the driver reads. First device by
  device, for every operation of \<^verbatim>\<open>virtio_*.cpp\<close> that can raise an interrupt, then for the machine with the threads
  of its CPUs and of its devices.
\<close>

section \<open>One operation of a device\<close>

text \<open>The two calls of one \<^verbatim>\<open>raise_spi\<close>: the line is asserted and deasserted.\<close>

definition pulse :: "u32 \<Rightarrow> (u32 \<times> bool) list" where
  "pulse line = [(kGicSpiBase + line, True), (kGicSpiBase + line, False)]"

text \<open>
  An operation either calls nobody and sets no interrupt status, or pulses its line once and leaves the used-buffer bit of the
  status set.
\<close>

definition irq_disc :: "u32 \<Rightarrow> u32 \<Rightarrow> u32 \<Rightarrow> 'e host \<Rightarrow> 'e host \<Rightarrow> bool" where
  "irq_disc line isr isr' h h' \<longleftrightarrow>
     spi_calls h' = spi_calls h \<and> (bit isr' 0 \<longrightarrow> bit isr 0) \<or> spi_calls h' = spi_calls h @ pulse line \<and> bit isr' 0"

named_theorems irq_intro

lemma irq_disc_quiet [irq_intro]:
  "spi_calls h' = spi_calls h \<Longrightarrow> irq_disc line isr isr h h'"
  "spi_calls h' = spi_calls h \<Longrightarrow> irq_disc line isr 0 h h'"
  "spi_calls h' = spi_calls h \<Longrightarrow> irq_disc line isr (isr AND NOT v) h h'"
  by (simp_all add: irq_disc_def bit_simps)

lemma irq_disc_raise [irq_intro]:
  "spi_calls h' = spi_calls h \<Longrightarrow> irq_disc line isr (isr OR 1) h (raise_spi line h')"
  by (simp add: irq_disc_def pulse_def bit_simps)

subsection \<open>The queues\<close>

text \<open>The loops over the rings call nobody: that is an invariant of each.\<close>

lemma blk_data_spi:
  assumes "blk_data os c fd d type s = Some x"
  shows "spi_calls (d_host x) = spi_calls (d_host s)"
proof -
  have step: "spi_calls (d_host (blk_data_step os c fd d type y)) = spi_calls (d_host y)" for y
    by (simp add: blk_data_step_def Let_def split: option.split)
  have loop: "spi_calls (d_host x) = spi_calls (d_host s)"
    if "while_brk b (\<lambda>s. Some (blk_data_step os c fd d type s, False)) s = Some x" for b
    using that by (rule while_brk_rule [where P = "\<lambda>y. spi_calls (d_host y) = spi_calls (d_host s)"]) (auto simp: step)
  show ?thesis
    using assms by (auto simp: blk_data_def Let_def split: if_splits option.splits dest: loop)
qed

lemma blk_rq_spi:
  "blk_rq_step os c fd d a u s = Some (t, k) \<Longrightarrow> spi_calls (r_host t) = spi_calls (r_host s)"
  by (auto simp: blk_rq_step_def Let_def split: option.splits if_splits dest!: blk_data_spi)

lemma process_rq_irq:
  assumes "process_rq os c b h = Some (b', h')"
  shows "irq_disc kSpiBlock (b_irq_status b) (b_irq_status b') h h'"
proof -
  have loop: "spi_calls (r_host r) = spi_calls h"
    if "while_brk B (blk_rq_step os c (b_fd b) d a u) \<lparr>r_last = l, r_host = h, r_raised = False\<rparr> = Some r" for B d a u l r
    using that by (rule while_brk_rule [where P = "\<lambda>s. spi_calls (r_host s) = spi_calls h"]) (auto dest: blk_rq_spi)
  show ?thesis
    using assms by (auto simp: process_rq_def Let_def split: if_splits option.splits intro!: irq_intro dest: loop)
qed

lemma console_tx_irq:
  assumes "console_process_tx c d h = Some (d', h')"
  shows "irq_disc kSpiConsole (con_irq_status d) (con_irq_status d') h h'"
proof -
  have chain: "spi_calls (cc_host x) = spi_calls (cc_host s)"
    if "while_brk B (con_chain_step c tx dd) s = Some x" for B tx dd s x
    using that by (rule while_brk_rule [where P = "\<lambda>y. spi_calls (cc_host y) = spi_calls (cc_host s)"])
      (auto simp: con_chain_step_def Let_def split: if_splits option.splits)
  have step: "con_tx_step c tx dd a u s = Some (t, k) \<Longrightarrow> spi_calls (cr_host t) = spi_calls (cr_host s)" for tx dd a u s t k
    by (auto simp: con_tx_step_def Let_def split: option.splits dest!: chain)
  have loop: "spi_calls (cr_host r) = spi_calls h"
    if "while_brk B (con_tx_step c tx dd a u) \<lparr>cr_last = l, cr_host = h\<rparr> = Some r" for B tx dd a u l r
    using that by (rule while_brk_rule [where P = "\<lambda>s. spi_calls (cr_host s) = spi_calls h"]) (auto dest: step)
  show ?thesis
    using assms by (auto simp: console_process_tx_def Let_def split: if_splits option.splits intro!: irq_intro dest: loop)
qed

lemma feed_rx_irq:
  assumes "feed_rx rd c d h = (d', h')"
  shows "irq_disc kSpiConsole (con_irq_status d) (con_irq_status d') h h'"
  using assms by (auto simp: feed_rx_def Let_def split: if_splits option.splits prod.splits intro!: irq_intro)

lemma flush_events_irq:
  assumes "flush_events_locked c s h = Some (s', h')"
  shows "irq_disc (in_spi s) (in_irq_status s) (in_irq_status s') h h'" "in_spi s' = in_spi s"
proof -
  have step: "flush_step c d a u x = Some (y, k) \<Longrightarrow> spi_calls (ir_host y) = spi_calls (ir_host x)" for d a u x y k
    by (auto simp: flush_step_def Let_def split: option.splits if_splits)
  have loop: "spi_calls (ir_host r) = spi_calls h"
    if "while_brk B (flush_step c d a u) \<lparr>ir_last = l, ir_pending = p, ir_host = h, ir_injected = False\<rparr> = Some r" for B d a u l p r
    using that by (rule while_brk_rule [where P = "\<lambda>s. spi_calls (ir_host s) = spi_calls h"]) (auto dest: step)
  show "irq_disc (in_spi s) (in_irq_status s) (in_irq_status s') h h'" "in_spi s' = in_spi s"
    using assms by (auto simp: flush_events_locked_def Let_def split: if_splits option.splits intro!: irq_intro dest: loop)
qed

lemma statusq_irq:
  assumes "process_statusq c s h = Some (s', h')"
  shows "irq_disc (in_spi s) (in_irq_status s) (in_irq_status s') h h'" "in_spi s' = in_spi s"
proof -
  have loop: "spi_calls (sr_host r) = spi_calls h"
    if "while_brk B (statusq_step a u) \<lparr>sr_last = l, sr_host = h, sr_drained = False\<rparr> = Some r" for B a u l r
    using that by (rule while_brk_rule [where P = "\<lambda>s. spi_calls (sr_host s) = spi_calls h"])
      (auto simp: statusq_step_def Let_def)
  show "irq_disc (in_spi s) (in_irq_status s) (in_irq_status s') h h'" "in_spi s' = in_spi s"
    using assms by (auto simp: process_statusq_def Let_def split: if_splits option.splits intro!: irq_intro dest: loop)
qed

text \<open>Events are queued before they are flushed; queueing touches neither line nor status.\<close>

lemma push_event_irq [simp]:
  "in_spi (push_event_locked ty code v s) = in_spi s" "in_irq_status (push_event_locked ty code v s) = in_irq_status s"
  by (simp_all add: push_event_locked_def Let_def)

lemma send_key_irq:
  "send_key c code p s h = Some (s', h') \<Longrightarrow>
    irq_disc (in_spi s) (in_irq_status s) (in_irq_status s') h h' \<and> in_spi s' = in_spi s"
  unfolding send_key_def using flush_events_irq by fastforce

lemma send_pointer_irq:
  "send_pointer c x y l r s h = Some (s', h') \<Longrightarrow>
    irq_disc (in_spi s) (in_irq_status s) (in_irq_status s') h h' \<and> in_spi s' = in_spi s"
  unfolding send_pointer_def using flush_events_irq by fastforce

lemma do_feed_rx_irq:
  "do_feed_rx c f s h = Some (s', h') \<Longrightarrow> irq_disc kSpiNet (n_irq_status s) (n_irq_status s') h h'"
  by (auto simp: do_feed_rx_def Let_def split: if_splits option.splits intro!: irq_intro)

lemma rx_flush_irq:
  "rx_flush_round c s h = Some (s', h') \<Longrightarrow> irq_disc kSpiNet (n_irq_status s) (n_irq_status s') h h'"
  by (auto simp: rx_flush_round_def split: list.splits intro!: irq_intro dest: do_feed_rx_irq)

lemma enqueue_all_irq: "enqueue_all held fs s = Some t \<Longrightarrow> n_irq_status t = n_irq_status s"
  by (induction held fs s rule: enqueue_all.induct) (auto simp: enqueue_rx_def split: if_splits option.splits)

lemma net_tx_irq:
  assumes "net_process_tx gtx c s h = Some (s', h')"
  shows "irq_disc kSpiNet (n_irq_status s) (n_irq_status s') h h'"
proof -
  let ?P = "\<lambda>r. spi_calls (nr_host r) = spi_calls h \<and> n_irq_status (nr_net r) = n_irq_status s"
  have step: "net_tx_step gtx c d a u x = Some (y, k) \<Longrightarrow> ?P x \<Longrightarrow> ?P y" for d a u x y k
    by (auto simp: net_tx_step_def Let_def split: option.splits if_splits dest!: enqueue_all_irq)
  have loop: "?P r"
    if "while_brk B (net_tx_step gtx c d a u) \<lparr>nr_last = l, nr_host = h, nr_net = s, nr_raised = False\<rparr> = Some r" for B d a u l r
    using that by (rule while_brk_rule [where P = ?P]) (use step in auto)
  show ?thesis
    using assms by (auto simp: net_process_tx_def Let_def split: if_splits option.splits intro!: irq_intro dest: loop)
qed

lemma controlq_irq:
  assumes "process_controlq c g h = Some (g', h')"
  shows "irq_disc kSpiGpu (g_irq_status g) (g_irq_status g') h h'"
proof -
  have step: "controlq_step c d a u x = Some (y, k) \<Longrightarrow> spi_calls (gr_host y) = spi_calls (gr_host x)" for d a u x y k
    by (auto simp: controlq_step_def Let_def split: option.splits)
  have loop: "spi_calls (gr_host r) = spi_calls h"
    if "while_brk B (controlq_step c d a u) \<lparr>gr_last = l, gr_host = h, gr_gpu = g\<rparr> = Some r" for B d a u l r
    using that by (rule while_brk_rule [where P = "\<lambda>s. spi_calls (gr_host s) = spi_calls h"]) (auto dest: step)
  show ?thesis
    using assms by (auto simp: process_controlq_def Let_def split: if_splits option.splits intro!: irq_intro dest: loop)
qed

subsection \<open>The registers\<close>

text \<open>A write to a register is a queue operation, an acknowledgement, a reset, or has nothing to do with interrupts.\<close>

lemma block_write_irq:
  "block_write os c (b, h) off v = Some (b', h') \<Longrightarrow> irq_disc kSpiBlock (b_irq_status b) (b_irq_status b') h h'"
  unfolding block_write_def Let_def fst_conv snd_conv
  by (auto split: if_split_asm intro!: irq_intro dest: process_rq_irq)

lemma console_write_irq:
  "console_write c (d, h) off v = Some (d', h') \<Longrightarrow> irq_disc kSpiConsole (con_irq_status d) (con_irq_status d') h h'"
  unfolding console_write_def Let_def fst_conv snd_conv
  by (auto split: if_split_asm intro!: irq_intro dest: console_tx_irq)

lemma net_write_irq:
  "net_write gtx c (d, h) off v = Some (d', h') \<Longrightarrow> irq_disc kSpiNet (n_irq_status d) (n_irq_status d') h h'"
  unfolding net_write_def Let_def fst_conv snd_conv
  by (auto split: if_split_asm intro!: irq_intro dest: net_tx_irq)

lemma gpu_set_status_irq: "g_irq_status (gpu_set_status v g) = (if v = 0 then 0 else g_irq_status g)"
  by (simp add: gpu_set_status_def Let_def)

lemma gpu_write_irq:
  assumes "gpu_write c (g, h) off v = Some ((g', h'), fs)"
  shows "irq_disc kSpiGpu (g_irq_status g) (g_irq_status g') h h'"
proof -
  have "irq_disc kSpiGpu (g_irq_status g) (g_irq_status x) h h'"
    if "gpu_write_locked c (g, h) off v = Some (x, h')" for x
    using that unfolding gpu_write_locked_def Let_def fst_conv snd_conv
    by (auto simp: gpu_set_status_irq split: if_split_asm intro!: irq_intro dest: controlq_irq)
  then show ?thesis using assms by (auto simp: gpu_write_def split: option.splits prod.splits)
qed

lemma update_config_irq [simp]: "in_spi (update_config s) = in_spi s" "in_irq_status (update_config s) = in_irq_status s"
  by (simp_all add: update_config_def Let_def)

lemma input_write_irq:
  "input_write c (s, h) off v len = Some (s', h') \<Longrightarrow>
    irq_disc (in_spi s) (in_irq_status s) (in_irq_status s') h h' \<and> in_spi s' = in_spi s"
  unfolding input_write_def Let_def fst_conv snd_conv
  by (auto split: if_split_asm intro!: irq_intro dest: flush_events_irq statusq_irq)

section \<open>The machine\<close>

text \<open>The devices and their lines, and what the driver of each reads as its interrupt status.\<close>

definition irq_lines :: "(region \<times> u32) list" where
  "irq_lines = [(R_Console, kSpiConsole), (R_Block, kSpiBlock), (R_Net, kSpiNet), (R_Gpu, kSpiGpu),
     (R_Keyboard, kSpiKeyboard), (R_Tablet, kSpiTablet)]"

fun isr_of :: "region \<Rightarrow> 'e machine \<Rightarrow> u32 option" where
  "isr_of R_Console m = map_option con_irq_status (console_dev m)"
| "isr_of R_Block m = map_option b_irq_status (block_dev m)"
| "isr_of R_Net m = map_option n_irq_status (net_dev m)"
| "isr_of R_Gpu m = map_option g_irq_status (gpu_dev m)"
| "isr_of R_Keyboard m = map_option in_irq_status (keyboard_dev m)"
| "isr_of R_Tablet m = map_option in_irq_status (tablet_dev m)"
| "isr_of _ m = None"

definition irq_pending :: "region \<Rightarrow> 'e machine \<Rightarrow> bool" where
  "irq_pending r m \<longleftrightarrow> (\<exists>v. isr_of r m = Some v \<and> bit v 0)"

text \<open>The input devices were given the numbers that the device tree has for them.\<close>

definition input_lines :: "'e machine \<Rightarrow> bool" where
  "input_lines m \<longleftrightarrow> (\<forall>d. keyboard_dev m = Some d \<longrightarrow> in_spi d = kSpiKeyboard) \<and> (\<forall>d. tablet_dev m = Some d \<longrightarrow> in_spi d = kSpiTablet)"

text \<open>The devices a machine has.\<close>

definition devices :: "'e machine \<Rightarrow> region set" where
  "devices m = {r. isr_of r m \<noteq> None}"

text \<open>
  The lines \<open>ls\<close> are pulsed between \<open>m\<close> and \<open>m'\<close>: at most one, that of a device whose status is then set; and every status
  that gets set is announced by its line.
\<close>

definition irq_change :: "u32 list \<Rightarrow> 'e machine \<Rightarrow> 'e machine \<Rightarrow> bool" where
  "irq_change ls m m' \<longleftrightarrow> spi_calls (hst m') = spi_calls (hst m) @ concat (map pulse ls) \<and> length ls \<le> 1
     \<and> (\<forall>line \<in> set ls. \<exists>r. (r, line) \<in> set irq_lines \<and> irq_pending r m')
     \<and> (\<forall>(r, line) \<in> set irq_lines. irq_pending r m' \<longrightarrow> irq_pending r m \<or> line \<in> set ls)
     \<and> devices m' = devices m \<and> input_lines m'"

text \<open>Two machines whose devices and interrupt calls are the same.\<close>

definition irq_same :: "'e machine \<Rightarrow> 'e machine \<Rightarrow> bool" where
  "irq_same m m' \<longleftrightarrow> spi_calls (hst m') = spi_calls (hst m) \<and> console_dev m' = console_dev m \<and> block_dev m' = block_dev m
     \<and> net_dev m' = net_dev m \<and> gpu_dev m' = gpu_dev m \<and> keyboard_dev m' = keyboard_dev m \<and> tablet_dev m' = tablet_dev m"

lemma isr_of_same: "irq_same m m' \<Longrightarrow> isr_of r m' = isr_of r m"
  by (cases r) (simp_all add: irq_same_def)

lemma irq_change_same: "irq_same m m' \<Longrightarrow> input_lines m \<Longrightarrow> irq_change [] m m'"
  by (auto simp: irq_change_def irq_pending_def devices_def isr_of_same) (simp_all add: irq_same_def input_lines_def)

lemma irq_change_trans:
  assumes "irq_change ls m m'"
  shows "irq_same m m0 \<Longrightarrow> irq_change ls m0 m'" "irq_same m' m1 \<Longrightarrow> irq_change ls m m1"
  using assms
  by (simp_all add: irq_change_def irq_pending_def devices_def isr_of_same) (simp_all add: irq_same_def input_lines_def)

text \<open>A device that keeps the discipline, put back into the machine.\<close>

lemma irq_change_dev:
  assumes "irq_disc line v v' (hst m) (hst m')" and "(r, line) \<in> set irq_lines"
    and "isr_of r m = Some v" and "isr_of r m' = Some v'" and "\<And>r'. r' \<noteq> r \<Longrightarrow> isr_of r' m' = isr_of r' m" and "input_lines m'"
  shows "\<exists>ls. irq_change ls m m'"
proof -
  have dev: "devices m' = devices m" unfolding devices_def using assms(3-5) by (metis option.distinct(1))
  have other: "r' \<noteq> r \<Longrightarrow> irq_pending r' m' = irq_pending r' m" for r' by (simp add: irq_pending_def assms(5))
  have this_dev: "irq_pending r m \<longleftrightarrow> bit v 0" "irq_pending r m' \<longleftrightarrow> bit v' 0" using assms(3,4) by (simp_all add: irq_pending_def)
  have uniq: "(r, l) \<in> set irq_lines \<Longrightarrow> l = line" for l using assms(2) by (auto simp: irq_lines_def)
  from assms(1) consider "spi_calls (hst m') = spi_calls (hst m)" "bit v' 0 \<longrightarrow> bit v 0"
    | "spi_calls (hst m') = spi_calls (hst m) @ pulse line" "bit v' 0"
    unfolding irq_disc_def by blast
  then show ?thesis
  proof cases
    case 1
    then have "irq_pending r' m' \<Longrightarrow> irq_pending r' m" for r' using this_dev other by (cases "r' = r") simp_all
    then have "irq_change [] m m'" unfolding irq_change_def using 1(1) dev assms(6) by auto
    then show ?thesis ..
  next
    case 2
    then have "irq_pending r' m' \<Longrightarrow> (r', l) \<in> set irq_lines \<Longrightarrow> irq_pending r' m \<or> l = line" for r' l
      using uniq other by (cases "r' = r") auto
    then have "irq_change [line] m m'" unfolding irq_change_def using 2 this_dev dev assms(2,6) by auto
    then show ?thesis ..
  qed
qed

subsection \<open>A CPU leaves the guest\<close>

lemma irq_same_refl [simp]: "irq_same m m"
  by (simp add: irq_same_def)

lemma irq_same_regs [simp]:
  "irq_same m (upd_vcpu i f m') = irq_same m m'" "irq_same m (set_reg i r v m') = irq_same m m'"
  "irq_same m (set_xreg os i n v m') = irq_same m m'" "irq_same m (advance_pc os i m') = irq_same m m'"
  "irq_same m (vm_stop m') = irq_same m m'"
  by (simp_all add: irq_same_def set_reg_def upd_vcpu_def advance_pc_def vm_stop_def set_xreg_def)

lemma irq_same_uart [simp]: "irq_same m (uart_write off v m)"
  by (simp add: irq_same_def uart_write_def Let_def)

text \<open>Each device, put back into the machine after one of its operations.\<close>

lemma irq_change_devs:
  assumes "input_lines m"
  shows
  "console_dev m = Some d1 \<Longrightarrow> irq_disc kSpiConsole (con_irq_status d1) (con_irq_status d1') (hst m) h \<Longrightarrow>
    \<exists>ls. irq_change ls m (m\<lparr>console_dev := Some d1', hst := h\<rparr>)"
  "block_dev m = Some d2 \<Longrightarrow> irq_disc kSpiBlock (b_irq_status d2) (b_irq_status d2') (hst m) h \<Longrightarrow>
    \<exists>ls. irq_change ls m (m\<lparr>block_dev := Some d2', hst := h\<rparr>)"
  "net_dev m = Some d3 \<Longrightarrow> irq_disc kSpiNet (n_irq_status d3) (n_irq_status d3') (hst m) h \<Longrightarrow>
    \<exists>ls. irq_change ls m (m\<lparr>net_dev := Some d3', hst := h\<rparr>)"
  "gpu_dev m = Some d4 \<Longrightarrow> irq_disc kSpiGpu (g_irq_status d4) (g_irq_status d4') (hst m) h \<Longrightarrow>
    \<exists>ls. irq_change ls m (m\<lparr>gpu_dev := Some d4', hst := h, gpu_out := fs\<rparr>)"
  "keyboard_dev m = Some d5 \<Longrightarrow> irq_disc (in_spi d5) (in_irq_status d5) (in_irq_status d5') (hst m) h \<and> in_spi d5' = in_spi d5 \<Longrightarrow>
    \<exists>ls. irq_change ls m (m\<lparr>keyboard_dev := Some d5', hst := h\<rparr>)"
  "tablet_dev m = Some d6 \<Longrightarrow> irq_disc (in_spi d6) (in_irq_status d6) (in_irq_status d6') (hst m) h \<and> in_spi d6' = in_spi d6 \<Longrightarrow>
    \<exists>ls. irq_change ls m (m\<lparr>tablet_dev := Some d6', hst := h\<rparr>)"
proof -
  have other: "r' \<noteq> R_Console \<Longrightarrow> isr_of r' (m\<lparr>console_dev := x1, hst := h\<rparr>) = isr_of r' m"
    "r' \<noteq> R_Block \<Longrightarrow> isr_of r' (m\<lparr>block_dev := x2, hst := h\<rparr>) = isr_of r' m"
    "r' \<noteq> R_Net \<Longrightarrow> isr_of r' (m\<lparr>net_dev := x3, hst := h\<rparr>) = isr_of r' m"
    "r' \<noteq> R_Gpu \<Longrightarrow> isr_of r' (m\<lparr>gpu_dev := x4, hst := h, gpu_out := fs\<rparr>) = isr_of r' m"
    "r' \<noteq> R_Keyboard \<Longrightarrow> isr_of r' (m\<lparr>keyboard_dev := x5, hst := h\<rparr>) = isr_of r' m"
    "r' \<noteq> R_Tablet \<Longrightarrow> isr_of r' (m\<lparr>tablet_dev := x6, hst := h\<rparr>) = isr_of r' m" for r' x1 x2 x3 x4 x5 x6
    by (cases r'; simp)+
  note lines = irq_lines_def and il = assms [unfolded input_lines_def]
  show "console_dev m = Some d1 \<Longrightarrow> irq_disc kSpiConsole (con_irq_status d1) (con_irq_status d1') (hst m) h \<Longrightarrow>
      \<exists>ls. irq_change ls m (m\<lparr>console_dev := Some d1', hst := h\<rparr>)"
    by (rule irq_change_dev [where r = R_Console and line = kSpiConsole]) (use il in \<open>simp_all add: other lines input_lines_def\<close>)
  show "block_dev m = Some d2 \<Longrightarrow> irq_disc kSpiBlock (b_irq_status d2) (b_irq_status d2') (hst m) h \<Longrightarrow>
      \<exists>ls. irq_change ls m (m\<lparr>block_dev := Some d2', hst := h\<rparr>)"
    by (rule irq_change_dev [where r = R_Block and line = kSpiBlock]) (use il in \<open>simp_all add: other lines input_lines_def\<close>)
  show "net_dev m = Some d3 \<Longrightarrow> irq_disc kSpiNet (n_irq_status d3) (n_irq_status d3') (hst m) h \<Longrightarrow>
      \<exists>ls. irq_change ls m (m\<lparr>net_dev := Some d3', hst := h\<rparr>)"
    by (rule irq_change_dev [where r = R_Net and line = kSpiNet]) (use il in \<open>simp_all add: other lines input_lines_def\<close>)
  show "gpu_dev m = Some d4 \<Longrightarrow> irq_disc kSpiGpu (g_irq_status d4) (g_irq_status d4') (hst m) h \<Longrightarrow>
      \<exists>ls. irq_change ls m (m\<lparr>gpu_dev := Some d4', hst := h, gpu_out := fs\<rparr>)"
    by (rule irq_change_dev [where r = R_Gpu and line = kSpiGpu]) (use il in \<open>simp_all add: other lines input_lines_def\<close>)
  show "keyboard_dev m = Some d5 \<Longrightarrow> irq_disc (in_spi d5) (in_irq_status d5) (in_irq_status d5') (hst m) h \<and> in_spi d5' = in_spi d5 \<Longrightarrow>
      \<exists>ls. irq_change ls m (m\<lparr>keyboard_dev := Some d5', hst := h\<rparr>)"
    by (rule irq_change_dev [where r = R_Keyboard and line = kSpiKeyboard]) (use il in \<open>simp_all add: other lines input_lines_def\<close>)
  show "tablet_dev m = Some d6 \<Longrightarrow> irq_disc (in_spi d6) (in_irq_status d6) (in_irq_status d6') (hst m) h \<and> in_spi d6' = in_spi d6 \<Longrightarrow>
      \<exists>ls. irq_change ls m (m\<lparr>tablet_dev := Some d6', hst := h\<rparr>)"
    by (rule irq_change_dev [where r = R_Tablet and line = kSpiTablet]) (use il in \<open>simp_all add: other lines input_lines_def\<close>)
qed

lemma irq_change_advance: "\<exists>ls. irq_change ls m m' \<Longrightarrow> \<exists>ls. irq_change ls m (advance_pc os i m')"
  using irq_change_trans(2) irq_same_regs(4) irq_same_refl by blast

lemma handle_mmio_irq:
  assumes "handle_mmio os i ex m = Some m'" and "input_lines m"
  shows "\<exists>ls. irq_change ls m m'"
proof -
  note unf = handle_mmio_def [folded in_win_def, folded esr_srt_def, folded esr_wnr_def] Let_def
  have quiet: "irq_same m x \<Longrightarrow> \<exists>ls. irq_change ls m x" for x using irq_change_same assms(2) by blast
  show ?thesis
  proof (cases "esr_wnr (ex_syndrome ex)")
    case True
    then show ?thesis
      using assms(1) unfolding unf
      by (auto split: if_split_asm option.splits intro!: irq_change_advance quiet [OF irq_same_refl] quiet [OF irq_same_uart] irq_change_devs [OF assms(2)]
          dest: block_write_irq console_write_irq net_write_irq gpu_write_irq input_write_irq)
  next
    case False
    then show ?thesis
      using assms(1) unfolding unf by (auto split: if_split_asm option.splits intro!: quiet)
  qed
qed

lemma exit_handle_irq:
  assumes "exit_handle os i ex m = Some (m', k)" and "input_lines m"
  shows "\<exists>ls. irq_change ls m m'"
proof -
  have "handle_mmio os i ex m = Some m' \<or> irq_same m m'"
    using assms(1)
    by (auto simp: exit_handle_def Let_def handle_msr_mrs_def psci_simps split: exit_reason.splits if_split_asm)
  then show ?thesis using handle_mmio_irq irq_change_same assms(2) by blast
qed

section \<open>The machine with its threads\<close>

text \<open>One round of \<^verbatim>\<open>Console::rx_thread_func\<close>: \<open>readable\<close> is what \<^verbatim>\<open>poll\<close> says within its 20 milliseconds.\<close>

definition console_rx_round ::
  "bool \<Rightarrow> ('e \<Rightarrow> int \<Rightarrow> u8 option \<times> 'e) \<Rightarrow> ('a) vm_map_scheme \<Rightarrow> console \<Rightarrow> 'e host \<Rightarrow> console \<times> 'e host" where
  "console_rx_round readable rd c con h = (if readable then feed_rx rd c con h else (con, h))"

lemma console_rx_round_irq:
  "console_rx_round readable rd c d h = (d', h') \<Longrightarrow> irq_disc kSpiConsole (con_irq_status d) (con_irq_status d') h h'"
  by (auto simp: console_rx_round_def split: if_splits intro!: irq_intro dest: feed_rx_irq)

abbreviation put_machine :: "'e vmm \<Rightarrow> 'e machine \<Rightarrow> 'e vmm" where
  "put_machine s m \<equiv> s\<lparr>vm_m := m\<rparr>"

text \<open>
  What happens to a running machine, one action at a time: a step of the CPUs and of \<^verbatim>\<open>run_all\<close> (\<open>vmm_step\<close>); the console's thread polls its
  descriptor; the network device's thread has a frame to deliver, and the stack's threads queue one; the user's keyboard and pointer; and
  the rest of the host changes the state of its descriptors.
\<close>

inductive live_step :: "'e vmm_os \<Rightarrow> ('e \<Rightarrow> int \<Rightarrow> u8 option \<times> 'e) \<Rightarrow> 'e vmm \<Rightarrow> 'e vmm \<Rightarrow> bool" for os rd where
  cpus: "vmm_step os s s' \<Longrightarrow> live_step os rd s s'"
| console_input: "console_dev (vm_m s) = Some d \<Longrightarrow> console_rx_round readable rd (vm_m s) d (hst (vm_m s)) = (d', h) \<Longrightarrow>
    live_step os rd s (put_machine s ((vm_m s)\<lparr>console_dev := Some d', hst := h\<rparr>))"
| frame_queued: "net_dev (vm_m s) = Some n \<Longrightarrow> enqueue_rx False f n = Some n' \<Longrightarrow>
    live_step os rd s (put_machine s ((vm_m s)\<lparr>net_dev := Some n'\<rparr>))"
| frame_delivered: "net_dev (vm_m s) = Some n \<Longrightarrow> rx_flush_round (vm_m s) n (hst (vm_m s)) = Some (n', h) \<Longrightarrow>
    live_step os rd s (put_machine s ((vm_m s)\<lparr>net_dev := Some n', hst := h\<rparr>))"
| key: "keyboard_dev (vm_m s) = Some i \<Longrightarrow> send_key (vm_m s) code pressed i (hst (vm_m s)) = Some (i', h) \<Longrightarrow>
    live_step os rd s (put_machine s ((vm_m s)\<lparr>keyboard_dev := Some i', hst := h\<rparr>))"
| pointer: "tablet_dev (vm_m s) = Some i \<Longrightarrow> send_pointer (vm_m s) x y l r i (hst (vm_m s)) = Some (i', h) \<Longrightarrow>
    live_step os rd s (put_machine s ((vm_m s)\<lparr>tablet_dev := Some i', hst := h\<rparr>))"
| world: "live_step os rd s (put_machine s ((vm_m s)\<lparr>hst := (hst (vm_m s))\<lparr>ext := e\<rparr>\<rparr>))"

lemma vmm_step_irq:
  "vmm_step os s s' \<Longrightarrow> input_lines (vm_m s) \<Longrightarrow> \<exists>ls. irq_change ls (vm_m s) (vm_m s')"
proof (induction rule: vmm_step.induct)
  case (guest_exit s i m ex m' cont)
  have same: "irq_same (vm_m s) m" using guest_exit(2) by (auto simp: guest_ran_def) (simp add: irq_same_def)
  then have "input_lines m" using guest_exit(4) by (simp add: irq_same_def input_lines_def)
  from exit_handle_irq [OF guest_exit(3) this] obtain ls where "irq_change ls m m'" ..
  moreover have "irq_same m (vm_m s)" using same by (simp add: irq_same_def)
  ultimately have "irq_change ls (vm_m s) m'" by (rule irq_change_trans(1))
  then show ?case by auto
next
  case (run_all s)
  have "irq_same (vm_m s) ((vm_m s)\<lparr>running := True\<rparr>)" by (simp add: irq_same_def)
  with run_all(2) show ?case by (auto dest: irq_change_same)
qed (auto simp: setup_regs_def boot_secondary_def take_mailbox_def Let_def intro!: exI [of _ "[]"] irq_change_same)

lemma live_step_irq:
  "live_step os rd s s' \<Longrightarrow> input_lines (vm_m s) \<Longrightarrow> \<exists>ls. irq_change ls (vm_m s) (vm_m s')"
proof (induction rule: live_step.induct)
  case (cpus s s')
  then show ?case by (rule vmm_step_irq)
next
  case (console_input s d readable d' h)
  then show ?case using irq_change_devs(1) console_rx_round_irq by fastforce
next
  case (frame_queued s n f n')
  then have "irq_disc kSpiNet (n_irq_status n) (n_irq_status n') (hst (vm_m s)) (hst (vm_m s))"
    by (auto simp: enqueue_rx_def irq_disc_def)
  from irq_change_devs(3) [OF frame_queued(3,1) this] show ?case by simp
next
  case (frame_delivered s n n' h)
  then show ?case using irq_change_devs(3) rx_flush_irq by fastforce
next
  case (key s i code pressed i' h)
  then show ?case using irq_change_devs(5) send_key_irq by fastforce
next
  case (pointer s i x y l r i' h)
  then show ?case using irq_change_devs(6) send_pointer_irq by fastforce
next
  case (world s e)
  have "irq_same (vm_m s) ((vm_m s)\<lparr>hst := (hst (vm_m s))\<lparr>ext := e\<rparr>\<rparr>)" by (simp add: irq_same_def)
  from irq_change_same [OF this world] show ?case by auto
qed

text \<open>
  A machine in which no interrupt has been raised yet; every state it reaches. The calls so far are complete pulses, and a status that is
  set has been announced.
\<close>

definition irq_inv :: "region set \<Rightarrow> 'e machine \<Rightarrow> bool" where
  "irq_inv D m \<longleftrightarrow> devices m = D \<and> input_lines m \<and> (\<exists>ls. spi_calls (hst m) = concat (map pulse ls)
     \<and> set ls \<subseteq> {line. \<exists>r \<in> D. (r, line) \<in> set irq_lines}
     \<and> (\<forall>(r, line) \<in> set irq_lines. irq_pending r m \<longrightarrow> line \<in> set ls))"

lemma irq_pending_devices: "irq_pending r m \<Longrightarrow> r \<in> devices m"
  by (auto simp: irq_pending_def devices_def)

lemma irq_inv_change:
  assumes "irq_inv D m" and "irq_change ls m m'"
  shows "irq_inv D m'"
proof -
  from assms(1) obtain ks where ks: "spi_calls (hst m) = concat (map pulse ks)" "set ks \<subseteq> {line. \<exists>r \<in> D. (r, line) \<in> set irq_lines}"
    "\<forall>(r, line) \<in> set irq_lines. irq_pending r m \<longrightarrow> line \<in> set ks" and D: "devices m = D"
    by (auto simp: irq_inv_def)
  from assms(2) have ls: "spi_calls (hst m') = concat (map pulse (ks @ ls))" "devices m' = D" "input_lines m'"
    "\<forall>line \<in> set ls. \<exists>r. (r, line) \<in> set irq_lines \<and> irq_pending r m'"
    "\<forall>(r, line) \<in> set irq_lines. irq_pending r m' \<longrightarrow> irq_pending r m \<or> line \<in> set ls"
    by (simp_all add: irq_change_def ks(1) D)
  have "set (ks @ ls) \<subseteq> {line. \<exists>r \<in> D. (r, line) \<in> set irq_lines}"
    using ks(2) ls(2,4) irq_pending_devices by fastforce
  moreover have "\<forall>(r, line) \<in> set irq_lines. irq_pending r m' \<longrightarrow> line \<in> set (ks @ ls)" using ks(3) ls(5) by fastforce
  ultimately show ?thesis using ls(1-3) unfolding irq_inv_def by blast
qed

lemma irq_inv_reachable:
  assumes "(live_step os rd)\<^sup>*\<^sup>* s s'" and "irq_inv D (vm_m s)"
  shows "irq_inv D (vm_m s')"
  using assms
proof (induction rule: rtranclp_induct)
  case (step t u)
  then have "input_lines (vm_m t)" by (simp add: irq_inv_def)
  from live_step_irq [OF step(2) this] step show ?case using irq_inv_change by blast
qed

end
