(* ===== verification/Teardown.thy ===== *)
theory Teardown
  imports Interrupts
begin

text \<open>
  The end of a machine: the destructor of \<^verbatim>\<open>VMContext\<close> (\<^verbatim>\<open>src/src/hvf/vm_context.cpp\<close>) with those of its devices, while the threads of the
  network device (\<^verbatim>\<open>virtio_net.cpp\<close>) and of the console (\<^verbatim>\<open>virtio_console.cpp\<close>) still run and the network stack may still deliver
  frames. The CPUs have ended before (\<open>Vcpu\<close>); the end of the stack itself is in \<open>Net_Listen\<close>.
\<close>

section \<open>The thread of the network device\<close>

text \<open>
  Where \<^verbatim>\<open>rx_flush_func\<close> is: at the test of its loop; holding the lock, about to evaluate the predicate of the wait; having
  found it false, about to block; blocked without the lock; with a frame it has taken from the queue; ended.
\<close>

datatype net_pc = N_Top | N_Locked | N_Parking | N_Waiting | N_Deliver frame | N_Done

record 'e net_thread =
  nt_net :: net
  nt_host :: "'e host"
  nt_stop :: bool
  nt_pc :: net_pc

text \<open>The next action of the thread; \<open>None\<close> when it is blocked, when a delivery does not return, or at its end.\<close>

definition net_rx_next :: "('a) vm_map_scheme \<Rightarrow> 'e net_thread \<Rightarrow> 'e net_thread option" where
  "net_rx_next c t =
     (case nt_pc t of
        N_Top \<Rightarrow> Some (t\<lparr>nt_pc := (if nt_stop t then N_Done else N_Locked)\<rparr>)
      | N_Locked \<Rightarrow>
          if nt_stop t then Some (t\<lparr>nt_pc := N_Done\<rparr>)
          else (case n_rx_queue (nt_net t) of
                  [] \<Rightarrow> Some (t\<lparr>nt_pc := N_Parking\<rparr>)
                | f # fs \<Rightarrow> Some (t\<lparr>nt_net := (nt_net t)\<lparr>n_rx_queue := fs\<rparr>, nt_pc := N_Deliver f\<rparr>))
      | N_Parking \<Rightarrow> Some (t\<lparr>nt_pc := N_Waiting\<rparr>)
      | N_Waiting \<Rightarrow> None
      | N_Deliver f \<Rightarrow>
          map_option (\<lambda>(n, h). t\<lparr>nt_net := n, nt_host := h, nt_pc := N_Top\<rparr>) (do_feed_rx c f (nt_net t) (nt_host t))
      | N_Done \<Rightarrow> None)"

text \<open>A notification: it reaches a thread that is blocked, and no other.\<close>

definition net_notify :: "net_pc \<Rightarrow> net_pc" where
  "net_notify p = (if p = N_Waiting then N_Locked else p)"

text \<open>A thread of the stack delivers a frame through \<^verbatim>\<open>enqueue_rx\<close>; it has to wait while the device's thread has the lock.\<close>

definition net_frame :: "frame \<Rightarrow> 'e net_thread \<Rightarrow> 'e net_thread option" where
  "net_frame f t =
     (if nt_pc t = N_Locked \<or> nt_pc t = N_Parking then None
      else map_option (\<lambda>n. t\<lparr>nt_net := n, nt_pc := net_notify (nt_pc t)\<rparr>) (enqueue_rx False f (nt_net t)))"

section \<open>The thread of the console\<close>

datatype con_pc = C_Top | C_Polling | C_Done

record 'e con_thread =
  ct_con :: console
  ct_host :: "'e host"
  ct_stop :: bool
  ct_pc :: con_pc

definition con_rx_next ::
  "bool \<Rightarrow> ('e \<Rightarrow> int \<Rightarrow> u8 option \<times> 'e) \<Rightarrow> ('a) vm_map_scheme \<Rightarrow> 'e con_thread \<Rightarrow> 'e con_thread option" where
  "con_rx_next readable rd c t =
     (case ct_pc t of
        C_Top \<Rightarrow> Some (t\<lparr>ct_pc := (if ct_stop t then C_Done else C_Polling)\<rparr>)
      | C_Polling \<Rightarrow>
          (case console_rx_round readable rd c (ct_con t) (ct_host t) of
             (d, h) \<Rightarrow> Some (t\<lparr>ct_con := d, ct_host := h, ct_pc := C_Top\<rparr>))
      | C_Done \<Rightarrow> None)"

section \<open>The destructors\<close>

text \<open>
  The members of \<^verbatim>\<open>Net\<close> are destroyed after the body of its destructor, the last declared first: \<open>Np_Members\<close> are
  \<^verbatim>\<open>rx_cv_\<close>, \<^verbatim>\<open>rx_thread_\<close>, \<^verbatim>\<open>stop_rx_\<close> and \<^verbatim>\<open>rx_queue_\<close>, \<open>Np_Stack\<close> is \<^verbatim>\<open>stack_\<close>.
\<close>

datatype net_phase = Np_Stop | Np_Notify | Np_Join | Np_Members | Np_Stack

datatype con_phase = Cp_Stop | Cp_Join | Cp_Close

datatype end_phase = Ph_Cpus | Ph_Inputs | Ph_Net net_phase | Ph_Block | Ph_Console con_phase | Ph_Ram | Ph_Gone

text \<open>\<open>ve_fds\<close> are the open descriptors, \<open>ve_mapped\<close> says that guest RAM is mapped, \<open>ve_misuse\<close> that a destroyed member was used.\<close>

record 'e vm_end =
  ve_m :: "'e machine"
  ve_net_pc :: net_pc
  ve_net_stop :: bool
  ve_con_pc :: con_pc
  ve_con_stop :: bool
  ve_phase :: end_phase
  ve_fds :: "int set"
  ve_mapped :: bool
  ve_misuse :: bool

definition close_fd :: "int \<Rightarrow> int set \<Rightarrow> int set" where
  "close_fd fd fds = (if fd \<ge> 0 then fds - {fd} else fds)"

definition net_dtor :: "net_phase \<Rightarrow> 'e vm_end \<Rightarrow> 'e vm_end option" where
  "net_dtor p s =
     (case p of
        Np_Stop \<Rightarrow> Some (s\<lparr>ve_net_stop := True, ve_phase := Ph_Net Np_Notify\<rparr>)
      | Np_Notify \<Rightarrow> Some (s\<lparr>ve_net_pc := net_notify (ve_net_pc s), ve_phase := Ph_Net Np_Join\<rparr>)
      | Np_Join \<Rightarrow> if ve_net_pc s = N_Done then Some (s\<lparr>ve_phase := Ph_Net Np_Members\<rparr>) else None
      | Np_Members \<Rightarrow> Some (s\<lparr>ve_phase := Ph_Net Np_Stack\<rparr>)
      | Np_Stack \<Rightarrow> Some (s\<lparr>ve_m := (ve_m s)\<lparr>net_dev := None\<rparr>, ve_phase := Ph_Block\<rparr>))"

definition con_dtor :: "con_phase \<Rightarrow> 'e vm_end \<Rightarrow> 'e vm_end option" where
  "con_dtor p s =
     (case p of
        Cp_Stop \<Rightarrow> Some (s\<lparr>ve_con_stop := True, ve_phase := Ph_Console Cp_Join\<rparr>)
      | Cp_Join \<Rightarrow> if ve_con_pc s = C_Done then Some (s\<lparr>ve_phase := Ph_Console Cp_Close\<rparr>) else None
      | Cp_Close \<Rightarrow>
          (case console_dev (ve_m s) of
             None \<Rightarrow> None
           | Some d \<Rightarrow>
               Some (s\<lparr>ve_m := (ve_m s)\<lparr>console_dev := None\<rparr>, ve_phase := Ph_Ram,
                       ve_fds := close_fd (con_tx_fd d) (close_fd (con_rx_fd d) (ve_fds s))\<rparr>)))"

definition block_dtor :: "block option \<Rightarrow> int set \<Rightarrow> int set" where
  "block_dtor b fds = (case b of None \<Rightarrow> fds | Some d \<Rightarrow> close_fd (b_fd d) fds)"

text \<open>The last phase gives RAM back, with the calls of \<open>ram_release\<close> in \<open>Guest_Ram\<close>; here only its moment matters.\<close>

definition vmctx_dtor :: "'e vm_end \<Rightarrow> 'e vm_end option" where
  "vmctx_dtor s =
     (case ve_phase s of
        Ph_Cpus \<Rightarrow> Some (s\<lparr>ve_m := (ve_m s)\<lparr>vcpus := []\<rparr>, ve_phase := Ph_Inputs\<rparr>)
      | Ph_Inputs \<Rightarrow>
          Some (s\<lparr>ve_m := (ve_m s)\<lparr>tablet_dev := None, keyboard_dev := None, gpu_dev := None\<rparr>,
                  ve_phase := (if net_dev (ve_m s) = None then Ph_Block else Ph_Net Np_Stop)\<rparr>)
      | Ph_Net p \<Rightarrow> net_dtor p s
      | Ph_Block \<Rightarrow>
          Some (s\<lparr>ve_m := (ve_m s)\<lparr>block_dev := None\<rparr>, ve_fds := block_dtor (block_dev (ve_m s)) (ve_fds s),
                  ve_phase := (if console_dev (ve_m s) = None then Ph_Ram else Ph_Console Cp_Stop)\<rparr>)
      | Ph_Console p \<Rightarrow> con_dtor p s
      | Ph_Ram \<Rightarrow> Some (s\<lparr>ve_mapped := False, ve_phase := Ph_Gone\<rparr>)
      | Ph_Gone \<Rightarrow> None)"

section \<open>All threads\<close>

definition net_of :: "'e vm_end \<Rightarrow> net \<Rightarrow> 'e net_thread" where
  "net_of s n = \<lparr>nt_net = n, nt_host = hst (ve_m s), nt_stop = ve_net_stop s, nt_pc = ve_net_pc s\<rparr>"

definition put_net :: "'e net_thread \<Rightarrow> 'e vm_end \<Rightarrow> 'e vm_end" where
  "put_net t s = s\<lparr>ve_m := (ve_m s)\<lparr>net_dev := Some (nt_net t), hst := nt_host t\<rparr>, ve_net_pc := nt_pc t\<rparr>"

definition con_of :: "'e vm_end \<Rightarrow> console \<Rightarrow> 'e con_thread" where
  "con_of s d = \<lparr>ct_con = d, ct_host = hst (ve_m s), ct_stop = ve_con_stop s, ct_pc = ve_con_pc s\<rparr>"

definition put_con :: "'e con_thread \<Rightarrow> 'e vm_end \<Rightarrow> 'e vm_end" where
  "put_con t s = s\<lparr>ve_m := (ve_m s)\<lparr>console_dev := Some (ct_con t), hst := ct_host t\<rparr>, ve_con_pc := ct_pc t\<rparr>"

text \<open>
  \<open>dtor\<close> is the thread that destroys the machine. \<open>frame\<close>, from a thread of the stack, and \<open>spurious\<close>, a wake-up without a notification, can
  happen but need not: they are there when \<open>others\<close> is true.
\<close>

inductive end_step :: "bool \<Rightarrow> ('e \<Rightarrow> int \<Rightarrow> u8 option \<times> 'e) \<Rightarrow> 'e vm_end \<Rightarrow> 'e vm_end \<Rightarrow> bool" for others rd where
  dtor: "vmctx_dtor s = Some s' \<Longrightarrow> end_step others rd s s'"
| net_rx: "net_dev (ve_m s) = Some n \<Longrightarrow> net_rx_next (ve_m s) (net_of s n) = Some t \<Longrightarrow> end_step others rd s (put_net t s)"
| con_rx: "console_dev (ve_m s) = Some d \<Longrightarrow> con_rx_next readable rd (ve_m s) (con_of s d) = Some t \<Longrightarrow> end_step others rd s (put_con t s)"
| frame: "others \<Longrightarrow> net_dev (ve_m s) = Some n \<Longrightarrow> net_frame f (net_of s n) = Some t \<Longrightarrow>
    end_step others rd s ((put_net t s)\<lparr>ve_misuse := ve_misuse s \<or> ve_phase s = Ph_Net Np_Stack\<rparr>)"
| spurious: "others \<Longrightarrow> ve_net_pc s = N_Waiting \<Longrightarrow> end_step others rd s (s\<lparr>ve_net_pc := N_Locked\<rparr>)"

text \<open>The start: nothing has been stopped; a device that is not there, and a console without an input descriptor, has no thread.\<close>

definition end_start :: "'e vm_end \<Rightarrow> bool" where
  "end_start s \<longleftrightarrow> ve_phase s = Ph_Cpus \<and> \<not> ve_net_stop s \<and> \<not> ve_con_stop s \<and> ve_mapped s \<and> \<not> ve_misuse s
     \<and> (net_dev (ve_m s) = None \<longrightarrow> ve_net_pc s = N_Done)
     \<and> (case console_dev (ve_m s) of None \<Rightarrow> ve_con_pc s = C_Done | Some d \<Rightarrow> con_rx_fd d < 0 \<longrightarrow> ve_con_pc s = C_Done)"

section \<open>The invariant\<close>

text \<open>The descriptors that stay open when the destructor is done, from what is open and the devices that are left.\<close>

definition con_fds :: "console option \<Rightarrow> int set \<Rightarrow> int set" where
  "con_fds d fds = (case d of None \<Rightarrow> fds | Some x \<Rightarrow> close_fd (con_tx_fd x) (close_fd (con_rx_fd x) fds))"

definition fds_left :: "'e vm_end \<Rightarrow> int set" where
  "fds_left s = con_fds (console_dev (ve_m s)) (block_dtor (block_dev (ve_m s)) (ve_fds s))"

definition net_over :: "end_phase \<Rightarrow> bool" where
  "net_over p \<longleftrightarrow> (case p of Ph_Block \<Rightarrow> True | Ph_Console _ \<Rightarrow> True | Ph_Ram \<Rightarrow> True | Ph_Gone \<Rightarrow> True | _ \<Rightarrow> False)"

definition end_inv :: "'e vm_end \<Rightarrow> bool" where
  "end_inv s \<longleftrightarrow>
     (net_dev (ve_m s) = None \<longrightarrow> ve_net_pc s = N_Done) \<and> (console_dev (ve_m s) = None \<longrightarrow> ve_con_pc s = C_Done)
     \<and> (net_over (ve_phase s) \<longrightarrow> net_dev (ve_m s) = None)
     \<and> (ve_mapped s \<longleftrightarrow> ve_phase s \<noteq> Ph_Gone)
     \<and> (case ve_phase s of
          Ph_Net p \<Rightarrow> net_dev (ve_m s) \<noteq> None \<and> \<not> ve_con_stop s \<and> (ve_net_stop s \<longleftrightarrow> p \<noteq> Np_Stop)
            \<and> (p = Np_Members \<or> p = Np_Stack \<longrightarrow> ve_net_pc s = N_Done)
        | Ph_Console p \<Rightarrow> console_dev (ve_m s) \<noteq> None \<and> block_dev (ve_m s) = None \<and> (ve_con_stop s \<longleftrightarrow> p \<noteq> Cp_Stop)
            \<and> (p = Cp_Close \<longrightarrow> ve_con_pc s = C_Done)
        | Ph_Block \<Rightarrow> \<not> ve_con_stop s
        | Ph_Ram \<Rightarrow> console_dev (ve_m s) = None \<and> block_dev (ve_m s) = None
        | Ph_Gone \<Rightarrow> console_dev (ve_m s) = None \<and> block_dev (ve_m s) = None
        | _ \<Rightarrow> \<not> ve_net_stop s \<and> \<not> ve_con_stop s)
     \<and> (ve_phase s = Ph_Cpus \<or> ve_phase s = Ph_Inputs \<or>
          tablet_dev (ve_m s) = None \<and> keyboard_dev (ve_m s) = None \<and> gpu_dev (ve_m s) = None)"

lemma end_start_inv: "end_start s \<Longrightarrow> end_inv s"
  by (auto simp: end_start_def end_inv_def net_over_def split: option.splits)

lemma feed_rx_fds: "feed_rx rd c d h = (d', h') \<Longrightarrow> con_rx_fd d' = con_rx_fd d \<and> con_tx_fd d' = con_tx_fd d"
  by (auto simp: feed_rx_def Let_def split: if_splits option.splits prod.splits)

lemma con_rx_fds: "con_rx_next readable rd c t = Some t' \<Longrightarrow>
    con_rx_fd (ct_con t') = con_rx_fd (ct_con t) \<and> con_tx_fd (ct_con t') = con_tx_fd (ct_con t)"
  by (auto simp: con_rx_next_def console_rx_round_def split: con_pc.splits prod.splits if_splits dest: feed_rx_fds)

text \<open>What a thread can do to where it is.\<close>

lemma net_rx_pc: "net_rx_next c t = Some t' \<Longrightarrow> nt_stop t' = nt_stop t \<and> nt_pc t \<noteq> N_Done \<and> nt_pc t \<noteq> N_Waiting"
  by (auto simp: net_rx_next_def split: net_pc.splits list.splits if_splits)

lemma net_frame_pc: "net_frame f t = Some t' \<Longrightarrow> nt_pc t' = net_notify (nt_pc t) \<and> nt_stop t' = nt_stop t \<and> nt_host t' = nt_host t"
  by (auto simp: net_frame_def split: if_splits)

lemma con_rx_pc: "con_rx_next readable rd c t = Some t' \<Longrightarrow> ct_stop t' = ct_stop t \<and> ct_pc t \<noteq> C_Done"
  by (auto simp: con_rx_next_def split: con_pc.splits prod.splits)

lemma net_notify_simps [simp]: "net_notify N_Done = N_Done" "net_notify N_Waiting = N_Locked" "net_notify p = N_Done \<longleftrightarrow> p = N_Done"
  by (simp_all add: net_notify_def)

lemma put_simps [simp]:
  "ve_phase (put_net t s) = ve_phase s" "ve_net_stop (put_net t s) = ve_net_stop s" "ve_con_stop (put_net t s) = ve_con_stop s"
  "ve_con_pc (put_net t s) = ve_con_pc s" "ve_mapped (put_net t s) = ve_mapped s" "ve_fds (put_net t s) = ve_fds s"
  "ve_net_pc (put_net t s) = nt_pc t" "ve_misuse (put_net t s) = ve_misuse s"
  "ve_m (put_net t s) = (ve_m s)\<lparr>net_dev := Some (nt_net t), hst := nt_host t\<rparr>"
  "ve_phase (put_con u s) = ve_phase s" "ve_net_stop (put_con u s) = ve_net_stop s" "ve_con_stop (put_con u s) = ve_con_stop s"
  "ve_net_pc (put_con u s) = ve_net_pc s" "ve_mapped (put_con u s) = ve_mapped s" "ve_fds (put_con u s) = ve_fds s"
  "ve_con_pc (put_con u s) = ct_pc u" "ve_misuse (put_con u s) = ve_misuse s"
  "ve_m (put_con u s) = (ve_m s)\<lparr>console_dev := Some (ct_con u), hst := ct_host u\<rparr>"
  by (simp_all add: put_net_def put_con_def)

lemma of_simps [simp]: "nt_pc (net_of s n) = ve_net_pc s" "nt_stop (net_of s n) = ve_net_stop s" "nt_net (net_of s n) = n"
  "ct_pc (con_of s d) = ve_con_pc s" "ct_stop (con_of s d) = ve_con_stop s" "ct_con (con_of s d) = d"
  by (simp_all add: net_of_def con_of_def)

lemmas dtor_defs = vmctx_dtor_def net_dtor_def con_dtor_def

lemmas inv_defs = end_inv_def net_over_def fds_left_def con_fds_def block_dtor_def

lemma dtor_inv:
  assumes "vmctx_dtor s = Some s'" and "end_inv s"
  shows "end_inv s' \<and> fds_left s' = fds_left s"
proof -
  have s': "s' = the (vmctx_dtor s)" and some: "vmctx_dtor s \<noteq> None" using assms(1) by simp_all
  have "end_inv (the (vmctx_dtor s)) \<and> fds_left (the (vmctx_dtor s)) = fds_left s"
  proof (cases "ve_phase s")
    case (Ph_Net p)
    then show ?thesis
      using assms(2) some by (cases p; cases "ve_net_pc s = N_Done") (simp_all add: dtor_defs inv_defs)
  next
    case (Ph_Console p)
    then show ?thesis
      using assms(2) some
      by (cases p; cases "ve_con_pc s = C_Done"; cases "console_dev (ve_m s)") (simp_all add: dtor_defs inv_defs)
  next
    case Ph_Inputs
    then show ?thesis using assms(2) by (cases "net_dev (ve_m s)") (simp_all add: dtor_defs inv_defs)
  next
    case Ph_Block
    then show ?thesis using assms(2) by (cases "console_dev (ve_m s)") (simp_all add: dtor_defs inv_defs)
  qed (use assms(2) some in \<open>simp_all add: dtor_defs inv_defs\<close>)
  then show ?thesis unfolding s' .
qed

lemma end_inv_step: "end_step others rd s s' \<Longrightarrow> end_inv s \<Longrightarrow> end_inv s' \<and> fds_left s' = fds_left s"
proof (induction rule: end_step.induct)
  case (dtor s s')
  then show ?case by (rule dtor_inv)
next
  case (net_rx s n t)
  from net_rx_pc [OF net_rx(2)] net_rx(1,3) show ?case
    by (auto simp: end_inv_def fds_left_def split: end_phase.splits)
next
  case (con_rx s d readable t)
  from con_rx_pc [OF con_rx(2)] con_rx_fds [OF con_rx(2)] con_rx(1,3) show ?case
    by (auto simp: end_inv_def fds_left_def con_fds_def net_over_def split: end_phase.splits)
next
  case (frame s n f t)
  from net_frame_pc [OF frame(3)] frame(2,4) show ?case
    by (auto simp: end_inv_def fds_left_def split: end_phase.splits)
next
  case (spurious s)
  then show ?case by (auto simp: end_inv_def fds_left_def split: end_phase.splits)
qed

section \<open>The destructor goes on\<close>

fun phase_no :: "end_phase \<Rightarrow> nat" where
  "phase_no Ph_Cpus = 12"
| "phase_no Ph_Inputs = 11"
| "phase_no (Ph_Net Np_Stop) = 10"
| "phase_no (Ph_Net Np_Notify) = 9"
| "phase_no (Ph_Net Np_Join) = 8"
| "phase_no (Ph_Net Np_Members) = 7"
| "phase_no (Ph_Net Np_Stack) = 6"
| "phase_no Ph_Block = 5"
| "phase_no (Ph_Console Cp_Stop) = 4"
| "phase_no (Ph_Console Cp_Join) = 3"
| "phase_no (Ph_Console Cp_Close) = 2"
| "phase_no Ph_Ram = 1"
| "phase_no Ph_Gone = 0"

fun net_left :: "net_pc \<Rightarrow> nat" where
  "net_left N_Top = 1"
| "net_left N_Locked = 1"
| "net_left N_Parking = 3"
| "net_left N_Waiting = 2"
| "net_left (N_Deliver f) = 2"
| "net_left N_Done = 0"

fun con_left :: "con_pc \<Rightarrow> nat" where
  "con_left C_Top = 1"
| "con_left C_Polling = 2"
| "con_left C_Done = 0"

text \<open>The steps that are left; the threads count once they have been told to stop.\<close>

definition end_left :: "'e vm_end \<Rightarrow> nat" where
  "end_left s = 10 * phase_no (ve_phase s) + (if ve_net_stop s then net_left (ve_net_pc s) else 0)
     + (if ve_con_stop s then con_left (ve_con_pc s) else 0)"

lemma net_rx_left: "net_rx_next c t = Some t' \<Longrightarrow> nt_stop t \<Longrightarrow> net_left (nt_pc t') < net_left (nt_pc t)"
  by (auto simp: net_rx_next_def split: net_pc.splits list.splits if_splits)

lemma con_rx_left: "con_rx_next readable rd c t = Some t' \<Longrightarrow> ct_stop t \<Longrightarrow> con_left (ct_pc t') < con_left (ct_pc t)"
  by (auto simp: con_rx_next_def split: con_pc.splits prod.splits)

lemma net_left_le: "net_left p \<le> 3" "net_left (net_notify p) \<le> net_left p"
  by (cases p; simp add: net_notify_def)+

lemma con_left_le: "con_left q \<le> 2"
  by (cases q) simp_all

lemma dtor_left:
  assumes "vmctx_dtor s = Some s'"
  shows "end_left s' < end_left s"
proof -
  note le = net_left_le [of "ve_net_pc s"] con_left_le [of "ve_con_pc s"]
  show ?thesis
  proof (cases "ve_phase s")
    case (Ph_Net p)
    then show ?thesis using assms le by (cases p) (auto simp: dtor_defs end_left_def split: if_splits)
  next
    case (Ph_Console p)
    then show ?thesis using assms le by (cases p) (auto simp: dtor_defs end_left_def split: if_splits option.splits)
  qed (use assms in \<open>auto simp: dtor_defs end_left_def split: if_splits\<close>)
qed

lemma end_step_left: "end_step others rd s s' \<Longrightarrow> end_left s' \<le> end_left s"
proof (induction rule: end_step.induct)
  case (dtor s s')
  then show ?case by (simp add: dtor_left less_imp_le)
next
  case (net_rx s n t)
  from net_rx_left [OF net_rx(2)] show ?case by (auto simp: end_left_def)
next
  case (con_rx s d readable t)
  from con_rx_left [OF con_rx(2)] show ?case by (auto simp: end_left_def)
next
  case (frame s n f t)
  from net_frame_pc [OF frame(3)] net_left_le(2) [of "ve_net_pc s"] show ?case by (auto simp: end_left_def)
next
  case (spurious s)
  then show ?case by (simp add: end_left_def)
qed

text \<open>
  The destructor waits for a thread that does not end: one that blocks after the notification has passed it by, or one in a delivery
  that does not return.
\<close>

definition net_hung :: "'e vm_end \<Rightarrow> bool" where
  "net_hung s \<longleftrightarrow> ve_phase s = Ph_Net Np_Join \<and> (ve_net_pc s = N_Waiting
     \<or> (\<exists>n f. net_dev (ve_m s) = Some n \<and> ve_net_pc s = N_Deliver f \<and> do_feed_rx (ve_m s) f n (hst (ve_m s)) = None))"

lemma net_progress:
  assumes "ve_phase s = Ph_Net Np_Join" and "end_inv s" and "\<not> net_hung s"
  shows "\<exists>s'. end_step others rd s s' \<and> end_left s' < end_left s"
proof -
  from assms(1,2) obtain n where n: "net_dev (ve_m s) = Some n" "ve_net_stop s" by (auto simp: end_inv_def)
  show ?thesis
  proof (cases "ve_net_pc s = N_Done")
    case True
    then have "vmctx_dtor s = Some (s\<lparr>ve_phase := Ph_Net Np_Members\<rparr>)" using assms(1) by (simp add: dtor_defs)
    then show ?thesis using end_step.dtor dtor_left by blast
  next
    case False
    have "net_rx_next (ve_m s) (net_of s n) \<noteq> None"
    proof (cases "ve_net_pc s")
      case (N_Deliver f)
      then have "do_feed_rx (ve_m s) f n (hst (ve_m s)) \<noteq> None" using assms(1,3) n(1) by (auto simp: net_hung_def)
      then show ?thesis using N_Deliver by (simp add: net_rx_next_def) (simp add: net_of_def)
    qed (use False assms(1,3) n in \<open>simp_all add: net_rx_next_def net_hung_def\<close>)
    then obtain t where t: "net_rx_next (ve_m s) (net_of s n) = Some t" by blast
    have "end_left (put_net t s) < end_left s" using net_rx_left [OF t] n(2) by (simp add: end_left_def)
    then show ?thesis using end_step.net_rx [OF n(1) t] by blast
  qed
qed

lemma end_progress:
  assumes "end_inv s" and "ve_phase s \<noteq> Ph_Gone" and "\<not> net_hung s"
  shows "\<exists>s'. end_step others rd s s' \<and> end_left s' < end_left s"
proof -
  consider (dtor) "vmctx_dtor s \<noteq> None" | (net) "ve_phase s = Ph_Net Np_Join"
    | (con) "ve_phase s = Ph_Console Cp_Join" "ve_con_pc s \<noteq> C_Done"
  proof (cases "ve_phase s")
    case (Ph_Net p)
    then show thesis using that(1,2) by (cases p) (simp_all add: dtor_defs)
  next
    case (Ph_Console p)
    then show thesis
      using that(1,3) assms(1) by (cases p; cases "ve_con_pc s = C_Done") (auto simp: dtor_defs end_inv_def)
  qed (use that(1) assms(2) in \<open>simp_all add: dtor_defs\<close>)
  then show ?thesis
  proof cases
    case dtor
    then show ?thesis using end_step.dtor dtor_left by blast
  next
    case net
    then show ?thesis using net_progress assms(1,3) by blast
  next
    case con
    then obtain d where d: "console_dev (ve_m s) = Some d" "ve_con_stop s" using assms(1) by (auto simp: end_inv_def)
    obtain t where t: "con_rx_next False rd (ve_m s) (con_of s d) = Some t"
      using con(2) by (cases "ve_con_pc s") (auto simp: con_rx_next_def console_rx_round_def)
    have "end_left (put_con t s) < end_left s" using con_rx_left [OF t] d(2) by (simp add: end_left_def)
    then show ?thesis using end_step.con_rx [OF d(1) t] by blast
  qed
qed

text \<open>
  C12. The destructor of a machine, whatever the threads of its devices do meanwhile. Guest RAM is unmapped only when no device and no thread of a device
  is left. When it is done, exactly the descriptors of the disk and of the console have been closed. Until then it goes on: some thread can do a step that
  brings the end nearer, and no step of any thread leads away from it, except when the network device's thread is
  blocked after it was told to stop, or in a delivery that does not return.
\<close>

theorem machine_teardown:
  assumes start: "end_start s0" and run: "(end_step others rd)\<^sup>*\<^sup>* s0 s"
  shows "(\<not> ve_mapped s \<longrightarrow> devices (ve_m s) = {} \<and> ve_net_pc s = N_Done \<and> ve_con_pc s = C_Done)
    \<and> (ve_phase s = Ph_Gone \<longrightarrow>
        \<not> ve_mapped s \<and> ve_fds s = con_fds (console_dev (ve_m s0)) (block_dtor (block_dev (ve_m s0)) (ve_fds s0)))
    \<and> (ve_phase s = Ph_Gone \<or> net_hung s \<or> (\<exists>s'. end_step others rd s s' \<and> end_left s' < end_left s))
    \<and> (\<forall>s'. end_step others rd s s' \<longrightarrow> end_left s' \<le> end_left s)"
proof -
  have "end_inv s \<and> fds_left s = fds_left s0"
    using run by (induction rule: rtranclp_induct) (use end_start_inv [OF start] end_inv_step in fastforce)+
  then have inv: "end_inv s" and fds: "fds_left s = fds_left s0" by simp_all
  have gone: "devices (ve_m s) = {}" "ve_fds s = fds_left s" if "ve_phase s = Ph_Gone"
  proof -
    have "isr_of r (ve_m s) = None" for r using inv that by (cases r) (simp_all add: end_inv_def net_over_def)
    then show "devices (ve_m s) = {}" by (simp add: devices_def)
    show "ve_fds s = fds_left s" using inv that by (simp add: end_inv_def fds_left_def con_fds_def block_dtor_def)
  qed
  have "\<not> ve_mapped s \<longrightarrow> devices (ve_m s) = {} \<and> ve_net_pc s = N_Done \<and> ve_con_pc s = C_Done"
    using inv gone(1) by (auto simp: end_inv_def net_over_def)
  moreover have "ve_phase s = Ph_Gone \<longrightarrow>
      \<not> ve_mapped s \<and> ve_fds s = con_fds (console_dev (ve_m s0)) (block_dtor (block_dev (ve_m s0)) (ve_fds s0))"
    using gone(2) fds inv by (auto simp: end_inv_def) (simp_all add: fds_left_def)
  moreover have "ve_phase s = Ph_Gone \<or> net_hung s \<or> (\<exists>s'. end_step others rd s s' \<and> end_left s' < end_left s)"
    using end_progress [OF inv] by blast
  ultimately show ?thesis using end_step_left by blast
qed

section \<open>What can go wrong\<close>

text \<open>A thread that blocks after the notification stays blocked when no frame comes.\<close>

definition net_lost :: "'e vm_end \<Rightarrow> bool" where
  "net_lost s \<longleftrightarrow> ve_phase s = Ph_Net Np_Join \<and> ve_net_pc s = N_Waiting"

lemma net_lost_step: "end_step False rd s s' \<Longrightarrow> net_lost s \<Longrightarrow> net_lost s'"
proof (induction rule: end_step.induct)
  case (net_rx s n t)
  then show ?case by (simp add: net_lost_def net_rx_next_def)
qed (auto simp: net_lost_def dtor_defs)

lemma net_lost_ever: "(end_step False rd)\<^sup>*\<^sup>* s s' \<Longrightarrow> net_lost s \<Longrightarrow> net_lost s'"
  by (induction rule: rtranclp_induct) (auto intro: net_lost_step)

text \<open>The run up to the notification, of the destructor alone.\<close>

lemma dtor_run:
  assumes "end_start s" and "net_dev (ve_m s) = Some n"
  shows "\<exists>s'. (end_step others rd)\<^sup>*\<^sup>* s s' \<and> ve_phase s' = Ph_Net Np_Notify \<and> ve_net_stop s' \<and> ve_net_pc s' = ve_net_pc s
    \<and> net_dev (ve_m s') = Some n \<and> \<not> ve_misuse s'"
proof -
  let ?s1 = "s\<lparr>ve_m := (ve_m s)\<lparr>vcpus := []\<rparr>, ve_phase := Ph_Inputs\<rparr>"
  let ?s2 = "?s1\<lparr>ve_m := (ve_m ?s1)\<lparr>tablet_dev := None, keyboard_dev := None, gpu_dev := None\<rparr>, ve_phase := Ph_Net Np_Stop\<rparr>"
  let ?s3 = "?s2\<lparr>ve_net_stop := True, ve_phase := Ph_Net Np_Notify\<rparr>"
  have "end_step others rd s ?s1" by (rule end_step.dtor) (use assms in \<open>simp add: end_start_def dtor_defs\<close>)
  moreover have "end_step others rd ?s1 ?s2" by (rule end_step.dtor) (use assms in \<open>simp add: dtor_defs\<close>)
  moreover have "end_step others rd ?s2 ?s3" by (rule end_step.dtor) (simp add: dtor_defs)
  ultimately have "(end_step others rd)\<^sup>*\<^sup>* s ?s3" by (meson converse_rtranclp_into_rtranclp r_into_rtranclp)
  then show ?thesis using assms by (intro exI [of _ ?s3]) (simp add: end_start_def)
qed

text \<open>
  Two ways in which the destruction of a machine with a network device can fail. The stop flag is set and the waiting thread notified without
  the lock: when the thread has seen an empty queue and is about to block, the notification is lost, and unless a frame still comes in the
  destructor never returns. And the queue and the condition variable are destroyed before the stack, whose threads deliver frames to them.
\<close>

theorem net_teardown_hazards:
  assumes start: "end_start s0" and dev: "net_dev (ve_m s0) = Some n" and idle: "ve_net_pc s0 = N_Parking"
  shows "(\<exists>s. (end_step False rd)\<^sup>*\<^sup>* s0 s \<and> (\<forall>s'. (end_step False rd)\<^sup>*\<^sup>* s s' \<longrightarrow> ve_phase s' = Ph_Net Np_Join))
    \<and> (\<exists>s. (end_step True rd)\<^sup>*\<^sup>* s0 s \<and> ve_misuse s)"
proof
  from dtor_run [OF start dev, of False rd] obtain s where s: "(end_step False rd)\<^sup>*\<^sup>* s0 s" "ve_phase s = Ph_Net Np_Notify"
    "ve_net_pc s = N_Parking" "net_dev (ve_m s) = Some n" using idle by auto
  let ?s1 = "s\<lparr>ve_net_pc := net_notify (ve_net_pc s), ve_phase := Ph_Net Np_Join\<rparr>"
  let ?t = "(net_of ?s1 n)\<lparr>nt_pc := N_Waiting\<rparr>"
  have a: "end_step False rd s ?s1" by (rule end_step.dtor) (simp add: s(2) dtor_defs)
  have b: "end_step False rd ?s1 (put_net ?t ?s1)"
    by (rule end_step.net_rx [of _ n]) (simp_all add: s(3,4) net_rx_next_def net_notify_def)
  have "net_lost (put_net ?t ?s1)" by (simp add: net_lost_def)
  moreover have "(end_step False rd)\<^sup>*\<^sup>* s0 (put_net ?t ?s1)"
    by (rule rtranclp.rtrancl_into_rtrancl [OF rtranclp.rtrancl_into_rtrancl [OF s(1) a] b])
  ultimately show "\<exists>s. (end_step False rd)\<^sup>*\<^sup>* s0 s \<and> (\<forall>s'. (end_step False rd)\<^sup>*\<^sup>* s s' \<longrightarrow> ve_phase s' = Ph_Net Np_Join)"
    using net_lost_ever unfolding net_lost_def by blast
next
  text \<open>The thread blocks in time, is woken, sees the flag and ends; the members go; then a frame arrives.\<close>
  let ?r = "end_step True rd"
  from dtor_run [OF start dev, of True rd] obtain s where s: "?r\<^sup>*\<^sup>* s0 s" "ve_phase s = Ph_Net Np_Notify" "ve_net_stop s"
    "ve_net_pc s = N_Parking" "net_dev (ve_m s) = Some n" using idle by auto
  let ?s1 = "put_net ((net_of s n)\<lparr>nt_pc := N_Waiting\<rparr>) s"
  let ?s2 = "?s1\<lparr>ve_net_pc := N_Locked, ve_phase := Ph_Net Np_Join\<rparr>"
  let ?s3 = "put_net ((net_of ?s2 n)\<lparr>nt_pc := N_Done\<rparr>) ?s2"
  let ?s4 = "?s3\<lparr>ve_phase := Ph_Net Np_Members\<rparr>"
  let ?s5 = "?s4\<lparr>ve_phase := Ph_Net Np_Stack\<rparr>"
  let ?n = "n\<lparr>n_rx_queue := n_rx_queue n @ [[]]\<rparr>"
  let ?s6 = "(put_net ((net_of ?s5 n)\<lparr>nt_net := ?n\<rparr>) ?s5)\<lparr>ve_misuse := True\<rparr>"
  have "?r s ?s1" by (rule end_step.net_rx [of _ n]) (simp_all add: s net_rx_next_def)
  moreover have "?r ?s1 ?s2" by (rule end_step.dtor) (simp add: s dtor_defs)
  moreover have "?r ?s2 ?s3" by (rule end_step.net_rx [of _ n]) (simp_all add: s net_rx_next_def)
  moreover have "?r ?s3 ?s4" by (rule end_step.dtor) (simp add: dtor_defs)
  moreover have "?r ?s4 ?s5" by (rule end_step.dtor) (simp add: dtor_defs)
  moreover have "?r ?s5 ?s6"
    using end_step.frame [of True ?s5 n "[]" "(net_of ?s5 n)\<lparr>nt_net := ?n\<rparr>" rd]
    by (simp add: net_frame_def enqueue_rx_def)
  ultimately have "?r\<^sup>*\<^sup>* s ?s6" by (meson converse_rtranclp_into_rtranclp r_into_rtranclp)
  with s(1) have "?r\<^sup>*\<^sup>* s0 ?s6" by (rule rtranclp_trans)
  then show "\<exists>s. ?r\<^sup>*\<^sup>* s0 s \<and> ve_misuse s" by (intro exI [of _ ?s6]) simp
qed

section \<open>Witnesses\<close>

text \<open>The example machine with a network device whose thread is about to block.\<close>

definition demo_end :: "unit vm_end" where
  "demo_end = \<lparr>ve_m = demo_vm\<lparr>net_dev := Some (net_new [0x52, 0x54, 0, 0x12, 0x34, 0x56])\<rparr>, ve_net_pc = N_Parking, ve_net_stop = False,
     ve_con_pc = C_Done, ve_con_stop = False, ve_phase = Ph_Cpus, ve_fds = {0, 1, 2}, ve_mapped = True, ve_misuse = False\<rparr>"

definition demo_no_input :: "unit \<Rightarrow> int \<Rightarrow> u8 option \<times> unit" where
  "demo_no_input e fd = (None, e)"

lemma demo_end_start: "end_start demo_end"
  by (simp add: end_start_def demo_end_def demo_vm_def create_keyboard_def init_vcpus_def vmcontext_new_def)

theorem machine_teardown_witness:
  "\<exists>s'. end_step True demo_no_input demo_end s' \<and> end_left s' < 120"
proof -
  have f: "ve_phase demo_end = Ph_Cpus" "end_left demo_end = 120" by (simp_all add: demo_end_def end_left_def)
  from machine_teardown [OF demo_end_start, of True demo_no_input demo_end] show ?thesis
    by (simp add: f net_hung_def)
qed

theorem net_teardown_hazards_witness:
  "(\<exists>s. (end_step False demo_no_input)\<^sup>*\<^sup>* demo_end s \<and> (\<forall>s'. (end_step False demo_no_input)\<^sup>*\<^sup>* s s' \<longrightarrow> ve_phase s' = Ph_Net Np_Join))
    \<and> (\<exists>s. (end_step True demo_no_input)\<^sup>*\<^sup>* demo_end s \<and> ve_misuse s)"
  by (rule net_teardown_hazards [OF demo_end_start, of "net_new [0x52, 0x54, 0, 0x12, 0x34, 0x56]"]) (simp_all add: demo_end_def)

end
