(* ===== verification/Ipc_Stop.thy ===== *)
theory Ipc_Stop
  imports Ipc_Api
begin

text \<open>
  How an end of an in-process channel is stopped: \<^verbatim>\<open>Server::stop\<close> and \<^verbatim>\<open>Client::stop\<close> (\<^verbatim>\<open>src/ipc/src/server.cpp\<close>, \<^verbatim>\<open>client.cpp\<close>) with
  \<^verbatim>\<open>Channel::stop\<close> (\<^verbatim>\<open>channel.cpp\<close>), against the thread that makes the connection, the read loop, the senders of this end, and a peer that may
  send, read and close at any time. The transport is that of \<open>Ipc\<close>.
\<close>

section \<open>State\<close>

text \<open>Where the threads are: \<open>R_None\<close> and \<open>T_None\<close> have not been started.\<close>

datatype reader_pc = R_None | R_Top | R_Round | R_Ended

datatype thread_pc = T_None | T_Acquiring | T_Ended

datatype stop_pc = S_Idle | S_Channel | S_Thread | S_Stopped

record ipc_end =
  en_me :: inproc
  en_peer :: inproc
  en_pipes :: "nat \<Rightarrow> pipe"
  en_reader :: reader_pc
  en_thread :: thread_pc
  en_stop :: stop_pc
  en_log :: "event list"

definition ipc_end_new :: "role \<Rightarrow> chan \<Rightarrow> ipc_end" where
  "ipc_end_new r c =
     \<lparr>en_me = (case r of Server \<Rightarrow> ch_server c | Client \<Rightarrow> ch_client c),
      en_peer = (case r of Server \<Rightarrow> ch_client c | Client \<Rightarrow> ch_server c),
      en_pipes = ch_pipes c, en_reader = R_None, en_thread = T_None, en_stop = S_Idle, en_log = []\<rparr>"

section \<open>The threads\<close>

text \<open>
  The end of the thread that \<^verbatim>\<open>connect\<close> starts: it has its transport, makes the channel and starts the read loop, or has caught an
  exception.
\<close>

definition connect_next :: "bool \<Rightarrow> ipc_end \<Rightarrow> ipc_end option" where
  "connect_next ok s =
     (if en_thread s = T_Acquiring
      then Some (s\<lparr>en_thread := T_Ended, en_reader := (if ok then R_Top else en_reader s)\<rparr>) else None)"

text \<open>The read loop: the test of \<^verbatim>\<open>is_connected\<close>, and the round after it, which waits when there is nothing to read.\<close>

definition reader_next :: "ipc_end \<Rightarrow> ipc_end option" where
  "reader_next s =
     (case en_reader s of
        R_Top \<Rightarrow>
          Some (if ip_connected (en_me s) then s\<lparr>en_reader := R_Round\<rparr>
                else s\<lparr>en_reader := R_Ended, en_log := en_log s @ [EvDisconnect]\<rparr>)
      | R_Round \<Rightarrow>
          map_option (\<lambda>(t, brk). s\<lparr>en_me := fst (rs_t t), en_pipes := snd (rs_t t),
              en_reader := (if brk then R_Ended else R_Top), en_log := rs_ev t @ (if brk then [EvDisconnect] else [])\<rparr>)
            (read_step inproc_read \<lparr>rs_t = (en_me s, en_pipes s), rs_ev = en_log s\<rparr>)
      | _ \<Rightarrow> None)"

text \<open>\<^verbatim>\<open>Channel::stop\<close>: closing the transport; its second part, the join, is the case \<open>S_Channel\<close> below.\<close>

definition channel_close :: "ipc_end \<Rightarrow> ipc_end" where
  "channel_close s = (case inproc_close (en_me s, en_pipes s) of (e, ps) \<Rightarrow> s\<lparr>en_me := e, en_pipes := ps\<rparr>)"

definition channel_joined :: "ipc_end \<Rightarrow> bool" where
  "channel_joined s \<longleftrightarrow> en_reader s = R_Ended"

text \<open>\<^verbatim>\<open>stop\<close>: the channel if there is one, then the thread. \<open>None\<close> while it waits for one of them.\<close>

definition stop_next :: "ipc_end \<Rightarrow> ipc_end option" where
  "stop_next s =
     (case en_stop s of
        S_Idle \<Rightarrow>
          Some (if en_reader s \<noteq> R_None then (channel_close s)\<lparr>en_stop := S_Channel\<rparr> else s\<lparr>en_stop := S_Thread\<rparr>)
      | S_Channel \<Rightarrow> if channel_joined s then Some (s\<lparr>en_stop := S_Thread\<rparr>) else None
      | S_Thread \<Rightarrow> if en_thread s \<noteq> T_Acquiring then Some (s\<lparr>en_stop := S_Stopped\<rparr>) else None
      | S_Stopped \<Rightarrow> None)"

text \<open>\<open>peers\<close> says whether the wait for a connection can end.\<close>

inductive end_run :: "bool \<Rightarrow> ipc_end \<Rightarrow> ipc_end \<Rightarrow> bool" for peers where
  start: "en_thread s = T_None \<Longrightarrow> en_stop s = S_Idle \<Longrightarrow> end_run peers s (s\<lparr>en_thread := T_Acquiring\<rparr>)"
| connect: "peers \<Longrightarrow> connect_next ok s = Some s' \<Longrightarrow> end_run peers s s'"
| reader: "reader_next s = Some s' \<Longrightarrow> end_run peers s s'"
| send: "en_reader s \<noteq> R_None \<Longrightarrow> send_raw inproc_write ty p (en_me s, en_pipes s) = (e, ps) \<Longrightarrow>
    end_run peers s (s\<lparr>en_me := e, en_pipes := ps\<rparr>)"
| stop: "stop_next s = Some s' \<Longrightarrow> end_run peers s s'"
| peer_send: "send_raw inproc_write ty p (en_peer s, en_pipes s) = (e, ps) \<Longrightarrow> end_run peers s (s\<lparr>en_peer := e, en_pipes := ps\<rparr>)"
| peer_read: "inproc_read (en_peer s, en_pipes s) n = Some ((e, ps), bs) \<Longrightarrow> end_run peers s (s\<lparr>en_peer := e, en_pipes := ps\<rparr>)"
| peer_close: "inproc_close (en_peer s, en_pipes s) = (e, ps) \<Longrightarrow> end_run peers s (s\<lparr>en_peer := e, en_pipes := ps\<rparr>)"

section \<open>The invariant\<close>

text \<open>
  The pipes are crossed; only this end closes the one it reads, by \<open>stop\<close>, only the peer the other one; an end that is not connected any more has closed its
  own pipe or found the other one closed.
\<close>

definition stop_inv :: "ipc_end \<Rightarrow> bool" where
  "stop_inv s \<longleftrightarrow> (let rx = ip_rx (en_me s); tx = ip_tx (en_me s)
     in ip_tx (en_peer s) = rx \<and> ip_rx (en_peer s) = tx \<and> rx \<noteq> tx
       \<and> (p_closed (en_pipes s rx) \<longrightarrow> \<not> ip_connected (en_me s))
       \<and> (p_closed (en_pipes s tx) \<longrightarrow> \<not> ip_connected (en_peer s))
       \<and> (\<not> ip_connected (en_me s) \<longrightarrow> p_closed (en_pipes s rx) \<or> p_closed (en_pipes s tx))
       \<and> (en_stop s = S_Channel \<longrightarrow> \<not> ip_connected (en_me s) \<and> en_reader s \<noteq> R_None)
       \<and> (en_reader s \<noteq> R_None \<longrightarrow> en_thread s = T_Ended))"

lemma stop_inv_new: "chan_start channel_id w = Some c \<Longrightarrow> stop_inv (ipc_end_new r c)"
  by (cases r) (auto simp: chan_start_def Let_def register_inprocess_def inprocess_listen_def inprocess_connect_def
      inproc_new_def stop_inv_def ipc_end_new_def pipe_new_def)

text \<open>What the operations of a transport do to the pipes and to \<^verbatim>\<open>connected_\<close>.\<close>

lemma send_connected:
  assumes "send_raw inproc_write ty p (e, ps) = (e', ps')"
  shows "\<not> ip_connected e' \<longrightarrow> \<not> ip_connected e \<or> p_closed (ps (ip_tx e))" "\<not> ip_connected e \<Longrightarrow> e' = e \<and> ps' = ps"
  using assms by (auto simp: send_raw_def inproc_write_def Let_def split: if_splits)

lemma fill_connected:
  "inproc_fill want acc e ps = Some ((e', ps'), bs) \<Longrightarrow> \<not> ip_connected e' \<longrightarrow> \<not> ip_connected e \<or> p_closed (ps (ip_rx e))"
proof (induction want acc e ps rule: inproc_fill.induct)
  case (1 want acc e ps)
  show ?case using 1(3) 1(1) 1(2)
    by (subst (asm) inproc_fill.simps) (auto simp: Let_def fun_upd_def split: if_splits list.splits)
qed

lemma fill_disconnected:
  "inproc_fill want acc e ps = Some ((e', ps'), bs) \<Longrightarrow> \<not> ip_connected e \<Longrightarrow> \<not> ip_connected e'"
proof (induction want acc e ps rule: inproc_fill.induct)
  case (1 want acc e ps)
  show ?case using 1(3,4) 1(1) 1(2)
    by (subst (asm) inproc_fill.simps) (auto simp: Let_def fun_upd_def split: if_splits list.splits)
qed

lemma fill_closed: "p_closed (ps (ip_rx e)) \<Longrightarrow> inproc_fill want acc e ps \<noteq> None"
proof (induction want acc e ps rule: inproc_fill.induct)
  case (1 want acc e ps)
  show ?case using 1(1,2,3) by (subst inproc_fill.simps) (auto simp: Let_def fun_upd_def split: list.split)
qed

lemma read_connected:
  assumes "inproc_read t n = Some (t', bs)"
  shows "same_world t t'" "\<not> ip_connected (fst t') \<longrightarrow> \<not> ip_connected (fst t) \<or> inproc_fin t"
    "\<not> ip_connected (fst t) \<Longrightarrow> \<not> ip_connected (fst t')"
  using assms inproc_fill_world fill_connected fill_disconnected
  by (cases t; cases t'; force simp: inproc_read_def inproc_fin_def)+

lemma same_world_fin: "same_world t t' \<Longrightarrow> inproc_fin t' = inproc_fin t"
  by (simp add: same_world_def inproc_fin_def)

text \<open>A round of the loop reads once or twice.\<close>

lemma read_step_reads:
  assumes "read_step rd s = Some (s', k)"
  obtains n t bs where "rd (rs_t s) n = Some (t, bs)" "rs_t s' = t \<or> (\<exists>n' bs'. rd t n' = Some (rs_t s', bs'))"
  using assms by (auto simp: read_step_def Let_def split: option.splits if_splits) blast+

lemma read_step_connected:
  assumes "read_step inproc_read s = Some (s', k)"
  shows "\<not> ip_connected (fst (rs_t s')) \<longrightarrow> \<not> ip_connected (fst (rs_t s)) \<or> inproc_fin (rs_t s)"
    "\<not> ip_connected (fst (rs_t s)) \<Longrightarrow> \<not> ip_connected (fst (rs_t s'))"
proof -
  from assms obtain n t bs where t: "inproc_read (rs_t s) n = Some (t, bs)"
    "rs_t s' = t \<or> (\<exists>n' bs'. inproc_read t n' = Some (rs_t s', bs'))" by (rule read_step_reads)
  note a = read_connected [OF t(1)] same_world_fin
  from t(2) show "\<not> ip_connected (fst (rs_t s')) \<longrightarrow> \<not> ip_connected (fst (rs_t s)) \<or> inproc_fin (rs_t s)"
    using a read_connected(2) by blast
  from t(2) show "\<not> ip_connected (fst (rs_t s')) " if "\<not> ip_connected (fst (rs_t s))"
    using a(3) [OF that] read_connected(3) by blast
qed

lemma read_closed: "inproc_fin t \<Longrightarrow> \<exists>t' bs. inproc_read t n = Some (t', bs) \<and> inproc_fin t'"
proof -
  assume fin: "inproc_fin t"
  then have "inproc_read t n \<noteq> None" using fill_closed by (cases t) (simp add: inproc_read_def inproc_fin_def)
  then obtain t' bs where t': "inproc_read t n = Some (t', bs)" by fastforce
  then show ?thesis using read_connected(1) [OF t'] same_world_fin fin by blast
qed

lemma read_step_closed:
  assumes "inproc_fin (rs_t s)"
  shows "read_step inproc_read s \<noteq> None"
proof
  assume none: "read_step inproc_read s = None"
  obtain t hb where t: "inproc_read (rs_t s) 12 = Some (t, hb)" "inproc_fin t" using read_closed assms by blast
  obtain t' bs where "inproc_read t (unat (fh_payload_len (hdr_of hb))) = Some (t', bs)" using read_closed t(2) by blast
  with t none show False by (auto simp: read_step_def Let_def split: if_splits)
qed

text \<open>The ends' addresses never change, a read changes only the pipe that is read, and \<^verbatim>\<open>close\<close> marks it.\<close>

lemma close_effect:
  assumes "inproc_close (e, ps) = (e', ps')"
  shows "ip_rx e' = ip_rx e" "ip_tx e' = ip_tx e" "ip_connected e' = False" "i \<noteq> ip_rx e \<Longrightarrow> ps' i = ps i"
    "p_closed (ps' (ip_rx e)) \<longleftrightarrow> ip_connected e \<or> p_closed (ps (ip_rx e))"
  using assms by (auto simp: inproc_close_def Let_def split: if_splits)

lemma same_world_closed: "same_world (e, ps) (e', ps') \<Longrightarrow> ip_rx e' = ip_rx e \<and> ip_tx e' = ip_tx e \<and> p_closed (ps' i) = p_closed (ps i)"
  by (cases "i = ip_rx e") (simp_all add: same_world_def)

lemma stop_inv_me:
  assumes "stop_inv s" and "ip_rx e = ip_rx (en_me s) \<and> ip_tx e = ip_tx (en_me s)" and "\<And>i. p_closed (ps i) = p_closed (en_pipes s i)"
    and "\<not> ip_connected e \<longrightarrow> \<not> ip_connected (en_me s) \<or> p_closed (en_pipes s (ip_rx (en_me s))) \<or> p_closed (en_pipes s (ip_tx (en_me s)))"
    and "\<not> ip_connected (en_me s) \<Longrightarrow> \<not> ip_connected e"
  shows "stop_inv (s\<lparr>en_me := e, en_pipes := ps\<rparr>)"
  using assms by (simp add: stop_inv_def Let_def) blast

lemma stop_inv_peer:
  assumes "stop_inv s" and "ip_rx e = ip_rx (en_peer s) \<and> ip_tx e = ip_tx (en_peer s)" and "\<And>i. p_closed (ps i) = p_closed (en_pipes s i)"
    and "\<not> ip_connected (en_peer s) \<Longrightarrow> \<not> ip_connected e"
  shows "stop_inv (s\<lparr>en_peer := e, en_pipes := ps\<rparr>)"
  using assms by (simp add: stop_inv_def Let_def)

lemma stop_inv_reader: "stop_inv s \<Longrightarrow> en_reader s \<noteq> R_None \<Longrightarrow> r \<noteq> R_None \<Longrightarrow> stop_inv (s\<lparr>en_reader := r, en_log := l\<rparr>)"
  by (simp add: stop_inv_def)

lemma stop_inv_step: "end_run peers s s' \<Longrightarrow> stop_inv s \<Longrightarrow> stop_inv s'"
proof (induction rule: end_run.induct)
  case (start s)
  then show ?case by (simp add: stop_inv_def)
next
  case (connect ok s s')
  then show ?case by (auto simp: stop_inv_def connect_next_def Let_def split: if_splits)
next
  case (reader s s')
  show ?case
  proof (cases "en_reader s")
    case R_Round
    with reader(1) obtain t k where t: "read_step inproc_read \<lparr>rs_t = (en_me s, en_pipes s), rs_ev = en_log s\<rparr> = Some (t, k)"
      and s': "s' = s\<lparr>en_me := fst (rs_t t), en_pipes := snd (rs_t t), en_reader := (if k then R_Ended else R_Top),
          en_log := rs_ev t @ (if k then [EvDisconnect] else [])\<rparr>"
      by (auto simp: reader_next_def)
    obtain e ps where e: "rs_t t = (e, ps)" by (cases "rs_t t")
    have w: "same_world (en_me s, en_pipes s) (e, ps)" using read_step_world [OF t] e by simp
    have "stop_inv (s\<lparr>en_me := e, en_pipes := ps\<rparr>)"
      using read_step_connected [OF t] e by (intro stop_inv_me reader(2) same_world_closed [OF w, THEN conjunct2, THEN conjunct2])
        (auto simp: same_world_closed [OF w] inproc_fin_def)
    from stop_inv_reader [OF this, of "if k then R_Ended else R_Top"] R_Round show ?thesis by (simp add: s' e)
  next
    case R_Top
    with reader show ?thesis by (cases "ip_connected (en_me s)") (auto simp: reader_next_def stop_inv_def Let_def)
  qed (use reader in \<open>auto simp: reader_next_def stop_inv_def Let_def\<close>)
next
  case (send s ty p e ps)
  from send_connected [OF send(2)] show ?case by (intro stop_inv_me send(3) send_inproc(5) [OF send(2)]) (auto simp: send_inproc(1,2) [OF send(2)])
next
  case (stop s s')
  show ?case
  proof (cases "en_stop s = S_Idle \<and> en_reader s \<noteq> R_None")
    case True
    obtain e ps where cl: "inproc_close (en_me s, en_pipes s) = (e, ps)" by fastforce
    with True stop(1) have "s' = s\<lparr>en_me := e, en_pipes := ps, en_stop := S_Channel\<rparr>"
      by (simp add: stop_next_def channel_close_def)
    with close_effect [OF cl] stop(2) True show ?thesis by (auto simp: stop_inv_def Let_def)
  qed (use stop in \<open>auto simp: stop_inv_def stop_next_def Let_def split: stop_pc.splits if_splits\<close>)
next
  case (peer_send ty p s e ps)
  from send_connected [OF peer_send(1)] show ?case
    by (intro stop_inv_peer peer_send(2) send_inproc(5) [OF peer_send(1)]) (auto simp: send_inproc(1,2) [OF peer_send(1)])
next
  case (peer_read s n e ps bs)
  note w = same_world_closed [OF read_connected(1) [OF peer_read(1)]]
  from read_connected(3) [OF peer_read(1)] show ?case
    by (intro stop_inv_peer peer_read(2) w [THEN conjunct2, THEN conjunct2]) (auto simp: w)
next
  case (peer_close s e ps)
  from close_effect [OF peer_close(1)] peer_close(2) show ?case
    by (auto simp: stop_inv_def Let_def)
qed

section \<open>When \<^verbatim>\<open>stop\<close> returns\<close>

text \<open>
  \<^verbatim>\<open>stop\<close> waits for a reader that waits for a pipe that nobody writes any more: \<^verbatim>\<open>close\<close> did nothing, since this end had already found out that
  the peer was gone, when it tried to send.
\<close>

definition stop_hung :: "ipc_end \<Rightarrow> bool" where
  "stop_hung s \<longleftrightarrow> en_stop s = S_Channel \<and> en_reader s = R_Round \<and> \<not> p_closed (en_pipes s (ip_rx (en_me s)))
     \<and> read_step inproc_read \<lparr>rs_t = (en_me s, en_pipes s), rs_ev = en_log s\<rparr> = None"

text \<open>On an open pipe a round of the loop waits exactly for the bytes of a header, or of the payload it announces.\<close>

definition starved :: "u8 list \<Rightarrow> bool" where
  "starved pd \<longleftrightarrow> length pd < 12 \<or> (let h = hdr_of (take 12 pd)
     in fh_magic h = kMagic \<and> fh_version h = kVersion \<and> \<not> fh_payload_len h > kMaxPayloadSize \<and> fh_payload_len h > 0
       \<and> length pd - 12 < unat (fh_payload_len h))"

lemma read_open:
  assumes "\<not> inproc_fin t" and "0 < n"
  shows "length (inproc_pend t) < n \<Longrightarrow> inproc_read t n = None"
    "n \<le> length (inproc_pend t) \<Longrightarrow>
      \<exists>t'. inproc_read t n = Some (t', take n (inproc_pend t)) \<and> inproc_pend t' = drop n (inproc_pend t) \<and> \<not> inproc_fin t'"
proof -
  obtain e ps where t: "t = (e, ps)" by (cases t)
  show "length (inproc_pend t) < n \<Longrightarrow> inproc_read t n = None"
    using inproc_fill_short(2) [of "[]" n e ps] assms by (simp add: t inproc_read_def inproc_fin_def)
  show "n \<le> length (inproc_pend t) \<Longrightarrow>
      \<exists>t'. inproc_read t n = Some (t', take n (inproc_pend t)) \<and> inproc_pend t' = drop n (inproc_pend t) \<and> \<not> inproc_fin t'"
    using inproc_fill_full [of "[]" n e ps] assms by (fastforce simp: t inproc_read_def inproc_fin_def same_world_def)
qed

lemma read_step_starved:
  assumes "\<not> inproc_fin (rs_t s)"
  shows "read_step inproc_read s = None \<longleftrightarrow> starved (inproc_pend (rs_t s))"
proof (cases "length (inproc_pend (rs_t s)) < 12")
  case True
  then show ?thesis using read_open(1) [OF assms, of 12] by (simp add: read_step_def starved_def)
next
  case False
  let ?pd = "inproc_pend (rs_t s)"
  let ?n = "unat (fh_payload_len (hdr_of (take 12 ?pd)))"
  obtain t where t: "inproc_read (rs_t s) 12 = Some (t, take 12 ?pd)" "inproc_pend t = drop 12 ?pd" "\<not> inproc_fin t"
    using read_open(2) [OF assms, of 12] False by auto
  have "take 12 ?pd \<noteq> []" using False by auto
  moreover have "inproc_read t ?n = None \<longleftrightarrow> length ?pd - 12 < ?n" if "0 < ?n"
    using read_open [OF t(3) that] t(2) by (cases "length ?pd - 12 < ?n") auto
  ultimately show ?thesis
    using False t(1) by (auto simp: read_step_def starved_def Let_def unat_gt_0 word_gt_0 split: option.splits)
qed

text \<open>Nothing that the peer or this end does then gives the reader anything.\<close>

lemma stop_hung_iff:
  "stop_hung s \<longleftrightarrow> en_stop s = S_Channel \<and> en_reader s = R_Round \<and> \<not> inproc_fin (en_me s, en_pipes s)
     \<and> starved (inproc_pend (en_me s, en_pipes s))"
  using read_step_starved [of "\<lparr>rs_t = (en_me s, en_pipes s), rs_ev = en_log s\<rparr>"]
  by (auto simp: stop_hung_def inproc_fin_def)

lemma same_pipe:
  "ps (ip_rx e) = ps' (ip_rx e) \<Longrightarrow> inproc_fin (e, ps) = inproc_fin (e, ps') \<and> inproc_pend (e, ps) = inproc_pend (e, ps')"
  by (simp add: inproc_fin_def inproc_pend_def)

lemma stop_hung_step: "end_run peers s s' \<Longrightarrow> stop_inv s \<Longrightarrow> stop_hung s \<Longrightarrow> stop_hung s'"
proof (induction rule: end_run.induct)
  case (start s)
  then show ?case by (simp add: stop_hung_def)
next
  case (connect ok s s')
  then show ?case by (auto simp: stop_inv_def connect_next_def stop_hung_def Let_def split: if_splits)
next
  case (reader s s')
  then show ?case by (simp add: reader_next_def stop_hung_def)
next
  case (send s ty p e ps)
  then have "\<not> ip_connected (en_me s)" by (simp add: stop_inv_def stop_hung_def Let_def)
  with send_connected(2) [OF send(2)] send(4) show ?case by (simp add: stop_hung_def)
next
  case (stop s s')
  then show ?case by (simp add: stop_next_def stop_hung_def channel_joined_def)
next
  case (peer_send ty p s e ps)
  then have "\<not> ip_connected (en_peer s)" by (auto simp: stop_inv_def stop_hung_def Let_def)
  with send_connected(2) [OF peer_send(1)] peer_send(3) show ?case by (simp add: stop_hung_def)
next
  case (peer_read s n e ps bs)
  from read_connected(1) [OF peer_read(1)] peer_read(2) have "ps (ip_rx (en_me s)) = en_pipes s (ip_rx (en_me s))"
    by (auto simp: stop_inv_def same_world_def Let_def)
  with peer_read(3) same_pipe [of ps "en_me s" "en_pipes s"] show ?case by (simp add: stop_hung_iff)
next
  case (peer_close s e ps)
  from close_effect(4) [OF peer_close(1)] peer_close(2) have "ps (ip_rx (en_me s)) = en_pipes s (ip_rx (en_me s))"
    by (auto simp: stop_inv_def Let_def)
  with peer_close(3) same_pipe [of ps "en_me s" "en_pipes s"] show ?case by (simp add: stop_hung_iff)
qed

lemma stop_hung_ever:
  assumes "(end_run peers)\<^sup>*\<^sup>* s s'" and "stop_inv s" and "stop_hung s"
  shows "stop_hung s'"
proof -
  have "stop_inv s' \<and> stop_hung s'"
    using assms by (induction rule: rtranclp_induct) (blast intro: stop_inv_step stop_hung_step)+
  then show ?thesis ..
qed

text \<open>The steps that are left once \<^verbatim>\<open>stop\<close> has begun.\<close>

fun reader_left :: "reader_pc \<Rightarrow> nat" where
  "reader_left R_Round = 2"
| "reader_left R_Top = 1"
| "reader_left _ = 0"

definition stop_left :: "ipc_end \<Rightarrow> nat" where
  "stop_left s = (case en_stop s of S_Idle \<Rightarrow> 6 | S_Channel \<Rightarrow> 3 + reader_left (en_reader s)
     | S_Thread \<Rightarrow> 1 + (if en_thread s = T_Acquiring then 1 else 0) | S_Stopped \<Rightarrow> 0)"

lemma reader_next_left:
  assumes "reader_next s = Some s'" and "\<not> ip_connected (en_me s)"
  shows "reader_left (en_reader s') < reader_left (en_reader s) \<and> en_stop s' = en_stop s"
  using assms by (cases "en_reader s") (auto simp: reader_next_def)

lemma stop_next_left: "stop_next s = Some s' \<Longrightarrow> stop_left s' < stop_left s"
  by (cases "en_reader s") (auto simp: stop_next_def stop_left_def channel_close_def channel_joined_def split: stop_pc.splits if_splits prod.splits)

lemma stop_step_left: "end_run peers s s' \<Longrightarrow> stop_inv s \<Longrightarrow> stop_left s' \<le> stop_left s"
proof (induction rule: end_run.induct)
  case (connect ok s s')
  then show ?case
    by (auto simp: connect_next_def stop_left_def stop_inv_def Let_def split: if_splits stop_pc.splits)
next
  case (reader s s')
  show ?case
  proof (cases "en_stop s = S_Channel")
    case True
    with reader(2) have "\<not> ip_connected (en_me s)" by (simp add: stop_inv_def Let_def)
    from reader_next_left [OF reader(1) this] True show ?thesis by (simp add: stop_left_def)
  next
    case False
    have "en_stop s' = en_stop s" "en_thread s' = en_thread s"
      using reader(1) by (auto simp: reader_next_def split: reader_pc.splits prod.splits)
    with False show ?thesis by (simp add: stop_left_def split: stop_pc.split)
  qed
next
  case (stop s s')
  then show ?case by (simp add: stop_next_left less_imp_le)
qed (simp_all add: stop_left_def split: stop_pc.split)

lemma stop_progress:
  assumes "stop_inv s" and "en_stop s \<noteq> S_Stopped" and "\<not> stop_hung s" and "peers \<or> en_stop s \<noteq> S_Thread \<or> en_thread s \<noteq> T_Acquiring"
  shows "\<exists>s'. end_run peers s s' \<and> stop_left s' < stop_left s"
proof (cases "stop_next s")
  case (Some s')
  then show ?thesis using end_run.stop stop_next_left by blast
next
  case None
  then consider (thread) "en_stop s = S_Thread" "en_thread s = T_Acquiring" | (chan) "en_stop s = S_Channel" "en_reader s \<noteq> R_Ended"
    using assms(2) by (auto simp: stop_next_def channel_joined_def split: stop_pc.splits if_splits)
  then show ?thesis
  proof cases
    case thread
    then have c: "connect_next False s = Some (s\<lparr>en_thread := T_Ended\<rparr>)" by (simp add: connect_next_def)
    have "stop_left (s\<lparr>en_thread := T_Ended\<rparr>) < stop_left s" using thread by (simp add: stop_left_def)
    moreover have "peers" using assms(4) thread by simp
    ultimately show ?thesis using end_run.connect c by blast
  next
    case chan
    then have st: "\<not> ip_connected (en_me s)" "en_reader s \<noteq> R_None" using assms(1) by (simp_all add: stop_inv_def Let_def)
    have "reader_next s \<noteq> None"
    proof (cases "en_reader s")
      case R_Round
      have "read_step inproc_read \<lparr>rs_t = (en_me s, en_pipes s), rs_ev = en_log s\<rparr> \<noteq> None"
        using assms(3) chan(1) R_Round read_step_closed [of "\<lparr>rs_t = (en_me s, en_pipes s), rs_ev = en_log s\<rparr>"]
        by (auto simp: stop_hung_def inproc_fin_def)
      with R_Round show ?thesis by (simp add: reader_next_def)
    qed (use chan st in \<open>simp_all add: reader_next_def\<close>)
    then obtain s' where s': "reader_next s = Some s'" by blast
    from reader_next_left [OF s' st(1)] have "stop_left s' < stop_left s" using chan(1) by (simp add: stop_left_def)
    then show ?thesis using end_run.reader [OF s'] by blast
  qed
qed

text \<open>
  C26. \<^verbatim>\<open>stop\<close> of an end of an in-process channel, against everything its other threads and the peer do. It waits for ever exactly when it
  finds the read loop waiting for the rest of a frame, or for the next one, on a pipe that was left open: then nothing helps any more. Otherwise it
  goes on: some thread can do a step that brings its return nearer, no step leads away from it; only the thread
  that makes the connection may keep it waiting, when no peer comes.
\<close>

theorem stop_returns:
  assumes start: "chan_start channel_id w = Some c" and run: "(end_run peers)\<^sup>*\<^sup>* (ipc_end_new r c) s"
  shows "(if stop_hung s then \<forall>s'. (end_run peers)\<^sup>*\<^sup>* s s' \<longrightarrow> en_stop s' = S_Channel
      else en_stop s = S_Stopped \<or> (\<exists>s'. end_run peers s s' \<and> stop_left s' < stop_left s)
        \<or> \<not> peers \<and> en_stop s = S_Thread \<and> en_thread s = T_Acquiring)
    \<and> (\<forall>s'. end_run peers s s' \<longrightarrow> stop_left s' \<le> stop_left s)"
proof -
  have inv: "stop_inv s"
    using run by (induction rule: rtranclp_induct) (use stop_inv_new [OF start] stop_inv_step in blast)+
  have "en_stop s' = S_Channel" if "stop_hung s" "(end_run peers)\<^sup>*\<^sup>* s s'" for s'
    using stop_hung_ever [OF that(2) inv that(1)] by (simp add: stop_hung_def)
  moreover have "en_stop s = S_Stopped \<or> (\<exists>s'. end_run peers s s' \<and> stop_left s' < stop_left s)
      \<or> \<not> peers \<and> en_stop s = S_Thread \<and> en_thread s = T_Acquiring" if "\<not> stop_hung s"
    using stop_progress [OF inv _ that] by blast
  ultimately show ?thesis using stop_step_left [OF _ inv] by presburger
qed

text \<open>The way into that wait: the reader waits, the peer closes, this end tries to send, and is then stopped.\<close>

theorem stop_can_hang:
  assumes start: "chan_start channel_id w = Some c"
  shows "\<exists>s. (end_run True)\<^sup>*\<^sup>* (ipc_end_new Server c) s \<and> stop_hung s"
proof -
  let ?s0 = "ipc_end_new Server c"
  let ?me = "ch_server c" and ?ps = "ch_pipes c"
  have new: "ip_connected ?me" "ip_connected (ch_client c)" "ip_rx (ch_client c) = ip_tx ?me" "ip_rx ?me \<noteq> ip_tx ?me"
    "ip_pos ?me = 0" "ip_current ?me = []" "p_queue (?ps (ip_rx ?me)) = []" "\<not> p_closed (?ps (ip_rx ?me))"
    using start by (auto simp: chan_start_def Let_def register_inprocess_def inprocess_listen_def inprocess_connect_def inproc_new_def pipe_new_def)
  let ?s1 = "?s0\<lparr>en_thread := T_Acquiring\<rparr>"
  let ?s2 = "?s1\<lparr>en_thread := T_Ended, en_reader := R_Top\<rparr>"
  let ?s3 = "?s2\<lparr>en_reader := R_Round\<rparr>"
  let ?ps4 = "?ps(ip_tx ?me := (?ps (ip_tx ?me))\<lparr>p_closed := True\<rparr>)"
  let ?s4 = "?s3\<lparr>en_peer := (ch_client c)\<lparr>ip_connected := False\<rparr>, en_pipes := ?ps4\<rparr>"
  let ?s5 = "?s4\<lparr>en_me := ?me\<lparr>ip_connected := False\<rparr>, en_pipes := ?ps4\<rparr>"
  let ?s6 = "?s5\<lparr>en_stop := S_Channel\<rparr>"
  have "end_run True ?s0 ?s1" by (rule end_run.start) (simp_all add: ipc_end_new_def)
  moreover have "end_run True ?s1 ?s2" by (rule end_run.connect [of _ True]) (simp_all add: connect_next_def)
  moreover have "end_run True ?s2 ?s3" by (rule end_run.reader) (simp add: reader_next_def ipc_end_new_def new)
  moreover have "end_run True ?s3 ?s4"
    by (rule end_run.peer_close) (simp add: inproc_close_def Let_def ipc_end_new_def new)
  moreover have "end_run True ?s4 ?s5"
    by (rule end_run.send [where ty = 1 and p = "[]"])
      (simp_all add: send_raw_def inproc_write_def Let_def ipc_end_new_def new)
  moreover have "end_run True ?s5 ?s6"
    by (rule end_run.stop) (simp add: stop_next_def channel_close_def inproc_close_def ipc_end_new_def)
  moreover have "stop_hung ?s6" using new by (simp add: stop_hung_iff inproc_fin_def inproc_pend_def starved_def)
  ultimately show ?thesis by (meson converse_rtranclp_into_rtranclp r_into_rtranclp)
qed

text \<open>
  \<^verbatim>\<open>stop\<close> while the connection is being made: it waits for the connection, and then leaves the channel running that has come into being. The
  end is stopped, and goes on calling back.
\<close>

theorem stop_leaves_channel:
  assumes start: "chan_start channel_id w = Some c"
  shows "\<exists>s. (end_run True)\<^sup>*\<^sup>* (ipc_end_new r c) s \<and> en_stop s = S_Stopped \<and> en_reader s = R_Top \<and> ip_connected (en_me s)"
proof -
  let ?s0 = "ipc_end_new r c"
  let ?s1 = "?s0\<lparr>en_thread := T_Acquiring\<rparr>"
  let ?s2 = "?s1\<lparr>en_stop := S_Thread\<rparr>"
  let ?s3 = "?s2\<lparr>en_thread := T_Ended, en_reader := R_Top\<rparr>"
  let ?s4 = "?s3\<lparr>en_stop := S_Stopped\<rparr>"
  have "end_run True ?s0 ?s1" by (rule end_run.start) (simp_all add: ipc_end_new_def)
  moreover have "end_run True ?s1 ?s2" by (rule end_run.stop) (simp add: stop_next_def ipc_end_new_def)
  moreover have "end_run True ?s2 ?s3" by (rule end_run.connect [of _ True]) (simp_all add: connect_next_def)
  moreover have "end_run True ?s3 ?s4" by (rule end_run.stop) (simp add: stop_next_def)
  moreover have "ip_connected (en_me ?s4)"
    using start by (cases r) (auto simp: ipc_end_new_def chan_start_def Let_def inprocess_listen_def inprocess_connect_def register_inprocess_def inproc_new_def)
  moreover have "en_stop ?s4 = S_Stopped" "en_reader ?s4 = R_Top" by simp_all
  ultimately show ?thesis by (meson converse_rtranclp_into_rtranclp r_into_rtranclp)
qed

section \<open>Witnesses\<close>

definition demo_registry :: ipc_env where
  "demo_registry = \<lparr>ie_pipes = (\<lambda>_. pipe_new), ie_next = 0, ie_registry = (\<lambda>_. None)\<rparr>"

definition demo_chan :: chan where
  "demo_chan = the (chan_start ''serial'' demo_registry)"

lemma demo_chan_start: "chan_start ''serial'' demo_registry = Some demo_chan"
  by (simp add: demo_chan_def chan_start_def Let_def inprocess_listen_def inprocess_connect_def register_inprocess_def)

theorem stop_returns_witness:
  "\<exists>s'. end_run False (ipc_end_new Client demo_chan) s' \<and> stop_left s' < 6"
proof -
  have f: "en_stop (ipc_end_new Client demo_chan) = S_Idle" "stop_left (ipc_end_new Client demo_chan) = 6"
    by (simp_all add: ipc_end_new_def stop_left_def)
  from stop_returns [OF demo_chan_start rtranclp.rtrancl_refl, of Client False] show ?thesis
    by (simp add: f stop_hung_def)
qed

theorem stop_can_hang_witness:
  "\<exists>s. (end_run True)\<^sup>*\<^sup>* (ipc_end_new Server demo_chan) s \<and> stop_hung s"
  by (rule stop_can_hang [OF demo_chan_start])

theorem stop_leaves_channel_witness:
  "\<exists>s. (end_run True)\<^sup>*\<^sup>* (ipc_end_new Client demo_chan) s \<and> en_stop s = S_Stopped \<and> en_reader s = R_Top \<and> ip_connected (en_me s)"
  by (rule stop_leaves_channel [OF demo_chan_start])

end
