(* ===== verification/Spec2Isabelle.thy ===== *)
theory Spec2Isabelle
  imports Net_Sockets Serial Guest_Ram Program Logger Teardown Ipc_Stop
begin

text \<open>
  A verification library for libcompute-vm, a virtual machine monitor for ARM Linux guests on macOS: a
  library that creates machines (\<^verbatim>\<open>src/src\<close>), a command line program that uses it (\<^verbatim>\<open>src/cli\<close>), and an
  interprocess channel between the two (\<^verbatim>\<open>src/ipc\<close>).

  \<^bold>\<open>How the program fits together.\<close> \<^verbatim>\<open>main.cpp\<close> turns its arguments into a JSON configuration; \<^verbatim>\<open>vm.cpp\<close>
  hands it to a backend; the HVF backend (\<^verbatim>\<open>hvf_backend.cpp\<close>) maps guest RAM (\<^verbatim>\<open>memory.cpp\<close>), makes the pipes and
  the IPC servers of the serial ports and the devices, loads the kernel and the initrd (\<^verbatim>\<open>fw_loader.cpp\<close>),
  writes the device tree (\<^verbatim>\<open>fw_dtb.cpp\<close>) and starts one thread per virtual CPU (\<^verbatim>\<open>vcpu.cpp\<close>). A CPU runs the guest
  until it exits; \<^verbatim>\<open>exit_handler.cpp\<close> decodes the exit, emulates the PL011, the PL031 and the interrupt
  controller's windows, and routes accesses in the virtio windows to the device there. \<^verbatim>\<open>fw_psci.cpp\<close> serves the
  firmware calls. The five virtio devices share rings in guest memory with the guest's drivers. The network device
  passes frames to a user-mode TCP/IP stack (\<^verbatim>\<open>network.cpp\<close>), which speaks to the host through sockets. What
  the guest prints goes through a pipe, a pump thread and an IPC channel to the program's terminal.

  \<^bold>\<open>The theories,\<close> each with the code it models; definitions keep the names of the functions and types.

  \<^item> \<open>Prelude\<close>: machine integers, little-endian bytes, \<open>cpp_while\<close> (a loop with \<^verbatim>\<open>break\<close> that may run for ever,
    \<open>partial_function (option)\<close>), the lemmas shared by all.
  \<^item> \<open>Vm_Memory\<close>: guest RAM as a window of the host's byte memory, \<^verbatim>\<open>gpa_to_hva\<close>. \<open>Host_Env\<close>: what a device can
    change outside itself: that memory, the interrupt lines (\<^verbatim>\<open>fw_gic.cpp\<close>), the data handed to the host.
  \<^item> \<open>Virtqueue\<close>: the layout of the rings, and the locale \<open>virtq_drain\<close>: a step that serves one request and
    publishes one used element, iterated, serves every pending request once and in order. \<open>Virtio_Mmio\<close>: the
    registers of virtio-mmio and the locale \<open>virtio_regs\<close>, the contract of a register file. Both are interpreted by
    each of \<open>Virtio_Block\<close>, \<open>Virtio_Console\<close>, \<open>Virtio_Input\<close>, \<open>Virtio_Net\<close> and \<open>Virtio_Gpu\<close>, which model the device
    sources of the same names: constructor, \<^verbatim>\<open>read\<close>, \<^verbatim>\<open>write\<close>, queue processing.
  \<^item> \<open>Net_Wire\<close>: checksums, headers and frames as \<^verbatim>\<open>network.cpp\<close> builds them. \<open>Network\<close>: the stack's connection
    tables, ARP, ICMP, DHCP, TCP and UDP, and the threads that poll the sockets, as steps over the socket calls.
    \<open>Net_Listen\<close>: the life of the stack object with its listening and forwarding threads (\<open>netd_step\<close>), and the detached threads of
    connections, which outlive it (\<open>net_traffic\<close>). \<open>Net_Sockets\<close>: who owns the
    connection objects and their sockets, and when they are destroyed (\<open>conns_step\<close>).
  \<^item> \<open>Machine\<close>: \<^verbatim>\<open>VMContext\<close>, all devices and registers in one record. \<open>Psci\<close>, \<open>Exit_Handler\<close>: the exits.
    \<open>Vcpu\<close>: the threads of the CPUs and of \<^verbatim>\<open>run_all\<close> as the step relation \<open>vmm_step\<close>. \<open>Host_Writes\<close>: what the exits write to the
    descriptors of the program, compared with what the guest stores to its UART. \<open>Interrupts\<close>: these together with the
    threads of the devices, the stack and the user's input (\<open>live_step\<close>), and what every action does to the interrupt lines.
    \<open>Teardown\<close>: the destructors of \<^verbatim>\<open>VMContext\<close> and of the devices against the threads of the devices (\<open>end_step\<close>).
  \<^item> \<open>Fw_Dtb\<close>: the builder of the flattened format, every call \<^verbatim>\<open>generate\<close> makes, and a decoder. \<open>Fw_Loader\<close>: kernel and
    initrd. \<open>Backend\<close>: \<^verbatim>\<open>HvfBackend\<close>. \<open>Guest_Ram\<close>: \<^verbatim>\<open>Memory::init\<close> call by call and the release of RAM. \<open>Vz\<close>: the backend of
    Virtualization.framework (\<^verbatim>\<open>vz_backend.mm\<close>). \<open>Dispatch\<close>: the locale \<open>backend\<close>, what both promise of handles, and \<^verbatim>\<open>vm.cpp\<close>.
    \<open>Cli\<close>: arguments and configuration. \<open>Program\<close>: \<^verbatim>\<open>main\<close> and the signal handler. \<open>Logger\<close>: \<^verbatim>\<open>logger.hpp\<close>.
  \<^item> \<open>Ipc\<close>: frames, sending, the read loop, the in-process and the Unix transport; the locales \<open>stream_transport\<close>,
    \<open>blocking_transport\<close>, \<open>os_reads\<close> and \<open>os_writes\<close> say what a transport and the system promise.
    \<open>Ipc_Sockets\<close>: creation of sockets; the Windows transport. \<open>Ipc_Api\<close>: \<^verbatim>\<open>Server\<close> and \<^verbatim>\<open>Client\<close> with their
    threads. \<open>Ipc_Stop\<close>: how an end of a channel is stopped, against its threads and the peer (\<open>end_run\<close>). \<open>Serial\<close>: the whole way of serial output. This theory: properties of parts that meet only here.

  \<^bold>\<open>How the model stands to the code.\<close> A class is a record; a method is a function from the object and the host to
  both updated. Integers keep their width, so additions wrap where they do in C++. Guest-visible structures are read and
  written byte by byte in one memory, so the aliasing of rings, buffers and the device tree is the real one. A result
  \<open>None\<close> is a call that does not return: a loop without end, a wait nobody ends, or a mutex locked twice by its
  holder. Exceptions are values of sum types. Threads are steps of an inductive relation; a step is what happens under
  one lock or between two shared accesses. System calls, Hypervisor.framework and the file system are records of
  functions and parameters, with the promises relied on as named hypotheses (\<open>fd_laws\<close>, \<open>name_laws\<close>, \<open>sock_laws\<close>,
  \<open>shm_laws\<close>, \<open>hv_laws\<close>, \<open>out_laws\<close>, the locales of \<open>Ipc\<close>), each instantiated in a witness.

  \<^bold>\<open>What is shown.\<close>
  \<^item> Devices: draining a queue serves exactly the pending requests, in order, once, changes nothing but the used ring,
    the buffers handed over and the device, and then raises the interrupt; the content of what is served: sectors,
    pixels, frames, events, characters. Well-formedness of each device is kept by every operation. Where
    the code goes wrong on hostile rings (cyclic chains, buffers at the end of RAM, sizes that wrap), that is a theorem too.
  \<^item> Network: the tables stay consistent, what the guest sends on an established connection reaches its socket, is acknowledged and
    advances the sequence number, frames carry their fields and valid checksums, no connection object is used after its
    destruction and every socket is closed once, and the deadlock of a guest that asks for the gateway's address.
  \<^item> Machine: a created machine holds kernel, initrd, device tree and devices that agree; the driver that follows the
    device tree finds each device and gets its interrupts, none lost, none spurious, on the line announced; an access reaches only the device addressed; PSCI; a CPU that is switched on starts, and the CPU threads end unless a CPU was never
    switched on; RAM and handles are given back, RAM only after the last thread that uses it; the program's clients connect to the channels its machine serves, and a failed creation hangs once a pump waits for
    the UART.
  \<^item> Formats: the device tree, frames, port forwards are read back as they were written.
  \<^item> Channels: order and completeness over each transport, framing errors, what callbacks can see, what is lost before
    a peer connects, when \<^verbatim>\<open>stop\<close> returns, and serial output from the guest's store to the terminal.

  \<^bold>\<open>Bounds.\<close> No function has fuel except the descriptor walks that the code bounds itself (256 or 64 entries). Loops
  that the code does not bound are \<open>partial_function (option)\<close>, and the theorems say that they return. Hypotheses like
  \<open>queue_live\<close> or \<open>net_rq_ok\<close> say that the guest's driver keeps the rings inside RAM and apart from each other.

  \<^bold>\<open>Not modelled.\<close> The frameworks of macOS themselves: Hypervisor.framework with the interrupt controller it emulates,
  Virtualization.framework, and how a view is attached (\<open>vm_ui\<close> says whose). The usage text, the messages on standard error and
  the log messages, except what \<^verbatim>\<open>logger.hpp\<close> does with them. The joins in the destructors of the IPC classes over
  sockets: there, whether the thread in accept ends is a parameter of the theorems. The end of the network stack is one step of \<open>Teardown\<close>; its own
  threads are in \<open>Net_Listen\<close>. Short and failed writes to the serial pipe and
  the terminal.
  Data races on the pointer to the channel in \<^verbatim>\<open>Server\<close> and \<^verbatim>\<open>Client\<close>: a send sees it or does not. Build files and documentation.
\<close>

section \<open>The network device on the network stack\<close>

text \<open>
  C39. The device and the stack together: a guest that sends an ARP request for the gateway or the DNS
  server, the first frame of every driver that uses the network, stops the machine. The notification
  write does not return, because the stack answers from within \<^verbatim>\<open>guest_tx\<close>, on the vCPU thread, which
  still holds the device's mutex when \<^verbatim>\<open>enqueue_rx\<close> takes it again.
\<close>

theorem guest_arp_deadlocks:
  assumes live: "queue_live q" "q = snd (n_queues s)"
    and rings: "gpa_to_hva c (desc_gpa q) = Some d" "gpa_to_hva c (avail_gpa q) = Some a"
      "gpa_to_hva c (used_gpa q) = Some u"
    and apart: "used_span 256 u \<inter> (desc_span 256 d \<union> avail_span 256 a) = {}"
    and wf: "\<forall>r \<in> set (pending 256 (mem h) a (last_avail q)). net_rq_ok c (mem h) d u r"
    and first: "pending 256 (mem h) a (last_avail q) = r # rs" "chain 256 (mem h) d 256 r = Some ds"
      "chain_bytes c (mem h) d ds = vhdr @ frame" "length vhdr = 12"
    and arp: "42 \<le> length frame" "ntohs_at frame 12 = 0x0806" "ntohs_at (drop 14 frame) 6 = 1"
      "ntohl_at (drop 14 frame) 24 \<in> {gw_ip cfg, dns_ip cfg}"
  shows "net_write (handle_frame os cfg) c (s, h) Reg_QueueNotify 1 = None"
proof -
  have "length frame > 0" using arp(1) by linarith
  then have "tx_feed (handle_frame os cfg) c (mem h) d (pending 256 (mem h) a (last_avail q)) (ext h) = None"
    using handle_frame_arp [OF arp(1,2) refl, of os cfg "ext h"] arp(3,4) first by (auto simp: Let_def)
  from net_process_tx_deadlock [OF live rings apart wf this] show ?thesis
    by (simp add: net_write_def Let_def)
qed

text \<open>The demo rings with one request of 54 bytes: the virtio header and the ARP request.\<close>

definition demo_arp_mem :: hmem where
  "demo_arp_mem = write_bytes (demo_mem(0x11008 := 54, 0x1100C := 0)) 0x14000 (replicate 12 0 @ demo_arp)"

definition demo_arp_host :: "u8 list stack host" where
  "demo_arp_host = \<lparr>mem = demo_arp_mem, spi_calls = [], sent = [], ext = stack_new []\<rparr>"

lemma demo_arp_mem_rings:
  "pending 256 demo_arp_mem 0x12000 0 = [0]" "chain 256 demo_arp_mem 0x11000 256 0 = Some [0]"
  "desc_addr demo_arp_mem 0x11000 0 = 0x40004000" "desc_len demo_arp_mem 0x11000 0 = 54"
proof -
  have "agree_on (- span 0x14000 54) demo_arp_mem (demo_mem(0x11008 := 54, 0x1100C := 0))"
    using write_bytes_agree [of "replicate 12 0 @ demo_arp" "0x14000" "- span 0x14000 54"]
    by (simp add: demo_arp_mem_def demo_arp_fields)
  then have eq: "\<And>p. p \<notin> span 0x14000 54 \<Longrightarrow> demo_arp_mem p = (demo_mem(0x11008 := 54, 0x1100C := 0)) p"
    by (simp add: agree_on_def)
  show "pending 256 demo_arp_mem 0x12000 0 = [0]" "chain 256 demo_arp_mem 0x11000 256 0 = Some [0]"
    "desc_addr demo_arp_mem 0x11000 0 = 0x40004000" "desc_len demo_arp_mem 0x11000 0 = 54"
    by (simp_all add: ring_eval pending_def chain_numeral eq span_unat_iff demo_mem_def)
qed

theorem guest_arp_deadlocks_witness:
  "net_write (handle_frame demo_net_os net_config_default) demo_ctx (demo_net, demo_arp_host) Reg_QueueNotify 1 = None"
proof -
  have q: "queue_live demo_queue" "demo_queue = snd (n_queues demo_net)" "mem demo_arp_host = demo_arp_mem"
    "last_avail demo_queue = 0" "desc_gpa demo_queue = 0x40001000" "avail_gpa demo_queue = 0x40002000"
    "used_gpa demo_queue = 0x40003000"
    using demo_live by (simp_all add: demo_net_def demo_arp_host_def demo_queue_def)
  have bytes: "chain_bytes demo_ctx demo_arp_mem 0x11000 [0] = replicate 12 0 @ demo_arp"
  proof -
    have "read_bytes demo_arp_mem 0x14000 (length (replicate 12 0 @ demo_arp)) = replicate 12 0 @ demo_arp"
      unfolding demo_arp_mem_def by (rule read_write_bytes) (simp add: demo_arp_fields)
    then show ?thesis by (simp add: chain_bytes_def demo_arp_mem_rings demo_hva demo_arp_fields)
  qed
  have "span 0x14000 0x3000 \<subseteq> - used_span 256 0x13000" using demo_apart(1) by blast
  then have "span 0x14000 54 \<subseteq> - used_span 256 0x13000" using span_mono [of 54 "0x3000" "0x14000"] by auto
  then have ok: "net_rq_ok demo_ctx demo_arp_mem 0x11000 0x13000 0"
    by (simp add: net_rq_ok_def demo_arp_mem_rings bufs_in_def demo_hva)
  show ?thesis
  proof (rule guest_arp_deadlocks [OF q(1,2), of demo_ctx "0x11000" "0x12000" "0x13000" demo_arp_host 0 "[]" "[0]"
        "replicate 12 0" demo_arp])
    show "ntohl_at (drop 14 demo_arp) 24 \<in> {gw_ip net_config_default, dns_ip net_config_default}"
      by (simp add: demo_arp_fields net_config_default_def)
  qed (simp_all add: q(3-) q(1) q(2) [symmetric] demo_hva demo_arp_mem_rings demo_arp_fields bytes ok demo_apart)
qed

section \<open>The device tree and the memory map\<close>

text \<open>
  What a driver for virtio over MMIO takes from the device tree: the base address, the size and the interrupt number of every
  node that is compatible with it.
\<close>

fun mmio_nodes :: "fdt_call list \<Rightarrow> (nat \<times> nat \<times> nat) list" where
  "mmio_nodes [] = []"
| "mmio_nodes (c # cs) =
     (if c = prop_strlist ''compatible'' [''virtio,mmio'']
      then (case cs of Prop _ regs # Prop _ irq # _ \<Rightarrow> [(be_val (take 8 regs), be_val (drop 8 regs), be_val (take 4 (drop 4 irq)))] | _ \<Rightarrow> [])
      else []) @ mmio_nodes cs"

text \<open>The devices in the order of the tree: the two that every machine has, and those it was given.\<close>

definition virtio_slots :: "'e machine \<Rightarrow> (region \<times> u32) list" where
  "virtio_slots m =
     [(R_Console, kSpiConsole), (R_Block, kSpiBlock)]
     @ (if net_dev m \<noteq> None then [(R_Net, kSpiNet)] else []) @ (if gpu_dev m \<noteq> None then [(R_Gpu, kSpiGpu)] else [])
     @ (if keyboard_dev m \<noteq> None then [(R_Keyboard, kSpiKeyboard)] else [])
     @ (if tablet_dev m \<noteq> None then [(R_Tablet, kSpiTablet)] else [])"

fun present :: "region \<Rightarrow> 'e machine \<Rightarrow> bool" where
  "present R_Console m \<longleftrightarrow> console_dev m \<noteq> None"
| "present R_Block m \<longleftrightarrow> block_dev m \<noteq> None"
| "present R_Net m \<longleftrightarrow> net_dev m \<noteq> None"
| "present R_Gpu m \<longleftrightarrow> gpu_dev m \<noteq> None"
| "present R_Keyboard m \<longleftrightarrow> keyboard_dev m \<noteq> None"
| "present R_Tablet m \<longleftrightarrow> tablet_dev m \<noteq> None"
| "present _ m \<longleftrightarrow> True"

lemma mmio_nodes_other:
  "prop_strlist ''compatible'' [''virtio,mmio''] \<notin> set cs \<Longrightarrow> mmio_nodes (cs @ ds) = mmio_nodes ds"
  by (induction cs) auto

lemma be_val_zeros: "be_val (be_bytes32 0 @ bs) = be_val bs"
  by (simp add: be_val_def be_bytes32_def)

lemma mmio_nodes_virtio:
  "mmio_nodes (dtb_virtio name gpa spi @ cs) = (unat (ucast gpa :: u32), 0x200, unat spi) # mmio_nodes cs"
  by (simp add: dtb_virtio_def dtb_defs str_bytes_def be_val_zeros lo_cell_def)

lemma dtb_parts_other:
  "prop_strlist ''compatible'' [''virtio,mmio''] \<notin> set (dtb_chosen m @ dtb_memory m @ dtb_psci @ dtb_cpus m @ dtb_timer @ dtb_intc @ dtb_clk @ dtb_uart)"
  by (auto simp: dtb_chosen_def dtb_memory_def dtb_psci_def dtb_cpus_def dtb_cpu_def dtb_timer_def dtb_intc_def dtb_clk_def
      dtb_uart_def dtb_defs str_bytes_def Let_def)


lemma mmio_nodes_dtb:
  "mmio_nodes (dtb_calls m) =
     [(0xA000000, 0x200, 16), (0xA000200, 0x200, 17)]
     @ (if net_dev m \<noteq> None then [(0xA000400, 0x200, 19)] else []) @ (if gpu_dev m \<noteq> None then [(0xA000600, 0x200, 20)] else [])
     @ (if keyboard_dev m \<noteq> None then [(0xA000800, 0x200, 21)] else []) @ (if tablet_dev m \<noteq> None then [(0xA000A00, 0x200, 22)] else [])"
proof -
  let ?top = "[Begin_Node [], prop_u32 ''#address-cells'' 2, prop_u32 ''#size-cells'' 2, prop_u32 ''interrupt-parent'' 1,
      prop_strlist ''compatible'' [''linux,dummy-virt''], prop_str ''model'' ''virtualization-vm'']"
  let ?parts = "dtb_chosen m @ dtb_memory m @ dtb_psci @ dtb_cpus m @ dtb_timer @ dtb_intc @ dtb_clk @ dtb_uart"
  have "prop_strlist ''compatible'' [''virtio,mmio''] \<notin> set (?top @ ?parts)"
    using dtb_parts_other [of m] by (simp add: dtb_defs str_bytes_def)
  note skip = mmio_nodes_other [OF this]
  have "mmio_nodes (dtb_calls m) = mmio_nodes ((?top @ ?parts) @ drop (length (?top @ ?parts)) (dtb_calls m))"
    by (simp add: dtb_calls_def)
  also have "\<dots> = mmio_nodes (drop (length (?top @ ?parts)) (dtb_calls m))"
    by (rule skip)
  finally show ?thesis
    by (simp add: dtb_calls_def mmio_nodes_virtio prop_strlist_def)
qed

text \<open>The window of a region, as natural numbers.\<close>

lemma region_of_iff:
  assumes "(r, base, sz) \<in> set memory_map"
  shows "region_of ipa = Some r \<longleftrightarrow> in_win base sz ipa"
proof
  assume "region_of ipa = Some r"
  then obtain base' sz' where f: "find (\<lambda>(r, base, sz). in_win base sz ipa) memory_map = Some (r, base', sz')"
    by (auto simp: region_of_def)
  then have "(r, base', sz') \<in> set memory_map" "in_win base' sz' ipa" by (auto simp: find_Some_iff in_set_conv_nth)
  moreover have "distinct (map fst memory_map)" by (simp add: memory_map_def)
  ultimately show "in_win base sz ipa" using eq_key_imp_eq_value [OF _ assms, of "(base', sz')"] by simp
next
  assume w: "in_win base sz ipa"
  then obtain r' base' sz' where f: "find (\<lambda>(r, base, sz). in_win base sz ipa) memory_map = Some (r', base', sz')"
    using assms by (cases "find (\<lambda>(r, base, sz). in_win base sz ipa) memory_map") (auto simp: find_None_iff)
  then have "(r', base', sz') \<in> set memory_map" "in_win base' sz' ipa" by (auto simp: find_Some_iff in_set_conv_nth)
  with memory_map_disjoint(1) [OF _ assms, of "(r', base', sz')" ipa] w f show "region_of ipa = Some r" by (simp add: region_of_def)
qed

lemma virtio_window:
  "region_of ipa = Some R_Console \<longleftrightarrow> 0xA000000 \<le> unat ipa \<and> unat ipa < 0xA000200"
  "region_of ipa = Some R_Block \<longleftrightarrow> 0xA000200 \<le> unat ipa \<and> unat ipa < 0xA000400"
  "region_of ipa = Some R_Net \<longleftrightarrow> 0xA000400 \<le> unat ipa \<and> unat ipa < 0xA000600"
  "region_of ipa = Some R_Gpu \<longleftrightarrow> 0xA000600 \<le> unat ipa \<and> unat ipa < 0xA000800"
  "region_of ipa = Some R_Keyboard \<longleftrightarrow> 0xA000800 \<le> unat ipa \<and> unat ipa < 0xA000A00"
  "region_of ipa = Some R_Tablet \<longleftrightarrow> 0xA000A00 \<le> unat ipa \<and> unat ipa < 0xA000C00"
  using region_of_iff [of R_Console kGpaVirtioConsole kGpaVirtioStride ipa]
    region_of_iff [of R_Block kGpaVirtioBlock kGpaVirtioStride ipa]
    region_of_iff [of R_Net kGpaVirtioNet kGpaVirtioStride ipa]
    region_of_iff [of R_Gpu kGpaVirtioGpu kGpaVirtioStride ipa]
    region_of_iff [of R_Keyboard kGpaVirtioKeyboard kGpaVirtioStride ipa]
    region_of_iff [of R_Tablet kGpaVirtioTablet kGpaVirtioStride ipa]
  by (simp_all add: memory_map_def in_win_def word_le_nat_alt word_less_nat_alt)

text \<open>A load that delivers the magic value or 0.\<close>

definition probe_load :: "'e vmm_os \<Rightarrow> nat \<Rightarrow> vcpu_exit \<Rightarrow> bool \<Rightarrow> 'e machine \<Rightarrow> 'e machine option" where
  "probe_load os i ex found m =
     Some (advance_pc os i (set_reg i (xreg_id os (esr_srt (ex_syndrome ex))) (if found then 0x74726976 else 0) m))"

lemmas mmio_unfold = handle_mmio_def [folded in_win_def, folded esr_srt_def, folded esr_wnr_def] Let_def in_win_def probe_load_def

lemma ipa_of_unat: "unat (x :: u64) = k \<Longrightarrow> x = of_nat k"
  by auto

lemma probe_console:
  "unat (ex_ipa ex) = 0xA000000 \<Longrightarrow> \<not> esr_wnr (ex_syndrome ex) \<Longrightarrow>
    handle_mmio os i ex m = probe_load os i ex (present R_Console m) m"
  by (drule ipa_of_unat, cases "console_dev m")
    (simp_all add: mmio_unfold console_read_def)

lemma probe_block:
  "unat (ex_ipa ex) = 0xA000200 \<Longrightarrow> \<not> esr_wnr (ex_syndrome ex) \<Longrightarrow>
    handle_mmio os i ex m = probe_load os i ex (present R_Block m) m"
  by (drule ipa_of_unat, cases "block_dev m")
    (simp_all add: mmio_unfold block_read_def)

lemma probe_net:
  "unat (ex_ipa ex) = 0xA000400 \<Longrightarrow> \<not> esr_wnr (ex_syndrome ex) \<Longrightarrow>
    handle_mmio os i ex m = probe_load os i ex (present R_Net m) m"
  by (drule ipa_of_unat, cases "net_dev m")
    (simp_all add: mmio_unfold net_read_def)

lemma probe_gpu:
  "unat (ex_ipa ex) = 0xA000600 \<Longrightarrow> \<not> esr_wnr (ex_syndrome ex) \<Longrightarrow>
    handle_mmio os i ex m = probe_load os i ex (present R_Gpu m) m"
  by (drule ipa_of_unat, cases "gpu_dev m")
    (simp_all add: mmio_unfold gpu_read_def)

lemma probe_keyboard:
  "unat (ex_ipa ex) = 0xA000800 \<Longrightarrow> \<not> esr_wnr (ex_syndrome ex) \<Longrightarrow>
    handle_mmio os i ex m = probe_load os i ex (present R_Keyboard m) m"
  by (drule ipa_of_unat, cases "keyboard_dev m")
    (simp_all add: mmio_unfold input_read_def)

lemma probe_tablet:
  "unat (ex_ipa ex) = 0xA000A00 \<Longrightarrow> \<not> esr_wnr (ex_syndrome ex) \<Longrightarrow>
    handle_mmio os i ex m = probe_load os i ex (present R_Tablet m) m"
  by (drule ipa_of_unat, cases "tablet_dev m")
    (simp_all add: mmio_unfold input_read_def)

text \<open>
  C2. What the guest is told is what the machine does: the virtio nodes of the device tree are, in order, the console, the disk and the
  devices the machine was given; the range of each is exactly the window whose accesses reach that device, and no other; its interrupt is the line the device raises; and
  the first load of a driver, at its base, returns the magic value if the device exists and 0, which drivers take for an absent device, if it does not.
\<close>

theorem guest_finds_devices:
  assumes "\<not> esr_wnr (ex_syndrome ex)"
  shows "list_all2 (\<lambda>(base, sz, spi) (r, line).
      spi = unat line \<and> (\<forall>ipa. region_of ipa = Some r \<longleftrightarrow> base \<le> unat ipa \<and> unat ipa < base + sz)
      \<and> (unat (ex_ipa ex) = base \<longrightarrow> handle_mmio os i ex m = probe_load os i ex (present r m) m))
    (mmio_nodes (dtb_calls m)) (virtio_slots m)"
proof -
  note probe = probe_console probe_block probe_net probe_gpu probe_keyboard probe_tablet
  show ?thesis
    unfolding mmio_nodes_dtb virtio_slots_def
    using assms by (simp add: virtio_window probe)
qed

theorem guest_finds_devices_witness:
  "let ex = \<lparr>ex_reason = HV_EXIT_REASON_EXCEPTION, ex_syndrome = 0x93820006, ex_ipa = 0xA000800\<rparr>
   in length (mmio_nodes (dtb_calls demo_vm)) = 3 \<and> mmio_nodes (dtb_calls demo_vm) ! 2 = (0xA000800, 0x200, 21)
     \<and> map_option (get_reg 0 2) (handle_mmio demo_vmm_os 0 ex demo_vm) = Some 0x74726976"
proof -
  let ?ex = "\<lparr>ex_reason = HV_EXIT_REASON_EXCEPTION, ex_syndrome = 0x93820006, ex_ipa = 0xA000800\<rparr>"
  have dev: "net_dev demo_vm = None" "gpu_dev demo_vm = None" "tablet_dev demo_vm = None"
    "keyboard_dev demo_vm = Some (input_new kSpiKeyboard Keyboard 0 0)"
    by (simp_all add: demo_vm_def create_keyboard_def init_vcpus_def vmcontext_new_def)
  have esr: "\<not> esr_wnr (ex_syndrome ?ex)" "esr_srt 0x93820006 = 2" by (simp_all add: esr_wnr_def esr_srt_def)
  have reg: "xreg_id demo_vmm_os 2 = 2" by (simp add: xreg_id_def demo_vmm_os_def)
  from guest_finds_devices [OF esr(1), of demo_vmm_os 0 demo_vm]
  have "handle_mmio demo_vmm_os 0 ?ex demo_vm = probe_load demo_vmm_os 0 ?ex True demo_vm"
    by (simp add: mmio_nodes_dtb virtio_slots_def dev)
  moreover have "get_reg 0 2 (advance_pc demo_vmm_os 0 (set_reg 0 2 0x74726976 demo_vm)) = 0x74726976"
    using demo_vm_simps(1,5,6) by (simp add: advance_pc_def get_reg_def set_reg_def upd_vcpu_def demo_vmm_os_def)
  ultimately show ?thesis
    by (simp add: mmio_nodes_dtb dev probe_load_def esr(2) reg Let_def)
qed

section \<open>The device tree and the interrupts\<close>

text \<open>The machine when its creation is over and \<^verbatim>\<open>run_all\<close> has not begun.\<close>

definition vmm_new :: "'e machine \<Rightarrow> 'e vmm" where
  "vmm_new m = \<lparr>vm_m = m, vm_threads = [], vm_main = MainIdle\<rparr>"

definition irq_fresh :: "'e machine \<Rightarrow> bool" where
  "irq_fresh m \<longleftrightarrow> spi_calls (hst m) = [] \<and> (\<forall>r. \<not> irq_pending r m) \<and> input_lines m"

lemma irq_fresh_inv: "irq_fresh m \<Longrightarrow> irq_inv (devices m) m"
  by (auto simp: irq_fresh_def irq_inv_def intro!: exI [of _ "[]"])

text \<open>A device that is there has its node in the device tree; the disk and the console have theirs always.\<close>

lemma devices_slots: "r \<in> devices m \<Longrightarrow> (r, line) \<in> set irq_lines \<Longrightarrow> (r, line) \<in> set (virtio_slots m)"
  by (auto simp: devices_def irq_lines_def virtio_slots_def)

lemma slots_lines: "set (virtio_slots m) \<subseteq> set irq_lines"
  by (auto simp: irq_lines_def virtio_slots_def)

lemma slots_announced: "(snd \<circ> snd) ` set (mmio_nodes (dtb_calls m)) = (unat \<circ> snd) ` set (virtio_slots m)"
proof -
  have "map (snd \<circ> snd) (mmio_nodes (dtb_calls m)) = map (unat \<circ> snd) (virtio_slots m)"
    by (simp add: mmio_nodes_dtb virtio_slots_def)
  from arg_cong [OF this, of set] show ?thesis by (simp only: set_map)
qed

lemma irq_lines_inj: "(r, line) \<in> set irq_lines \<Longrightarrow> (r', line) \<in> set irq_lines \<Longrightarrow> r' = r"
  by (auto simp: irq_lines_def)

text \<open>
  C3. Interrupts are what the guest was told, in every interleaving of the threads of the CPUs, the devices and the network
  stack with the user's input and the host. Every state has only complete pulses behind it, of lines that the device tree announces, so no line stays
  asserted; a device whose interrupt status is set has pulsed its line. One more action pulses at most one line; it is
  that of a device whose status is set afterwards, so no interrupt is spurious; and a status that gets set comes with its pulse, so none is lost.
\<close>

theorem interrupts_as_announced:
  assumes fresh: "irq_fresh m0" and run: "(live_step os rd)\<^sup>*\<^sup>* (vmm_new m0) s" and next_action: "live_step os rd s s'"
  shows "\<exists>past ls. spi_calls (hst (vm_m s)) = concat (map pulse past)
    \<and> spi_calls (hst (vm_m s')) = concat (map pulse (past @ ls)) \<and> length ls \<le> 1
    \<and> unat ` set (past @ ls) \<subseteq> (snd \<circ> snd) ` set (mmio_nodes (dtb_calls m0))
    \<and> (\<forall>(r, line) \<in> set (virtio_slots m0). (irq_pending r (vm_m s) \<longrightarrow> line \<in> set past)
        \<and> (line \<in> set ls \<longrightarrow> irq_pending r (vm_m s'))
        \<and> (irq_pending r (vm_m s') \<longrightarrow> irq_pending r (vm_m s) \<or> line \<in> set ls))"
proof -
  have "irq_inv (devices m0) (vm_m (vmm_new m0))" using irq_fresh_inv [OF fresh] by (simp add: vmm_new_def)
  with run have inv: "irq_inv (devices m0) (vm_m s)" by (rule irq_inv_reachable)
  then obtain past where past: "spi_calls (hst (vm_m s)) = concat (map pulse past)"
      "set past \<subseteq> {line. \<exists>r \<in> devices m0. (r, line) \<in> set irq_lines}"
      "\<forall>(r, line) \<in> set irq_lines. irq_pending r (vm_m s) \<longrightarrow> line \<in> set past"
    and st: "devices (vm_m s) = devices m0" "input_lines (vm_m s)" by (auto simp: irq_inv_def)
  from live_step_irq [OF next_action st(2)] obtain ls where "irq_change ls (vm_m s) (vm_m s')" ..
  then have ls: "spi_calls (hst (vm_m s')) = concat (map pulse (past @ ls))" "length ls \<le> 1" "devices (vm_m s') = devices m0"
      "\<forall>line \<in> set ls. \<exists>r. (r, line) \<in> set irq_lines \<and> irq_pending r (vm_m s')"
      "\<forall>(r, line) \<in> set irq_lines. irq_pending r (vm_m s') \<longrightarrow> irq_pending r (vm_m s) \<or> line \<in> set ls"
    by (simp_all add: irq_change_def past(1) st(1))
  have "set (past @ ls) \<subseteq> {line. \<exists>r \<in> devices m0. (r, line) \<in> set irq_lines}"
    using past(2) ls(3,4) irq_pending_devices by fastforce
  then have "set (past @ ls) \<subseteq> snd ` set (virtio_slots m0)" using devices_slots by force
  then have "unat ` set (past @ ls) \<subseteq> (unat \<circ> snd) ` set (virtio_slots m0)" by auto
  then have "unat ` set (past @ ls) \<subseteq> (snd \<circ> snd) ` set (mmio_nodes (dtb_calls m0))" unfolding slots_announced .
  moreover have "(irq_pending r (vm_m s) \<longrightarrow> line \<in> set past) \<and> (line \<in> set ls \<longrightarrow> irq_pending r (vm_m s'))
      \<and> (irq_pending r (vm_m s') \<longrightarrow> irq_pending r (vm_m s) \<or> line \<in> set ls)" if "(r, line) \<in> set (virtio_slots m0)" for r line
    using past(3) ls(4,5) slots_lines that irq_lines_inj by blast
  ultimately show ?thesis using past(1) ls(1,2) by blast
qed

text \<open>A machine that \<^verbatim>\<open>Create\<close> hands out is in such a state.\<close>

lemma hvf_boot_irq: "hvf_boot env cfg m = Inr m' \<Longrightarrow> irq_same m m'"
  by (auto simp: hvf_boot_def load_kernel_def load_initrd_def load_file_def poke_def dtb_generate_def init_vcpus_def irq_same_def Let_def
      split: if_splits prod.splits bool.splits option.splits)

lemma irq_same_fresh: "irq_same m m' \<Longrightarrow> irq_fresh m \<Longrightarrow> irq_fresh m'"
  by (simp add: irq_fresh_def irq_pending_def isr_of_same) (simp add: irq_same_def input_lines_def)

lemma created_machine_fresh:
  assumes "hvf_create env cfg b = Some (b', Inr h)" and "spi_calls (he_host env) = []" and "hv_vms b' h = Some inst"
  shows "irq_fresh (in_ctx inst)"
proof -
  show ?thesis
    using assms(1)
  proof (rule hvf_create_ok)
    fix ram m1 m2 p chs m3
    let ?m0 = "(vmcontext_new (of_int (cf_cpu_count cfg)) ram (he_host env))\<lparr>cmdline := cfg_str (cf_cmdline cfg)\<rparr>"
    assume mi: "memory_init env ?m0 = (m1, True)" and sp: "serial_ports (sort_key fst (cf_serial cfg)) (m1, hv_pipes b) = ((m2, p), chs, True)"
      and boot: "hvf_boot env cfg (hvf_devices env cfg m2) = Inr m3" and h: "h = hv_next_id b"
      and vms: "hv_vms b' = (hv_vms b)(h \<mapsto> \<lparr>in_ctx = m3, in_serial = chs\<rparr>)"
    have "irq_same ?m0 m1" using mi by (auto simp: memory_init_def set_ram_def irq_same_def split: option.splits)
    moreover obtain pl where "m2 = m1\<lparr>pl011 := pl\<rparr>" using serial_ports_machine [OF sp] by blast
    ultimately have "irq_same ?m0 m2" by (simp add: irq_same_def)
    then have "irq_fresh (hvf_devices env cfg m2)"
      using assms(2) by (auto simp: irq_same_def vmcontext_new_def irq_fresh_def input_lines_def irq_pending_def hvf_devices_def create_console_def
          create_block_def create_net_def console_new_def block_new_def net_new_def Let_def split: option.splits prod.splits elim: isr_of.elims)
    then show ?thesis using irq_same_fresh [OF hvf_boot_irq [OF boot]] assms(3) vms by auto
  qed
qed

text \<open>A machine with the example console, on which the host has a character to deliver.\<close>

definition demo_con_vm :: "u8 list machine" where
  "demo_con_vm = (set_ram (ram_hva demo_ctx) (ram_gpa demo_ctx) (ram_size demo_ctx) (vmcontext_new 1 0x10000 demo_con_host))
     \<lparr>console_dev := Some demo_console\<rparr>"

theorem interrupts_as_announced_witness:
  "\<exists>d h. feed_rx demo_rd demo_con_vm demo_console demo_con_host = (d, h) \<and> spi_calls h = pulse kSpiConsole"
proof -
  let ?m = "mem demo_con_host"
    and ?os = "\<lparr>os_blk = \<lparr>pread = (\<lambda>_ _ _ _. None), pwrite = (\<lambda>e _ _ _. (e, False)), fsync = (\<lambda>e _. e)\<rparr>, os_guest_tx = (\<lambda>e f. Some (e, [])),
      os_time = (\<lambda>_. 0), reg_x0 = 0, reg_pc = 31, reg_cpsr = 34, sys_sctlr = 0xC080, sys_cpacr = 0xC082, sys_mpidr = 0xC005\<rparr>"
  have m: "avail_idx ?m 0x12000 = 1" "avail_ring 256 ?m 0x12000 0 = 0" "desc_addr ?m 0x11000 0 = 0x40004000"
    "desc_len ?m 0x11000 0 = 2" "used_idx ?m 0x13000 = 0"
    by (simp_all add: ring_eval demo_con_host_def demo_mem_def)
  have hva: "gpa_to_hva demo_con_vm g = gpa_to_hva demo_ctx g" for g
    by (simp add: gpa_to_hva_def demo_con_vm_def set_ram_def)
  obtain d h where fr: "feed_rx demo_rd demo_con_vm demo_console demo_con_host = (d, h)" and isr: "con_irq_status d = con_irq_status demo_console OR 1"
    using m by (auto simp: feed_rx_def Let_def hva demo_hva demo_console_def demo_queue_def console_new_def queue_live_def demo_rd_def demo_con_host_def)
  have dev: "console_dev demo_con_vm = Some demo_console" "hst demo_con_vm = demo_con_host" "block_dev demo_con_vm = None" "net_dev demo_con_vm = None"
    "gpu_dev demo_con_vm = None" "keyboard_dev demo_con_vm = None" "tablet_dev demo_con_vm = None" "con_irq_status demo_console = 0"
    by (simp_all add: demo_con_vm_def set_ram_def vmcontext_new_def demo_console_def console_new_def)
  then have quiet: "\<not> irq_pending r demo_con_vm" for r by (cases r) (simp_all add: irq_pending_def)
  then have "irq_fresh demo_con_vm" by (simp add: irq_fresh_def dev input_lines_def) (simp add: demo_con_host_def)
  from interrupts_as_announced [OF this rtranclp.rtrancl_refl live_step.console_input [where os = ?os and rd = demo_rd and readable = True and d = demo_console and d' = d and h = h]] fr
  obtain past ls where ls: "spi_calls demo_con_host = concat (map pulse past)" "spi_calls h = concat (map pulse (past @ ls))" "length ls \<le> 1"
    "kSpiConsole \<in> set ls"
    using quiet isr by (auto simp: vmm_new_def console_rx_round_def dev virtio_slots_def irq_pending_def bit_simps)
  have "past = []" using ls(1) by (cases past) (simp_all add: demo_con_host_def pulse_def)
  moreover have "ls = [kSpiConsole]" using ls(3,4) by (cases ls) auto
  ultimately show ?thesis using fr ls(2) by simp
qed

end
